(* ===== verification/Prelude.thy ===== *)
theory Prelude
  imports Main "HOL-Library.Word"
begin

section \<open>Shared types, results and generic lemmas\<close>

text \<open>
  What every component of the model shares: bytes as 8-bit words, the error classes the
  source throws, results as a sum of an error and a value with their sequencing, big-endian
  conversion between integers and bytes, and the generic list and arithmetic lemmas the
  components use.  The collection \<open>result_simps\<close> opens the sequencing operators.
\<close>

unbundle bit_operations_syntax

named_theorems result_simps \<open>case distinctions of the result sequencing operators\<close>

subsection \<open>Bytes, errors and results\<close>

type_synonym byte = "8 word"
type_synonym bytes = "byte list"

text \<open>
  One constructor per error class the source throws, with the message, check or status it
  is thrown with. \<open>PlainError\<close> is an \<open>Error\<close> no caller catches by class, \<open>SqliteError\<close>
  is a constraint the database refuses a row by.
\<close>

datatype error =
    EncodingError string
  | RangeError string
  | TypeError string
  | ReplayRefusal string
  | EvidenceRefusal string
  | LimitError string
  | KeptStateMismatch string
  | SqliteError string
  | PlainError string

type_synonym 'a result = "error + 'a"

definition bindR :: "'a result \<Rightarrow> ('a \<Rightarrow> 'b result) \<Rightarrow> 'b result" where
  "bindR r f = (case r of Inl e \<Rightarrow> Inl e | Inr x \<Rightarrow> f x)"

definition requireR :: "bool \<Rightarrow> error \<Rightarrow> unit result" where
  "requireR c e = (if c then Inr () else Inl e)"

definition mapR :: "('a \<Rightarrow> 'b) \<Rightarrow> 'a result \<Rightarrow> 'b result" where
  "mapR f r = (case r of Inl e \<Rightarrow> Inl e | Inr x \<Rightarrow> Inr (f x))"

definition isOk :: "'a result \<Rightarrow> bool" where
  "isOk r = (case r of Inl _ \<Rightarrow> False | Inr _ \<Rightarrow> True)"

text \<open>The elements of a list in order, stopping at the first error.\<close>

fun traverseR :: "('a \<Rightarrow> 'b result) \<Rightarrow> 'a list \<Rightarrow> 'b list result" where
  "traverseR f [] = Inr []"
| "traverseR f (x # xs) = bindR (f x) (\<lambda>y. bindR (traverseR f xs) (\<lambda>ys. Inr (y # ys)))"

fun foldR :: "('s \<Rightarrow> 'a \<Rightarrow> 's result) \<Rightarrow> 's \<Rightarrow> 'a list \<Rightarrow> 's result" where
  "foldR f s [] = Inr s"
| "foldR f s (x # xs) = bindR (f s x) (\<lambda>s'. foldR f s' xs)"

lemma bindR_simps [simp, result_simps]:
  "bindR (Inl e) f = Inl e"
  "bindR (Inr x) f = f x"
  by (simp_all add: bindR_def)

lemma bindR_assoc [simp]: "bindR (bindR r f) g = bindR r (\<lambda>x. bindR (f x) g)"
  by (cases r) simp_all

lemma bindR_Inr_conv [result_simps]: "bindR r f = Inr y \<longleftrightarrow> (\<exists>x. r = Inr x \<and> f x = Inr y)"
  by (cases r) simp_all

lemma bindR_Inl_conv: "bindR r f = Inl e \<longleftrightarrow> r = Inl e \<or> (\<exists>x. r = Inr x \<and> f x = Inl e)"
  by (cases r) auto

lemma Inr_bindR_conv [result_simps]: "Inr y = bindR r f \<longleftrightarrow> (\<exists>x. r = Inr x \<and> f x = Inr y)"
  by (cases r) auto

lemma requireR_simps [simp, result_simps]:
  "requireR True e = Inr ()"
  "requireR False e = Inl e"
  by (simp_all add: requireR_def)

lemma requireR_Inr [simp, result_simps]: "requireR c e = Inr u \<longleftrightarrow> c"
  by (simp add: requireR_def)

lemma requireR_Inl [simp]: "requireR c e = Inl e' \<longleftrightarrow> \<not> c \<and> e' = e"
  by (auto simp: requireR_def)

lemma mapR_Inr_conv [result_simps]: "mapR f r = Inr y \<longleftrightarrow> (\<exists>x. r = Inr x \<and> y = f x)"
  by (cases r) (auto simp: mapR_def)

lemma mapR_simps [simp]: "mapR f (Inl e) = Inl e" "mapR f (Inr x) = Inr (f x)"
  by (simp_all add: mapR_def)

lemma isOk_simps [simp]: "isOk (Inr x)" "\<not> isOk (Inl e)"
  by (simp_all add: isOk_def)

lemma isOk_conv: "isOk r \<longleftrightarrow> (\<exists>x. r = Inr x)"
  by (cases r) simp_all

lemma traverseR_Inr_conv:
  "traverseR f xs = Inr ys \<longleftrightarrow> list_all2 (\<lambda>x y. f x = Inr y) xs ys"
proof (induction xs arbitrary: ys)
  case (Cons x xs)
  show ?case unfolding traverseR.simps bindR_Inr_conv Cons.IH list_all2_Cons1 by blast
qed auto

lemma traverseR_length: "traverseR f xs = Inr ys \<Longrightarrow> length ys = length xs"
  by (auto simp: traverseR_Inr_conv dest: list_all2_lengthD)

lemma foldR_append: "foldR f s (xs @ ys) = bindR (foldR f s xs) (\<lambda>t. foldR f t ys)"
  by (induction xs arbitrary: s) simp_all

lemma foldR_cong: "(\<And>s x. x \<in> set xs \<Longrightarrow> f s x = g s x) \<Longrightarrow> foldR f s xs = foldR g s xs"
  by (induction xs arbitrary: s) (simp_all add: bindR_def split: sum.splits)

text \<open>An invariant of the step is an invariant of the fold.\<close>

lemma foldR_invariant:
  assumes "foldR f s xs = Inr t" and "P s"
    and "\<And>s x s'. \<lbrakk> P s; x \<in> set xs; f s x = Inr s' \<rbrakk> \<Longrightarrow> P s'"
  shows "P t"
  using assms
proof (induction xs arbitrary: s)
  case (Cons x xs)
  from Cons.prems(1) obtain s' where s': "f s x = Inr s'" and rest: "foldR f s' xs = Inr t"
    by (auto simp: bindR_Inr_conv)
  have "P s'" by (rule Cons.prems(3) [OF Cons.prems(2) _ s']) simp
  then show ?case by (rule Cons.IH [OF rest]) (auto intro: Cons.prems(3))
qed simp

subsection \<open>Big-endian bytes\<close>

text \<open>\<open>be_bytes k n\<close> is \<open>n\<close> in \<open>k\<close> big-endian bytes, \<open>be_int\<close> reads bytes back.\<close>

fun be_bytes :: "nat \<Rightarrow> int \<Rightarrow> bytes" where
  "be_bytes 0 n = []"
| "be_bytes (Suc k) n = be_bytes k (n div 256) @ [word_of_int n]"

definition be_int :: "bytes \<Rightarrow> int" where
  "be_int bs = foldl (\<lambda>n b. n * 256 + uint b) 0 bs"

lemma length_be_bytes [simp]: "length (be_bytes k n) = k"
  by (induction k arbitrary: n) simp_all

lemma be_int_Nil [simp]: "be_int [] = 0"
  by (simp add: be_int_def)

lemma be_int_snoc [simp]: "be_int (bs @ [b]) = be_int bs * 256 + uint b"
  by (simp add: be_int_def)

lemma be_int_nonneg [simp]: "0 \<le> be_int bs"
  by (induction bs rule: rev_induct) simp_all

lemma word_of_int_snoc: "word_of_int (n * 256 + uint b) = (b :: byte)"
proof -
  have "(word_of_int (n * 256) :: byte) = word_of_int n * word_of_int 256"
    by (rule wi_hom_mult [symmetric])
  also have "(word_of_int 256 :: byte) = 0" by (simp add: word_of_int_eq_0_iff)
  finally have "word_of_int (n * 256) = (0 :: byte)" by simp
  then show ?thesis by (metis add_0 wi_hom_add word_of_int_uint)
qed

lemma byte_range: "0 \<le> uint (b :: byte)" "uint (b :: byte) < 256"
  using uint_bounded [of b] by simp_all

lemma be_int_bound: "be_int bs < 256 ^ length bs"
proof (induction bs rule: rev_induct)
  case (snoc b bs)
  have "be_int bs + 1 \<le> 256 ^ length bs" using snoc.IH by linarith
  then have "(be_int bs + 1) * 256 \<le> 256 ^ length bs * 256" by simp
  then show ?case using byte_range(2) [of b] by simp
qed simp

lemma be_bytes_be_int [simp]: "be_bytes (length bs) (be_int bs) = bs"
proof (induction bs rule: rev_induct)
  case (snoc b bs)
  have d: "(be_int bs * 256 + uint b) div 256 = be_int bs"
    using byte_range [of b] by (simp add: div_mult_self3)
  have w: "word_of_int (be_int bs * 256 + uint b) = b"
    by (rule word_of_int_snoc)
  show ?case by (simp only: length_append_singleton be_bytes.simps be_int_snoc d w snoc.IH)
qed simp

lemma be_int_be_bytes: "0 \<le> n \<Longrightarrow> be_int (be_bytes k n) = n mod 256 ^ k"
proof (induction k arbitrary: n)
  case (Suc k)
  have u: "uint (word_of_int n :: byte) = n mod 256" by (simp add: uint_word_of_int)
  have "be_int (be_bytes (Suc k) n) = (n div 256) mod 256 ^ k * 256 + n mod 256"
    using Suc by (simp add: u pos_imp_zdiv_nonneg_iff)
  also have "\<dots> = n mod (256 * 256 ^ k)"
    using Suc.prems by (simp add: zmod_zmult2_eq)
  finally show ?case by simp
qed simp

lemma be_int_be_bytes_id [simp]: "0 \<le> n \<Longrightarrow> n < 256 ^ k \<Longrightarrow> be_int (be_bytes k n) = n"
  by (simp add: be_int_be_bytes)

lemma be_bytes_inj:
  "\<lbrakk> be_bytes k m = be_bytes k n; 0 \<le> m; m < 256 ^ k; 0 \<le> n; n < 256 ^ k \<rbrakk> \<Longrightarrow> m = n"
  by (metis be_int_be_bytes_id)

lemma be_int_inj: "length xs = length ys \<Longrightarrow> be_int xs = be_int ys \<longleftrightarrow> xs = ys"
  by (metis be_bytes_be_int)

lemma be_int_append: "be_int (xs @ ys) = be_int xs * 256 ^ length ys + be_int ys"
proof (induction ys rule: rev_induct)
  case (snoc y ys)
  have "be_int (xs @ ys @ [y]) = be_int (xs @ ys) * 256 + uint y"
    by (metis append_assoc be_int_snoc)
  then show ?case using snoc.IH by (simp add: algebra_simps)
qed simp

lemma be_bytes_append:
  "be_bytes (j + k) n = be_bytes j (n div 256 ^ k) @ be_bytes k n"
proof (induction k arbitrary: n)
  case (Suc k)
  have "be_bytes (j + Suc k) n = be_bytes (j + k) (n div 256) @ [word_of_int n]" by simp
  also have "\<dots> = be_bytes j (n div 256 div 256 ^ k) @ be_bytes k (n div 256) @ [word_of_int n]"
    by (simp add: Suc)
  also have "n div 256 div 256 ^ k = n div 256 ^ Suc k"
    by (simp add: zdiv_zmult2_eq)
  finally show ?case by simp
qed simp

subsection \<open>Bit operations on unbounded integers\<close>

lemma and_0xff: "(n :: int) AND 0xff = n mod 256"
proof -
  have "n AND mask 8 = take_bit 8 n" by (simp add: take_bit_eq_mask)
  then show ?thesis by (simp add: mask_eq_exp_minus_1 take_bit_eq_mod)
qed

lemma word_of_int_mod_256 [simp]: "word_of_int (n mod 256) = (word_of_int n :: byte)"
  using wi_bintr [where 'a = 8, of 8 n] by (simp add: take_bit_eq_mod)

lemma push_bit_8_or_byte: "push_bit 8 n OR uint (b :: byte) = n * 256 + uint b"
proof -
  have "push_bit 8 n AND uint b = 0"
    by (rule bit_eqI) (auto simp: bit_simps dest: bit_imp_le_length)
  then have "push_bit 8 n OR uint b = push_bit 8 n + uint b"
    by (simp add: disjunctive_add_eq_or)
  then show ?thesis by (simp add: push_bit_eq_mult)
qed

lemma int_div_less:
  fixes n d q :: int
  assumes "n < q * d" and "0 < d"
  shows "n div d < q"
proof (rule ccontr)
  assume "\<not> n div d < q"
  then have "q * d \<le> n div d * d" using assms(2) by simp
  also have "\<dots> \<le> n" using div_mult_mod_eq [of n d] pos_mod_sign [OF assms(2), of n] by linarith
  finally show False using assms(1) by simp
qed

subsection \<open>Lists\<close>

lemma take_drop_split: "drop i xs = ys @ zs \<Longrightarrow> i \<le> length xs \<Longrightarrow>
    take (length ys) (drop i xs) = ys \<and> drop (i + length ys) xs = zs"
  by (metis append_eq_conv_conj drop_drop add.commute)

lemma append_eq_length_conv:
  "length xs = length us \<Longrightarrow> xs @ ys = us @ vs \<longleftrightarrow> xs = us \<and> ys = vs"
  by simp

end
