(* ===== verification/Schedule.thy ===== *)
theory Schedule
  imports Prelude
begin

section \<open>The clock of one scope (src/pool/schedule.ts)\<close>

text \<open>
  When the operator of a scope may sign its next commitment, when admission is open, when it
  should commit now and when the scope has lapsed, from the witnessed index, the lag, the
  known ends of the scope's terms and the indices of an unwitnessed signature and a restart.
\<close>

record scope_clock =
  clk_now :: int
  clk_lag :: int
  clk_boundaries :: "int list"
  clk_unwitnessedSignedAt :: "int option"
  clk_resumedAt :: "int option"

record scope_schedule =
  nextSigningIndex :: int
  boundary :: "int option"
  lastSigningIndex :: "int option"
  admissionOpen :: bool
  commitNow :: bool
  lapsed :: bool

definition clock_index :: "int \<Rightarrow> unit result" where
  "clock_index v = requireR (\<not> v < 0) (EncodingError ''scope clocks must be nonnegative bigints'')"

definition least_boundary :: "int option \<Rightarrow> int \<Rightarrow> int option result" where
  "least_boundary bd e = bindR (clock_index e) (\<lambda>_.
     Inr (case bd of None \<Rightarrow> Some e | Some b \<Rightarrow> if e < b then Some e else bd))"

definition signing_after :: "scope_clock \<Rightarrow> int \<Rightarrow> int option \<Rightarrow> int result" where
  "signing_after clock next at = (case at of None \<Rightarrow> Inr next
     | Some i \<Rightarrow> bindR (clock_index i) (\<lambda>_.
         if i > clk_now clock then Inl (EncodingError ''a signing or restart index is in the future'')
         else Inr (if i + clk_lag clock > next then i + clk_lag clock else next)))"

definition scopeSchedule :: "scope_clock \<Rightarrow> scope_schedule result" where
  "scopeSchedule clock =
     bindR (clock_index (clk_now clock)) (\<lambda>_.
     bindR (clock_index (clk_lag clock)) (\<lambda>_.
     bindR (foldR least_boundary None (clk_boundaries clock)) (\<lambda>bd.
     bindR (foldR (signing_after clock) (clk_now clock) [clk_unwitnessedSignedAt clock, clk_resumedAt clock]) (\<lambda>next.
     let lastIdx = (case bd of None \<Rightarrow> None | Some b \<Rightarrow> Some (b - clk_lag clock - 1));
         open = (case lastIdx of None \<Rightarrow> True | Some l \<Rightarrow> next \<le> l);
         recovered = (case clk_resumedAt clock of None \<Rightarrow> True | Some r \<Rightarrow> clk_now clock \<ge> r + clk_lag clock);
         reserveLast = (case lastIdx of None \<Rightarrow> False
           | Some l \<Rightarrow> clk_now clock < l \<and> clk_now clock + clk_lag clock > l)
     in Inr \<lparr>nextSigningIndex = next, boundary = bd, lastSigningIndex = lastIdx,
          admissionOpen = (open \<and> recovered),
          commitNow = (next = clk_now clock \<and> open \<and> \<not> reserveLast),
          lapsed = (case bd of None \<Rightarrow> False | Some b \<Rightarrow> clk_now clock \<ge> b)\<rparr>))))"

subsection \<open>What a schedule says\<close>

text \<open>The clock's preconditions, and the two folds in closed form.\<close>

definition clock_ok :: "scope_clock \<Rightarrow> bool" where
  "clock_ok c \<longleftrightarrow> 0 \<le> clk_now c \<and> 0 \<le> clk_lag c \<and> (\<forall>b \<in> set (clk_boundaries c). 0 \<le> b) \<and>
     (\<forall>i \<in> set_option (clk_unwitnessedSignedAt c) \<union> set_option (clk_resumedAt c). 0 \<le> i \<and> i \<le> clk_now c)"

lemma least_boundary_fold:
  "foldR least_boundary bd bs = Inr r \<longleftrightarrow> (\<forall>b \<in> set bs. 0 \<le> b) \<and>
     r = (case bd of None \<Rightarrow> (if bs = [] then None else Some (Min (set bs))) | Some b \<Rightarrow> Some (Min (insert b (set bs))))"
proof (induction bs arbitrary: bd)
  case (Cons e bs)
  have "foldR least_boundary bd (e # bs) = Inr r \<longleftrightarrow> 0 \<le> e \<and>
      foldR least_boundary (Some (case bd of None \<Rightarrow> e | Some b \<Rightarrow> min b e)) bs = Inr r"
    by (cases bd) (auto simp: least_boundary_def clock_index_def requireR_def min_def)
  moreover have "Min (insert (min b e) (set bs)) = Min (insert b (insert e (set bs)))" for b
    by (cases "set bs = {}") (simp_all add: min.assoc)
  ultimately show ?case unfolding Cons.IH by (cases bd) auto
next
  case Nil
  show ?case by (cases bd) auto
qed

definition next_index :: "scope_clock \<Rightarrow> int" where
  "next_index c = Max (insert (clk_now c)
     ((\<lambda>i. i + clk_lag c) ` (set_option (clk_unwitnessedSignedAt c) \<union> set_option (clk_resumedAt c))))"

lemma signing_after_conv: "signing_after c n at = Inr r \<longleftrightarrow>
    (\<forall>i \<in> set_option at. 0 \<le> i \<and> i \<le> clk_now c) \<and> r = (case at of None \<Rightarrow> n | Some i \<Rightarrow> max n (i + clk_lag c))"
  by (cases at) (auto simp: signing_after_def clock_index_def requireR_def)

lemma signing_after_fold: "foldR (signing_after c) (clk_now c) [a, b] = Inr r \<longleftrightarrow>
    (\<forall>i \<in> set_option a \<union> set_option b. 0 \<le> i \<and> i \<le> clk_now c) \<and>
    r = Max (insert (clk_now c) ((\<lambda>i. i + clk_lag c) ` (set_option a \<union> set_option b)))"
  by (cases a; cases b) (auto simp: bindR_Inr_conv signing_after_conv max.commute max.left_commute)

lemma scopeSchedule_conv:
  "scopeSchedule c = Inr s \<longleftrightarrow> clock_ok c \<and>
     nextSigningIndex s = next_index c \<and>
     boundary s = (if clk_boundaries c = [] then None else Some (Min (set (clk_boundaries c)))) \<and>
     lastSigningIndex s = map_option (\<lambda>b. b - clk_lag c - 1) (boundary s) \<and>
     admissionOpen s = ((\<forall>l \<in> set_option (lastSigningIndex s). next_index c \<le> l) \<and>
       (\<forall>r \<in> set_option (clk_resumedAt c). r + clk_lag c \<le> clk_now c)) \<and>
     commitNow s = (next_index c = clk_now c \<and> (\<forall>l \<in> set_option (lastSigningIndex s). next_index c \<le> l) \<and>
       \<not> (\<exists>l \<in> set_option (lastSigningIndex s). clk_now c < l \<and> l < clk_now c + clk_lag c)) \<and>
     lapsed s = (\<exists>b \<in> set_option (boundary s). b \<le> clk_now c)"
proof -
  have "scopeSchedule c = Inr s \<longleftrightarrow> clock_ok c \<and>
     s = (let bd = (if clk_boundaries c = [] then None else Some (Min (set (clk_boundaries c))));
       lastIdx = map_option (\<lambda>b. b - clk_lag c - 1) bd in
       \<lparr>nextSigningIndex = next_index c, boundary = bd, lastSigningIndex = lastIdx,
        admissionOpen = ((\<forall>l \<in> set_option lastIdx. next_index c \<le> l) \<and>
          (\<forall>r \<in> set_option (clk_resumedAt c). r + clk_lag c \<le> clk_now c)),
        commitNow = (next_index c = clk_now c \<and> (\<forall>l \<in> set_option lastIdx. next_index c \<le> l) \<and>
          \<not> (\<exists>l \<in> set_option lastIdx. clk_now c < l \<and> l < clk_now c + clk_lag c)),
        lapsed = (\<exists>b \<in> set_option bd. b \<le> clk_now c)\<rparr>)"
    unfolding scopeSchedule_def bindR_Inr_conv least_boundary_fold signing_after_fold
    by (cases "clk_resumedAt c") (auto simp: clock_ok_def clock_index_def Let_def next_index_def)
  then show ?thesis by (cases s) (auto simp: Let_def)
qed

lemma schedule_boundary:
  assumes "scopeSchedule c = Inr s"
  shows "boundary s = Some b \<longleftrightarrow> clk_boundaries c \<noteq> [] \<and> b = Min (set (clk_boundaries c))"
    and "lastSigningIndex s = Some l \<longleftrightarrow> clk_boundaries c \<noteq> [] \<and> l = Min (set (clk_boundaries c)) - clk_lag c - 1"
    and "nextSigningIndex s = next_index c"
  using assms by (auto simp: scopeSchedule_conv)

lemma schedule_flags:
  assumes "scopeSchedule c = Inr s"
  shows "admissionOpen s \<longleftrightarrow> (\<forall>l. lastSigningIndex s = Some l \<longrightarrow> next_index c \<le> l) \<and>
      (\<forall>r. clk_resumedAt c = Some r \<longrightarrow> r + clk_lag c \<le> clk_now c)"
    and "commitNow s \<longleftrightarrow> next_index c = clk_now c \<and> (\<forall>l. lastSigningIndex s = Some l \<longrightarrow> next_index c \<le> l \<and>
      \<not> (clk_now c < l \<and> l < clk_now c + clk_lag c))"
    and "lapsed s \<longleftrightarrow> (\<exists>b. boundary s = Some b \<and> b \<le> clk_now c)"
  using assms unfolding scopeSchedule_conv by (cases "lastSigningIndex s"; cases "boundary s"; auto)+

lemma next_index_ge:
  "clk_now c \<le> next_index c"
  "clk_unwitnessedSignedAt c = Some i \<or> clk_resumedAt c = Some i \<Longrightarrow> i + clk_lag c \<le> next_index c"
  unfolding next_index_def by (intro Max_ge; auto)+

text \<open>C39: an open admission still fits before the boundary. The next index to sign at is never in
  the past and leaves the lag after the unwitnessed signature and after the restart; while admission
  is open the scope has not lapsed, the recovery wait is over and a commitment signed at the next
  index is witnessed, a lag later, strictly before every known boundary.\<close>

theorem schedule_admission_fits:
  assumes "scopeSchedule c = Inr s"
  shows "clk_now c \<le> nextSigningIndex s \<and>
    (\<forall>i. (clk_unwitnessedSignedAt c = Some i \<or> clk_resumedAt c = Some i) \<longrightarrow> i + clk_lag c \<le> nextSigningIndex s) \<and>
    (admissionOpen s \<longrightarrow> \<not> lapsed s \<and> (\<forall>b \<in> set (clk_boundaries c). nextSigningIndex s + clk_lag c < b) \<and>
      (\<forall>r. clk_resumedAt c = Some r \<longrightarrow> r + clk_lag c \<le> clk_now c))"
proof -
  note B = schedule_boundary [OF assms] and F = schedule_flags [OF assms]
  have lag: "0 \<le> clk_lag c" using assms by (simp add: scopeSchedule_conv clock_ok_def)
  have fits: "next_index c + clk_lag c < Min (set (clk_boundaries c))"
    if "admissionOpen s" "clk_boundaries c \<noteq> []"
  proof -
    have "lastSigningIndex s = Some (Min (set (clk_boundaries c)) - clk_lag c - 1)" using that(2) B(2) by blast
    then have "next_index c \<le> Min (set (clk_boundaries c)) - clk_lag c - 1" using that(1) F(1) by blast
    then show ?thesis by linarith
  qed
  have "next_index c + clk_lag c < b" if "admissionOpen s" "b \<in> set (clk_boundaries c)" for b
  proof -
    have "Min (set (clk_boundaries c)) \<le> b" using that(2) by simp
    moreover have "clk_boundaries c \<noteq> []" using that(2) by auto
    ultimately show ?thesis using fits that(1) by linarith
  qed
  moreover have "\<not> lapsed s" if "admissionOpen s"
  proof
    assume "lapsed s"
    then obtain b where "boundary s = Some b" and "b \<le> clk_now c" using F(3) by blast
    then have "clk_boundaries c \<noteq> []" and "Min (set (clk_boundaries c)) \<le> clk_now c"
      unfolding B(1) by blast+
    then show False using fits [OF that] lag next_index_ge(1) [of c] by linarith
  qed
  ultimately show ?thesis using next_index_ge [of c] F(1) by (simp add: B(3))
qed

definition example_clock :: scope_clock where
  "example_clock = \<lparr>clk_now = 10, clk_lag = 5, clk_boundaries = [90, 40],
     clk_unwitnessedSignedAt = Some 7, clk_resumedAt = Some 3\<rparr>"

lemma schedule_admission_fits_witness:
  "\<exists>s. scopeSchedule example_clock = Inr s \<and> admissionOpen s \<and> \<not> lapsed s"
proof -
  obtain s where s: "scopeSchedule example_clock = Inr s" "admissionOpen s"
    by (simp add: example_clock_def scopeSchedule_def least_boundary_def signing_after_def clock_index_def Let_def)
  then show ?thesis using schedule_admission_fits [OF s(1)] by blast
qed

text \<open>C40: committing now keeps the last commitment. Where the schedule says to commit now, now is
  not after the last safe index, and either now is that index or, with the commitment signed now
  still unwitnessed, the schedule at the last index again says to commit.\<close>

theorem schedule_keeps_last:
  assumes "scopeSchedule c = Inr s" and "commitNow s" and "lastSigningIndex s = Some l"
  shows "clk_now c \<le> l \<and> (clk_now c = l \<or>
    (\<exists>s'. scopeSchedule (c\<lparr>clk_now := l, clk_unwitnessedSignedAt := Some (clk_now c)\<rparr>) = Inr s' \<and>
      nextSigningIndex s' = l \<and> commitNow s'))"
proof -
  have now: "next_index c = clk_now c" "clk_now c \<le> l" and res: "clk_now c < l \<Longrightarrow> clk_now c + clk_lag c \<le> l"
    using assms(2,3) schedule_flags(2) [OF assms(1)] by auto
  have ok: "clock_ok c" using assms(1) by (simp add: scopeSchedule_conv)
  have r: "r + clk_lag c \<le> clk_now c" if "clk_resumedAt c = Some r" for r
    using next_index_ge(2) [of c r] that now by simp
  let ?c = "c\<lparr>clk_now := l, clk_unwitnessedSignedAt := Some (clk_now c)\<rparr>"
  show ?thesis
  proof (cases "clk_now c = l")
    case False
    then have l: "clk_now c < l" "clk_now c + clk_lag c \<le> l" using now res by auto
    have "r + clk_lag c \<le> l" if "clk_resumedAt c = Some r" for r using r [OF that] l by linarith
    then have nx: "next_index ?c = l" unfolding next_index_def
      by (intro Max_eqI) (use l in \<open>cases "clk_resumedAt c"; auto\<close>)+
    have ok': "clock_ok ?c" using ok l by (auto simp: clock_ok_def)
    have "\<exists>s'. scopeSchedule ?c = Inr s'" unfolding scopeSchedule_conv
      using ok' by (intro exI [of _ "\<lparr>nextSigningIndex = next_index ?c, boundary = _, lastSigningIndex = _,
        admissionOpen = _, commitNow = _, lapsed = _\<rparr>"]) simp
    then obtain s' where s': "scopeSchedule ?c = Inr s'" by blast
    moreover have "lastSigningIndex s' = Some k \<longleftrightarrow> lastSigningIndex s = Some k" for k
      using schedule_boundary(2) [OF s'] schedule_boundary(2) [OF assms(1)] by simp
    then have "commitNow s'" using schedule_flags(2) [OF s'] assms(3) nx by simp
    ultimately show ?thesis using nx schedule_boundary(3) [OF s'] now by auto
  qed (use now in simp)
qed

lemma schedule_keeps_last_witness:
  "\<exists>s'. scopeSchedule (example_clock\<lparr>clk_now := 34, clk_unwitnessedSignedAt := Some 12\<rparr>) = Inr s' \<and>
     nextSigningIndex s' = 34 \<and> commitNow s'"
proof -
  obtain s where "scopeSchedule (example_clock\<lparr>clk_now := 12\<rparr>) = Inr s" "commitNow s" "lastSigningIndex s = Some 34"
    by (simp add: example_clock_def scopeSchedule_def least_boundary_def signing_after_def clock_index_def Let_def)
  from schedule_keeps_last [OF this] show ?thesis by (simp add: example_clock_def)
qed

end
