(* ===== verification/Contexts.thy ===== *)
theory Contexts
  imports Prelude "HOL-Library.Sublist"
begin

section \<open>Domain-separation tags (src/contexts.ts)\<close>

text \<open>
  Every tag a signed or hashed message opens with, in the order of the source, and the
  check the module runs at load: no tag is a prefix of another.  A tag is written unframed
  as a message's first field, so this is what keeps one message type from being read as
  another; \<open>contexts_separate\<close> is that consequence.
\<close>

text \<open>\<open>TextEncoder.encode\<close> on the ASCII text of a tag: one byte per character.\<close>

definition tag :: "string \<Rightarrow> bytes" where
  "tag s = map (\<lambda>c. word_of_nat (of_char c)) s"

definition BACKING_SIGNATURE_CONTEXT :: bytes where
  "BACKING_SIGNATURE_CONTEXT = tag ''moe/backing-signature/v1''"

definition ISSUANCE_CONTEXT :: bytes where
  "ISSUANCE_CONTEXT = tag ''moe/issuance/v1''"

definition TRANSFER_CONTEXT :: bytes where
  "TRANSFER_CONTEXT = tag ''moe/transfer/v1''"

definition BURN_CONTEXT :: bytes where
  "BURN_CONTEXT = tag ''moe/burn/v1''"

definition RECEIPT_CONTEXT :: bytes where
  "RECEIPT_CONTEXT = tag ''moe/receipt/v3''"

definition COMMITMENT_CONTEXT :: bytes where
  "COMMITMENT_CONTEXT = tag ''moe/commitment/v2''"

definition DEMAND_CONTEXT :: bytes where
  "DEMAND_CONTEXT = tag ''moe/demand/v1''"

definition ACCEPTANCE_CONTEXT :: bytes where
  "ACCEPTANCE_CONTEXT = tag ''moe/acceptance/v1''"

definition RELEASE_CONTEXT :: bytes where
  "RELEASE_CONTEXT = tag ''moe/release/v2''"

definition WITHDRAWAL_CONTEXT :: bytes where
  "WITHDRAWAL_CONTEXT = tag ''moe/withdrawal/v2''"

definition LOCK_CONTEXT :: bytes where
  "LOCK_CONTEXT = tag ''moe/lock/v2''"

definition ATTEMPT_CONTEXT :: bytes where
  "ATTEMPT_CONTEXT = tag ''moe/attempt/v1''"

definition COMMIT_CONTEXT :: bytes where
  "COMMIT_CONTEXT = tag ''moe/commit/v1''"

definition REPLACEMENT_CONTEXT :: bytes where
  "REPLACEMENT_CONTEXT = tag ''moe/replacement/v1''"

definition REVOCATION_CONTEXT :: bytes where
  "REVOCATION_CONTEXT = tag ''moe/revocation/v1''"

definition V3_CONFIG_CONTEXT :: bytes where
  "V3_CONFIG_CONTEXT = tag ''moe/pool/v3/config''"

definition V3_STATEMENT_CONTEXT :: bytes where
  "V3_STATEMENT_CONTEXT = tag ''moe/pool/v3/statement''"

definition V3_DELIVERY_CONTEXT :: bytes where
  "V3_DELIVERY_CONTEXT = tag ''moe/pool/v3/delivery''"

definition V3_ACCEPTANCE_CONTEXT :: bytes where
  "V3_ACCEPTANCE_CONTEXT = tag ''moe/pool/v3/acceptance''"

definition V3_RELEASE_CONTEXT :: bytes where
  "V3_RELEASE_CONTEXT = tag ''moe/pool/v3/release''"

definition V3_WITHDRAWAL_CONTEXT :: bytes where
  "V3_WITHDRAWAL_CONTEXT = tag ''moe/pool/v3/withdrawal''"

definition V3_PUBLICATION_CONTEXT :: bytes where
  "V3_PUBLICATION_CONTEXT = tag ''moe/pool/v3/publication''"

definition V3_GENESIS_CONTEXT :: bytes where
  "V3_GENESIS_CONTEXT = tag ''moe/pool/v3/genesis''"

definition V3_HISTORY_CONTEXT :: bytes where
  "V3_HISTORY_CONTEXT = tag ''moe/pool/v3/history''"

definition V3_EVIDENCE_SEED_CONTEXT :: bytes where
  "V3_EVIDENCE_SEED_CONTEXT = tag ''moe/pool/v3/evidence-seed''"

definition V3_EVIDENCE_LINK_CONTEXT :: bytes where
  "V3_EVIDENCE_LINK_CONTEXT = tag ''moe/pool/v3/evidence-link''"

definition V3_SNAPSHOT_CONTEXT :: bytes where
  "V3_SNAPSHOT_CONTEXT = tag ''moe/pool/v3/snapshot''"

definition V3_RECEIPT_CONTEXT :: bytes where
  "V3_RECEIPT_CONTEXT = tag ''moe/pool/v3/receipt''"

definition V3_SEGMENT_CONTEXT :: bytes where
  "V3_SEGMENT_CONTEXT = tag ''moe/pool/v3/segment''"

definition V3_FAULT_EVIDENCE_CONTEXT :: bytes where
  "V3_FAULT_EVIDENCE_CONTEXT = tag ''moe/pool/v3/fault-evidence''"

definition V3_TRAIL_CONTEXT :: bytes where
  "V3_TRAIL_CONTEXT = tag ''moe/pool/v3/trail''"

definition V3_PACKAGE_CONTEXT :: bytes where
  "V3_PACKAGE_CONTEXT = tag ''moe/pool/v3/package''"

definition V3_RANGE_CONTEXT :: bytes where
  "V3_RANGE_CONTEXT = tag ''moe/pool/v3/range''"

definition V3_SPENT_EMPTY_CONTEXT :: bytes where
  "V3_SPENT_EMPTY_CONTEXT = tag ''moe/pool/v3/spent/empty''"

definition V3_SPENT_LEAF_CONTEXT :: bytes where
  "V3_SPENT_LEAF_CONTEXT = tag ''moe/pool/v3/spent/leaf''"

definition V3_SPENT_NODE_CONTEXT :: bytes where
  "V3_SPENT_NODE_CONTEXT = tag ''moe/pool/v3/spent/node''"

definition LIT_CONFIG_CONTEXT :: bytes where
  "LIT_CONFIG_CONTEXT = tag ''moe/lit/v1/config''"

definition LIT_NOTE_CONTEXT :: bytes where
  "LIT_NOTE_CONTEXT = tag ''moe/lit/v1/note''"

definition LIT_NULLIFIER_CONTEXT :: bytes where
  "LIT_NULLIFIER_CONTEXT = tag ''moe/lit/v1/nullifier''"

definition LIT_TAG_CONTEXT :: bytes where
  "LIT_TAG_CONTEXT = tag ''moe/lit/v1/tag''"

definition LIT_RHO_ISSUE_CONTEXT :: bytes where
  "LIT_RHO_ISSUE_CONTEXT = tag ''moe/lit/v1/rho/issue''"

definition LIT_RHO_SPEND_CONTEXT :: bytes where
  "LIT_RHO_SPEND_CONTEXT = tag ''moe/lit/v1/rho/spend''"

definition LIT_STATEMENT_CONTEXT :: bytes where
  "LIT_STATEMENT_CONTEXT = tag ''moe/lit/v1/statement''"

definition LIT_ACCEPTANCE_CONTEXT :: bytes where
  "LIT_ACCEPTANCE_CONTEXT = tag ''moe/lit/v1/acceptance''"

definition LIT_RELEASE_CONTEXT :: bytes where
  "LIT_RELEASE_CONTEXT = tag ''moe/lit/v1/release''"

definition LIT_PUBLICATION_CONTEXT :: bytes where
  "LIT_PUBLICATION_CONTEXT = tag ''moe/lit/v1/publication''"

definition LIT_GENESIS_CONTEXT :: bytes where
  "LIT_GENESIS_CONTEXT = tag ''moe/lit/v1/genesis''"

definition LIT_HISTORY_CONTEXT :: bytes where
  "LIT_HISTORY_CONTEXT = tag ''moe/lit/v1/history''"

definition LIT_EVIDENCE_SEED_CONTEXT :: bytes where
  "LIT_EVIDENCE_SEED_CONTEXT = tag ''moe/lit/v1/evidence-seed''"

definition LIT_EVIDENCE_LINK_CONTEXT :: bytes where
  "LIT_EVIDENCE_LINK_CONTEXT = tag ''moe/lit/v1/evidence-link''"

definition LIT_SNAPSHOT_CONTEXT :: bytes where
  "LIT_SNAPSHOT_CONTEXT = tag ''moe/lit/v1/snapshot''"

definition LIT_RECEIPT_CONTEXT :: bytes where
  "LIT_RECEIPT_CONTEXT = tag ''moe/lit/v1/receipt''"

definition LIT_SEGMENT_CONTEXT :: bytes where
  "LIT_SEGMENT_CONTEXT = tag ''moe/lit/v1/segment''"

definition LIT_FAULT_EVIDENCE_CONTEXT :: bytes where
  "LIT_FAULT_EVIDENCE_CONTEXT = tag ''moe/lit/v1/fault-evidence''"

definition LIT_TRAIL_CONTEXT :: bytes where
  "LIT_TRAIL_CONTEXT = tag ''moe/lit/v1/trail''"

definition LIT_PACKAGE_CONTEXT :: bytes where
  "LIT_PACKAGE_CONTEXT = tag ''moe/lit/v1/package''"

definition SUCCINCT_TRAIL_CONTEXT :: bytes where
  "SUCCINCT_TRAIL_CONTEXT = tag ''moe/succinct/v1/trail''"

definition TERMS_MAGIC :: bytes where
  "TERMS_MAGIC = tag ''MOEB''"

definition DIRECTORY_MAGIC :: bytes where
  "DIRECTORY_MAGIC = tag ''MOED''"

definition ALL_TAGS :: "string list" where
  "ALL_TAGS =
    [''moe/backing-signature/v1'',
     ''moe/issuance/v1'',
     ''moe/transfer/v1'',
     ''moe/burn/v1'',
     ''moe/receipt/v3'',
     ''moe/commitment/v2'',
     ''moe/demand/v1'',
     ''moe/acceptance/v1'',
     ''moe/release/v2'',
     ''moe/withdrawal/v2'',
     ''moe/lock/v2'',
     ''moe/attempt/v1'',
     ''moe/commit/v1'',
     ''moe/replacement/v1'',
     ''moe/revocation/v1'',
     ''moe/pool/v3/config'',
     ''moe/pool/v3/statement'',
     ''moe/pool/v3/delivery'',
     ''moe/pool/v3/acceptance'',
     ''moe/pool/v3/release'',
     ''moe/pool/v3/withdrawal'',
     ''moe/pool/v3/publication'',
     ''moe/pool/v3/genesis'',
     ''moe/pool/v3/history'',
     ''moe/pool/v3/evidence-seed'',
     ''moe/pool/v3/evidence-link'',
     ''moe/pool/v3/snapshot'',
     ''moe/pool/v3/receipt'',
     ''moe/pool/v3/segment'',
     ''moe/pool/v3/fault-evidence'',
     ''moe/pool/v3/trail'',
     ''moe/pool/v3/package'',
     ''moe/pool/v3/range'',
     ''moe/pool/v3/spent/empty'',
     ''moe/pool/v3/spent/leaf'',
     ''moe/pool/v3/spent/node'',
     ''moe/lit/v1/config'',
     ''moe/lit/v1/note'',
     ''moe/lit/v1/nullifier'',
     ''moe/lit/v1/tag'',
     ''moe/lit/v1/rho/issue'',
     ''moe/lit/v1/rho/spend'',
     ''moe/lit/v1/statement'',
     ''moe/lit/v1/acceptance'',
     ''moe/lit/v1/release'',
     ''moe/lit/v1/publication'',
     ''moe/lit/v1/genesis'',
     ''moe/lit/v1/history'',
     ''moe/lit/v1/evidence-seed'',
     ''moe/lit/v1/evidence-link'',
     ''moe/lit/v1/snapshot'',
     ''moe/lit/v1/receipt'',
     ''moe/lit/v1/segment'',
     ''moe/lit/v1/fault-evidence'',
     ''moe/lit/v1/trail'',
     ''moe/lit/v1/package'',
     ''moe/succinct/v1/trail'',
     ''MOEB'',
     ''MOED'']"

definition ALL_CONTEXTS :: "bytes list" where
  "ALL_CONTEXTS =
    [BACKING_SIGNATURE_CONTEXT,
     ISSUANCE_CONTEXT,
     TRANSFER_CONTEXT,
     BURN_CONTEXT,
     RECEIPT_CONTEXT,
     COMMITMENT_CONTEXT,
     DEMAND_CONTEXT,
     ACCEPTANCE_CONTEXT,
     RELEASE_CONTEXT,
     WITHDRAWAL_CONTEXT,
     LOCK_CONTEXT,
     ATTEMPT_CONTEXT,
     COMMIT_CONTEXT,
     REPLACEMENT_CONTEXT,
     REVOCATION_CONTEXT,
     V3_CONFIG_CONTEXT,
     V3_STATEMENT_CONTEXT,
     V3_DELIVERY_CONTEXT,
     V3_ACCEPTANCE_CONTEXT,
     V3_RELEASE_CONTEXT,
     V3_WITHDRAWAL_CONTEXT,
     V3_PUBLICATION_CONTEXT,
     V3_GENESIS_CONTEXT,
     V3_HISTORY_CONTEXT,
     V3_EVIDENCE_SEED_CONTEXT,
     V3_EVIDENCE_LINK_CONTEXT,
     V3_SNAPSHOT_CONTEXT,
     V3_RECEIPT_CONTEXT,
     V3_SEGMENT_CONTEXT,
     V3_FAULT_EVIDENCE_CONTEXT,
     V3_TRAIL_CONTEXT,
     V3_PACKAGE_CONTEXT,
     V3_RANGE_CONTEXT,
     V3_SPENT_EMPTY_CONTEXT,
     V3_SPENT_LEAF_CONTEXT,
     V3_SPENT_NODE_CONTEXT,
     LIT_CONFIG_CONTEXT,
     LIT_NOTE_CONTEXT,
     LIT_NULLIFIER_CONTEXT,
     LIT_TAG_CONTEXT,
     LIT_RHO_ISSUE_CONTEXT,
     LIT_RHO_SPEND_CONTEXT,
     LIT_STATEMENT_CONTEXT,
     LIT_ACCEPTANCE_CONTEXT,
     LIT_RELEASE_CONTEXT,
     LIT_PUBLICATION_CONTEXT,
     LIT_GENESIS_CONTEXT,
     LIT_HISTORY_CONTEXT,
     LIT_EVIDENCE_SEED_CONTEXT,
     LIT_EVIDENCE_LINK_CONTEXT,
     LIT_SNAPSHOT_CONTEXT,
     LIT_RECEIPT_CONTEXT,
     LIT_SEGMENT_CONTEXT,
     LIT_FAULT_EVIDENCE_CONTEXT,
     LIT_TRAIL_CONTEXT,
     LIT_PACKAGE_CONTEXT,
     SUCCINCT_TRAIL_CONTEXT,
     TERMS_MAGIC,
     DIRECTORY_MAGIC]"

text \<open>The two loops over index pairs: \<open>a\<close> is no longer than \<open>b\<close> and agrees with it throughout.\<close>

definition contextsArePrefixFree :: "bytes list \<Rightarrow> bool" where
  "contextsArePrefixFree tags =
     list_all (\<lambda>i. list_all (\<lambda>j. i = j \<or>
       (let a = tags ! i; b = tags ! j in
         \<not> (length a \<le> length b \<and> list_all (\<lambda>k. a ! k = b ! k) [0..<length a])))
       [0..<length tags]) [0..<length tags]"

lemma contexts_of_tags: "ALL_CONTEXTS = map tag ALL_TAGS"
  unfolding ALL_CONTEXTS_def ALL_TAGS_def
    BACKING_SIGNATURE_CONTEXT_def ISSUANCE_CONTEXT_def TRANSFER_CONTEXT_def
    BURN_CONTEXT_def RECEIPT_CONTEXT_def COMMITMENT_CONTEXT_def
    DEMAND_CONTEXT_def ACCEPTANCE_CONTEXT_def RELEASE_CONTEXT_def
    WITHDRAWAL_CONTEXT_def LOCK_CONTEXT_def ATTEMPT_CONTEXT_def
    COMMIT_CONTEXT_def REPLACEMENT_CONTEXT_def REVOCATION_CONTEXT_def
    V3_CONFIG_CONTEXT_def V3_STATEMENT_CONTEXT_def V3_DELIVERY_CONTEXT_def
    V3_ACCEPTANCE_CONTEXT_def V3_RELEASE_CONTEXT_def V3_WITHDRAWAL_CONTEXT_def
    V3_PUBLICATION_CONTEXT_def V3_GENESIS_CONTEXT_def V3_HISTORY_CONTEXT_def
    V3_EVIDENCE_SEED_CONTEXT_def V3_EVIDENCE_LINK_CONTEXT_def V3_SNAPSHOT_CONTEXT_def
    V3_RECEIPT_CONTEXT_def V3_SEGMENT_CONTEXT_def V3_FAULT_EVIDENCE_CONTEXT_def
    V3_TRAIL_CONTEXT_def V3_PACKAGE_CONTEXT_def V3_RANGE_CONTEXT_def
    V3_SPENT_EMPTY_CONTEXT_def V3_SPENT_LEAF_CONTEXT_def V3_SPENT_NODE_CONTEXT_def
    LIT_CONFIG_CONTEXT_def LIT_NOTE_CONTEXT_def LIT_NULLIFIER_CONTEXT_def
    LIT_TAG_CONTEXT_def LIT_RHO_ISSUE_CONTEXT_def LIT_RHO_SPEND_CONTEXT_def
    LIT_STATEMENT_CONTEXT_def LIT_ACCEPTANCE_CONTEXT_def LIT_RELEASE_CONTEXT_def
    LIT_PUBLICATION_CONTEXT_def LIT_GENESIS_CONTEXT_def LIT_HISTORY_CONTEXT_def
    LIT_EVIDENCE_SEED_CONTEXT_def LIT_EVIDENCE_LINK_CONTEXT_def LIT_SNAPSHOT_CONTEXT_def
    LIT_RECEIPT_CONTEXT_def LIT_SEGMENT_CONTEXT_def LIT_FAULT_EVIDENCE_CONTEXT_def
    LIT_TRAIL_CONTEXT_def LIT_PACKAGE_CONTEXT_def SUCCINCT_TRAIL_CONTEXT_def
    TERMS_MAGIC_def DIRECTORY_MAGIC_def
  by simp

lemma tag_byte_inj: "(word_of_nat (of_char c) :: byte) = word_of_nat (of_char d) \<longleftrightarrow> c = d"
proof
  assume "(word_of_nat (of_char c) :: byte) = word_of_nat (of_char d)"
  then have "unat (word_of_nat (of_char c) :: byte) = unat (word_of_nat (of_char d) :: byte)" by simp
  moreover have "(of_char c :: nat) < 256" "(of_char d :: nat) < 256"
    by simp_all
  ultimately show "c = d" by (simp add: unat_of_nat)
qed simp

lemma length_tag [simp]: "length (tag s) = length s"
  by (simp add: tag_def)

lemma prefix_nth_conv: "length a \<le> length b \<and> list_all (\<lambda>k. a ! k = b ! k) [0..<length a] \<longleftrightarrow> prefix a b"
proof
  assume "length a \<le> length b \<and> list_all (\<lambda>k. a ! k = b ! k) [0..<length a]"
  then have "a = take (length a) b" by (auto simp: list_all_iff intro: nth_equalityI)
  then show "prefix a b" by (metis take_is_prefix)
qed (auto simp: prefix_def list_all_iff nth_append)

lemma prefix_tag: "prefix (tag a) (tag b) \<longleftrightarrow> prefix a b"
proof (induction a arbitrary: b)
  case (Cons x xs)
  then show ?case by (cases b) (auto simp: tag_def tag_byte_inj)
qed (simp add: tag_def)

text \<open>On any list of distinct tags, prefix-freedom is that no two of them are prefix-related.\<close>

lemma list_all_upt: "list_all P [0..<n] \<longleftrightarrow> (\<forall>i < n. P i)"
  by (auto simp: list_all_iff)

lemma contextsArePrefixFree_conv:
  "contextsArePrefixFree tags \<longleftrightarrow>
     (\<forall>i < length tags. \<forall>j < length tags. i \<noteq> j \<longrightarrow> \<not> prefix (tags ! i) (tags ! j))"
  unfolding contextsArePrefixFree_def Let_def prefix_nth_conv unfolding list_all_upt by meson

fun no_prefixes :: "string list \<Rightarrow> bool" where
  "no_prefixes [] = True"
| "no_prefixes (x # xs) = (list_all (\<lambda>y. \<not> prefix x y \<and> \<not> prefix y x) xs \<and> no_prefixes xs)"

lemma no_prefixes_nth:
  "no_prefixes xs \<Longrightarrow> i < length xs \<Longrightarrow> j < length xs \<Longrightarrow> i \<noteq> j \<Longrightarrow> \<not> prefix (xs ! i) (xs ! j)"
proof (induction xs arbitrary: i j)
  case (Cons x xs)
  then show ?case by (cases i; cases j) (auto simp: list_all_iff)
qed simp

lemma ALL_TAGS_no_prefixes: "no_prefixes ALL_TAGS"
  unfolding ALL_TAGS_def by code_simp

lemma ALL_CONTEXTS_prefix_free: "contextsArePrefixFree ALL_CONTEXTS"
  unfolding contextsArePrefixFree_conv contexts_of_tags
  by (simp add: prefix_tag no_prefixes_nth [OF ALL_TAGS_no_prefixes])

lemma context_frames_apart:
  assumes "c \<in> set ALL_CONTEXTS" and "d \<in> set ALL_CONTEXTS" and "c @ x = d @ y"
  shows "c = d"
proof -
  obtain i j where i: "i < length ALL_CONTEXTS" "c = ALL_CONTEXTS ! i"
    and j: "j < length ALL_CONTEXTS" "d = ALL_CONTEXTS ! j"
    using assms(1,2) by (auto simp: in_set_conv_nth)
  have "prefix c d \<or> prefix d c"
    using assms(3) by (metis prefixI prefix_same_cases)
  then have "i = j"
    using ALL_CONTEXTS_prefix_free i j unfolding contextsArePrefixFree_conv by metis
  then show ?thesis using i j by simp
qed

subsection \<open>Properties\<close>

text \<open>The contexts separate the frames. The library's own check accepts the whole list of contexts,
  and two messages that start with contexts of the list and are equal start with the same context and
  have the same body, so no bytes hashed or signed for one purpose are read for another.\<close>

theorem contexts_separate:
  assumes "c \<in> set ALL_CONTEXTS" and "d \<in> set ALL_CONTEXTS" and "c @ x = d @ y"
  shows "contextsArePrefixFree ALL_CONTEXTS \<and> c = d \<and> x = y"
  using context_frames_apart [OF assms] assms(3) ALL_CONTEXTS_prefix_free by simp

lemma contexts_separate_witness:
  "[7] = [7 :: byte] \<and> V3_EVIDENCE_LINK_CONTEXT @ [7] = V3_EVIDENCE_LINK_CONTEXT @ [7]"
proof -
  have "V3_EVIDENCE_LINK_CONTEXT \<in> set ALL_CONTEXTS" by (simp add: ALL_CONTEXTS_def)
  from contexts_separate [OF this this refl, of "[7]"] show ?thesis by simp
qed

end
