(* ===== verification/Bytes.thy ===== *)
theory Bytes
  imports Prelude
begin

section \<open>Byte primitives and framing (src/bytes.ts)\<close>

text \<open>
  Quantities, minimal big-endian integers, the byte order, the strict writer
  \<open>ByteWriter\<close> and the strict reader \<open>ByteReader\<close>.  A byte array is a value of type
  \<open>bytes\<close>: the copying of arrays and the run-time brand checks of \<open>copyBytes\<close> and
  \<open>copyUnshared\<close>, which guard against values that are not byte arrays, have no
  counterpart, and a \<open>bigint\<close> or an integral \<open>number\<close> is an \<open>int\<close>.

  A writer is its list of written bytes, one operation takes it to the longer list or an
  error, and \<open>written\<close> runs a sequence of operations on a new writer.  A reader is the
  source with an offset.  The collections \<open>write_simps\<close> and \<open>read_simps\<close> say for every
  operation exactly when it succeeds and with what, so that a codec's encoder and decoder
  both become one equation about concatenated fields.
\<close>

named_theorems write_simps \<open>when a writer operation succeeds, and what it appends\<close>
named_theorems run_simps \<open>what a reader operation returns on an encoding\<close>
named_theorems read_simps \<open>when a reader operation succeeds, and what it consumes\<close>

subsection \<open>Quantities and arrays\<close>

definition MAX_QUANTITY_BYTES :: int where
  "MAX_QUANTITY_BYTES = 32"

definition MAX_QUANTITY_EXCLUSIVE :: int where
  "MAX_QUANTITY_EXCLUSIVE = push_bit (nat (8 * MAX_QUANTITY_BYTES)) 1"

definition isValidQuantity :: "int \<Rightarrow> bool" where
  "isValidQuantity n \<longleftrightarrow> n \<ge> 1 \<and> n < MAX_QUANTITY_EXCLUSIVE"

definition validateQuantity :: "int \<Rightarrow> string \<Rightarrow> unit result" where
  "validateQuantity n what = requireR (isValidQuantity n) (EncodingError (what @ '' out of range''))"

definition copyArray :: "'a list \<Rightarrow> ('a \<Rightarrow> 'b result) \<Rightarrow> int \<Rightarrow> 'b list result" where
  "copyArray vals copy limit =
     bindR (requireR (limit \<ge> 0) (RangeError ''array limit is not a count'')) (\<lambda>_.
     bindR (requireR (int (length vals) \<le> limit) (EncodingError ''array longer than its limit'')) (\<lambda>_.
     traverseR copy vals))"

subsection \<open>Minimal big-endian integers\<close>

text \<open>The sizing loop: shift by a byte until nothing is left.\<close>

function byte_count :: "int \<Rightarrow> nat" where
  "byte_count v = (if v > 0 then Suc (byte_count (drop_bit 8 v)) else 0)"
  by pat_completeness auto
termination
  by (relation "measure nat") (auto simp: drop_bit_eq_div)

declare byte_count.simps [simp del]

text \<open>The filling loop, from index \<open>length - 1\<close> down to 0.\<close>

fun fill_back :: "nat \<Rightarrow> int \<Rightarrow> bytes \<Rightarrow> bytes" where
  "fill_back 0 v out = out"
| "fill_back (Suc i) v out = fill_back i (drop_bit 8 v) (out[i := word_of_int (v AND 0xff)])"

definition bigintToMinimalBytes :: "int \<Rightarrow> bytes result" where
  "bigintToMinimalBytes n =
     (if n < 0 then Inl (EncodingError ''negative quantity'')
      else if n = 0 then Inr []
      else (let len = byte_count n in Inr (fill_back len n (replicate len 0))))"

definition minimalBytesToBigint :: "bytes \<Rightarrow> int result" where
  "minimalBytesToBigint own =
     (if length own > 0 \<and> own ! 0 = 0 then Inl (EncodingError ''non-minimal bigint encoding'')
      else Inr (foldl (\<lambda>n b. push_bit 8 n OR uint b) 0 own))"

subsection \<open>Byte order\<close>

fun compareBytes :: "bytes \<Rightarrow> bytes \<Rightarrow> int" where
  "compareBytes (a # as) (b # bs) =
     (let d = uint a - uint b in if d \<noteq> 0 then d else compareBytes as bs)"
| "compareBytes as bs = int (length as) - int (length bs)"

subsection \<open>ByteWriter\<close>

type_synonym writer = "bytes \<Rightarrow> bytes result"

definition w_u8 :: "int \<Rightarrow> writer" where
  "w_u8 n out =
     (if n < 0 \<or> n > 0xff then Inl (EncodingError ''u8 out of range'')
      else Inr (out @ [word_of_int n]))"

definition w_i8 :: "int \<Rightarrow> writer" where
  "w_i8 n out =
     (if n < -128 \<or> n > 127 then Inl (EncodingError ''i8 out of range'')
      else Inr (out @ [word_of_int (n AND 0xff)]))"

definition w_u32 :: "int \<Rightarrow> writer" where
  "w_u32 n out =
     (if n < 0 \<or> n > 0xffffffff then Inl (EncodingError ''u32 out of range'')
      else Inr (out @ [word_of_int (drop_bit 24 n AND 0xff), word_of_int (drop_bit 16 n AND 0xff),
        word_of_int (drop_bit 8 n AND 0xff), word_of_int (n AND 0xff)]))"

definition w_u64 :: "int \<Rightarrow> writer" where
  "w_u64 n out =
     (if n < 0 \<or> n > 0xffffffffffffffff then Inl (EncodingError ''u64 out of range'')
      else Inr (out @ map (\<lambda>shift. word_of_int (drop_bit shift n AND 0xff)) [56, 48, 40, 32, 24, 16, 8, 0]))"

definition w_fixed :: "bytes \<Rightarrow> nat \<Rightarrow> string \<Rightarrow> writer" where
  "w_fixed own len what out =
     (if length own \<noteq> len then Inl (EncodingError (what @ '' has another length''))
      else Inr (out @ own))"

definition FIXED32 :: nat where
  "FIXED32 = 32"

definition w_key32 :: "bytes \<Rightarrow> string \<Rightarrow> writer" where
  "w_key32 own what = w_fixed own FIXED32 what"

definition w_context :: "bytes \<Rightarrow> writer" where
  "w_context tag out = Inr (out @ tag)"

definition w_lengthPrefixed :: "bytes \<Rightarrow> writer" where
  "w_lengthPrefixed own out = bindR (w_u32 (int (length own)) out) (\<lambda>out'. Inr (out' @ own))"

definition run_writes :: "writer list \<Rightarrow> writer" where
  "run_writes ws out = foldR (\<lambda>out w. w out) out ws"

definition written :: "writer list \<Rightarrow> bytes result" where
  "written ws = run_writes ws []"

subsection \<open>ByteReader\<close>

record reader =
  r_bytes :: bytes
  r_offset :: nat

type_synonym 'a read = "reader \<Rightarrow> ('a \<times> reader) result"

definition newReader :: "bytes \<Rightarrow> reader" where
  "newReader bs = \<lparr>r_bytes = bs, r_offset = 0\<rparr>"

definition bindP :: "'a read \<Rightarrow> ('a \<Rightarrow> 'b read) \<Rightarrow> 'b read" where
  "bindP p f r = bindR (p r) (\<lambda>(x, r'). f x r')"

definition returnP :: "'a \<Rightarrow> 'a read" where
  "returnP x r = Inr (x, r)"

definition liftP :: "'a result \<Rightarrow> 'a read" where
  "liftP res r = mapR (\<lambda>x. (x, r)) res"

text \<open>\<open>Array.from({ length }, () => p)\<close>: \<open>n\<close> reads in order.\<close>

fun repeatP :: "nat \<Rightarrow> 'a read \<Rightarrow> 'a list read" where
  "repeatP 0 p = returnP []"
| "repeatP (Suc n) p = bindP p (\<lambda>x. bindP (repeatP n p) (\<lambda>xs. returnP (x # xs)))"

definition r_u8 :: "int read" where
  "r_u8 r =
     (if r_offset r + 1 > length (r_bytes r) then Inl (EncodingError ''truncated'')
      else Inr (uint (r_bytes r ! r_offset r), r\<lparr>r_offset := r_offset r + 1\<rparr>))"

definition r_i8 :: "int read" where
  "r_i8 = bindP r_u8 (\<lambda>n. returnP (if n > 127 then n - 256 else n))"

fun u32_loop :: "nat \<Rightarrow> int \<Rightarrow> int read" where
  "u32_loop 0 n = returnP n"
| "u32_loop (Suc i) n = bindP r_u8 (\<lambda>b. u32_loop i (n * 256 + b))"

definition r_u32 :: "int read" where
  "r_u32 = u32_loop 4 0"

fun u64_loop :: "nat \<Rightarrow> int \<Rightarrow> int read" where
  "u64_loop 0 n = returnP n"
| "u64_loop (Suc i) n = bindP r_u8 (\<lambda>b. u64_loop i (push_bit 8 n OR b))"

definition r_u64 :: "int read" where
  "r_u64 = u64_loop 8 0"

definition r_raw :: "int \<Rightarrow> bytes read" where
  "r_raw len r =
     (if len < 0 then Inl (RangeError ''read length is not a byte count'')
      else if len > int (length (r_bytes r)) - int (r_offset r) then Inl (EncodingError ''truncated'')
      else Inr (take (nat len) (drop (r_offset r) (r_bytes r)), r\<lparr>r_offset := r_offset r + nat len\<rparr>))"

definition r_lengthPrefixed :: "int \<Rightarrow> bytes read" where
  "r_lengthPrefixed maxLength =
     (if maxLength < 0 then liftP (Inl (RangeError ''field bound is not a byte count''))
      else bindP r_u32 (\<lambda>len.
        if len > maxLength then liftP (Inl (EncodingError ''field too long'')) else r_raw len))"

definition r_expectEnd :: "unit read" where
  "r_expectEnd r =
     (if r_offset r \<noteq> length (r_bytes r) then Inl (EncodingError ''trailing bytes'') else Inr ((), r))"

text \<open>A decoder runs its reads on a new reader and returns the value.\<close>

definition decoded_by :: "'a read \<Rightarrow> bytes \<Rightarrow> 'a result" where
  "decoded_by p bs = mapR fst (p (newReader bs))"

subsection \<open>What the writer appends\<close>

lemma be_bytes_1: "be_bytes 1 n = [word_of_int n]"
  by (simp add: numeral_eq_Suc)

lemma run_writes_simps [simp, write_simps]:
  "run_writes [] out = Inr out"
  "run_writes (w # ws) out = bindR (w out) (run_writes ws)"
  by (simp_all add: run_writes_def [abs_def])

lemma run_writes_append [write_simps]:
  "run_writes (us @ ws) out = bindR (run_writes us out) (run_writes ws)"
  by (simp add: run_writes_def [abs_def] foldR_append)

lemma w_u8_conv [write_simps]:
  "w_u8 n out = Inr r \<longleftrightarrow> 0 \<le> n \<and> n < 256 \<and> r = out @ be_bytes 1 n"
  by (auto simp: w_u8_def be_bytes_1)

lemma w_u32_bytes:
  "[word_of_int (drop_bit 24 n AND 0xff), word_of_int (drop_bit 16 n AND 0xff),
    word_of_int (drop_bit 8 n AND 0xff), word_of_int (n AND 0xff)] = be_bytes 4 n"
  by (simp add: numeral_eq_Suc and_0xff drop_bit_eq_div flip: zdiv_zmult2_eq)

lemma w_u32_conv [write_simps]:
  "w_u32 n out = Inr r \<longleftrightarrow> 0 \<le> n \<and> n < 2 ^ 32 \<and> r = out @ be_bytes 4 n"
  unfolding w_u32_def w_u32_bytes by auto

lemma w_u64_bytes:
  "map (\<lambda>shift. word_of_int (drop_bit shift n AND 0xff)) [56, 48, 40, 32, 24, 16, 8, 0] = be_bytes 8 n"
  by (simp add: numeral_eq_Suc and_0xff drop_bit_eq_div flip: zdiv_zmult2_eq)

lemma w_u64_conv [write_simps]:
  "w_u64 n out = Inr r \<longleftrightarrow> 0 \<le> n \<and> n < 2 ^ 64 \<and> r = out @ be_bytes 8 n"
  unfolding w_u64_def w_u64_bytes by auto

lemma w_fixed_conv [write_simps]:
  "w_fixed own len what out = Inr r \<longleftrightarrow> length own = len \<and> r = out @ own"
  by (auto simp: w_fixed_def)

lemma w_key32_conv [write_simps]:
  "w_key32 own what out = Inr r \<longleftrightarrow> length own = 32 \<and> r = out @ own"
  by (simp add: w_key32_def w_fixed_conv FIXED32_def)

lemma w_context_conv [write_simps]: "w_context tag out = Inr (out @ tag)"
  by (simp add: w_context_def)

lemma w_lengthPrefixed_conv [write_simps]:
  "w_lengthPrefixed own out = Inr r \<longleftrightarrow>
     int (length own) < 2 ^ 32 \<and> r = out @ be_bytes 4 (int (length own)) @ own"
  by (auto simp: w_lengthPrefixed_def bindR_Inr_conv w_u32_conv)

text \<open>A run of writes over a list of items, as a codec's \<open>for\<close> loop makes it.\<close>

lemma run_writes_map:
  assumes "\<And>x out r. w x out = Inr r \<longleftrightarrow> ok x \<and> r = out @ enc x"
  shows "run_writes (map w xs) out = Inr r \<longleftrightarrow> list_all ok xs \<and> r = out @ concat (map enc xs)"
  using assms by (induction xs arbitrary: out) (auto simp: bindR_Inr_conv)

text \<open>A writer never rewrites what it wrote: a successful run extends the output.\<close>

lemma written_conv [write_simps]: "written ws = run_writes ws []"
  by (simp add: written_def)

subsection \<open>What the reader consumes\<close>

definition reader_at :: "bytes \<Rightarrow> bytes \<Rightarrow> reader" where
  "reader_at pre rest = \<lparr>r_bytes = pre @ rest, r_offset = length pre\<rparr>"

lemma newReader_at: "newReader bs = reader_at [] bs"
  by (simp add: newReader_def reader_at_def)

lemma reader_at_simps:
  "r_bytes (reader_at pre rest) = pre @ rest"
  "r_offset (reader_at pre rest) = length pre"
  by (simp_all add: reader_at_def)

text \<open>
  \<open>reads p enc ok\<close>: at any offset \<open>p\<close> returns \<open>x\<close> exactly where \<open>x\<close> is admitted and the bytes
  there begin with the encoding of \<open>x\<close>, and it consumes that encoding and no more.
\<close>

definition reads :: "'a read \<Rightarrow> ('a \<Rightarrow> bytes) \<Rightarrow> ('a \<Rightarrow> bool) \<Rightarrow> bool" where
  "reads p enc ok \<longleftrightarrow> (\<forall>pre rest x r'. p (reader_at pre rest) = Inr (x, r') \<longleftrightarrow>
     ok x \<and> (\<exists>rest'. rest = enc x @ rest' \<and> r' = reader_at (pre @ enc x) rest'))"

lemma readsI:
  assumes "\<And>pre rest x r'. p (reader_at pre rest) = Inr (x, r') \<longleftrightarrow>
     ok x \<and> (\<exists>rest'. rest = enc x @ rest' \<and> r' = reader_at (pre @ enc x) rest')"
  shows "reads p enc ok"
  using assms by (simp add: reads_def)

lemma readsD:
  "reads p enc ok \<Longrightarrow> p (reader_at pre rest) = Inr (x, r') \<longleftrightarrow>
     ok x \<and> (\<exists>rest'. rest = enc x @ rest' \<and> r' = reader_at (pre @ enc x) rest')"
  by (simp add: reads_def)

text \<open>No encoding a reader accepts is a proper prefix of another.\<close>

lemma reads_prefix_free:
  assumes "reads p enc ok" and "ok x" and "ok y" and "enc x @ us = enc y @ vs"
  shows "x = y"
proof -
  have "p (reader_at [] (enc x @ us)) = Inr (x, reader_at (enc x) us)"
    using readsD [OF assms(1)] assms(2) by simp
  moreover have "p (reader_at [] (enc x @ us)) = Inr (y, reader_at (enc y) vs)"
    using readsD [OF assms(1)] assms(3,4) by simp
  ultimately show ?thesis by simp
qed

lemma bindP_conv [read_simps]:
  "bindP p f r = Inr z \<longleftrightarrow> (\<exists>x r'. p r = Inr (x, r') \<and> f x r' = Inr z)"
  by (auto simp: bindP_def bindR_Inr_conv)

lemma bindP_E:
  assumes "bindP p f r = Inr z"
  obtains x r' where "p r = Inr (x, r')" and "f x r' = Inr z"
  using assms by (auto simp: bindP_conv)

lemma returnP_conv [read_simps]: "returnP x r = Inr z \<longleftrightarrow> z = (x, r)"
  by (auto simp: returnP_def)

lemma liftP_conv [read_simps]: "liftP res r = Inr z \<longleftrightarrow> (\<exists>x. res = Inr x \<and> z = (x, r))"
  by (auto simp: liftP_def mapR_Inr_conv)

lemma r_u8_at: "r_u8 (reader_at pre rest) =
    (case rest of [] \<Rightarrow> Inl (EncodingError ''truncated'')
     | b # rest' \<Rightarrow> Inr (uint b, reader_at (pre @ [b]) rest'))"
  by (cases rest) (simp_all add: r_u8_def reader_at_def)

lemma r_raw_at: "r_raw len (reader_at pre rest) =
    (if len < 0 then Inl (RangeError ''read length is not a byte count'')
     else if len > int (length rest) then Inl (EncodingError ''truncated'')
     else Inr (take (nat len) rest, reader_at (pre @ take (nat len) rest) (drop (nat len) rest)))"
  by (auto simp: r_raw_def reader_at_def)

lemma r_raw_reads: "0 \<le> len \<Longrightarrow> reads (r_raw len) (\<lambda>x. x) (\<lambda>x. int (length x) = len)"
proof (rule readsI)
  fix pre rest x :: bytes and r'
  assume "0 \<le> len"
  show "r_raw len (reader_at pre rest) = Inr (x, r') \<longleftrightarrow>
      int (length x) = len \<and> (\<exists>rest'. rest = x @ rest' \<and> r' = reader_at (pre @ x) rest')"
    (is "?l \<longleftrightarrow> ?r")
  proof
    assume ?r
    then show ?l by (auto simp: r_raw_at)
  next
    assume l: ?l
    then have "len \<le> int (length rest)" and x: "x = take (nat len) rest"
      and r': "r' = reader_at (pre @ x) (drop (nat len) rest)"
      using \<open>0 \<le> len\<close> by (auto simp: r_raw_at split: if_splits)
    then have "int (length x) = len" using \<open>0 \<le> len\<close> by simp
    moreover have "rest = x @ drop (nat len) rest" by (simp add: x)
    ultimately show ?r using r' by blast
  qed
qed

lemma r_raw_conv [read_simps]:
  "0 \<le> len \<Longrightarrow> r_raw len (reader_at pre rest) = Inr (x, r') \<longleftrightarrow>
     int (length x) = len \<and> (\<exists>rest'. rest = x @ rest' \<and> r' = reader_at (pre @ x) rest')"
  by (rule readsD [OF r_raw_reads])

lemma r_u8_reads: "reads r_u8 (be_bytes 1) (\<lambda>n. 0 \<le> n \<and> n < 256)"
proof (rule readsI)
  fix pre rest n r'
  show "r_u8 (reader_at pre rest) = Inr (n, r') \<longleftrightarrow> (0 \<le> n \<and> n < 256) \<and>
      (\<exists>rest'. rest = be_bytes 1 n @ rest' \<and> r' = reader_at (pre @ be_bytes 1 n) rest')"
  proof (cases rest)
    case (Cons b bs)
    have "uint b = n \<longleftrightarrow> (0 \<le> n \<and> n < 256) \<and> b = word_of_int n"
      using byte_range [of b] by (auto simp: uint_word_of_int)
    then show ?thesis using Cons by (auto simp: r_u8_at be_bytes_1)
  qed (simp add: r_u8_at be_bytes_1)
qed

lemmas r_u8_conv [read_simps] = readsD [OF r_u8_reads]

lemma ex_length_Suc:
  "(\<exists>bs rest'. length bs = Suc k \<and> c # cs = bs @ rest' \<and> P bs rest') \<longleftrightarrow>
     (\<exists>bs rest'. length bs = k \<and> cs = bs @ rest' \<and> P (c # bs) rest')"
  by (auto simp: length_Suc_conv) (metis append_Cons length_Cons)

text \<open>Both integer loops accumulate big-endian bytes.\<close>

lemma u_loop_at:
  assumes "\<And>n b. step n (uint (b :: byte)) = n * 256 + uint b"
    and "\<And>n. lp 0 n = returnP n" and "\<And>i n. lp (Suc i) n = bindP r_u8 (\<lambda>b. lp i (step n b))"
  shows "lp k n (reader_at pre rest) = Inr (x, r') \<longleftrightarrow>
     (\<exists>bs rest'. length bs = k \<and> rest = bs @ rest' \<and> x = n * 256 ^ k + be_int bs \<and>
        r' = reader_at (pre @ bs) rest')"
proof (induction k arbitrary: n pre rest)
  case 0
  then show ?case by (auto simp: assms(2) read_simps)
next
  case (Suc k)
  show ?case
  proof (cases rest)
    case Nil
    then show ?thesis by (auto simp: assms(3) bindP_def r_u8_at)
  next
    case (Cons b bs)
    have be: "be_int (b # cs) = uint b * 256 ^ length cs + be_int cs" for cs
      using be_int_append [of "[b]" cs] by (simp add: be_int_def)
    show ?thesis unfolding Cons ex_length_Suc
      by (auto simp: assms(1,3) bindP_def r_u8_at Suc.IH be algebra_simps)
  qed
qed

lemma u_loop_reads:
  assumes "\<And>n b. step n (uint (b :: byte)) = n * 256 + uint b"
    and "\<And>n. lp 0 n = returnP n" and "\<And>i n. lp (Suc i) n = bindP r_u8 (\<lambda>b. lp i (step n b))"
  shows "reads (lp k 0) (be_bytes k) (\<lambda>n. 0 \<le> n \<and> n < 256 ^ k)"
proof (rule readsI)
  fix pre rest x r'
  have "length bs = k \<and> x = be_int bs \<longleftrightarrow> (0 \<le> x \<and> x < 256 ^ k) \<and> bs = be_bytes k x" for bs
    using be_int_bound [of bs] be_bytes_be_int [of bs] by auto
  then show "lp k 0 (reader_at pre rest) = Inr (x, r') \<longleftrightarrow> (0 \<le> x \<and> x < 256 ^ k) \<and>
      (\<exists>rest'. rest = be_bytes k x @ rest' \<and> r' = reader_at (pre @ be_bytes k x) rest')"
    unfolding u_loop_at [OF assms] by auto
qed

lemma r_u32_reads: "reads r_u32 (be_bytes 4) (\<lambda>n. 0 \<le> n \<and> n < 2 ^ 32)"
  using u_loop_reads [of "\<lambda>n b. n * 256 + b" u32_loop 4] by (simp add: r_u32_def)

lemma r_u64_reads: "reads r_u64 (be_bytes 8) (\<lambda>n. 0 \<le> n \<and> n < 2 ^ 64)"
  using u_loop_reads [of "\<lambda>n b. push_bit 8 n OR b" u64_loop 8]
  by (simp add: r_u64_def push_bit_8_or_byte)

lemmas r_u32_conv [read_simps] = readsD [OF r_u32_reads]
lemmas r_u64_conv [read_simps] = readsD [OF r_u64_reads]

lemma r_lengthPrefixed_reads:
  assumes "0 \<le> m" and "m < 2 ^ 32"
  shows "reads (r_lengthPrefixed m) (\<lambda>x. be_bytes 4 (int (length x)) @ x) (\<lambda>x. int (length x) \<le> m)"
proof (rule readsI)
  fix pre rest x r'
  show "r_lengthPrefixed m (reader_at pre rest) = Inr (x, r') \<longleftrightarrow> int (length x) \<le> m \<and>
     (\<exists>rest'. rest = (be_bytes 4 (int (length x)) @ x) @ rest' \<and>
       r' = reader_at (pre @ be_bytes 4 (int (length x)) @ x) rest')"
    using assms by (auto simp: r_lengthPrefixed_def read_simps split: if_splits
        intro!: exI [of _ "int (length x)"])
qed

lemma r_lengthPrefixed_conv [read_simps]:
  "0 \<le> m \<Longrightarrow> m < 2 ^ 32 \<Longrightarrow> r_lengthPrefixed m (reader_at pre rest) = Inr (x, r') \<longleftrightarrow>
     int (length x) \<le> m \<and> (\<exists>rest'. rest = be_bytes 4 (int (length x)) @ x @ rest' \<and>
       r' = reader_at (pre @ be_bytes 4 (int (length x)) @ x) rest')"
  using readsD [OF r_lengthPrefixed_reads] by simp

lemma r_expectEnd_conv [read_simps]:
  "r_expectEnd (reader_at pre rest) = Inr z \<longleftrightarrow> rest = [] \<and> z = ((), reader_at pre [])"
  by (auto simp: r_expectEnd_def reader_at_def)

lemma repeatP_reads:
  assumes "reads p enc ok"
  shows "reads (repeatP n p) (\<lambda>xs. concat (map enc xs)) (\<lambda>xs. length xs = n \<and> list_all ok xs)"
proof (induction n)
  case 0
  then show ?case by (auto intro!: readsI simp: read_simps)
next
  case (Suc n)
  show ?case
  proof (rule readsI)
    fix pre rest xs r'
    show "repeatP (Suc n) p (reader_at pre rest) = Inr (xs, r') \<longleftrightarrow>
        (length xs = Suc n \<and> list_all ok xs) \<and>
        (\<exists>rest'. rest = concat (map enc xs) @ rest' \<and> r' = reader_at (pre @ concat (map enc xs)) rest')"
    proof (cases xs)
      case (Cons a as)
      show ?thesis unfolding Cons using Suc [unfolded reads_def]
        by (auto simp: read_simps readsD [OF assms] intro!: exI [of _ a])
    qed (auto simp: read_simps)
  qed
qed

lemma decoded_by_conv [read_simps]:
  "decoded_by p bs = Inr x \<longleftrightarrow> (\<exists>r. p (reader_at [] bs) = Inr (x, r))"
  by (auto simp: decoded_by_def mapR_Inr_conv newReader_at)

text \<open>On an encoding a reader operation runs forward; a reader proved to accept encodings only and to
  run on each of them reads exactly the encodings.\<close>

lemma reads_run: "reads p enc ok \<Longrightarrow> ok x \<Longrightarrow>
    p (reader_at pre (enc x @ rest)) = Inr (x, reader_at (pre @ enc x) rest)"
  by (simp add: readsD)

lemma reads_splitI:
  assumes "\<And>pre rest x r'. p (reader_at pre rest) = Inr (x, r') \<Longrightarrow>
      ok x \<and> (\<exists>rest'. rest = enc x @ rest' \<and> r' = reader_at (pre @ enc x) rest')"
    and "\<And>pre rest x. ok x \<Longrightarrow> p (reader_at pre (enc x @ rest)) = Inr (x, reader_at (pre @ enc x) rest)"
  shows "reads p enc ok"
  using assms by (intro readsI) blast

lemma bindP_run [run_simps]: "p r = Inr (x, r') \<Longrightarrow> bindP p f r = f x r'"
  by (simp add: bindP_def)

lemma returnP_run [run_simps]: "returnP x r = Inr (x, r)"
  by (simp add: returnP_def)

lemma liftP_run [run_simps]: "res = Inr x \<Longrightarrow> liftP res r = Inr (x, r)"
  by (simp add: liftP_def)

lemma r_raw_run [run_simps]: "int (length x) = len \<Longrightarrow>
    r_raw len (reader_at pre (x @ rest)) = Inr (x, reader_at (pre @ x) rest)"
  using reads_run [OF r_raw_reads, of len x] by auto

lemma r_u8_run [run_simps]: "0 \<le> n \<Longrightarrow> n < 256 \<Longrightarrow>
    r_u8 (reader_at pre (be_bytes 1 n @ rest)) = Inr (n, reader_at (pre @ be_bytes 1 n) rest)"
  by (rule reads_run [OF r_u8_reads]) simp

lemma r_u8_run_Cons [run_simps]: "0 \<le> n \<Longrightarrow> n < 256 \<Longrightarrow>
    r_u8 (reader_at pre (word_of_int n # rest)) = Inr (n, reader_at (pre @ [word_of_int n]) rest)"
  using r_u8_run [of n pre rest] by simp

lemma r_u32_run [run_simps]: "0 \<le> n \<Longrightarrow> n < 2 ^ 32 \<Longrightarrow>
    r_u32 (reader_at pre (be_bytes 4 n @ rest)) = Inr (n, reader_at (pre @ be_bytes 4 n) rest)"
  by (rule reads_run [OF r_u32_reads]) simp

lemma r_u64_run [run_simps]: "0 \<le> n \<Longrightarrow> n < 2 ^ 64 \<Longrightarrow>
    r_u64 (reader_at pre (be_bytes 8 n @ rest)) = Inr (n, reader_at (pre @ be_bytes 8 n) rest)"
  by (rule reads_run [OF r_u64_reads]) simp

lemma r_lengthPrefixed_run [run_simps]: "0 \<le> m \<Longrightarrow> m < 2 ^ 32 \<Longrightarrow> int (length x) \<le> m \<Longrightarrow>
    r_lengthPrefixed m (reader_at pre (be_bytes 4 (int (length x)) @ x @ rest)) =
      Inr (x, reader_at (pre @ be_bytes 4 (int (length x)) @ x) rest)"
  using reads_run [OF r_lengthPrefixed_reads, of m x pre rest] by simp

text \<open>A decoder that reads one value and expects the end accepts exactly the value's encoding.\<close>

lemma decoded_whole:
  assumes "reads p enc ok"
  shows "decoded_by (bindP p (\<lambda>x. bindP r_expectEnd (\<lambda>_. bindP (liftP (check x)) (\<lambda>_. returnP x)))) bs = Inr x \<longleftrightarrow>
    ok x \<and> check x = Inr () \<and> bs = enc x"
    (is "?l \<longleftrightarrow> ?r")
proof
  assume ?l
  then show ?r by (auto simp: read_simps readsD [OF assms])
next
  assume r: ?r
  then have "p (reader_at [] (enc x)) = Inr (x, reader_at (enc x) [])" by (simp add: readsD [OF assms])
  then show ?l using r
    by (simp add: decoded_by_def newReader_at bindP_def liftP_def returnP_def r_expectEnd_def reader_at_def)
qed

lemma decoded_whole_unchecked:
  assumes "reads p enc ok"
  shows "decoded_by (bindP p (\<lambda>x. bindP r_expectEnd (\<lambda>_. returnP x))) bs = Inr x \<longleftrightarrow> ok x \<and> bs = enc x"
proof -
  have "bindP p (\<lambda>x. bindP r_expectEnd (\<lambda>_. returnP x)) =
      bindP p (\<lambda>x. bindP r_expectEnd (\<lambda>_. bindP (liftP (Inr ())) (\<lambda>_. returnP x)))"
    by (simp add: bindP_def liftP_def fun_eq_iff)
  then show ?thesis using decoded_whole [OF assms, of "\<lambda>_. Inr ()"] by simp
qed

text \<open>Sequencing: a value read as a first part and a rest that determines it.\<close>

lemma reads_bindP:
  assumes "reads p e1 ok1" and "\<And>x. ok1 x \<Longrightarrow> reads (f x) (e2 x) (ok2 x)"
    and "\<And>x y. ok1 x \<Longrightarrow> ok2 x y \<Longrightarrow> proj y = x"
  shows "reads (bindP p f) (\<lambda>y. e1 (proj y) @ e2 (proj y) y) (\<lambda>y. ok1 (proj y) \<and> ok2 (proj y) y)"
proof (rule readsI)
  fix pre rest y r'
  show "bindP p f (reader_at pre rest) = Inr (y, r') \<longleftrightarrow> (ok1 (proj y) \<and> ok2 (proj y) y) \<and>
      (\<exists>rest'. rest = (e1 (proj y) @ e2 (proj y) y) @ rest' \<and> r' = reader_at (pre @ e1 (proj y) @ e2 (proj y) y) rest')"
    (is "?l \<longleftrightarrow> ?r")
  proof
    assume ?l
    then obtain x r1 rest1 where x: "ok1 x" "rest = e1 x @ rest1" "f x (reader_at (pre @ e1 x) rest1) = Inr (y, r')"
      by (auto simp: bindP_conv readsD [OF assms(1)])
    then have "ok2 x y" and "\<exists>rest'. rest1 = e2 x y @ rest' \<and> r' = reader_at ((pre @ e1 x) @ e2 x y) rest'"
      using readsD [OF assms(2) [OF x(1)]] by auto
    then show ?r using x assms(3) [OF x(1)] by auto
  next
    assume ?r
    then show ?l using readsD [OF assms(1)] readsD [OF assms(2)] by (fastforce simp: bindP_conv)
  qed
qed

subsection \<open>The byte order is the lexicographic order\<close>

lemma compareBytes_self [simp]: "compareBytes a a = 0"
  by (induction a) simp_all

lemma uint_eq_byte: "uint (a :: byte) = uint b \<longleftrightarrow> a = b"
  by (simp add: word_uint_eq_iff)

lemma compareBytes_eq_0 [simp]: "compareBytes a b = 0 \<longleftrightarrow> a = b"
proof (induction a b rule: compareBytes.induct)
  case (1 x xs y ys)
  then show ?case by (auto simp: Let_def uint_eq_byte)
qed auto

lemma compareBytes_swap: "compareBytes a b = - compareBytes b a"
proof (induction a b rule: compareBytes.induct)
  case (1 x xs y ys)
  then show ?case by (auto simp: Let_def)
qed auto

lemma compareBytes_less: "compareBytes a b < 0 \<longleftrightarrow> (a, b) \<in> lexord {(x, y). x < y}"
proof (induction a b rule: compareBytes.induct)
  case (1 x xs y ys)
  then show ?case by (auto simp: Let_def word_less_def uint_eq_byte)
qed (auto simp: neq_Nil_conv)

lemma compareBytes_less_trans:
  "compareBytes a b < 0 \<Longrightarrow> compareBytes b c < 0 \<Longrightarrow> compareBytes a c < 0"
  unfolding compareBytes_less by (rule lexord_trans) (auto intro: transI)

lemma compareBytes_total: "compareBytes a b < 0 \<or> a = b \<or> compareBytes b a < 0"
  using compareBytes_swap [of a b] compareBytes_eq_0 [of a b] by linarith

subsection \<open>Minimal integers\<close>

lemma fill_back_be_bytes:
  "i \<le> length out \<Longrightarrow> fill_back i v out = be_bytes i v @ drop i out"
proof (induction i arbitrary: v out)
  case (Suc i)
  then have "drop i (out[i := w]) = w # drop (Suc i) out" for w
    by (metis Cons_nth_drop_Suc Suc_le_lessD drop_update_cancel length_list_update lessI nth_list_update_eq)
  with Suc show ?case by (simp add: and_0xff drop_bit_eq_div)
qed simp

lemma byte_count_bounds:
  "0 < n \<Longrightarrow> 0 < byte_count n \<and> 256 ^ (byte_count n - 1) \<le> n \<and> n < 256 ^ byte_count n"
proof (induction n rule: byte_count.induct)
  case (1 v)
  show ?case
  proof (cases "v < 256")
    case True
    then have "byte_count v = 1" using "1.prems"
      by (simp add: byte_count.simps [of v] byte_count.simps [of 0] drop_bit_eq_div)
    then show ?thesis using True "1.prems" by simp
  next
    case False
    then have "0 < v div 256" by simp
    with "1.IH" "1.prems" have ih: "0 < byte_count (v div 256)"
      "256 ^ (byte_count (v div 256) - 1) \<le> v div 256" "v div 256 < 256 ^ byte_count (v div 256)"
      by (simp_all add: drop_bit_eq_div)
    have c: "byte_count v = Suc (byte_count (v div 256))"
      using "1.prems" by (simp add: byte_count.simps [of v] drop_bit_eq_div)
    have "256 ^ Suc (byte_count (v div 256) - 1) \<le> v" using ih(2) by simp
    moreover have "v < 256 ^ Suc (byte_count (v div 256))" using ih(3) by simp
    ultimately show ?thesis using ih(1) by (simp add: c del: power_Suc)
  qed
qed

lemma bigintToMinimalBytes_conv:
  "bigintToMinimalBytes n = Inr bs \<longleftrightarrow> 0 \<le> n \<and> bs = be_bytes (byte_count n) n"
  by (auto simp: bigintToMinimalBytes_def Let_def fill_back_be_bytes byte_count.simps [of 0])

lemma foldl_or_be_int: "foldl (\<lambda>n b. push_bit 8 n OR uint b) 0 own = be_int own"
  by (simp add: be_int_def push_bit_8_or_byte)

lemma be_bytes_head: "k > 0 \<Longrightarrow> be_bytes k n ! 0 = word_of_int (n div 256 ^ (k - 1))"
proof (induction k arbitrary: n)
  case (Suc k)
  then show ?case by (cases k) (auto simp: nth_append zdiv_zmult2_eq)
qed simp

lemma be_int_head: "bs \<noteq> [] \<Longrightarrow> be_int bs = uint (hd bs) * 256 ^ (length bs - 1) + be_int (tl bs)"
  using be_int_append [of "[hd bs]" "tl bs"] by (cases bs) (simp_all add: be_int_def)

lemma byte_count_unique:
  assumes "256 ^ (k - 1) \<le> n" and "n < 256 ^ k" and "0 < k"
  shows "byte_count n = k"
proof -
  have n: "0 < n" using assms(1) by (meson less_le_trans zero_less_numeral zero_less_power)
  have "256 ^ (byte_count n - 1) < (256 :: int) ^ k" and "256 ^ (k - 1) < (256 :: int) ^ byte_count n"
    using byte_count_bounds [OF n] assms by linarith+
  then have "byte_count n - 1 < k" and "k - 1 < byte_count n"
    by (simp_all add: power_strict_increasing_iff)
  then show ?thesis using byte_count_bounds [OF n] assms(3) by linarith
qed

lemma minimalBytesToBigint_conv:
  "minimalBytesToBigint bs = Inr n \<longleftrightarrow> bigintToMinimalBytes n = Inr bs"
proof
  assume "minimalBytesToBigint bs = Inr n"
  then have n: "n = be_int bs" and h: "bs = [] \<or> hd bs \<noteq> 0"
    by (auto simp: minimalBytesToBigint_def foldl_or_be_int hd_conv_nth split: if_splits)
  show "bigintToMinimalBytes n = Inr bs"
  proof (cases "bs = []")
    case True
    then show ?thesis by (simp add: n bigintToMinimalBytes_def)
  next
    case False
    with h have "1 \<le> uint (hd bs)" by (metis byte_range(1) int_one_le_iff_zero_less order_less_le uint_0_iff)
    then have "1 * 256 ^ (length bs - 1) \<le> uint (hd bs) * 256 ^ (length bs - 1)"
      by (rule mult_right_mono) simp
    then have "256 ^ (length bs - 1) \<le> be_int bs"
      using be_int_head [OF False] be_int_nonneg [of "tl bs"] by linarith
    then have "byte_count (be_int bs) = length bs"
      by (rule byte_count_unique) (use False be_int_bound [of bs] in auto)
    then show ?thesis by (simp add: bigintToMinimalBytes_conv n)
  qed
next
  assume a: "bigintToMinimalBytes n = Inr bs"
  then have n: "0 \<le> n" and bs: "bs = be_bytes (byte_count n) n" by (simp_all add: bigintToMinimalBytes_conv)
  show "minimalBytesToBigint bs = Inr n"
  proof (cases "n = 0")
    case True
    then show ?thesis by (simp add: bs minimalBytesToBigint_def byte_count.simps [of 0])
  next
    case False
    with n have b: "0 < byte_count n" "256 ^ (byte_count n - 1) \<le> n" "n < 256 ^ byte_count n"
      using byte_count_bounds [of n] by simp_all
    define q where "q = n div 256 ^ (byte_count n - 1)"
    have "0 < q" using b(2) by (simp add: q_def pos_imp_zdiv_pos_iff)
    moreover have "q < 256"
    proof -
      have "n < 256 * 256 ^ (byte_count n - 1)" using b(1,3) by (metis Suc_diff_1 power_Suc)
      then show ?thesis unfolding q_def by (rule int_div_less) simp
    qed
    ultimately have "word_of_int q \<noteq> (0 :: byte)" by (simp add: word_uint_eq_iff uint_word_of_int)
    then have "bs ! 0 \<noteq> 0" using be_bytes_head [OF b(1), of n] by (simp add: bs q_def)
    then show ?thesis using b n by (simp add: minimalBytesToBigint_def foldl_or_be_int bs)
  qed
qed

subsection \<open>Properties\<close>

text \<open>The byte order is the strict lexicographic order. \<open>compareBytes\<close> is negative exactly where
  the first array precedes the second lexicographically with a shorter prefix first, zero exactly on
  equal arrays, and antisymmetric, so every sorted list of the formats has one order.\<close>

theorem compareBytes_lexicographic:
  "(compareBytes a b < 0 \<longleftrightarrow> (a, b) \<in> lexord {(x, y). x < y}) \<and>
   (compareBytes a b = 0 \<longleftrightarrow> a = b) \<and> compareBytes a b = - compareBytes b a"
  using compareBytes_less compareBytes_eq_0 compareBytes_swap by blast

end
