(* ===== verification/Crypto.thy ===== *)
theory Crypto
  imports Prelude
begin

section \<open>Third-party cryptography and strict signatures (src/keys.ts)\<close>

text \<open>
  The hash, the signature scheme and the proof system's hash are third-party packages
  (\<open>@noble/hashes\<close>, \<open>@noble/curves\<close>, \<open>@aztec/bb.js\<close>): the record \<open>crypto\<close> holds them as
  parameters of the model and every definition that calls one takes the record.  What a
  proof needs of them is a named hypothesis: \<open>sha_width\<close> and \<open>poseidon_ok\<close> are documented
  output formats, and collision-freedom is only ever assumed of the finitely many messages a
  statement names, as \<open>inj_on\<close> over that set.
\<close>

record crypto =
  sha256 :: "bytes \<Rightarrow> bytes"
  ed25519_verify :: "bytes \<Rightarrow> bytes \<Rightarrow> bytes \<Rightarrow> bool"
  ed25519_sign :: "bytes \<Rightarrow> bytes \<Rightarrow> bytes"
  ed25519_public :: "bytes \<Rightarrow> bytes"
  ed25519_smallOrder :: "bytes \<Rightarrow> bool option"
  bb_poseidon2Hash :: "bytes list \<Rightarrow> bytes"

text \<open>SHA-256 returns 32 bytes.\<close>

definition sha_width :: "crypto \<Rightarrow> bool" where
  "sha_width C \<longleftrightarrow> (\<forall>m. length (sha256 C m) = 32)"

text \<open>Ed25519's formats, and that a signature made with a secret verifies under its public key.\<close>

definition ed25519_ok :: "crypto \<Rightarrow> bool" where
  "ed25519_ok C \<longleftrightarrow> (\<forall>s. length (ed25519_public C s) = 32) \<and> (\<forall>m s. length (ed25519_sign C m s) = 64) \<and>
     (\<forall>m s. ed25519_verify C (ed25519_sign C m s) m (ed25519_public C s))"

definition KEY_LENGTH :: nat where
  "KEY_LENGTH = 32"

definition SIGNATURE_LENGTH :: nat where
  "SIGNATURE_LENGTH = 64"

text \<open>\<open>None\<close> of \<open>ed25519_smallOrder\<close> is a key that does not decompress, which throws.\<close>

definition isValidPublicKey :: "crypto \<Rightarrow> bytes \<Rightarrow> bool" where
  "isValidPublicKey C key =
     (if length key \<noteq> KEY_LENGTH then False
      else case ed25519_smallOrder C key of None \<Rightarrow> False | Some small \<Rightarrow> \<not> small)"

definition verifySignatureStrict :: "crypto \<Rightarrow> bytes \<Rightarrow> bytes \<Rightarrow> bytes \<Rightarrow> bool" where
  "verifySignatureStrict C signature message key =
     (if length signature \<noteq> SIGNATURE_LENGTH \<or> length key \<noteq> KEY_LENGTH then False
      else ed25519_verify C signature message key)"

lemma verifySignatureStrict_lengths:
  "verifySignatureStrict C s m k \<Longrightarrow> length s = 64 \<and> length k = 32"
  by (simp add: verifySignatureStrict_def SIGNATURE_LENGTH_def KEY_LENGTH_def split: if_splits)

lemma verifySignatureStrict_sign:
  "ed25519_ok C \<Longrightarrow> verifySignatureStrict C (ed25519_sign C m s) m (ed25519_public C s)"
  by (simp add: verifySignatureStrict_def ed25519_ok_def SIGNATURE_LENGTH_def KEY_LENGTH_def)

subsection \<open>A concrete instance for witnesses\<close>

text \<open>
  Functions with the documented formats, on which a witness can be evaluated: a digest that
  keeps the first 32 bytes of the reversed message, a signature that is the message's digest
  and the key, and a field hash that adds its inputs with weights.
\<close>

definition toy_sha :: "bytes \<Rightarrow> bytes" where
  "toy_sha m = take 32 (rev m @ replicate 32 0)"

definition toy_poseidon :: "bytes list \<Rightarrow> bytes" where
  "toy_poseidon xs = be_bytes 32 (foldl (\<lambda>h x. (h * 3 + be_int x + 1) mod 1000003) 1 xs)"

definition toy_crypto :: crypto where
  "toy_crypto = \<lparr>sha256 = toy_sha,
     ed25519_verify = (\<lambda>sig m k. sig = toy_sha m @ k),
     ed25519_sign = (\<lambda>m s. toy_sha m @ toy_sha s),
     ed25519_public = toy_sha,
     ed25519_smallOrder = (\<lambda>_. Some False),
     bb_poseidon2Hash = toy_poseidon\<rparr>"

lemma length_toy_sha [simp]: "length (toy_sha m) = 32"
  by (simp add: toy_sha_def)

lemma toy_crypto_sha_width: "sha_width toy_crypto"
  by (simp add: sha_width_def toy_crypto_def)

lemma toy_crypto_ed25519_ok: "ed25519_ok toy_crypto"
  by (simp add: ed25519_ok_def toy_crypto_def)

end
