(* ===== verification/Field.thy ===== *)
theory Field
  imports Bytes Crypto
begin

section \<open>Field elements, identifiers and the field hash (src/pool/field.ts, src/pool/poseidon2.ts)\<close>

text \<open>
  A field element is an integer below the BN254 scalar modulus, written as exactly 32
  big-endian bytes or as \<open>0x\<close> and 64 lowercase hexadecimal digits; a 32-byte identifier is
  two 16-byte limbs.  \<open>bytesToHex\<close>, \<open>hexToBytes\<close> and \<open>BigInt\<close> on a hexadecimal string are
  the conversions between big-endian bytes and integers, which \<open>be_bytes\<close> and \<open>be_int\<close> name.
\<close>

definition FIELD_MODULUS :: int where
  "FIELD_MODULUS = 21888242871839275222246405745257275088548364400416034343698204186575808495617"

definition LIMB_BOUND :: int where
  "LIMB_BOUND = push_bit 128 1"

definition VALUE_BOUND :: int where
  "VALUE_BOUND = push_bit 64 1"

definition isField :: "int \<Rightarrow> bool" where
  "isField value \<longleftrightarrow> value \<ge> 0 \<and> value < FIELD_MODULUS"

definition requireField :: "int \<Rightarrow> string \<Rightarrow> int result" where
  "requireField value what =
     (if \<not> isField value then Inl (EncodingError (what @ '' is not a canonical field element''))
      else Inr value)"

definition isValue :: "int \<Rightarrow> bool" where
  "isValue value \<longleftrightarrow> value \<ge> 0 \<and> value < VALUE_BOUND"

definition fieldToBytes :: "int \<Rightarrow> bytes result" where
  "fieldToBytes value = bindR (requireField value ''field element'') (\<lambda>v. Inr (be_bytes 32 v))"

definition bytesToField :: "bytes \<Rightarrow> int result" where
  "bytesToField own =
     (if length own \<noteq> 32 then Inl (EncodingError ''field element must be 32 bytes'')
      else requireField (be_int own) ''field element'')"

subsection \<open>The text form\<close>

definition hex_digit :: "int \<Rightarrow> char" where
  "hex_digit d = char_of (nat (if d < 10 then 48 + d else 87 + d))"

definition hex_value :: "char \<Rightarrow> int option" where
  "hex_value c = (let n = of_char c :: int in
     if 48 \<le> n \<and> n \<le> 57 then Some (n - 48) else if 97 \<le> n \<and> n \<le> 102 then Some (n - 87) else None)"

text \<open>\<open>value.toString(16)\<close> of a nonnegative integer, and \<open>padStart\<close>.\<close>

function to_hex :: "int \<Rightarrow> string" where
  "to_hex n = (if n < 16 then [hex_digit n] else to_hex (n div 16) @ [hex_digit (n mod 16)])"
  by pat_completeness auto
termination
  by (relation "measure nat") auto

declare to_hex.simps [simp del]

definition padStart :: "nat \<Rightarrow> char \<Rightarrow> string \<Rightarrow> string" where
  "padStart k c s = replicate (k - length s) c @ s"

definition fieldToHex :: "int \<Rightarrow> string result" where
  "fieldToHex value =
     bindR (requireField value ''field element'') (\<lambda>v. Inr (''0x'' @ padStart 64 (CHR ''0'') (to_hex v)))"

text \<open>The regular expression \<open>^0x[0-9a-f]{64}$\<close>, then \<open>BigInt\<close> of the digits.\<close>

definition hexToField :: "string \<Rightarrow> int result" where
  "hexToField text =
     (if \<not> (take 2 text = ''0x'' \<and> length text = 66 \<and> list_all (\<lambda>c. hex_value c \<noteq> None) (drop 2 text))
      then Inl (EncodingError ''field element text must be 0x and 64 lowercase hex digits'')
      else requireField (foldl (\<lambda>n c. n * 16 + the (hex_value c)) 0 (drop 2 text)) ''field element'')"

subsection \<open>Identifiers as limbs\<close>

definition limbsOf :: "bytes \<Rightarrow> (int \<times> int) result" where
  "limbsOf own =
     (if length own \<noteq> 32 then Inl (EncodingError ''identifier must be 32 bytes'')
      else Inr (be_int (take 16 own), be_int (drop 16 own)))"

definition identifierOf :: "int \<Rightarrow> int \<Rightarrow> bytes result" where
  "identifierOf hi lo =
     (if list_ex (\<lambda>limb. limb < 0 \<or> limb \<ge> LIMB_BOUND) [hi, lo]
      then Inl (EncodingError ''identifier limb out of range'')
      else Inr (be_bytes 16 hi @ be_bytes 16 lo))"

subsection \<open>The field hash\<close>

definition poseidon_encoded :: "int \<Rightarrow> bytes" where
  "poseidon_encoded value = be_bytes 32 value"

definition poseidon_decoded :: "bytes \<Rightarrow> int result" where
  "poseidon_decoded bs =
     (if length bs \<noteq> 32 then Inl (PlainError ''Barretenberg returned a hash that is not 32 bytes'')
      else let value = be_int bs in
        if \<not> isField value then Inl (PlainError ''Barretenberg returned a hash that is not a canonical field element'')
        else Inr value)"

definition poseidon2Hash :: "crypto \<Rightarrow> int list \<Rightarrow> int result" where
  "poseidon2Hash C inputs =
     (if \<not> list_all isField inputs \<or> length inputs = 0
      then Inl (EncodingError ''hash input must be one or more canonical field elements'')
      else poseidon_decoded (bb_poseidon2Hash C (map poseidon_encoded inputs)))"

text \<open>
  The backend's documented answer to canonical inputs is one canonical field element in 32
  bytes; \<open>hashVal\<close> is then the value of the hash.
\<close>

definition poseidon_ok :: "crypto \<Rightarrow> bool" where
  "poseidon_ok C \<longleftrightarrow> (\<forall>xs. xs \<noteq> [] \<longrightarrow> list_all isField xs \<longrightarrow>
     length (bb_poseidon2Hash C (map poseidon_encoded xs)) = 32 \<and>
     isField (be_int (bb_poseidon2Hash C (map poseidon_encoded xs))))"

definition hashVal :: "crypto \<Rightarrow> int list \<Rightarrow> int" where
  "hashVal C inputs = be_int (bb_poseidon2Hash C (map poseidon_encoded inputs))"

lemma poseidon2Hash_ok:
  "poseidon_ok C \<Longrightarrow> xs \<noteq> [] \<Longrightarrow> list_all isField xs \<Longrightarrow>
     poseidon2Hash C xs = Inr (hashVal C xs) \<and> isField (hashVal C xs)"
  by (simp add: poseidon_ok_def poseidon2Hash_def poseidon_decoded_def hashVal_def Let_def)

lemma poseidon2Hash_field: "poseidon2Hash C xs = Inr h \<Longrightarrow> isField h"
  by (auto simp: poseidon2Hash_def poseidon_decoded_def Let_def split: if_splits)

subsection \<open>Both directions of each encoding\<close>

lemma isField_bound: "isField v \<Longrightarrow> 0 \<le> v \<and> v < 256 ^ 32"
  by (simp add: isField_def FIELD_MODULUS_def)

lemma isField_0 [simp]: "isField 0" and isField_1 [simp]: "isField 1"
  by (simp_all add: isField_def FIELD_MODULUS_def)

lemma isValue_conv: "isValue v \<longleftrightarrow> 0 \<le> v \<and> v < 2 ^ 64"
  by (simp add: isValue_def VALUE_BOUND_def push_bit_eq_mult)

lemma isValue_field: "isValue v \<Longrightarrow> isField v"
  by (simp add: isValue_def isField_def FIELD_MODULUS_def VALUE_BOUND_def push_bit_eq_mult)

lemma requireField_conv [write_simps, read_simps]: "requireField v what = Inr w \<longleftrightarrow> isField v \<and> w = v"
  by (auto simp: requireField_def)

lemma fieldToBytes_conv [write_simps]: "fieldToBytes v = Inr bs \<longleftrightarrow> isField v \<and> bs = be_bytes 32 v"
  by (auto simp: fieldToBytes_def bindR_Inr_conv requireField_conv)

lemma be_bytes_32_conv: "length bs = 32 \<Longrightarrow> be_bytes 32 (be_int bs) = bs"
  by (metis be_bytes_be_int)

lemma bytesToField_conv [read_simps]: "bytesToField bs = Inr v \<longleftrightarrow> isField v \<and> bs = be_bytes 32 v"
proof -
  have "length bs = 32 \<and> isField (be_int bs) \<and> v = be_int bs \<longleftrightarrow> isField v \<and> bs = be_bytes 32 v"
    using be_bytes_32_conv [of bs] isField_bound [of v] by auto
  then show ?thesis by (auto simp: bytesToField_def requireField_conv)
qed

lemma LIMB_BOUND_256: "LIMB_BOUND = 256 ^ 16"
  by (simp add: LIMB_BOUND_def push_bit_eq_mult)

lemma identifierOf_conv [write_simps, read_simps]:
  "identifierOf hi lo = Inr bs \<longleftrightarrow>
     0 \<le> hi \<and> hi < 256 ^ 16 \<and> 0 \<le> lo \<and> lo < 256 ^ 16 \<and> bs = be_bytes 16 hi @ be_bytes 16 lo"
  by (auto simp: identifierOf_def LIMB_BOUND_256)

lemma limbsOf_identifierOf: "limbsOf bs = Inr (hi, lo) \<longleftrightarrow> identifierOf hi lo = Inr bs"
proof
  assume "limbsOf bs = Inr (hi, lo)"
  then have l: "length bs = 32" and h: "hi = be_int (take 16 bs)" and o: "lo = be_int (drop 16 bs)"
    by (auto simp: limbsOf_def split: if_splits)
  have "be_bytes 16 hi = take 16 bs" "be_bytes 16 lo = drop 16 bs"
    using be_bytes_be_int [of "take 16 bs"] be_bytes_be_int [of "drop 16 bs"] l by (simp_all add: h o)
  moreover have "hi < 256 ^ 16" "lo < 256 ^ 16"
    using be_int_bound [of "take 16 bs"] be_int_bound [of "drop 16 bs"] l by (simp_all add: h o)
  ultimately show "identifierOf hi lo = Inr bs" by (simp add: identifierOf_conv h o)
next
  assume "identifierOf hi lo = Inr bs"
  then show "limbsOf bs = Inr (hi, lo)"
    unfolding identifierOf_conv by (auto simp: limbsOf_def)
qed

lemma limbs_fields: "limbsOf bs = Inr (hi, lo) \<Longrightarrow> isField hi \<and> isField lo"
  unfolding limbsOf_identifierOf identifierOf_conv by (simp add: isField_def FIELD_MODULUS_def)

subsection \<open>The text form is canonical\<close>

lemma hex_value_digit: "0 \<le> d \<Longrightarrow> d < 16 \<Longrightarrow> hex_value (hex_digit d) = Some d"
proof -
  assume d: "0 \<le> d" "d < 16"
  define n where "n = nat (if d < 10 then 48 + d else 87 + d)"
  have "(of_char (char_of n) :: nat) = n" using d by (simp add: n_def)
  then have "(of_char (char_of n) :: int) = int n" by (metis of_nat_of_char)
  then show ?thesis using d by (auto simp: hex_value_def hex_digit_def n_def Let_def)
qed

lemma hex_digit_value: "hex_value c = Some d \<Longrightarrow> 0 \<le> d \<and> d < 16 \<and> hex_digit d = c"
proof -
  assume a: "hex_value c = Some d"
  have n: "nat (of_char c :: int) = of_char c" by (metis nat_int of_nat_of_char)
  from a have "d = of_char c - 48 \<and> 48 \<le> (of_char c :: int) \<and> of_char c \<le> (57 :: int) \<or>
      d = of_char c - 87 \<and> 97 \<le> (of_char c :: int) \<and> of_char c \<le> (102 :: int)"
    by (auto simp: hex_value_def Let_def split: if_splits)
  then show ?thesis by (auto simp: hex_digit_def n)
qed

definition hex_int :: "string \<Rightarrow> int" where
  "hex_int cs = foldl (\<lambda>n c. n * 16 + the (hex_value c)) 0 cs"

fun hex_digits :: "nat \<Rightarrow> int \<Rightarrow> string" where
  "hex_digits 0 n = []"
| "hex_digits (Suc k) n = hex_digits k (n div 16) @ [hex_digit (n mod 16)]"

lemma length_hex_digits [simp]: "length (hex_digits k n) = k"
  by (induction k arbitrary: n) simp_all

lemma hex_digits_0: "hex_digits k 0 = replicate k (CHR ''0'')"
proof -
  have "hex_digit 0 = CHR ''0''" by code_simp
  then show ?thesis by (induction k) (simp_all add: replicate_append_same)
qed

lemma to_hex_digits: "0 \<le> n \<Longrightarrow> n < 16 ^ k \<Longrightarrow> 0 < k \<Longrightarrow> padStart k (CHR ''0'') (to_hex n) = hex_digits k n"
proof (induction k arbitrary: n)
  case (Suc k)
  show ?case
  proof (cases "n < 16")
    case True
    then have "n div 16 = 0" using Suc.prems(1) by simp
    with True Suc.prems show ?thesis by (simp add: to_hex.simps [of n] padStart_def hex_digits_0)
  next
    case False
    with Suc.prems have "0 < k" by (cases k) simp_all
    have "padStart k (CHR ''0'') (to_hex (n div 16)) = hex_digits k (n div 16)"
      by (rule Suc.IH) (use Suc.prems \<open>0 < k\<close> in \<open>simp_all add: int_div_less\<close>)
    then show ?thesis using False by (simp add: to_hex.simps [of n] padStart_def)
  qed
qed simp

lemma hex_int_digits: "0 \<le> n \<Longrightarrow> n < 16 ^ k \<Longrightarrow> hex_int (hex_digits k n) = n"
proof (induction k arbitrary: n)
  case (Suc k)
  have "hex_int (hex_digits k (n div 16)) = n div 16"
    by (rule Suc.IH) (use Suc.prems in \<open>simp_all add: int_div_less\<close>)
  then show ?case by (simp add: hex_int_def hex_value_digit)
qed (simp add: hex_int_def)

lemma hex_digits_all: "list_all (\<lambda>c. hex_value c \<noteq> None) (hex_digits k n)"
  by (induction k arbitrary: n) (simp_all add: hex_value_digit)

lemma hex_digits_int:
  "list_all (\<lambda>c. hex_value c \<noteq> None) cs \<Longrightarrow> 0 \<le> hex_int cs \<and> hex_digits (length cs) (hex_int cs) = cs"
proof (induction cs rule: rev_induct)
  case (snoc c cs)
  then obtain d where d: "hex_value c = Some d" by auto
  note dv = hex_digit_value [OF d]
  have "hex_int (cs @ [c]) = hex_int cs * 16 + d" by (simp add: hex_int_def d)
  then show ?case using snoc dv by simp
qed (simp add: hex_int_def)

lemma fieldToHex_conv: "fieldToHex v = Inr t \<longleftrightarrow> isField v \<and> t = ''0x'' @ hex_digits 64 v"
proof -
  have "padStart 64 (CHR ''0'') (to_hex v) = hex_digits 64 v" if "isField v"
    by (rule to_hex_digits) (use that in \<open>simp_all add: isField_def FIELD_MODULUS_def\<close>)
  then show ?thesis by (auto simp: fieldToHex_def bindR_Inr_conv requireField_conv)
qed

lemma hexToField_conv: "hexToField t = Inr v \<longleftrightarrow> isField v \<and> t = ''0x'' @ hex_digits 64 v"
proof
  assume "hexToField t = Inr v"
  then have t: "take 2 t = ''0x''" "length t = 66" "list_all (\<lambda>c. hex_value c \<noteq> None) (drop 2 t)"
    and v: "isField v" "v = hex_int (drop 2 t)"
    by (auto simp: hexToField_def requireField_conv hex_int_def split: if_splits)
  from t(2,3) hex_digits_int [OF t(3)] have "hex_digits 64 v = drop 2 t" by (simp add: v(2))
  with t(1) v(1) show "isField v \<and> t = ''0x'' @ hex_digits 64 v" by (metis append_take_drop_id)
next
  assume a: "isField v \<and> t = ''0x'' @ hex_digits 64 v"
  then have "hex_int (hex_digits 64 v) = v"
    by (intro hex_int_digits) (simp_all add: isField_def FIELD_MODULUS_def)
  with a hex_digits_all [of 64 v] show "hexToField t = Inr v"
    by (simp add: hexToField_def requireField_conv flip: hex_int_def)
qed

subsection \<open>The concrete instance\<close>

lemma small_field: "0 \<le> n \<Longrightarrow> n < 2 ^ 64 \<Longrightarrow> isField n"
  by (simp add: isField_def FIELD_MODULUS_def)

lemma be_int_field [simp]: "isField v \<Longrightarrow> be_int (be_bytes 32 v) = v"
  using isField_bound by simp

lemma toy_hash:
  assumes "list_all isField xs"
  shows "be_int (toy_poseidon (map poseidon_encoded xs)) = foldl (\<lambda>h x. (h * 3 + x + 1) mod 1000003) 1 xs"
    and "length (toy_poseidon (map poseidon_encoded xs)) = 32"
proof -
  have "foldl (\<lambda>h x. (h * 3 + be_int x + 1) mod 1000003) n (map poseidon_encoded xs) =
      foldl (\<lambda>h x. (h * 3 + x + 1) mod 1000003) n xs" for n
    using assms by (induction xs arbitrary: n) (simp_all add: poseidon_encoded_def isField_bound)
  moreover have "0 \<le> foldl (\<lambda>h x. (h * 3 + x + 1) mod 1000003) 1 xs \<and> foldl (\<lambda>h x. (h * 3 + x + 1) mod 1000003) 1 xs < (1000003 :: int)"
    by (cases xs rule: rev_cases) simp_all
  ultimately show "be_int (toy_poseidon (map poseidon_encoded xs)) = foldl (\<lambda>h x. (h * 3 + x + 1) mod 1000003) 1 xs"
    by (simp add: toy_poseidon_def)
  show "length (toy_poseidon (map poseidon_encoded xs)) = 32" by (simp add: toy_poseidon_def)
qed

lemma toy_hashVal: "list_all isField xs \<Longrightarrow> hashVal toy_crypto xs = foldl (\<lambda>h x. (h * 3 + x + 1) mod 1000003) 1 xs"
  by (simp add: hashVal_def toy_crypto_def toy_hash)

lemma toy_poseidon_ok: "poseidon_ok toy_crypto"
proof -
  have "isField (foldl (\<lambda>h x. (h * 3 + x + 1) mod 1000003) 1 xs)" for xs
    by (cases xs rule: rev_cases) (simp_all add: isField_def FIELD_MODULUS_def)
  then show ?thesis by (simp add: poseidon_ok_def toy_crypto_def toy_hash)
qed

end
