(* ===== verification/Codec.thy ===== *)
theory Codec
  imports Bytes Crypto Field
begin

section \<open>The interfaces of canonical encodings\<close>

text \<open>
  A codec of the source is an encoder that refuses the values it has no encoding for and a
  decoder that refuses every byte string that is not the encoding of a value; callers rely
  on both.  The locale \<open>frame_codec\<close> is that contract, with what follows from it once for
  every codec; \<open>digest_codec\<close> adds an identity hashed from the encoding, as a record's, a
  statement's or a commitment's digest is.  Each component interprets one of them on its own
  encoder and decoder.
\<close>

locale frame_codec =
  fixes encode :: "'a \<Rightarrow> 'b result" and decode :: "'b \<Rightarrow> 'a result"
  assumes decode_iff: "decode bs = Inr x \<longleftrightarrow> encode x = Inr bs"
begin

lemma decode_encode: "encode x = Inr bs \<Longrightarrow> decode bs = Inr x"
  by (simp add: decode_iff)

lemma encode_decode: "decode bs = Inr x \<Longrightarrow> encode x = Inr bs"
  by (simp add: decode_iff)

lemma encode_inj: "encode x = Inr bs \<Longrightarrow> encode y = Inr bs \<Longrightarrow> x = y"
  by (metis decode_iff sum.inject(2))

lemma decode_inj: "decode as = Inr x \<Longrightarrow> decode bs = Inr x \<Longrightarrow> as = bs"
  by (metis decode_iff sum.inject(2))

lemma decode_refuses: "(\<nexists>x. encode x = Inr bs) \<Longrightarrow> \<exists>e. decode bs = Inl e"
  by (metis decode_iff old.sum.exhaust)

lemma decode_ok_iff: "isOk (decode bs) \<longleftrightarrow> (\<exists>x. encode x = Inr bs)"
  by (simp add: isOk_conv decode_iff)

lemma recode: "bindR (decode bs) encode = Inr cs \<Longrightarrow> cs = bs"
  by (auto simp: bindR_Inr_conv decode_iff)

end

text \<open>An identity that is the hash of the encoding.\<close>

locale digest_codec = frame_codec encode decode
  for encode :: "'a \<Rightarrow> bytes result" and decode :: "bytes \<Rightarrow> 'a result" +
  fixes H :: "bytes \<Rightarrow> bytes" and ident :: "'a \<Rightarrow> bytes result"
  assumes ident_conv: "ident x = mapR H (encode x)"
begin

text \<open>Where the hash does not collide on the two encodings, equal identities are equal values.\<close>

lemma ident_binds:
  assumes "ident x = Inr h" and "ident y = Inr h"
    and "inj_on H {bs. encode x = Inr bs \<or> encode y = Inr bs}"
  shows "x = y"
proof -
  obtain a b where a: "encode x = Inr a" "h = H a" and b: "encode y = Inr b" "h = H b"
    using assms(1,2) by (auto simp: ident_conv mapR_Inr_conv)
  have "a = b" by (rule inj_onD [OF assms(3)]) (use a b in auto)
  then show ?thesis using encode_inj a(1) b(1) by simp
qed

lemma ident_total: "encode x = Inr bs \<Longrightarrow> ident x = Inr (H bs)"
  by (simp add: ident_conv)

lemma ident_defined: "isOk (ident x) \<longleftrightarrow> isOk (encode x)"
  by (auto simp: ident_conv isOk_conv mapR_Inr_conv)

end

interpretation minimal_codec: frame_codec bigintToMinimalBytes minimalBytesToBigint
  by unfold_locales (rule minimalBytesToBigint_conv)

interpretation field_codec: frame_codec fieldToBytes bytesToField
  by unfold_locales (simp add: fieldToBytes_conv bytesToField_conv)

interpretation field_text_codec: frame_codec fieldToHex hexToField
  by unfold_locales (simp add: fieldToHex_conv hexToField_conv)

interpretation limb_codec: frame_codec "\<lambda>(hi, lo). identifierOf hi lo" limbsOf
  by unfold_locales (auto simp: limbsOf_identifierOf)

subsection \<open>Properties\<close>

text \<open>Minimal integers are canonical. A byte string decodes to a quantity exactly where it is the
  encoding of that quantity, and every nonnegative integer has one, so no quantity has two encodings
  and no byte string with a leading zero is accepted.\<close>

theorem minimal_integers_canonical:
  "(minimalBytesToBigint bs = Inr n \<longleftrightarrow> bigintToMinimalBytes n = Inr bs) \<and>
   (isOk (bigintToMinimalBytes n) \<longleftrightarrow> 0 \<le> n) \<and> (isOk (minimalBytesToBigint (0 # cs)) \<longleftrightarrow> False)"
  using minimal_codec.decode_iff
  by (auto simp: isOk_conv bigintToMinimalBytes_conv minimalBytesToBigint_def)

text \<open>Field elements and identifiers have one encoding each. The 32-byte form, the text form and the
  two limbs of an identifier each decode to a value exactly where they are its encoding; only canonical
  field elements have the first two.\<close>

theorem field_encodings_canonical:
  "(bytesToField bs = Inr v \<longleftrightarrow> fieldToBytes v = Inr bs) \<and> (hexToField t = Inr v \<longleftrightarrow> fieldToHex v = Inr t) \<and>
   (limbsOf bs = Inr (hi, lo) \<longleftrightarrow> identifierOf hi lo = Inr bs) \<and>
   (isOk (fieldToBytes v) \<longleftrightarrow> isField v) \<and> (isOk (fieldToHex v) \<longleftrightarrow> isField v) \<and> (isOk (limbsOf bs) \<longleftrightarrow> length bs = 32)"
proof -
  have "isOk (limbsOf bs) \<longleftrightarrow> length bs = 32" by (simp add: limbsOf_def)
  moreover have "isOk (fieldToBytes v) \<longleftrightarrow> isField v" "isOk (fieldToHex v) \<longleftrightarrow> isField v"
    by (simp_all add: isOk_conv fieldToBytes_conv fieldToHex_conv)
  ultimately show ?thesis
    using field_codec.decode_iff field_text_codec.decode_iff limbsOf_identifierOf by simp
qed

end
