(* ===== verification/Records.thy ===== *)
theory Records
  imports Contexts Codec
begin

section \<open>Statements, records and publications (src/pool/v3/records.ts)\<close>

text \<open>
  The canonical frames of pool-v3: a statement, a record (a statement with its proof,
  authorization and capsules), the proof-free form a succinct reader keeps, an acceptance, a
  publication, and the digests taken of them.  As in the source a record extends a statement, so
  every statement function applies to all of them.  A kind is an integer between 1 and 7.
\<close>

definition COUNTS :: "nat list" where "COUNTS = [0, 11, 15, 15, 16, 7, 17, 7]"
definition AUTH_LENGTHS :: "nat list" where "AUTH_LENGTHS = [0, 64, 0, 0, 0, 64, 136, 0]"
definition CAPSULE_COUNTS :: "nat list" where "CAPSULE_COUNTS = [0, 1, 4, 1, 0, 0, 0, 0]"
definition MAX_PROOF :: int where "MAX_PROOF = 131072"

definition provedKind :: "int \<Rightarrow> bool" where
  "provedKind kind \<longleftrightarrow> kind = 1 \<or> kind = 2 \<or> kind = 3 \<or> kind = 4 \<or> kind = 6"

record statement =
  s_domain :: bytes
  s_kind :: int
  s_inputs :: "int list"

record v3_record = statement +
  r_proof :: bytes
  r_authorization :: bytes
  r_capsules :: "bytes list"

record proof_free = statement +
  pf_proofHash :: bytes
  pf_authorization :: bytes
  pf_capsules :: "bytes list"

record acceptance =
  a_domain :: bytes
  a_demand :: bytes
  a_owner :: int
  a_deadline :: int

record signed_acceptance = acceptance +
  a_signature :: bytes

definition requireBytes :: "bytes \<Rightarrow> nat \<Rightarrow> unit result" where
  "requireBytes v len = requireR (length v = len) (EncodingError ''wrong byte type or length'')"

text \<open>\<open>fixed\<close> of a value, and \<open>fixed\<close> of an encoded field element.\<close>

definition w_req :: "bytes \<Rightarrow> nat \<Rightarrow> writer" where
  "w_req v len out = bindR (requireBytes v len) (\<lambda>_. w_fixed v len ''fixed field'' out)"

definition w_field :: "int \<Rightarrow> writer" where
  "w_field v out = bindR (fieldToBytes v) (\<lambda>bs. w_req bs 32 out)"

definition same :: "bytes \<Rightarrow> bytes \<Rightarrow> unit result" where
  "same a b = requireR (compareBytes a b = 0) (EncodingError ''inconsistent domain, backing or digest'')"

definition requireKind :: "int \<Rightarrow> unit result" where
  "requireKind v = requireR (1 \<le> v \<and> v \<le> 7) (EncodingError ''unknown statement kind'')"

definition readContext :: "bytes \<Rightarrow> unit read" where
  "readContext tg = bindP (r_raw (int (length tg))) (\<lambda>b. liftP (same b tg))"

definition pair :: "int list \<Rightarrow> nat \<Rightarrow> bytes result" where
  "pair p i = identifierOf (p ! i) (p ! (i + 1))"

definition requirePair :: "int list \<Rightarrow> nat \<Rightarrow> unit result" where
  "requirePair p i = bindR (pair p i) (\<lambda>_. Inr ())"

definition requireStatement :: "'a statement_scheme \<Rightarrow> unit result" where
  "requireStatement s = (let p = s_inputs s; kind = s_kind s in
     bindR (requireBytes (s_domain s) 32) (\<lambda>_.
     bindR (requireKind kind) (\<lambda>_.
     bindR (requireR (length p = COUNTS ! nat kind) (EncodingError ''wrong public-input count'')) (\<lambda>_.
     bindR (requireR (list_all isField p) (EncodingError ''noncanonical public input'')) (\<lambda>_.
     bindR (pair p 0) (\<lambda>d. bindR (same (s_domain s) d) (\<lambda>_.
     if kind = 7 then bindR (requirePair p 2) (\<lambda>_. requireR (isValue (p ! 6)) (EncodingError ''refresh outside u64''))
     else bindR (requirePair p 2) (\<lambda>_.
     if kind = 5 then requirePair p 5
     else bindR (if kind \<noteq> 2 then bindR (requirePair p 5) (\<lambda>_.
         requireR (isValue (p ! 7) \<and> p ! 7 \<noteq> 0) (EncodingError ''quantity outside positive u64'')) else Inr ()) (\<lambda>_.
       bindR (if kind \<le> 3 then requirePair p (length p - 2) else Inr ()) (\<lambda>_.
       bindR (if kind = 4 then bindR (requirePair p 12) (\<lambda>_.
         requireR (isValue (p ! 14) \<and> isValue (p ! 15)) (EncodingError ''time outside u64'')) else Inr ()) (\<lambda>_.
       if kind = 6 then requirePair p 15 else Inr ())))))))))))"

definition statementBytes :: "'a statement_scheme \<Rightarrow> bytes result" where
  "statementBytes s =
     bindR (requireStatement s) (\<lambda>_.
     written ([w_context V3_STATEMENT_CONTEXT, w_req (s_domain s) 32, w_u8 (s_kind s), w_u32 (int (length (s_inputs s)))] @
       map w_field (s_inputs s)))"

definition statementHash :: "crypto \<Rightarrow> 'a statement_scheme \<Rightarrow> bytes result" where
  "statementHash C s = mapR (sha256 C) (statementBytes s)"

definition w_capsule :: "int \<times> bytes \<Rightarrow> writer" where
  "w_capsule = (\<lambda>(cm, capsule) out.
     bindR (w_field cm out) (\<lambda>out1.
     bindR (requireBytes capsule 89) (\<lambda>_.
     if capsule ! 0 \<noteq> 1 then Inl (EncodingError ''unsupported capsule profile'') else w_req capsule 89 out1)))"

definition deliveryHash :: "crypto \<Rightarrow> bytes \<Rightarrow> int list \<Rightarrow> bytes list \<Rightarrow> bytes result" where
  "deliveryHash C domain outputs capsules =
     bindR (requireBytes domain 32) (\<lambda>_.
     if length outputs \<noteq> 1 \<and> length outputs \<noteq> 4 \<or> length capsules \<noteq> length outputs
     then Inl (EncodingError ''wrong delivery vector count'')
     else mapR (sha256 C) (written ([w_context V3_DELIVERY_CONTEXT, w_req domain 32, w_u32 (int (length outputs))] @
       map w_capsule (zip outputs capsules))))"

definition proofLengthHolds :: "int \<Rightarrow> int \<Rightarrow> bool" where
  "proofLengthHolds kind len =
     (if kind = 5 then len = 0 else len > 0 \<and> len \<le> MAX_PROOF \<and> len mod 32 = 0)"

text \<open>The outputs a capsule vector delivers, by kind.\<close>

definition delivered :: "int \<Rightarrow> int list \<Rightarrow> int list" where
  "delivered kind p = (if kind = 1 then [p ! 8] else if kind = 2 then take 4 (drop 9 p) else [p ! 12])"

definition requireAuthorizationAndCapsules :: "crypto \<Rightarrow> 'a statement_scheme \<Rightarrow> bytes \<Rightarrow> bytes list \<Rightarrow> unit result" where
  "requireAuthorizationAndCapsules C s authorization capsules =
     bindR (requireBytes authorization (AUTH_LENGTHS ! nat (s_kind s))) (\<lambda>_.
     bindR (requireR (length capsules = CAPSULE_COUNTS ! nat (s_kind s)) (EncodingError ''wrong capsule count'')) (\<lambda>_.
     if length capsules > 0
     then let p = s_inputs s in
       bindR (pair p (length p - 2)) (\<lambda>d.
       bindR (deliveryHash C (s_domain s) (delivered (s_kind s) p) capsules) (\<lambda>h. same d h))
     else Inr ()))"

definition requireRecord :: "crypto \<Rightarrow> 'a v3_record_scheme \<Rightarrow> unit result" where
  "requireRecord C s =
     bindR (requireStatement s) (\<lambda>_.
     bindR (requireR (proofLengthHolds (s_kind s) (int (length (r_proof s)))) (EncodingError ''wrong proof length'')) (\<lambda>_.
     requireAuthorizationAndCapsules C s (r_authorization s) (r_capsules s)))"

definition encodeRecord :: "crypto \<Rightarrow> v3_record \<Rightarrow> bytes result" where
  "encodeRecord C s =
     bindR (requireRecord C s) (\<lambda>_. bindR (statementBytes s) (\<lambda>sb.
     written ([w_context sb, w_lengthPrefixed (r_proof s), w_lengthPrefixed (r_authorization s),
       w_u32 (int (length (r_capsules s)))] @ map (\<lambda>c. w_req c 89) (r_capsules s))))"

definition readField :: "int read" where
  "readField = bindP (r_raw 32) (\<lambda>b. liftP (bytesToField b))"

definition readStatement :: "statement read" where
  "readStatement =
     bindP (readContext V3_STATEMENT_CONTEXT) (\<lambda>_.
     bindP (r_raw 32) (\<lambda>domain.
     bindP r_u8 (\<lambda>kind.
     bindP (liftP (requireKind kind)) (\<lambda>_.
     bindP r_u32 (\<lambda>count.
     if count \<noteq> int (COUNTS ! nat kind) then liftP (Inl (EncodingError ''wrong public-input count''))
     else bindP (repeatP (nat count) readField) (\<lambda>inputs.
       let s = \<lparr>s_domain = domain, s_kind = kind, s_inputs = inputs\<rparr> in
       bindP (liftP (requireStatement s)) (\<lambda>_. returnP s)))))))"

definition decodeStatement :: "bytes \<Rightarrow> statement result" where
  "decodeStatement = decoded_by (bindP readStatement (\<lambda>s. bindP r_expectEnd (\<lambda>_. returnP s)))"

definition readCapsules :: "int \<Rightarrow> bytes list read" where
  "readCapsules kind =
     bindP r_u32 (\<lambda>count.
     if count \<noteq> int (CAPSULE_COUNTS ! nat kind) then liftP (Inl (EncodingError ''wrong capsule count''))
     else repeatP (nat count) (r_raw 89))"

definition decodeRecord :: "crypto \<Rightarrow> bytes \<Rightarrow> v3_record result" where
  "decodeRecord C = decoded_by (
     bindP (bindP readStatement (\<lambda>s.
       bindP (r_lengthPrefixed (if s_kind s = 5 then 0 else MAX_PROOF)) (\<lambda>proof.
       bindP (r_lengthPrefixed (int (AUTH_LENGTHS ! nat (s_kind s)))) (\<lambda>authorization.
       bindP (readCapsules (s_kind s)) (\<lambda>capsules.
       returnP \<lparr>s_domain = s_domain s, s_kind = s_kind s, s_inputs = s_inputs s,
         r_proof = proof, r_authorization = authorization, r_capsules = capsules\<rparr>)))))
     (\<lambda>result. bindP r_expectEnd (\<lambda>_. bindP (liftP (requireRecord C result)) (\<lambda>_. returnP result))))"

subsection \<open>The proof-free form\<close>

definition requireProofFree :: "crypto \<Rightarrow> proof_free \<Rightarrow> unit result" where
  "requireProofFree C s =
     bindR (requireStatement s) (\<lambda>_.
     bindR (requireBytes (pf_proofHash s) 32) (\<lambda>_.
     bindR (requireR ((s_kind s = 5) = list_all (\<lambda>b. b = 0) (pf_proofHash s)) (EncodingError ''wrong proof digest sentinel'')) (\<lambda>_.
     requireAuthorizationAndCapsules C s (pf_authorization s) (pf_capsules s))))"

definition encodeProofFree :: "crypto \<Rightarrow> proof_free \<Rightarrow> bytes result" where
  "encodeProofFree C s =
     bindR (requireProofFree C s) (\<lambda>_. bindR (statementBytes s) (\<lambda>sb.
     written ([w_context sb, w_req (pf_proofHash s) 32, w_lengthPrefixed (pf_authorization s),
       w_u32 (int (length (pf_capsules s)))] @ map (\<lambda>c. w_req c 89) (pf_capsules s))))"

definition decodeProofFree :: "crypto \<Rightarrow> bytes \<Rightarrow> proof_free result" where
  "decodeProofFree C = decoded_by (
     bindP (bindP readStatement (\<lambda>s.
       bindP (r_raw 32) (\<lambda>proofHash.
       bindP (r_lengthPrefixed (int (AUTH_LENGTHS ! nat (s_kind s)))) (\<lambda>authorization.
       bindP (readCapsules (s_kind s)) (\<lambda>capsules.
       returnP \<lparr>s_domain = s_domain s, s_kind = s_kind s, s_inputs = s_inputs s,
         pf_proofHash = proofHash, pf_authorization = authorization, pf_capsules = capsules\<rparr>)))))
     (\<lambda>result. bindP r_expectEnd (\<lambda>_. bindP (liftP (requireProofFree C result)) (\<lambda>_. returnP result))))"

definition proofFreeOf :: "crypto \<Rightarrow> v3_record \<Rightarrow> proof_free result" where
  "proofFreeOf C s =
     bindR (requireRecord C s) (\<lambda>_.
     Inr \<lparr>s_domain = s_domain s, s_kind = s_kind s, s_inputs = s_inputs s,
       pf_proofHash = (if length (r_proof s) > 0 then sha256 C (r_proof s) else replicate 32 0),
       pf_authorization = r_authorization s, pf_capsules = r_capsules s\<rparr>)"

record evidence_digests =
  e_statementHash :: bytes
  e_proofHash :: bytes
  e_signatureHash :: bytes

definition hashEvidenceFields :: "crypto \<Rightarrow> bytes \<Rightarrow> bytes \<Rightarrow> bytes \<Rightarrow> evidence_digests result" where
  "hashEvidenceFields C st proof authorization =
     bindR (requireBytes st 32) (\<lambda>_.
     Inr \<lparr>e_statementHash = st,
       e_proofHash = (if length proof > 0 then sha256 C proof else replicate 32 0),
       e_signatureHash = (if length authorization > 0 then sha256 C authorization else replicate 32 0)\<rparr>)"

definition evidenceHashes :: "crypto \<Rightarrow> v3_record \<Rightarrow> evidence_digests result" where
  "evidenceHashes C s =
     bindR (requireRecord C s) (\<lambda>_. bindR (statementHash C s) (\<lambda>h.
     hashEvidenceFields C h (r_proof s) (r_authorization s)))"

definition proofFreeDigests :: "crypto \<Rightarrow> proof_free \<Rightarrow> evidence_digests result" where
  "proofFreeDigests C s =
     bindR (requireProofFree C s) (\<lambda>_. bindR (statementHash C s) (\<lambda>h.
     Inr \<lparr>e_statementHash = h, e_proofHash = pf_proofHash s,
       e_signatureHash = (if length (pf_authorization s) > 0 then sha256 C (pf_authorization s) else replicate 32 0)\<rparr>))"

subsection \<open>Acceptances, releases and settlement authorizations\<close>

definition acceptanceBytes :: "'a acceptance_scheme \<Rightarrow> bytes result" where
  "acceptanceBytes a =
     (if \<not> isField (a_owner a) \<or> a_owner a = 0 \<or> \<not> isValue (a_deadline a)
      then Inl (EncodingError ''invalid acceptance owner or deadline'')
      else written [w_context V3_ACCEPTANCE_CONTEXT, w_req (a_domain a) 32, w_req (a_demand a) 32,
        w_field (a_owner a), w_u64 (a_deadline a)])"

definition acceptanceId :: "crypto \<Rightarrow> 'a acceptance_scheme \<Rightarrow> bytes result" where
  "acceptanceId C a = mapR (sha256 C) (acceptanceBytes a)"

definition releaseBytes :: "bytes \<Rightarrow> bytes \<Rightarrow> bytes \<Rightarrow> bytes \<Rightarrow> bytes result" where
  "releaseBytes domain demand acceptance settlement =
     written (w_context V3_RELEASE_CONTEXT # map (\<lambda>i. w_req i 32) [domain, demand, acceptance, settlement])"

definition withdrawalBytes :: "crypto \<Rightarrow> 'a statement_scheme \<Rightarrow> bytes result" where
  "withdrawalBytes C s =
     bindR (requireStatement s) (\<lambda>_.
     if s_kind s \<noteq> 5 then Inl (EncodingError ''not a withdrawal'')
     else bindR (statementHash C s) (\<lambda>h.
       written [w_context V3_WITHDRAWAL_CONTEXT, w_req (s_domain s) 32, w_req h 32]))"

definition encodeSettlementAuthorization :: "int \<Rightarrow> bytes \<Rightarrow> bytes \<Rightarrow> bytes result" where
  "encodeSettlementAuthorization deadline acceptanceSignature releaseSignature =
     written [w_u64 deadline, w_req acceptanceSignature 64, w_req releaseSignature 64]"

record settlement_authorization =
  sa_acceptance :: signed_acceptance
  sa_acceptanceMessage :: bytes
  sa_releaseMessage :: bytes
  sa_releaseSignature :: bytes

definition settlementFields :: "bytes \<Rightarrow> (int \<times> bytes \<times> bytes) result" where
  "settlementFields = decoded_by (
     bindP (bindP r_u64 (\<lambda>deadline. bindP (r_raw 64) (\<lambda>signature. bindP (r_raw 64) (\<lambda>release.
       returnP (deadline, signature, release)))))
     (\<lambda>x. bindP r_expectEnd (\<lambda>_. returnP x)))"

definition settlementAuthorization :: "crypto \<Rightarrow> 'a statement_scheme \<Rightarrow> bytes \<Rightarrow> settlement_authorization result" where
  "settlementAuthorization C s authorization =
     bindR (requireStatement s) (\<lambda>_.
     if s_kind s \<noteq> 6 then Inl (EncodingError ''not a settlement'')
     else bindR (requireBytes authorization (AUTH_LENGTHS ! 6)) (\<lambda>_.
       bindR (settlementFields authorization) (\<lambda>(deadline, signature, release).
       bindR (pair (s_inputs s) 15) (\<lambda>demand.
       let a = \<lparr>a_domain = s_domain s, a_demand = demand, a_owner = s_inputs s ! 8, a_deadline = deadline,
           a_signature = signature\<rparr> in
       bindR (acceptanceBytes a) (\<lambda>message.
       bindR (acceptanceId C a) (\<lambda>aid. bindR (statementHash C s) (\<lambda>h.
       bindR (releaseBytes (s_domain s) (a_demand a) aid h) (\<lambda>releaseMessage.
       Inr \<lparr>sa_acceptance = a, sa_acceptanceMessage = message, sa_releaseMessage = releaseMessage,
         sa_releaseSignature = release\<rparr>))))))))"

subsection \<open>Publications\<close>

text \<open>The body of a publication is an acceptance exactly under kind 2; a body of the other kind reads as an absent field.\<close>

datatype publication_body = AcceptanceBody signed_acceptance | RecordBody v3_record

record publication =
  p_domain :: bytes
  p_backing :: bytes
  p_kind :: int
  p_body :: publication_body

definition PUBLICATION_STATEMENT :: "int \<Rightarrow> int" where
  "PUBLICATION_STATEMENT kind = (if kind = 1 then 4 else if kind = 3 then 6 else if kind = 4 then 5 else 7)"

definition requirePublicationKind :: "int \<Rightarrow> unit result" where
  "requirePublicationKind v =
     requireR (\<not> (v \<noteq> 1 \<and> v \<noteq> 2 \<and> v \<noteq> 3 \<and> v \<noteq> 4 \<and> v \<noteq> 5)) (EncodingError ''unknown publication kind'')"

definition bodyBound :: "int \<Rightarrow> int \<Rightarrow> int" where
  "bodyBound kind proofBytes =
     (if kind = 2 then 190
      else let k = PUBLICATION_STATEMENT kind in
        58 + 32 * int (COUNTS ! nat k) + 12 + (if k = 5 then 0 else proofBytes) + int (AUTH_LENGTHS ! nat k) +
        89 * int (CAPSULE_COUNTS ! nat k))"

definition publicationBound :: "int \<Rightarrow> int result" where
  "publicationBound proofBytes =
     (if proofBytes \<le> 0 \<or> proofBytes > MAX_PROOF \<or> proofBytes mod 32 \<noteq> 0 then Inl (EncodingError ''wrong proof length'')
      else Inr (int (length V3_PUBLICATION_CONTEXT) + 32 + 32 + 1 + 4 +
        fold max (map (\<lambda>kind. bodyBound kind proofBytes) [2, 3, 4, 5]) (bodyBound 1 proofBytes)))"

definition requireRouting :: "crypto \<Rightarrow> publication \<Rightarrow> unit result" where
  "requireRouting C p =
     bindR (requirePublicationKind (p_kind p)) (\<lambda>_.
     bindR (requireBytes (p_domain p) 32) (\<lambda>_.
     bindR (requireBytes (p_backing p) 32) (\<lambda>_.
     if p_kind p = 2
     then (case p_body p of
         RecordBody _ \<Rightarrow> Inl (EncodingError ''not an object'')
       | AcceptanceBody a \<Rightarrow> bindR (requireBytes (a_domain a) 32) (\<lambda>_. same (p_domain p) (a_domain a)))
     else (case p_body p of
         AcceptanceBody _ \<Rightarrow> Inl (EncodingError ''not an object'')
       | RecordBody r \<Rightarrow> bindR (requireRecord C r) (\<lambda>_.
           bindR (requireR (s_kind r = PUBLICATION_STATEMENT (p_kind p)) (EncodingError ''wrong publication body kind'')) (\<lambda>_.
           bindR (same (p_domain p) (s_domain r)) (\<lambda>_.
           if p_kind p \<noteq> 4
           then bindR (pair (s_inputs r) (if p_kind p = 5 then 2 else 5)) (\<lambda>b. same (p_backing p) b)
           else Inr ())))))))"

definition encodeSignedAcceptance :: "signed_acceptance \<Rightarrow> bytes result" where
  "encodeSignedAcceptance a = bindR (acceptanceBytes a) (\<lambda>ab. written [w_context ab, w_req (a_signature a) 64])"

definition encodePublication :: "crypto \<Rightarrow> publication \<Rightarrow> bytes result" where
  "encodePublication C p =
     bindR (requireRouting C p) (\<lambda>_.
     bindR (case p_body p of AcceptanceBody a \<Rightarrow> encodeSignedAcceptance a | RecordBody r \<Rightarrow> encodeRecord C r) (\<lambda>body.
     written [w_context V3_PUBLICATION_CONTEXT, w_req (p_domain p) 32, w_req (p_backing p) 32, w_u8 (p_kind p),
       w_lengthPrefixed body]))"

definition publicationId :: "crypto \<Rightarrow> publication \<Rightarrow> bytes result" where
  "publicationId C p = mapR (sha256 C) (encodePublication C p)"

definition decodeSignedAcceptance :: "bytes \<Rightarrow> signed_acceptance result" where
  "decodeSignedAcceptance = decoded_by (
     bindP (bindP (readContext V3_ACCEPTANCE_CONTEXT) (\<lambda>_. bindP (r_raw 32) (\<lambda>domain. bindP (r_raw 32) (\<lambda>demand.
       bindP readField (\<lambda>owner. bindP r_u64 (\<lambda>deadline. bindP (r_raw 64) (\<lambda>signature.
       returnP \<lparr>a_domain = domain, a_demand = demand, a_owner = owner, a_deadline = deadline, a_signature = signature\<rparr>)))))))
     (\<lambda>a. bindP r_expectEnd (\<lambda>_. bindP (liftP (mapR (\<lambda>_. ()) (acceptanceBytes a))) (\<lambda>_. returnP a))))"

definition readPublicationFrame :: "(bytes \<times> bytes \<times> int \<times> bytes) read" where
  "readPublicationFrame =
     bindP (readContext V3_PUBLICATION_CONTEXT) (\<lambda>_. bindP (r_raw 32) (\<lambda>domain. bindP (r_raw 32) (\<lambda>backing.
     bindP r_u8 (\<lambda>kind. bindP (liftP (requirePublicationKind kind)) (\<lambda>_.
     bindP (r_lengthPrefixed (bodyBound kind MAX_PROOF)) (\<lambda>body. returnP (domain, backing, kind, body)))))))"

definition decodePublication :: "crypto \<Rightarrow> bytes \<Rightarrow> publication result" where
  "decodePublication C bs =
     bindR (decoded_by (bindP readPublicationFrame (\<lambda>x. bindP r_expectEnd (\<lambda>_. returnP x))) bs) (\<lambda>(domain, backing, kind, body).
     bindR (if kind = 2 then mapR AcceptanceBody (decodeSignedAcceptance body) else mapR RecordBody (decodeRecord C body)) (\<lambda>b.
     let result = \<lparr>p_domain = domain, p_backing = backing, p_kind = kind, p_body = b\<rparr> in
     bindR (requireRouting C result) (\<lambda>_. Inr result)))"

subsection \<open>Frames: when an encoder succeeds and what it writes\<close>

lemma requireBytes_conv [write_simps, read_simps]: "requireBytes v n = Inr u \<longleftrightarrow> length v = n"
  by (simp add: requireBytes_def)

lemma w_req_conv [write_simps]: "w_req v n out = Inr r \<longleftrightarrow> length v = n \<and> r = out @ v"
  by (auto simp: w_req_def bindR_Inr_conv requireBytes_conv w_fixed_conv)

lemma w_field_conv [write_simps]: "w_field v out = Inr r \<longleftrightarrow> isField v \<and> r = out @ be_bytes 32 v"
  by (auto simp: w_field_def bindR_Inr_conv fieldToBytes_conv w_req_conv)

lemma same_conv [write_simps, read_simps]: "same a b = Inr u \<longleftrightarrow> a = b"
  by (simp add: same_def)

lemma requireKind_conv: "requireKind k = Inr u \<longleftrightarrow> 1 \<le> k \<and> k \<le> 7"
  by (simp add: requireKind_def)

lemma readContext_conv [read_simps]:
  "readContext tg (reader_at pre rest) = Inr (u, r') \<longleftrightarrow> (\<exists>rest'. rest = tg @ rest' \<and> r' = reader_at (pre @ tg) rest')"
  by (auto simp: readContext_def read_simps)

lemma readContext_run [run_simps]: "readContext tg (reader_at pre (tg @ rest)) = Inr ((), reader_at (pre @ tg) rest)"
  by (simp add: readContext_conv)

lemma run_w_fields: "run_writes (map w_field vs) out = Inr r \<longleftrightarrow> list_all isField vs \<and> r = out @ concat (map (be_bytes 32) vs)"
  by (rule run_writes_map) (rule w_field_conv)

lemma run_w_reqs: "run_writes (map (\<lambda>c. w_req c n) vs) out = Inr r \<longleftrightarrow>
    list_all (\<lambda>c. length c = n) vs \<and> r = out @ concat (map (\<lambda>c. c) vs)"
  by (rule run_writes_map) (simp add: w_req_conv)

lemma kind_cases: "1 \<le> k \<Longrightarrow> k \<le> 7 \<Longrightarrow> k = 1 \<or> k = 2 \<or> k = 3 \<or> k = 4 \<or> k = 5 \<or> k = 6 \<or> k = (7 :: int)"
  by presburger

lemma kind_tables:
  assumes "1 \<le> k" and "k \<le> 7"
  shows "COUNTS ! nat k \<le> 17" and "AUTH_LENGTHS ! nat k \<le> 136" and "CAPSULE_COUNTS ! nat k \<le> 4"
  using kind_cases [OF assms] by (elim disjE; simp add: COUNTS_def AUTH_LENGTHS_def CAPSULE_COUNTS_def)+

text \<open>\<open>statement_ok\<close> is that the statement's range and routing checks pass.\<close>

abbreviation statement_ok :: "'a statement_scheme \<Rightarrow> bool" where
  "statement_ok s \<equiv> requireStatement s = Inr ()"

lemma requireStatement_shape:
  assumes "statement_ok s"
  shows "length (s_domain s) = 32" and "1 \<le> s_kind s" and "s_kind s \<le> 7"
    and "length (s_inputs s) = COUNTS ! nat (s_kind s)" and "list_all isField (s_inputs s)"
  using assms unfolding requireStatement_def Let_def bindR_Inr_conv requireBytes_conv requireKind_conv requireR_Inr
  by blast+

lemma requireStatement_truncate: "requireStatement (statement.truncate s) = requireStatement s"
  by (simp add: requireStatement_def statement.truncate_def)

definition statement_enc :: "'a statement_scheme \<Rightarrow> bytes" where
  "statement_enc s = V3_STATEMENT_CONTEXT @ s_domain s @ be_bytes 1 (s_kind s) @
     be_bytes 4 (int (length (s_inputs s))) @ concat (map (be_bytes 32) (s_inputs s))"

lemma statementBytes_conv [write_simps]: "statementBytes s = Inr bs \<longleftrightarrow> statement_ok s \<and> bs = statement_enc s"
proof -
  have "run_writes (map w_field (s_inputs s)) out = Inr r \<longleftrightarrow> r = out @ concat (map (be_bytes 32) (s_inputs s))"
    if "statement_ok s" for out r
    using requireStatement_shape(5) [OF that] by (simp add: run_w_fields)
  moreover have "int (length (s_inputs s)) < 4294967296" if "statement_ok s"
    using requireStatement_shape [OF that] kind_tables(1) [of "s_kind s"] by simp
  ultimately show ?thesis
    using requireStatement_shape [of s]
    by (auto simp: statementBytes_def bindR_Inr_conv write_simps statement_enc_def)
qed

lemma statement_enc_truncate: "statement_enc (statement.truncate s) = statement_enc s"
  by (simp add: statement_enc_def statement.truncate_def)

lemma length_fields [simp]: "length (concat (map (be_bytes 32) vs)) = 32 * length vs"
  by (induction vs) simp_all

lemma length_statement_enc:
  "statement_ok s \<Longrightarrow> length (statement_enc s) = 58 + 32 * COUNTS ! nat (s_kind s)"
  using requireStatement_shape [of s] by (simp add: statement_enc_def V3_STATEMENT_CONTEXT_def)

lemma readField_reads: "reads readField (be_bytes 32) isField"
proof (rule reads_splitI)
  show "readField (reader_at pre (be_bytes 32 x @ rest)) = Inr (x, reader_at (pre @ be_bytes 32 x) rest)"
    if "isField x" for pre rest x
    using that by (simp add: readField_def run_simps bytesToField_conv)
qed (auto simp: readField_def read_simps)

lemmas readField_run [run_simps] = reads_run [OF readField_reads]
lemmas readField_conv [read_simps] = readsD [OF readField_reads]

lemmas readFields_reads = repeatP_reads [OF readField_reads]

lemma readStatement_reads: "reads readStatement statement_enc statement_ok"
proof (rule reads_splitI)
  fix pre rest s r'
  assume "readStatement (reader_at pre rest) = Inr (s, r')"
  then show "statement_ok s \<and> (\<exists>rest'. rest = statement_enc s @ rest' \<and> r' = reader_at (pre @ statement_enc s) rest')"
    unfolding readStatement_def
    by (auto simp: read_simps Let_def requireKind_conv readsD [OF readFields_reads] statement_enc_def split: if_splits)
next
  fix pre rest and s :: statement
  assume ok: "statement_ok s"
  note sh = requireStatement_shape [OF ok]
  have n: "int (length (s_inputs s)) < 2 ^ 32" using sh kind_tables(1) [of "s_kind s"] by simp
  have fs: "repeatP (COUNTS ! nat (s_kind s)) readField (reader_at p (concat (map (be_bytes 32) (s_inputs s)) @ rest)) =
      Inr (s_inputs s, reader_at (p @ concat (map (be_bytes 32) (s_inputs s))) rest)" for p
    by (rule reads_run [OF readFields_reads]) (use sh in simp)
  have k: "requireKind (s_kind s) = Inr ()" using sh by (simp add: requireKind_conv)
  have s: "\<lparr>s_domain = s_domain s, s_kind = s_kind s, s_inputs = s_inputs s\<rparr> = s" by simp
  show "readStatement (reader_at pre (statement_enc s @ rest)) = Inr (s, reader_at (pre @ statement_enc s) rest)"
    using sh n by (simp add: readStatement_def statement_enc_def run_simps fs k Let_def s ok del: statement.simps)
qed

lemmas readStatement_run = reads_run [OF readStatement_reads]

lemma decodeStatement_conv: "decodeStatement bs = Inr s \<longleftrightarrow> statementBytes s = Inr bs"
  unfolding decodeStatement_def decoded_whole_unchecked [OF readStatement_reads] statementBytes_conv by simp

interpretation statement_codec: digest_codec statementBytes decodeStatement "sha256 C" "statementHash C" for C
  by unfold_locales (simp_all add: decodeStatement_conv statementHash_def)

subsection \<open>Records\<close>

lemma w_capsule_conv: "w_capsule x out = Inr r \<longleftrightarrow>
    (isField (fst x) \<and> length (snd x) = 89 \<and> snd x ! 0 = 1) \<and> r = out @ be_bytes 32 (fst x) @ snd x"
  by (cases x) (auto simp: w_capsule_def bindR_Inr_conv write_simps)

definition delivery_enc :: "bytes \<Rightarrow> int list \<Rightarrow> bytes list \<Rightarrow> bytes" where
  "delivery_enc domain outputs capsules = V3_DELIVERY_CONTEXT @ domain @ be_bytes 4 (int (length outputs)) @
     concat (map (\<lambda>x. be_bytes 32 (fst x) @ snd x) (zip outputs capsules))"

lemma deliveryHash_Inr:
  assumes "deliveryHash C d outs caps = Inr h"
  shows "length d = 32" and "length caps = length outs" and "length outs = 1 \<or> length outs = 4"
    and "list_all isField outs" and "list_all (\<lambda>c. length c = 89 \<and> c ! 0 = 1) caps"
    and "h = sha256 C (delivery_enc d outs caps)"
proof -
  have run: "run_writes (map w_capsule xs) out = Inr r \<longleftrightarrow>
      list_all (\<lambda>x. isField (fst x) \<and> length (snd x) = 89 \<and> snd x ! 0 = 1) xs \<and>
      r = out @ concat (map (\<lambda>x. be_bytes 32 (fst x) @ snd x) xs)" for xs out r
    by (rule run_writes_map) (rule w_capsule_conv)
  have u: "length d = 32 \<and> length caps = length outs \<and> (length outs = 1 \<or> length outs = 4) \<and>
    list_all (\<lambda>x. isField (fst x) \<and> length (snd x) = 89 \<and> snd x ! 0 = 1) (zip outs caps) \<and>
    h = sha256 C (delivery_enc d outs caps)"
    using assms by (auto simp: deliveryHash_def bindR_Inr_conv requireBytes_conv mapR_Inr_conv write_simps run
        delivery_enc_def split: if_splits)
  then show "length d = 32" and "length caps = length outs" and "length outs = 1 \<or> length outs = 4"
    and "h = sha256 C (delivery_enc d outs caps)" by blast+
  from u show "list_all isField outs" and "list_all (\<lambda>c. length c = 89 \<and> c ! 0 = 1) caps"
    by (simp_all add: list_all_length)
qed

abbreviation associated :: "crypto \<Rightarrow> 'a statement_scheme \<Rightarrow> bytes \<Rightarrow> bytes list \<Rightarrow> bool" where
  "associated C s auth caps \<equiv> requireAuthorizationAndCapsules C s auth caps = Inr ()"

lemma associated_shape:
  assumes "associated C s auth caps"
  shows "length auth = AUTH_LENGTHS ! nat (s_kind s)" and "length caps = CAPSULE_COUNTS ! nat (s_kind s)"
    and "list_all (\<lambda>c. length c = 89) caps"
proof -
  have u: "length auth = AUTH_LENGTHS ! nat (s_kind s) \<and> length caps = CAPSULE_COUNTS ! nat (s_kind s) \<and>
    (caps \<noteq> [] \<longrightarrow> (\<exists>h. deliveryHash C (s_domain s) (delivered (s_kind s) (s_inputs s)) caps = Inr h))"
    using assms unfolding requireAuthorizationAndCapsules_def bindR_Inr_conv requireBytes_conv requireR_Inr Let_def
    by (auto simp: bindR_Inr_conv split: if_splits)
  then show "length auth = AUTH_LENGTHS ! nat (s_kind s)" and "length caps = CAPSULE_COUNTS ! nat (s_kind s)"
    by blast+
  from u show "list_all (\<lambda>c. length c = 89) caps"
    using deliveryHash_Inr(5) by (cases "caps = []") (auto simp: list_all_iff)
qed

definition lp :: "bytes \<Rightarrow> bytes" where
  "lp x = be_bytes 4 (int (length x)) @ x"

lemma r_lengthPrefixed_lp [run_simps]: "0 \<le> m \<Longrightarrow> m < 2 ^ 32 \<Longrightarrow> int (length x) \<le> m \<Longrightarrow>
    r_lengthPrefixed m (reader_at pre (lp x @ rest)) = Inr (x, reader_at (pre @ lp x) rest)"
  by (simp add: lp_def r_lengthPrefixed_run)

lemma w_lengthPrefixed_lp: "w_lengthPrefixed own out = Inr r \<longleftrightarrow> int (length own) < 2 ^ 32 \<and> r = out @ lp own"
  by (simp add: w_lengthPrefixed_conv lp_def)

definition capsules_enc :: "bytes list \<Rightarrow> bytes" where
  "capsules_enc caps = be_bytes 4 (int (length caps)) @ concat caps"

lemma readCapsules_reads:
  assumes "1 \<le> kind" and "kind \<le> 7"
  shows "reads (readCapsules kind) capsules_enc
    (\<lambda>caps. length caps = CAPSULE_COUNTS ! nat kind \<and> list_all (\<lambda>c. length c = 89) caps)"
proof -
  have c: "int (CAPSULE_COUNTS ! nat kind) < 2 ^ 32" using kind_tables(3) [OF assms] by simp
  have reps: "reads (repeatP n (r_raw 89)) (\<lambda>xs. concat (map (\<lambda>x. x) xs)) (\<lambda>xs. length xs = n \<and> list_all (\<lambda>x. int (length x) = 89) xs)" for n
    by (rule repeatP_reads) (rule r_raw_reads, simp)
  have eq: "int (length x) = 89 \<longleftrightarrow> length x = 89" for x :: bytes by linarith
  show ?thesis
  proof (rule reads_splitI)
    fix pre rest caps r'
    assume "readCapsules kind (reader_at pre rest) = Inr (caps, r')"
    then show "(length caps = CAPSULE_COUNTS ! nat kind \<and> list_all (\<lambda>c. length c = 89) caps) \<and>
        (\<exists>rest'. rest = capsules_enc caps @ rest' \<and> r' = reader_at (pre @ capsules_enc caps) rest')"
      unfolding readCapsules_def by (auto simp: read_simps readsD [OF reps] eq capsules_enc_def split: if_splits)
  next
    fix pre rest and caps :: "bytes list"
    assume ok: "length caps = CAPSULE_COUNTS ! nat kind \<and> list_all (\<lambda>c. length c = 89) caps"
    have "repeatP (CAPSULE_COUNTS ! nat kind) (r_raw 89) (reader_at q (concat caps @ rest)) =
        Inr (caps, reader_at (q @ concat caps) rest)" for q
      using reads_run [OF reps, of caps "CAPSULE_COUNTS ! nat kind" q rest] ok by (simp add: eq)
    then show "readCapsules kind (reader_at pre (capsules_enc caps @ rest)) = Inr (caps, reader_at (pre @ capsules_enc caps) rest)"
      using ok c by (simp add: readCapsules_def capsules_enc_def run_simps)
  qed
qed

lemmas readCapsules_run = reads_run [OF readCapsules_reads]
lemmas readCapsules_conv = readsD [OF readCapsules_reads]

definition record_enc :: "v3_record \<Rightarrow> bytes" where
  "record_enc s = statement_enc s @ lp (r_proof s) @ lp (r_authorization s) @ capsules_enc (r_capsules s)"

abbreviation record_ok :: "crypto \<Rightarrow> 'a v3_record_scheme \<Rightarrow> bool" where
  "record_ok C s \<equiv> requireRecord C s = Inr ()"

lemma requireRecord_shape:
  assumes "record_ok C s"
  shows "statement_ok s" and "proofLengthHolds (s_kind s) (int (length (r_proof s)))"
    and "associated C s (r_authorization s) (r_capsules s)"
  using assms unfolding requireRecord_def bindR_Inr_conv requireR_Inr by auto

lemma proof_bound: "proofLengthHolds k (int n) \<Longrightarrow> int n \<le> (if k = 5 then 0 else MAX_PROOF)"
  by (auto simp: proofLengthHolds_def split: if_splits)

lemma encodeRecord_conv: "encodeRecord C s = Inr bs \<longleftrightarrow> record_ok C s \<and> bs = record_enc s"
proof -
  have "int (length (r_proof s)) < 2 ^ 32" "int (length (r_authorization s)) < 2 ^ 32"
    "int (length (r_capsules s)) < 2 ^ 32" "list_all (\<lambda>c. length c = 89) (r_capsules s)" "statement_ok s"
    if ok: "record_ok C s"
  proof -
    note sh = requireRecord_shape [OF ok] and a = associated_shape [OF requireRecord_shape(3) [OF ok]]
    note k = kind_tables [OF requireStatement_shape(2,3) [OF sh(1)]]
    show "int (length (r_proof s)) < 2 ^ 32" using proof_bound [OF sh(2)] by (simp add: MAX_PROOF_def split: if_splits)
    show "int (length (r_authorization s)) < 2 ^ 32" "int (length (r_capsules s)) < 2 ^ 32" using k a by simp_all
    show "list_all (\<lambda>c. length c = 89) (r_capsules s)" "statement_ok s" by (fact a(3), fact sh(1))
  qed
  then show ?thesis
    by (auto simp: encodeRecord_def bindR_Inr_conv write_simps run_w_reqs record_enc_def capsules_enc_def lp_def)
qed

definition record_shape :: "v3_record \<Rightarrow> bool" where
  "record_shape s \<longleftrightarrow> statement_ok s \<and> int (length (r_proof s)) \<le> (if s_kind s = 5 then 0 else MAX_PROOF) \<and>
     length (r_authorization s) \<le> AUTH_LENGTHS ! nat (s_kind s) \<and>
     length (r_capsules s) = CAPSULE_COUNTS ! nat (s_kind s) \<and> list_all (\<lambda>c. length c = 89) (r_capsules s)"

lemma record_ok_shape: "record_ok C s \<Longrightarrow> record_shape s"
  using requireRecord_shape [of C s] associated_shape [OF requireRecord_shape(3), of C s] proof_bound
  by (auto simp: record_shape_def)

lemma statement_of: "\<lparr>s_domain = s_domain s, s_kind = s_kind s, s_inputs = s_inputs s\<rparr> = statement.truncate s"
  by (simp add: statement.truncate_def)

lemma truncate_fields [simp]: "s_domain (statement.truncate s) = s_domain s" "s_kind (statement.truncate s) = s_kind s"
  "s_inputs (statement.truncate s) = s_inputs s"
  by (simp_all add: statement.truncate_def)

lemma decodeRecord_conv: "decodeRecord C bs = Inr s \<longleftrightarrow> encodeRecord C s = Inr bs"
proof -
  let ?f = "\<lambda>s :: statement.
       bindP (r_lengthPrefixed (if s_kind s = 5 then 0 else MAX_PROOF)) (\<lambda>proof.
       bindP (r_lengthPrefixed (int (AUTH_LENGTHS ! nat (s_kind s)))) (\<lambda>authorization.
       bindP (readCapsules (s_kind s)) (\<lambda>capsules.
       returnP \<lparr>s_domain = s_domain s, s_kind = s_kind s, s_inputs = s_inputs s,
         r_proof = proof, r_authorization = authorization, r_capsules = capsules\<rparr>)))"
  let ?p = "bindP readStatement ?f"
  have "reads ?p record_enc record_shape"
  proof (rule reads_splitI)
    fix pre rest s r'
    assume "?p (reader_at pre rest) = Inr (s, r')"
    then obtain t r1 where "readStatement (reader_at pre rest) = Inr (t, r1)" and run1: "?f t r1 = Inr (s, r')"
      by (rule bindP_E)
    then obtain rest1 where t: "statement_ok t" "rest = statement_enc t @ rest1"
      and r1: "r1 = reader_at (pre @ statement_enc t) rest1"
      by (auto simp: readsD [OF readStatement_reads])
    note run = run1 [unfolded r1]
    note sh = requireStatement_shape [OF t(1)]
    have m: "0 \<le> (if s_kind t = 5 then 0 else MAX_PROOF)" "(if s_kind t = 5 then 0 else MAX_PROOF) < 2 ^ 32"
      "int (AUTH_LENGTHS ! nat (s_kind t)) < 2 ^ 32"
      using kind_tables(2) [OF sh(2,3)] by (simp_all add: MAX_PROOF_def)
    from run obtain rest4 where s: "s_domain s = s_domain t" "s_kind s = s_kind t" "s_inputs s = s_inputs t"
      and shape: "int (length (r_proof s)) \<le> (if s_kind s = 5 then 0 else MAX_PROOF)"
        "length (r_authorization s) \<le> AUTH_LENGTHS ! nat (s_kind s)"
        "length (r_capsules s) = CAPSULE_COUNTS ! nat (s_kind s)" "list_all (\<lambda>c. length c = 89) (r_capsules s)"
      and rest1: "rest1 = lp (r_proof s) @ lp (r_authorization s) @ capsules_enc (r_capsules s) @ rest4"
      and r': "r' = reader_at (pre @ statement_enc t @ lp (r_proof s) @ lp (r_authorization s) @ capsules_enc (r_capsules s)) rest4"
      by (auto simp: bindP_conv returnP_conv r_lengthPrefixed_conv [OF m(1,2)] r_lengthPrefixed_conv [OF _ m(3)]
          readCapsules_conv [OF sh(2,3)] lp_def)
    have "statement_ok s" using t(1) by (simp add: requireStatement_def s)
    moreover have "statement_enc s = statement_enc t" by (simp add: statement_enc_def s)
    ultimately show "record_shape s \<and> (\<exists>rest'. rest = record_enc s @ rest' \<and> r' = reader_at (pre @ record_enc s) rest')"
      using shape by (simp add: record_shape_def record_enc_def t(2) rest1 r')
  next
    fix pre rest and s :: v3_record
    assume ok: "record_shape s"
    then have sok: "statement_ok s" by (simp add: record_shape_def)
    note sh = requireStatement_shape [OF sok]
    have m: "0 \<le> (if s_kind s = 5 then 0 else MAX_PROOF)" "(if s_kind s = 5 then 0 else MAX_PROOF) < 2 ^ 32"
      "int (AUTH_LENGTHS ! nat (s_kind s)) < 2 ^ 32"
      using kind_tables(2) [OF sh(2,3)] by (simp_all add: MAX_PROOF_def)
    have st: "readStatement (reader_at pre (statement_enc s @ q)) =
        Inr (statement.truncate s, reader_at (pre @ statement_enc s) q)" for q
      using readStatement_run [of "statement.truncate s" pre q] sok
      by (simp add: requireStatement_truncate statement_enc_truncate)
    show "?p (reader_at pre (record_enc s @ rest)) = Inr (s, reader_at (pre @ record_enc s) rest)"
      using ok m unfolding record_shape_def
      by (simp add: record_enc_def run_simps st readCapsules_run [OF sh(2,3)] del: be_bytes.simps)
  qed
  from decoded_whole [OF this, of "requireRecord C"] show ?thesis
    unfolding decodeRecord_def encodeRecord_conv using record_ok_shape by blast
qed

interpretation record_codec: frame_codec "encodeRecord C" "decodeRecord C" for C
  by unfold_locales (rule decodeRecord_conv)

subsection \<open>Proof-free records\<close>

definition proof_free_enc :: "proof_free \<Rightarrow> bytes" where
  "proof_free_enc s = statement_enc s @ pf_proofHash s @ lp (pf_authorization s) @ capsules_enc (pf_capsules s)"

lemma requireProofFree_shape:
  assumes "requireProofFree C s = Inr ()"
  shows "statement_ok s" and "length (pf_proofHash s) = 32"
    and "(s_kind s = 5) = list_all (\<lambda>b. b = 0) (pf_proofHash s)"
    and "associated C s (pf_authorization s) (pf_capsules s)"
  using assms unfolding requireProofFree_def bindR_Inr_conv requireR_Inr requireBytes_conv by auto

lemma encodeProofFree_conv: "encodeProofFree C s = Inr bs \<longleftrightarrow> requireProofFree C s = Inr () \<and> bs = proof_free_enc s"
proof -
  have "int (length (pf_authorization s)) < 2 ^ 32" "int (length (pf_capsules s)) < 2 ^ 32"
    "list_all (\<lambda>c. length c = 89) (pf_capsules s)" "statement_ok s" "length (pf_proofHash s) = 32"
    if ok: "requireProofFree C s = Inr ()"
  proof -
    note sh = requireProofFree_shape [OF ok] and a = associated_shape [OF requireProofFree_shape(4) [OF ok]]
    note k = kind_tables [OF requireStatement_shape(2,3) [OF sh(1)]]
    show "int (length (pf_authorization s)) < 2 ^ 32" "int (length (pf_capsules s)) < 2 ^ 32" using k a by simp_all
    show "list_all (\<lambda>c. length c = 89) (pf_capsules s)" "statement_ok s" "length (pf_proofHash s) = 32"
      by (fact a(3), fact sh(1), fact sh(2))
  qed
  then show ?thesis
    by (auto simp: encodeProofFree_def bindR_Inr_conv write_simps run_w_reqs proof_free_enc_def capsules_enc_def lp_def)
qed

definition proof_free_shape :: "proof_free \<Rightarrow> bool" where
  "proof_free_shape s \<longleftrightarrow> statement_ok s \<and> length (pf_proofHash s) = 32 \<and>
     length (pf_authorization s) \<le> AUTH_LENGTHS ! nat (s_kind s) \<and>
     length (pf_capsules s) = CAPSULE_COUNTS ! nat (s_kind s) \<and> list_all (\<lambda>c. length c = 89) (pf_capsules s)"

lemma decodeProofFree_conv: "decodeProofFree C bs = Inr s \<longleftrightarrow> encodeProofFree C s = Inr bs"
proof -
  let ?f = "\<lambda>s :: statement.
       bindP (r_raw 32) (\<lambda>proofHash.
       bindP (r_lengthPrefixed (int (AUTH_LENGTHS ! nat (s_kind s)))) (\<lambda>authorization.
       bindP (readCapsules (s_kind s)) (\<lambda>capsules.
       returnP \<lparr>s_domain = s_domain s, s_kind = s_kind s, s_inputs = s_inputs s,
         pf_proofHash = proofHash, pf_authorization = authorization, pf_capsules = capsules\<rparr>)))"
  let ?p = "bindP readStatement ?f"
  have "reads ?p proof_free_enc proof_free_shape"
  proof (rule reads_splitI)
    fix pre rest s r'
    assume "?p (reader_at pre rest) = Inr (s, r')"
    then obtain t r1 where "readStatement (reader_at pre rest) = Inr (t, r1)" and run1: "?f t r1 = Inr (s, r')"
      by (rule bindP_E)
    then obtain rest1 where t: "statement_ok t" "rest = statement_enc t @ rest1"
      and r1: "r1 = reader_at (pre @ statement_enc t) rest1"
      by (auto simp: readsD [OF readStatement_reads])
    note sh = requireStatement_shape [OF t(1)]
    have m: "int (AUTH_LENGTHS ! nat (s_kind t)) < 2 ^ 32" using kind_tables(2) [OF sh(2,3)] by simp
    from run1 [unfolded r1] obtain rest4 where s: "s_domain s = s_domain t" "s_kind s = s_kind t" "s_inputs s = s_inputs t"
      and shape: "length (pf_proofHash s) = 32" "length (pf_authorization s) \<le> AUTH_LENGTHS ! nat (s_kind s)"
        "length (pf_capsules s) = CAPSULE_COUNTS ! nat (s_kind s)" "list_all (\<lambda>c. length c = 89) (pf_capsules s)"
      and rest1: "rest1 = pf_proofHash s @ lp (pf_authorization s) @ capsules_enc (pf_capsules s) @ rest4"
      and r': "r' = reader_at (pre @ statement_enc t @ pf_proofHash s @ lp (pf_authorization s) @ capsules_enc (pf_capsules s)) rest4"
      by (auto simp: bindP_conv returnP_conv r_raw_conv r_lengthPrefixed_conv [OF _ m] readCapsules_conv [OF sh(2,3)] lp_def)
    have "statement_ok s" using t(1) by (simp add: requireStatement_def s)
    moreover have "statement_enc s = statement_enc t" by (simp add: statement_enc_def s)
    ultimately show "proof_free_shape s \<and>
        (\<exists>rest'. rest = proof_free_enc s @ rest' \<and> r' = reader_at (pre @ proof_free_enc s) rest')"
      using shape by (simp add: proof_free_shape_def proof_free_enc_def t(2) rest1 r')
  next
    fix pre rest and s :: proof_free
    assume ok: "proof_free_shape s"
    then have sok: "statement_ok s" by (simp add: proof_free_shape_def)
    note sh = requireStatement_shape [OF sok]
    have m: "int (AUTH_LENGTHS ! nat (s_kind s)) < 2 ^ 32" using kind_tables(2) [OF sh(2,3)] by simp
    have st: "readStatement (reader_at pre (statement_enc s @ q)) =
        Inr (statement.truncate s, reader_at (pre @ statement_enc s) q)" for q
      using readStatement_run [of "statement.truncate s" pre q] sok
      by (simp add: requireStatement_truncate statement_enc_truncate)
    show "?p (reader_at pre (proof_free_enc s @ rest)) = Inr (s, reader_at (pre @ proof_free_enc s) rest)"
      using ok m unfolding proof_free_shape_def
      by (simp add: proof_free_enc_def run_simps st readCapsules_run [OF sh(2,3)] del: be_bytes.simps)
  qed
  from decoded_whole [OF this, of "requireProofFree C"]
  have "decodeProofFree C bs = Inr s \<longleftrightarrow> proof_free_shape s \<and> requireProofFree C s = Inr () \<and> bs = proof_free_enc s"
    unfolding decodeProofFree_def .
  moreover have "proof_free_shape s" if "requireProofFree C s = Inr ()"
    using requireProofFree_shape [OF that] associated_shape [OF requireProofFree_shape(4) [OF that]]
    by (simp add: proof_free_shape_def)
  ultimately show ?thesis unfolding encodeProofFree_conv by blast
qed

interpretation proof_free_codec: frame_codec "encodeProofFree C" "decodeProofFree C" for C
  by unfold_locales (rule decodeProofFree_conv)

subsection \<open>Acceptances and publications\<close>

definition acceptance_enc :: "'a acceptance_scheme \<Rightarrow> bytes" where
  "acceptance_enc a = V3_ACCEPTANCE_CONTEXT @ a_domain a @ a_demand a @ be_bytes 32 (a_owner a) @ be_bytes 8 (a_deadline a)"

definition acceptance_ok :: "'a acceptance_scheme \<Rightarrow> bool" where
  "acceptance_ok a \<longleftrightarrow> isField (a_owner a) \<and> a_owner a \<noteq> 0 \<and> isValue (a_deadline a) \<and>
     length (a_domain a) = 32 \<and> length (a_demand a) = 32"

lemma acceptanceBytes_conv: "acceptanceBytes a = Inr bs \<longleftrightarrow> acceptance_ok a \<and> bs = acceptance_enc a"
  by (auto simp: acceptanceBytes_def acceptance_ok_def acceptance_enc_def write_simps bindR_Inr_conv isValue_conv)

lemma length_acceptance_enc: "acceptance_ok a \<Longrightarrow> length (acceptance_enc a) = 126"
  by (simp add: acceptance_ok_def acceptance_enc_def V3_ACCEPTANCE_CONTEXT_def)

lemma encodeSignedAcceptance_conv: "encodeSignedAcceptance a = Inr bs \<longleftrightarrow>
    (acceptance_ok a \<and> length (a_signature a) = 64) \<and> bs = acceptance_enc a @ a_signature a"
  by (auto simp: encodeSignedAcceptance_def bindR_Inr_conv acceptanceBytes_conv write_simps)

lemma decodeSignedAcceptance_conv: "decodeSignedAcceptance bs = Inr a \<longleftrightarrow> encodeSignedAcceptance a = Inr bs"
proof -
  let ?p = "bindP (readContext V3_ACCEPTANCE_CONTEXT) (\<lambda>_. bindP (r_raw 32) (\<lambda>domain. bindP (r_raw 32) (\<lambda>demand.
       bindP readField (\<lambda>owner. bindP r_u64 (\<lambda>deadline. bindP (r_raw 64) (\<lambda>signature.
       returnP \<lparr>a_domain = domain, a_demand = demand, a_owner = owner, a_deadline = deadline, a_signature = signature\<rparr>))))))"
  let ?ok = "\<lambda>a :: signed_acceptance. isField (a_owner a) \<and> isValue (a_deadline a) \<and> length (a_domain a) = 32 \<and>
    length (a_demand a) = 32 \<and> length (a_signature a) = 64"
  have "reads ?p (\<lambda>a. acceptance_enc a @ a_signature a) ?ok"
  proof (rule reads_splitI)
    fix pre rest a r'
    assume "?p (reader_at pre rest) = Inr (a, r')"
    then show "?ok a \<and> (\<exists>rest'. rest = (acceptance_enc a @ a_signature a) @ rest' \<and>
        r' = reader_at (pre @ acceptance_enc a @ a_signature a) rest')"
      by (auto simp: read_simps acceptance_enc_def isValue_conv)
  next
    fix pre rest and a :: signed_acceptance
    assume "?ok a"
    then show "?p (reader_at pre ((acceptance_enc a @ a_signature a) @ rest)) =
        Inr (a, reader_at (pre @ acceptance_enc a @ a_signature a) rest)"
      by (simp add: run_simps acceptance_enc_def isValue_conv)
  qed
  from decoded_whole [OF this, of "\<lambda>a. mapR (\<lambda>_. ()) (acceptanceBytes a)"]
  show ?thesis unfolding decodeSignedAcceptance_def encodeSignedAcceptance_conv
    by (auto simp: mapR_Inr_conv acceptanceBytes_conv) (auto simp: acceptance_ok_def)
qed

interpretation acceptance_codec: frame_codec encodeSignedAcceptance decodeSignedAcceptance
  by unfold_locales (rule decodeSignedAcceptance_conv)

definition body_enc :: "publication_body \<Rightarrow> bytes" where
  "body_enc b = (case b of AcceptanceBody a \<Rightarrow> acceptance_enc a @ a_signature a | RecordBody r \<Rightarrow> record_enc r)"

definition publication_enc :: "publication \<Rightarrow> bytes" where
  "publication_enc p = V3_PUBLICATION_CONTEXT @ p_domain p @ p_backing p @ be_bytes 1 (p_kind p) @ lp (body_enc (p_body p))"

definition pub_kind :: "int \<Rightarrow> bool" where
  "pub_kind k \<longleftrightarrow> k \<in> {1, 2, 3, 4, 5}"

lemma pub_kind_range: "pub_kind k \<Longrightarrow> 0 \<le> k \<and> k < 256"
  by (auto simp: pub_kind_def)

lemma requirePublicationKind_conv: "requirePublicationKind k = Inr u \<longleftrightarrow> pub_kind k"
  by (auto simp: requirePublicationKind_def pub_kind_def)

abbreviation routed :: "crypto \<Rightarrow> publication \<Rightarrow> bool" where
  "routed C p \<equiv> requireRouting C p = Inr ()"

text \<open>The body's own frame is well formed.\<close>

definition body_ok :: "crypto \<Rightarrow> publication_body \<Rightarrow> bool" where
  "body_ok C b = (case b of AcceptanceBody a \<Rightarrow> acceptance_ok a \<and> length (a_signature a) = 64 | RecordBody r \<Rightarrow> record_ok C r)"

lemma routed_shape:
  assumes "routed C p"
  shows "pub_kind (p_kind p)" and "length (p_domain p) = 32" and "length (p_backing p) = 32"
    and "p_kind p = 2 \<Longrightarrow> \<exists>a. p_body p = AcceptanceBody a \<and> a_domain a = p_domain p"
    and "p_kind p \<noteq> 2 \<Longrightarrow> \<exists>r. p_body p = RecordBody r \<and> record_ok C r \<and> s_kind r = PUBLICATION_STATEMENT (p_kind p) \<and>
      s_domain r = p_domain p"
  using assms unfolding requireRouting_def requirePublicationKind_conv bindR_Inr_conv requireBytes_conv requireR_Inr
  by (auto simp: bindR_Inr_conv requireBytes_conv same_conv split: publication_body.splits if_splits)

lemma length_lp [simp]: "length (lp x) = 4 + length x"
  by (simp add: lp_def)

lemma length_capsules_enc: "list_all (\<lambda>c. length c = 89) caps \<Longrightarrow> length (capsules_enc caps) = 4 + 89 * length caps"
  unfolding capsules_enc_def by (induction caps) simp_all

lemma length_record_enc:
  assumes "record_ok C r"
  shows "length (record_enc r) = 70 + 32 * COUNTS ! nat (s_kind r) + length (r_proof r) +
    AUTH_LENGTHS ! nat (s_kind r) + 89 * CAPSULE_COUNTS ! nat (s_kind r)"
  using requireRecord_shape [OF assms] associated_shape [OF requireRecord_shape(3) [OF assms]]
  by (simp add: record_enc_def length_statement_enc length_capsules_enc)

lemma body_bound:
  assumes "routed C p" and "body_ok C (p_body p)"
    and "\<And>r. p_body p = RecordBody r \<Longrightarrow> int (length (r_proof r)) \<le> n" and "0 \<le> n"
  shows "int (length (body_enc (p_body p))) \<le> bodyBound (p_kind p) n"
proof (cases "p_kind p = 2")
  case True
  with routed_shape(4) [OF assms(1)] obtain a where "p_body p = AcceptanceBody a" by blast
  with True assms(2) show ?thesis by (simp add: body_enc_def body_ok_def bodyBound_def length_acceptance_enc)
next
  case False
  with routed_shape(5) [OF assms(1)] obtain r where r: "p_body p = RecordBody r" "record_ok C r"
    "s_kind r = PUBLICATION_STATEMENT (p_kind p)" by blast
  have "int (length (r_proof r)) \<le> (if s_kind r = 5 then 0 else n)"
    using assms(3) [OF r(1)] proof_bound [OF requireRecord_shape(2) [OF r(2)]] by (simp split: if_splits)
  then show ?thesis using False r length_record_enc [OF r(2)]
    by (simp add: body_enc_def bodyBound_def Let_def)
qed

lemma bodyBound_fits: "pub_kind k \<Longrightarrow> 0 \<le> bodyBound k MAX_PROOF \<and> bodyBound k MAX_PROOF < 2 ^ 32"
  by (auto simp: pub_kind_def bodyBound_def PUBLICATION_STATEMENT_def MAX_PROOF_def COUNTS_def AUTH_LENGTHS_def CAPSULE_COUNTS_def)

lemma body_proof: "body_ok C b \<Longrightarrow> b = RecordBody r \<Longrightarrow> int (length (r_proof r)) \<le> MAX_PROOF"
  using proof_bound [OF requireRecord_shape(2), of C r] by (auto simp: body_ok_def MAX_PROOF_def split: if_splits)

lemma encodePublication_conv:
  "encodePublication C p = Inr bs \<longleftrightarrow> (routed C p \<and> body_ok C (p_body p)) \<and> bs = publication_enc p"
proof -
  have "(case p_body p of AcceptanceBody a \<Rightarrow> encodeSignedAcceptance a | RecordBody r \<Rightarrow> encodeRecord C r) = Inr b \<longleftrightarrow>
      body_ok C (p_body p) \<and> b = body_enc (p_body p)" for b
    by (cases "p_body p") (auto simp: body_ok_def body_enc_def encodeSignedAcceptance_conv encodeRecord_conv)
  moreover have "int (length (body_enc (p_body p))) < 2 ^ 32" if "routed C p" "body_ok C (p_body p)"
    using body_bound [OF that body_proof [OF that(2)]] bodyBound_fits [OF routed_shape(1) [OF that(1)]]
    by (simp add: MAX_PROOF_def)
  moreover have "written [w_context V3_PUBLICATION_CONTEXT, w_req (p_domain p) 32, w_req (p_backing p) 32,
      w_u8 (p_kind p), w_lengthPrefixed b] = Inr r \<longleftrightarrow> length (p_domain p) = 32 \<and> length (p_backing p) = 32 \<and>
      0 \<le> p_kind p \<and> p_kind p < 256 \<and> int (length b) < 2 ^ 32 \<and>
      r = V3_PUBLICATION_CONTEXT @ p_domain p @ p_backing p @ be_bytes 1 (p_kind p) @ lp b" for b r
    by (auto simp: write_simps bindR_Inr_conv lp_def)
  ultimately show ?thesis using routed_shape(1-3) [of C p] pub_kind_range [of "p_kind p"]
    unfolding encodePublication_def bindR_Inr_conv publication_enc_def by (cases "routed C p") auto
qed

lemma readPublicationFrame_reads: "reads readPublicationFrame
    (\<lambda>(domain, backing, kind, body). V3_PUBLICATION_CONTEXT @ domain @ backing @ be_bytes 1 kind @ lp body)
    (\<lambda>(domain, backing, kind, body). length domain = 32 \<and> length backing = 32 \<and> pub_kind kind \<and>
      int (length body) \<le> bodyBound kind MAX_PROOF)"
    (is "reads _ ?enc ?ok")
proof (rule reads_splitI)
  fix pre rest x r'
  assume "readPublicationFrame (reader_at pre rest) = Inr (x, r')"
  then obtain d b k y rest1 where k: "pub_kind k" and d: "length d = 32" "length b = 32"
    and rest: "rest = V3_PUBLICATION_CONTEXT @ d @ b @ be_bytes 1 k @ rest1"
    and run: "bindP (r_lengthPrefixed (bodyBound k MAX_PROOF)) (\<lambda>body. returnP (d, b, k, body))
      (reader_at (pre @ V3_PUBLICATION_CONTEXT @ d @ b @ be_bytes 1 k) rest1) = Inr (x, r')"
    unfolding readPublicationFrame_def
    by (elim bindP_E) (auto simp: liftP_conv returnP_conv readContext_conv r_raw_conv r_u8_conv requirePublicationKind_conv
        bindP_def simp del: be_bytes.simps)
  then show "?ok x \<and> (\<exists>rest'. rest = ?enc x @ rest' \<and> r' = reader_at (pre @ ?enc x) rest')"
    using bodyBound_fits [OF k] by (auto simp: bindP_conv returnP_conv r_lengthPrefixed_conv lp_def)
next
  fix pre rest :: bytes and x
  assume "?ok x"
  then obtain d b k y where x: "x = (d, b, k, y)" and ok: "length d = 32" "length b = 32" "pub_kind k"
    "int (length y) \<le> bodyBound k MAX_PROOF" by (cases x) auto
  have k: "requirePublicationKind k = Inr ()" using ok(3) by (simp add: requirePublicationKind_conv)
  show "readPublicationFrame (reader_at pre (?enc x @ rest)) = Inr (x, reader_at (pre @ ?enc x) rest)"
    using ok bodyBound_fits [OF ok(3)] pub_kind_range [OF ok(3)] k by (simp add: x readPublicationFrame_def run_simps)
qed

lemma decodePublication_conv: "decodePublication C bs = Inr p \<longleftrightarrow> encodePublication C p = Inr bs"
proof
  assume "decodePublication C bs = Inr p"
  then obtain domain backing kind body b where
    fr: "decoded_by (bindP readPublicationFrame (\<lambda>x. bindP r_expectEnd (\<lambda>_. returnP x))) bs = Inr (domain, backing, kind, body)"
    and b: "(if kind = 2 then mapR AcceptanceBody (decodeSignedAcceptance body) else mapR RecordBody (decodeRecord C body)) = Inr b"
    and p: "p = \<lparr>p_domain = domain, p_backing = backing, p_kind = kind, p_body = b\<rparr>" and ok: "routed C p"
    by (auto simp: decodePublication_def bindR_Inr_conv Let_def)
  from b have "body_ok C b" "body = body_enc b"
    by (auto simp: mapR_Inr_conv decodeSignedAcceptance_conv decodeRecord_conv encodeSignedAcceptance_conv encodeRecord_conv
        body_ok_def body_enc_def split: if_splits)
  with fr ok show "encodePublication C p = Inr bs"
    unfolding decoded_whole_unchecked [OF readPublicationFrame_reads] encodePublication_conv
    by (simp add: p publication_enc_def)
next
  assume "encodePublication C p = Inr bs"
  then have ok: "routed C p" "body_ok C (p_body p)" and bs: "bs = publication_enc p" by (simp_all add: encodePublication_conv)
  note sh = routed_shape [OF ok(1)]
  have "decoded_by (bindP readPublicationFrame (\<lambda>x. bindP r_expectEnd (\<lambda>_. returnP x))) bs =
      Inr (p_domain p, p_backing p, p_kind p, body_enc (p_body p))"
    unfolding decoded_whole_unchecked [OF readPublicationFrame_reads]
    using sh(1-3) body_bound [OF ok body_proof [OF ok(2)]] by (simp add: bs publication_enc_def MAX_PROOF_def)
  moreover have "(if p_kind p = 2 then mapR AcceptanceBody (decodeSignedAcceptance (body_enc (p_body p)))
      else mapR RecordBody (decodeRecord C (body_enc (p_body p)))) = Inr (p_body p)"
    using sh(4,5) ok(2)
    by (auto simp: mapR_Inr_conv decodeSignedAcceptance_conv decodeRecord_conv encodeSignedAcceptance_conv encodeRecord_conv
        body_ok_def body_enc_def)
  moreover have "\<lparr>p_domain = p_domain p, p_backing = p_backing p, p_kind = p_kind p, p_body = p_body p\<rparr> = p"
    by (cases p) simp
  ultimately show "decodePublication C bs = Inr p" using ok
    by (simp add: decodePublication_def Let_def del: publication.simps)
qed

interpretation publication_codec: digest_codec "encodePublication C" "decodePublication C" "sha256 C" "publicationId C" for C
  by unfold_locales (simp_all add: decodePublication_conv publicationId_def)

subsection \<open>Properties\<close>

text \<open>C22: statements, records and proof-free records have one frame each. Bytes decode to a value exactly where
  they are the value's frame; and a value has a frame exactly where its range, count, routing, proof-length,
  authorization-length and delivery-association checks pass.\<close>

theorem record_frames_canonical:
  "(decodeStatement bs = Inr st \<longleftrightarrow> statementBytes st = Inr bs) \<and>
   (decodeRecord C bs = Inr r \<longleftrightarrow> encodeRecord C r = Inr bs) \<and>
   (decodeProofFree C bs = Inr f \<longleftrightarrow> encodeProofFree C f = Inr bs) \<and>
   (isOk (statementBytes st) \<longleftrightarrow> requireStatement st = Inr ()) \<and>
   (isOk (encodeRecord C r) \<longleftrightarrow> requireRecord C r = Inr ()) \<and>
   (isOk (encodeProofFree C f) \<longleftrightarrow> requireProofFree C f = Inr ())"
  using statement_codec.decode_iff record_codec.decode_iff proof_free_codec.decode_iff
  by (simp add: isOk_conv statementBytes_conv encodeRecord_conv encodeProofFree_conv)

lemma publication_bound_kinds:
  "pub_kind k \<Longrightarrow> bodyBound k n \<le> fold max (map (\<lambda>kind. bodyBound kind n) [2, 3, 4, 5]) (bodyBound 1 n)"
  by (auto simp: pub_kind_def)

text \<open>publications have one frame each, of a bounded length. Bytes decode to a publication exactly where they are
  its frame, so a decoded publication is routed: an acceptance under kind 2 and otherwise a record of the kind's
  statement, under the publication's own domain. The published bound holds for every publication whose proof has
  at most the stated length, and at the largest proof it is 131,914 bytes.\<close>

theorem publication_frames_bounded:
  assumes "encodePublication C p = Inr bs" and "publicationBound n = Inr m"
    and "case p_body p of AcceptanceBody _ \<Rightarrow> True | RecordBody r \<Rightarrow> int (length (r_proof r)) \<le> n"
  shows "decodePublication C bs = Inr p \<and> int (length bs) \<le> m \<and> publicationBound MAX_PROOF = Inr 131914 \<and>
    (case p_body p of AcceptanceBody a \<Rightarrow> p_kind p = 2 \<and> a_domain a = p_domain p
     | RecordBody r \<Rightarrow> p_kind p \<noteq> 2 \<and> s_kind r = PUBLICATION_STATEMENT (p_kind p) \<and> s_domain r = p_domain p)"
proof -
  have ok: "routed C p" "body_ok C (p_body p)" and bs: "bs = publication_enc p"
    using assms(1) by (simp_all add: encodePublication_conv)
  note sh = routed_shape [OF ok(1)]
  have n: "0 \<le> n" and m: "m = int (length V3_PUBLICATION_CONTEXT) + 32 + 32 + 1 + 4 +
      fold max (map (\<lambda>kind. bodyBound kind n) [2, 3, 4, 5]) (bodyBound 1 n)"
    using assms(2) by (auto simp: publicationBound_def split: if_splits)
  have "int (length (body_enc (p_body p))) \<le> bodyBound (p_kind p) n"
    by (rule body_bound [OF ok _ n]) (use assms(3) in simp)
  then have "int (length bs) \<le> m"
    using publication_bound_kinds [OF sh(1), of n] sh(2,3) by (simp add: bs publication_enc_def m)
  moreover have "publicationBound MAX_PROOF = Inr 131914"
    by (simp add: publicationBound_def MAX_PROOF_def bodyBound_def PUBLICATION_STATEMENT_def Let_def COUNTS_def
        AUTH_LENGTHS_def CAPSULE_COUNTS_def V3_PUBLICATION_CONTEXT_def)
  moreover have "decodePublication C bs = Inr p" by (rule publication_codec.decode_encode [OF assms(1)])
  ultimately show ?thesis using sh(4,5) by (cases "p_body p") auto
qed

definition example_demand :: v3_record where
  "example_demand = \<lparr>s_domain = replicate 32 0, s_kind = 4,
     s_inputs = [0, 0, 0, 0, 11, 0, 0, 5, 12, 13, 14, 15, 0, 0, 7, 9],
     r_proof = replicate 32 1, r_authorization = [], r_capsules = []\<rparr>"

lemma example_demand_ok: "record_ok C example_demand"
proof -
  have "statement_ok example_demand" by code_simp
  then show ?thesis
    by (simp add: requireRecord_def) (simp add: example_demand_def proofLengthHolds_def MAX_PROOF_def
        requireAuthorizationAndCapsules_def requireBytes_def AUTH_LENGTHS_def CAPSULE_COUNTS_def)
qed

definition example_publication :: publication where
  "example_publication = \<lparr>p_domain = replicate 32 0, p_backing = replicate 32 0, p_kind = 1,
     p_body = RecordBody example_demand\<rparr>"

lemma example_publication_ok: "encodePublication C example_publication = Inr (publication_enc example_publication)"
proof -
  have "s_kind example_demand = 4" "s_domain example_demand = replicate 32 0"
    by (simp_all add: example_demand_def)
  moreover have "pair (s_inputs example_demand) 5 = Inr (replicate 32 0)" by code_simp
  ultimately have "routed C example_publication"
    by (simp add: requireRouting_def example_publication_def requirePublicationKind_def requireBytes_def
        example_demand_ok same_def PUBLICATION_STATEMENT_def)
  then show ?thesis
    by (simp add: encodePublication_conv) (simp add: example_publication_def body_ok_def example_demand_ok)
qed

lemma publication_frames_bounded_witness:
  "\<exists>bs m. encodePublication toy_crypto example_publication = Inr bs \<and> publicationBound 32 = Inr m \<and>
     int (length bs) \<le> m \<and> decodePublication toy_crypto bs = Inr example_publication"
proof -
  obtain m where m: "publicationBound 32 = Inr m" by (simp add: publicationBound_def MAX_PROOF_def)
  have "case p_body example_publication of AcceptanceBody _ \<Rightarrow> True | RecordBody r \<Rightarrow> int (length (r_proof r)) \<le> 32"
    by (simp add: example_publication_def example_demand_def)
  from publication_frames_bounded [OF example_publication_ok m this, of toy_crypto] m example_publication_ok
  show ?thesis by blast
qed

text \<open>C29: a statement hash names one statement. Two statements with one hash are the same statement, where SHA-256
  does not collide on their two frames.\<close>

theorem statement_hash_binds:
  assumes "statementHash C s = Inr h" and "statementHash C t = Inr h"
    and "inj_on (sha256 C) {bs. statementBytes s = Inr bs \<or> statementBytes t = Inr bs}"
  shows "(s :: statement) = t"
  by (rule statement_codec.ident_binds [OF assms])

lemma statement_hash_binds_witness:
  "\<exists>h. statementHash toy_crypto (statement.truncate example_demand) = Inr h \<and>
     statement.truncate example_demand = (statement.truncate example_demand :: statement)"
proof -
  let ?s = "statement.truncate example_demand"
  have ok: "statementBytes ?s = Inr (statement_enc ?s)"
    using requireRecord_shape(1) [OF example_demand_ok] by (simp add: statementBytes_conv requireStatement_truncate)
  then obtain h where h: "statementHash toy_crypto ?s = Inr h" by (simp add: statementHash_def)
  have "inj_on (sha256 toy_crypto) {bs. statementBytes ?s = Inr bs \<or> statementBytes ?s = Inr bs}"
    using ok by (simp add: inj_on_def)
  from statement_hash_binds [OF h h this] h show ?thesis by blast
qed

lemma associated_cong:
  "s_domain s = s_domain t \<Longrightarrow> s_kind s = s_kind t \<Longrightarrow> s_inputs s = s_inputs t \<Longrightarrow>
     requireAuthorizationAndCapsules C s a c = requireAuthorizationAndCapsules C t a c"
  by (simp add: requireAuthorizationAndCapsules_def)

text \<open>dropping the proof keeps what the evidence chain hashes. The proof-free form of a record is itself
  encodable and has the record's own digest triple, where the proof does not hash to the sentinel of 32 zero bytes.\<close>

theorem proof_free_keeps_digests:
  assumes "sha_width C" and "requireRecord C r = Inr ()"
    and "s_kind r = 5 \<or> sha256 C (r_proof r) \<noteq> replicate 32 0"
  shows "\<exists>f. proofFreeOf C r = Inr f \<and> isOk (encodeProofFree C f) \<and> isOk (evidenceHashes C r) \<and>
    proofFreeDigests C f = evidenceHashes C r"
proof -
  note sh = requireRecord_shape [OF assms(2)]
  let ?f = "\<lparr>s_domain = s_domain r, s_kind = s_kind r, s_inputs = s_inputs r,
       pf_proofHash = (if length (r_proof r) > 0 then sha256 C (r_proof r) else replicate 32 0),
       pf_authorization = r_authorization r, pf_capsules = r_capsules r\<rparr> :: proof_free"
  have len: "s_kind r = 5 \<longleftrightarrow> length (r_proof r) = 0" using sh(2) by (auto simp: proofLengthHolds_def split: if_splits)
  have w: "length (sha256 C x) = 32" for x using assms(1) by (simp add: sha_width_def)
  have zero: "list_all (\<lambda>b. b = 0) x \<longleftrightarrow> x = replicate 32 0" if "length x = 32" for x :: bytes
    using that by (auto simp: list_all_iff intro: replicate_eqI)
  have ok: "statement_ok ?f" using sh(1) by (simp add: requireStatement_def)
  moreover have "associated C ?f (r_authorization r) (r_capsules r)"
    using sh(3) associated_cong [of r ?f C] by simp
  ultimately have pf: "requireProofFree C ?f = Inr ()"
    using len assms(3) w zero by (auto simp: requireProofFree_def requireBytes_def requireR_def)
  have sb: "statementBytes r = Inr (statement_enc r)" "statementBytes ?f = Inr (statement_enc r)"
    using sh(1) ok by (simp_all add: statementBytes_conv) (simp add: statement_enc_def)
  then have "statementHash C ?f = statementHash C r" by (simp add: statementHash_def)
  then have "proofFreeDigests C ?f = evidenceHashes C r"
    using pf assms(2) sb w by (simp add: proofFreeDigests_def evidenceHashes_def statementHash_def hashEvidenceFields_def
        requireBytes_def)
  moreover have "isOk (evidenceHashes C r)"
    using assms(2) sb w by (simp add: evidenceHashes_def statementHash_def hashEvidenceFields_def requireBytes_def)
  ultimately show ?thesis using assms(2) pf
    by (intro exI [of _ ?f]) (simp add: proofFreeOf_def isOk_conv encodeProofFree_conv)
qed

lemma proof_free_keeps_digests_witness:
  "\<exists>f. proofFreeOf toy_crypto example_demand = Inr f \<and> isOk (encodeProofFree toy_crypto f)"
proof -
  have "sha256 toy_crypto (r_proof example_demand) \<noteq> replicate 32 0" by code_simp
  with proof_free_keeps_digests [OF toy_crypto_sha_width example_demand_ok] show ?thesis by blast
qed

lemma settlementFields_conv: "settlementFields bs = Inr (d, a, r) \<longleftrightarrow> encodeSettlementAuthorization d a r = Inr bs"
proof -
  let ?p = "bindP r_u64 (\<lambda>deadline. bindP (r_raw 64) (\<lambda>signature. bindP (r_raw 64) (\<lambda>release.
       returnP (deadline, signature, release))))"
  have "reads ?p (\<lambda>(d, a, r). be_bytes 8 d @ a @ r) (\<lambda>(d, a, r). 0 \<le> d \<and> d < 2 ^ 64 \<and> length a = 64 \<and> length r = 64)"
  proof (rule reads_splitI)
    fix pre rest :: bytes and x :: "int \<times> bytes \<times> bytes"
    assume "case x of (d, a, r) \<Rightarrow> 0 \<le> d \<and> d < 2 ^ 64 \<and> length a = 64 \<and> length r = 64"
    then show "?p (reader_at pre ((case x of (d, a, r) \<Rightarrow> be_bytes 8 d @ a @ r) @ rest)) =
        Inr (x, reader_at (pre @ (case x of (d, a, r) \<Rightarrow> be_bytes 8 d @ a @ r)) rest)"
      by (cases x) (simp add: run_simps)
  qed (auto simp: read_simps)
  from decoded_whole_unchecked [OF this] show ?thesis
    by (auto simp: settlementFields_def encodeSettlementAuthorization_def write_simps bindR_Inr_conv)
qed

text \<open>What a well-formed settlement's authorization bytes yield.\<close>

lemma settlement_authorized:
  assumes "sha_width C" and "requireStatement s = Inr ()" and "s_kind s = 6" and "s_inputs s ! 8 \<noteq> 0"
    and "encodeSettlementAuthorization d a r = Inr auth"
  shows "\<exists>x demand h. settlementAuthorization C s auth = Inr x \<and> identifierOf (s_inputs s ! 15) (s_inputs s ! 16) = Inr demand \<and>
    statementHash C s = Inr h \<and>
    sa_acceptance x = \<lparr>a_domain = s_domain s, a_demand = demand, a_owner = s_inputs s ! 8, a_deadline = d, a_signature = a\<rparr> \<and>
    acceptanceBytes (sa_acceptance x) = Inr (sa_acceptanceMessage x) \<and>
    releaseBytes (s_domain s) demand (sha256 C (sa_acceptanceMessage x)) h = Inr (sa_releaseMessage x) \<and>
    sa_releaseSignature x = r"
proof -
  note sh = requireStatement_shape [OF assms(2)]
  have w: "length (sha256 C x) = 32" for x using assms(1) by (simp add: sha_width_def)
  have auth: "0 \<le> d" "d < 2 ^ 64" "length auth = 136"
    using assms(5) by (auto simp: encodeSettlementAuthorization_def write_simps bindR_Inr_conv)
  have f: "settlementFields auth = Inr (d, a, r)" by (simp add: settlementFields_conv assms(5))
  have "length (s_inputs s) = 17" using sh(4) assms(3) by (simp add: COUNTS_def)
  then have o: "isField (s_inputs s ! 8)" using sh(5) by (simp add: list_all_length)
  have "\<exists>demand. pair (s_inputs s) 15 = Inr demand"
    using assms(2,3) unfolding requireStatement_def Let_def by (auto simp: bindR_Inr_conv requirePair_def)
  then obtain demand where demand: "pair (s_inputs s) 15 = Inr demand" by blast
  then have dl: "length demand = 32" by (auto simp: pair_def identifierOf_conv)
  let ?a = "\<lparr>a_domain = s_domain s, a_demand = demand, a_owner = s_inputs s ! 8, a_deadline = d, a_signature = a\<rparr>"
  have ab: "acceptanceBytes ?a = Inr (acceptance_enc ?a)"
    using sh(1) dl o assms(4) auth(1,2) by (simp add: acceptanceBytes_conv acceptance_ok_def isValue_conv)
  have sb: "statementHash C s = Inr (sha256 C (statement_enc s))"
    using assms(2) by (simp add: statementHash_def statementBytes_conv [THEN iffD2])
  have "\<exists>m. releaseBytes (s_domain s) demand (sha256 C (acceptance_enc ?a)) (sha256 C (statement_enc s)) = Inr m"
    using sh(1) dl w by (auto simp: releaseBytes_def write_simps bindR_Inr_conv)
  then obtain m where m: "releaseBytes (s_domain s) demand (sha256 C (acceptance_enc ?a)) (sha256 C (statement_enc s)) = Inr m"
    by blast
  have "settlementAuthorization C s auth = Inr \<lparr>sa_acceptance = ?a, sa_acceptanceMessage = acceptance_enc ?a,
      sa_releaseMessage = m, sa_releaseSignature = r\<rparr>"
    using assms(2,3) auth f demand ab sb m
    by (simp add: settlementAuthorization_def requireBytes_def AUTH_LENGTHS_def acceptanceId_def Let_def)
  then show ?thesis using ab sb m demand by (simp add: pair_def)
qed

lemma settlement_frame:
  assumes "length bs = 136"
  shows "\<exists>d a r. encodeSettlementAuthorization d a r = Inr bs"
proof -
  obtain d a r where bs: "bs = d @ a @ r" and l: "length d = 8" "length a = 64" "length r = 64"
  proof
    show "bs = take 8 bs @ take 64 (drop 8 bs) @ drop 64 (drop 8 bs)" by (simp only: append_take_drop_id)
  qed (use assms in simp_all)
  have "be_bytes 8 (be_int d) = d" using be_bytes_be_int [of d] l(1) by simp
  moreover have "be_int d < 2 ^ 64" using be_int_bound [of d] l(1) by simp
  ultimately have "encodeSettlementAuthorization (be_int d) a r = Inr bs"
    using l bs by (simp add: encodeSettlementAuthorization_def write_simps bindR_Inr_conv)
  then show ?thesis by blast
qed

lemma settlement_authorized_only:
  assumes "settlementAuthorization C s auth = Inr x"
  shows "requireStatement s = Inr () \<and> s_kind s = 6 \<and> s_inputs s ! 8 \<noteq> 0 \<and>
      encodeSettlementAuthorization (a_deadline (sa_acceptance x)) (a_signature (sa_acceptance x)) (sa_releaseSignature x) = Inr auth \<and>
      a_domain (sa_acceptance x) = s_domain s \<and> a_owner (sa_acceptance x) = s_inputs s ! 8 \<and>
      identifierOf (s_inputs s ! 15) (s_inputs s ! 16) = Inr (a_demand (sa_acceptance x)) \<and>
      acceptanceBytes (sa_acceptance x) = Inr (sa_acceptanceMessage x) \<and>
      (\<exists>h. statementHash C s = Inr h \<and>
        releaseBytes (s_domain s) (a_demand (sa_acceptance x)) (sha256 C (sa_acceptanceMessage x)) h = Inr (sa_releaseMessage x))"
proof -
  from assms obtain d a r demand m aid h rm where s: "requireStatement s = Inr ()" "s_kind s = 6"
    and f: "settlementFields auth = Inr (d, a, r)" and demand: "pair (s_inputs s) 15 = Inr demand"
    and m: "acceptanceBytes \<lparr>a_domain = s_domain s, a_demand = demand, a_owner = s_inputs s ! 8, a_deadline = d, a_signature = a\<rparr> = Inr m"
    and aid: "acceptanceId C \<lparr>a_domain = s_domain s, a_demand = demand, a_owner = s_inputs s ! 8, a_deadline = d, a_signature = a\<rparr> = Inr aid"
    and h: "statementHash C s = Inr h" and rm: "releaseBytes (s_domain s) demand aid h = Inr rm"
    and xv: "x = \<lparr>sa_acceptance = \<lparr>a_domain = s_domain s, a_demand = demand, a_owner = s_inputs s ! 8, a_deadline = d, a_signature = a\<rparr>,
      sa_acceptanceMessage = m, sa_releaseMessage = rm, sa_releaseSignature = r\<rparr>"
    unfolding settlementAuthorization_def Let_def by (auto simp: bindR_Inr_conv split: if_splits)
  have "s_inputs s ! 8 \<noteq> 0" using m by (simp add: acceptanceBytes_conv acceptance_ok_def)
  moreover have "aid = sha256 C m" using aid m by (simp add: acceptanceId_def)
  moreover have "encodeSettlementAuthorization d a r = Inr auth" using f by (simp add: settlementFields_conv)
  ultimately show ?thesis using s demand m h rm xv by (simp add: pair_def)
qed

lemma settlement_zero_owner:
  assumes s: "requireStatement s = Inr ()" "s_kind s = 6" "s_inputs s ! 8 = 0"
  shows "\<exists>e. settlementAuthorization C s auth = Inl (EncodingError e)"
proof (cases "length auth = 136")
  case False
  then show ?thesis using s by (simp add: settlementAuthorization_def requireBytes_def AUTH_LENGTHS_def requireR_def)
next
  case True
  then have "\<exists>d a r. encodeSettlementAuthorization d a r = Inr auth" by (rule settlement_frame)
  then obtain d a r where "settlementFields auth = Inr (d, a, r)" by (auto simp: settlementFields_conv)
  moreover have "\<exists>demand. pair (s_inputs s) 15 = Inr demand"
    using s(1,2) unfolding requireStatement_def Let_def by (auto simp: bindR_Inr_conv requirePair_def)
  ultimately show ?thesis using s True
    by (auto simp: settlementAuthorization_def requireBytes_def AUTH_LENGTHS_def acceptanceBytes_def Let_def)
qed

text \<open>C37: a settlement's authorization says exactly what was signed. A statement and authorization bytes yield x if and only if
  the statement is a well-formed settlement whose owner is not zero, the bytes are the frame of x's deadline and two signatures,
  x's acceptance is of the statement's domain, demand and owner, and its messages are the acceptance's bytes and the release of
  that demand, that acceptance's id and the statement's own hash; a settlement with the zero owner yields none, and
  the refusal is an encoding error. SHA-256 is assumed to have its 32 bytes.\<close>

theorem settlement_authorization_exact:
  assumes "sha_width C"
  shows "(settlementAuthorization C s auth = Inr x \<longleftrightarrow>
      requireStatement s = Inr () \<and> s_kind s = 6 \<and> s_inputs s ! 8 \<noteq> 0 \<and>
      encodeSettlementAuthorization (a_deadline (sa_acceptance x)) (a_signature (sa_acceptance x)) (sa_releaseSignature x) = Inr auth \<and>
      a_domain (sa_acceptance x) = s_domain s \<and> a_owner (sa_acceptance x) = s_inputs s ! 8 \<and>
      identifierOf (s_inputs s ! 15) (s_inputs s ! 16) = Inr (a_demand (sa_acceptance x)) \<and>
      acceptanceBytes (sa_acceptance x) = Inr (sa_acceptanceMessage x) \<and>
      (\<exists>h. statementHash C s = Inr h \<and>
        releaseBytes (s_domain s) (a_demand (sa_acceptance x)) (sha256 C (sa_acceptanceMessage x)) h = Inr (sa_releaseMessage x))) \<and>
    (requireStatement s = Inr () \<longrightarrow> s_kind s = 6 \<longrightarrow> s_inputs s ! 8 = 0 \<longrightarrow> (\<exists>e. settlementAuthorization C s auth = Inl (EncodingError e)))"
proof (rule conjI, rule iffI, erule settlement_authorized_only)
  assume r: "requireStatement s = Inr () \<and> s_kind s = 6 \<and> s_inputs s ! 8 \<noteq> 0 \<and>
      encodeSettlementAuthorization (a_deadline (sa_acceptance x)) (a_signature (sa_acceptance x)) (sa_releaseSignature x) = Inr auth \<and>
      a_domain (sa_acceptance x) = s_domain s \<and> a_owner (sa_acceptance x) = s_inputs s ! 8 \<and>
      identifierOf (s_inputs s ! 15) (s_inputs s ! 16) = Inr (a_demand (sa_acceptance x)) \<and>
      acceptanceBytes (sa_acceptance x) = Inr (sa_acceptanceMessage x) \<and>
      (\<exists>h. statementHash C s = Inr h \<and>
        releaseBytes (s_domain s) (a_demand (sa_acceptance x)) (sha256 C (sa_acceptanceMessage x)) h = Inr (sa_releaseMessage x))"
  then obtain y demand h where y: "settlementAuthorization C s auth = Inr y" "identifierOf (s_inputs s ! 15) (s_inputs s ! 16) = Inr demand"
    "statementHash C s = Inr h" "acceptanceBytes (sa_acceptance y) = Inr (sa_acceptanceMessage y)"
    "sa_acceptance y = \<lparr>a_domain = s_domain s, a_demand = demand, a_owner = s_inputs s ! 8,
       a_deadline = a_deadline (sa_acceptance x), a_signature = a_signature (sa_acceptance x)\<rparr>"
    "releaseBytes (s_domain s) demand (sha256 C (sa_acceptanceMessage y)) h = Inr (sa_releaseMessage y)"
    "sa_releaseSignature y = sa_releaseSignature x"
    using settlement_authorized [OF assms] by blast
  have "sa_acceptance y = sa_acceptance x" using r y(2,5) by (cases "sa_acceptance x") simp
  then have "y = x" using r y by (cases x; cases y) auto
  then show "settlementAuthorization C s auth = Inr x" using y(1) by simp
qed (blast intro: settlement_zero_owner)

definition example_settlement :: statement where
  "example_settlement = \<lparr>s_domain = replicate 32 0, s_kind = 6,
     s_inputs = [0, 0, 0, 0, 11, 0, 0, 5, 12, 13, 14, 15, 16, 17, 18, 0, 3]\<rparr>"

lemma settlement_authorization_exact_witness:
  "\<exists>x auth. encodeSettlementAuthorization 9 (replicate 64 1) (replicate 64 2) = Inr auth \<and>
     settlementAuthorization toy_crypto example_settlement auth = Inr x \<and> a_owner (sa_acceptance x) = 12 \<and>
     acceptanceBytes (sa_acceptance x) = Inr (sa_acceptanceMessage x)"
proof -
  obtain auth where a: "encodeSettlementAuthorization 9 (replicate 64 1) (replicate 64 2) = Inr auth"
    by (simp add: encodeSettlementAuthorization_def write_simps w_u64_def w_req_def requireBytes_def w_fixed_def)
  have s: "requireStatement example_settlement = Inr ()" "s_kind example_settlement = 6" "s_inputs example_settlement ! 8 \<noteq> 0"
    by code_simp+
  obtain x where x: "settlementAuthorization toy_crypto example_settlement auth = Inr x"
    using settlement_authorized [OF toy_crypto_sha_width s a] by blast
  have o: "a_owner (sa_acceptance x) = s_inputs example_settlement ! 8" and m: "acceptanceBytes (sa_acceptance x) = Inr (sa_acceptanceMessage x)"
    using settlement_authorization_exact [OF toy_crypto_sha_width, of example_settlement auth x] x by blast+
  have "s_inputs example_settlement ! 8 = 12" by (simp add: example_settlement_def)
  with a x o m show ?thesis by (intro exI [of _ x] exI [of _ auth]) simp
qed

end
