(* ===== verification/Notes.thy ===== *)
theory Notes
  imports Codec
begin

section \<open>Notes, their commitments and nullifiers (src/pool/notes.ts)\<close>

text \<open>
  A note opening, its commitment under a domain, its owner's key and its nullifier.  Every
  hash of the pool's circuits starts with a tag of its own, which separates them.
\<close>

definition T_OWNER :: int where "T_OWNER = 1001"
definition T_NOTE :: int where "T_NOTE = 1002"
definition T_NULLIFIER :: int where "T_NULLIFIER = 1003"
definition T_NODE :: int where "T_NODE = 1004"
definition T_SCOPE_LEAF :: int where "T_SCOPE_LEAF = 1005"
definition T_SCOPE_NODE :: int where "T_SCOPE_NODE = 1006"

lemmas tag_defs = T_OWNER_def T_NOTE_def T_NULLIFIER_def T_NODE_def T_SCOPE_LEAF_def T_SCOPE_NODE_def

record note_opening =
  no_backing :: bytes
  no_value :: int
  no_owner :: int
  no_rho :: int

definition nonzero :: "int \<Rightarrow> string \<Rightarrow> int result" where
  "nonzero value what = bindR (requireField value what) (\<lambda>v.
     if v = 0 then Inl (EncodingError (what @ '' must be nonzero'')) else Inr v)"

definition ownerOf :: "crypto \<Rightarrow> int \<Rightarrow> int result" where
  "ownerOf C secret =
     bindR (nonzero secret ''spend secret'') (\<lambda>s.
     bindR (poseidon2Hash C [T_OWNER, s]) (\<lambda>h. nonzero h ''owner''))"

definition isNoteOpening :: "note_opening \<Rightarrow> bool" where
  "isNoteOpening n \<longleftrightarrow> length (no_backing n) = 32 \<and> isValue (no_value n) \<and>
     isField (no_owner n) \<and> no_owner n \<noteq> 0 \<and> isField (no_rho n) \<and> no_rho n \<noteq> 0"

definition copyNoteOpening :: "note_opening \<Rightarrow> note_opening result" where
  "copyNoteOpening own =
     (if \<not> isNoteOpening own then Inl (EncodingError ''malformed note opening'') else Inr own)"

definition commitmentOf :: "crypto \<Rightarrow> bytes \<Rightarrow> note_opening \<Rightarrow> int result" where
  "commitmentOf C domain note =
     bindR (copyNoteOpening note) (\<lambda>own.
     bindR (limbsOf domain) (\<lambda>(domainHi, domainLo).
     bindR (limbsOf (no_backing own)) (\<lambda>(backingHi, backingLo).
     bindR (poseidon2Hash C [T_NOTE, domainHi, domainLo, backingHi, backingLo,
       no_value own, no_owner own, no_rho own]) (\<lambda>h. nonzero h ''commitment''))))"

definition nullifierOf :: "crypto \<Rightarrow> bytes \<Rightarrow> int \<Rightarrow> int \<Rightarrow> int result" where
  "nullifierOf C domain commitment secret =
     bindR (limbsOf domain) (\<lambda>(domainHi, domainLo).
     bindR (nonzero commitment ''commitment'') (\<lambda>cm.
     bindR (nonzero secret ''spend secret'') (\<lambda>s.
     bindR (poseidon2Hash C [T_NULLIFIER, domainHi, domainLo, cm, s]) (\<lambda>h. nonzero h ''nullifier''))))"

subsection \<open>When each of them is defined\<close>

lemma tag_fields [simp]:
  "isField T_OWNER" "isField T_NOTE" "isField T_NULLIFIER" "isField T_NODE"
  "isField T_SCOPE_LEAF" "isField T_SCOPE_NODE"
  by (simp_all add: tag_defs isField_def FIELD_MODULUS_def)

lemma nonzero_conv: "nonzero v what = Inr w \<longleftrightarrow> isField v \<and> v \<noteq> 0 \<and> w = v"
  by (auto simp: nonzero_def bindR_Inr_conv requireField_conv)

lemma limbsOf_conv:
  "limbsOf bs = Inr p \<longleftrightarrow> length bs = 32 \<and> p = (be_int (take 16 bs), be_int (drop 16 bs))"
  by (auto simp: limbsOf_def)

lemma limbs_inj: "length a = 32 \<Longrightarrow> length b = 32 \<Longrightarrow>
    be_int (take 16 a) = be_int (take 16 b) \<Longrightarrow> be_int (drop 16 a) = be_int (drop 16 b) \<Longrightarrow> a = b"
  by (metis append_take_drop_id be_int_inj length_drop length_take)

lemma limb_field: "length bs = 32 \<Longrightarrow> isField (be_int (take 16 bs))"
  "length bs = 32 \<Longrightarrow> isField (be_int (drop 16 bs))"
  using limbs_fields [of bs "be_int (take 16 bs)" "be_int (drop 16 bs)"] by (simp_all add: limbsOf_conv)

lemma copyNoteOpening_conv: "copyNoteOpening n = Inr m \<longleftrightarrow> isNoteOpening n \<and> m = n"
  by (auto simp: copyNoteOpening_def)

text \<open>The inputs of the commitment's hash and of the nullifier's.\<close>

definition commitment_inputs :: "bytes \<Rightarrow> note_opening \<Rightarrow> int list" where
  "commitment_inputs d n = [T_NOTE, be_int (take 16 d), be_int (drop 16 d),
     be_int (take 16 (no_backing n)), be_int (drop 16 (no_backing n)), no_value n, no_owner n, no_rho n]"

definition nullifier_inputs :: "bytes \<Rightarrow> int \<Rightarrow> int \<Rightarrow> int list" where
  "nullifier_inputs d cm s = [T_NULLIFIER, be_int (take 16 d), be_int (drop 16 d), cm, s]"

lemma poseidon2Hash_value: "poseidon2Hash C xs = Inr h \<Longrightarrow> h = hashVal C xs"
  by (auto simp: poseidon2Hash_def poseidon_decoded_def hashVal_def Let_def split: if_splits)

lemma ownerOf_Inr: "ownerOf C s = Inr w \<Longrightarrow> w = hashVal C [T_OWNER, s] \<and> isField w \<and> w \<noteq> 0 \<and> isField s \<and> s \<noteq> 0"
  by (auto simp: ownerOf_def bindR_Inr_conv nonzero_conv dest: poseidon2Hash_value)

lemma commitmentOf_Inr: "commitmentOf C d n = Inr w \<Longrightarrow>
    isNoteOpening n \<and> length d = 32 \<and> w = hashVal C (commitment_inputs d n) \<and> isField w \<and> w \<noteq> 0"
  by (auto simp: commitmentOf_def bindR_Inr_conv nonzero_conv copyNoteOpening_conv limbsOf_conv
      commitment_inputs_def dest: poseidon2Hash_value)

lemma nullifierOf_Inr: "nullifierOf C d cm s = Inr w \<Longrightarrow>
    length d = 32 \<and> w = hashVal C (nullifier_inputs d cm s) \<and> isField w \<and> w \<noteq> 0 \<and>
    isField cm \<and> cm \<noteq> 0 \<and> isField s \<and> s \<noteq> 0"
  by (auto simp: nullifierOf_def bindR_Inr_conv nonzero_conv limbsOf_conv nullifier_inputs_def
      dest: poseidon2Hash_value)

lemma commitment_inputs_field:
  "isNoteOpening n \<Longrightarrow> length d = 32 \<Longrightarrow> list_all isField (commitment_inputs d n)"
  by (simp add: commitment_inputs_def isNoteOpening_def limb_field isValue_field)

lemma commitment_inputs_inj:
  assumes "commitment_inputs d n = commitment_inputs d' n'" and "length d = 32" and "length d' = 32"
    and "isNoteOpening n" and "isNoteOpening n'"
  shows "d = d' \<and> n = n'"
proof -
  have "d = d'" and "no_backing n = no_backing n'"
    using assms by (auto simp: commitment_inputs_def isNoteOpening_def intro: limbs_inj)
  then show ?thesis using assms(1) by (simp add: commitment_inputs_def note_opening.equality)
qed

lemma nullifier_inputs_inj:
  "nullifier_inputs d c s = nullifier_inputs d' c' s' \<Longrightarrow> length d = 32 \<Longrightarrow> length d' = 32 \<Longrightarrow>
     d = d' \<and> c = c' \<and> s = s'"
  by (auto simp: nullifier_inputs_def intro: limbs_inj)

text \<open>Under the backend's format a commitment is refused only for its opening, its domain or a zero hash.\<close>

lemma commitmentOf_defined:
  assumes "poseidon_ok C" and "isNoteOpening n" and "length d = 32"
    and "hashVal C (commitment_inputs d n) \<noteq> 0"
  shows "commitmentOf C d n = Inr (hashVal C (commitment_inputs d n))"
proof -
  have "poseidon2Hash C (commitment_inputs d n) = Inr (hashVal C (commitment_inputs d n))"
    and f: "isField (hashVal C (commitment_inputs d n))"
    using poseidon2Hash_ok [OF assms(1) _ commitment_inputs_field [OF assms(2,3)]]
    by (simp_all add: commitment_inputs_def)
  moreover have "length (no_backing n) = 32" using assms(2) by (simp add: isNoteOpening_def)
  ultimately show ?thesis using assms f
    by (simp add: commitmentOf_def copyNoteOpening_def limbsOf_def nonzero_def requireField_def
        flip: commitment_inputs_def)
qed

lemma nullifierOf_defined:
  assumes "poseidon_ok C" and "length d = 32" and "isField cm" "cm \<noteq> 0" "isField s" "s \<noteq> 0"
    and "hashVal C (nullifier_inputs d cm s) \<noteq> 0"
  shows "nullifierOf C d cm s = Inr (hashVal C (nullifier_inputs d cm s))"
proof -
  have "list_all isField (nullifier_inputs d cm s)"
    using assms by (simp add: nullifier_inputs_def limb_field)
  then have "poseidon2Hash C (nullifier_inputs d cm s) = Inr (hashVal C (nullifier_inputs d cm s))"
    and "isField (hashVal C (nullifier_inputs d cm s))"
    using poseidon2Hash_ok [OF assms(1)] by (simp_all add: nullifier_inputs_def)
  then show ?thesis using assms
    by (simp add: nullifierOf_def limbsOf_def nonzero_def requireField_def flip: nullifier_inputs_def)
qed

subsection \<open>Properties\<close>

definition example_note :: note_opening where
  "example_note = \<lparr>no_backing = replicate 32 0, no_value = 500, no_owner = 77, no_rho = 88\<rparr>"

definition example_domain :: bytes where
  "example_domain = replicate 32 0"

lemma example_note_ok: "isNoteOpening example_note" "length example_domain = 32"
  by (simp_all add: example_note_def example_domain_def isNoteOpening_def isValue_conv isField_def FIELD_MODULUS_def)

lemma be_int_zeros [simp]: "be_int (replicate n 0) = 0"
proof (induction n)
  case (Suc n)
  have "replicate (Suc n) (0 :: byte) = replicate n 0 @ [0]" by (simp add: replicate_append_same)
  with Suc show ?case by (simp only: be_int_snoc) simp
qed simp

lemma example_inputs:
  "commitment_inputs example_domain example_note = [1002, 0, 0, 0, 0, 500, 77, 88]"
  "nullifier_inputs example_domain cm s = [1003, 0, 0, cm, s]"
  by (simp_all add: commitment_inputs_def nullifier_inputs_def example_domain_def example_note_def
      tag_defs take_replicate drop_replicate)

lemma example_hashes:
  "hashVal toy_crypto (commitment_inputs example_domain example_note) = 206028"
  "hashVal toy_crypto (nullifier_inputs example_domain 5 6) = 81628"
  "hashVal toy_crypto (nullifier_inputs example_domain 5 7) = 81629"
  by (simp_all add: toy_hashVal small_field example_inputs)

text \<open>a commitment binds its domain and its whole opening. Two openings with one commitment, under
  any two domains, are the same opening under the same domain, where the field hash does not collide on
  the two input lists; and a commitment is never the zero of an unused leaf.\<close>

theorem commitment_binds:
  assumes "commitmentOf C d n = Inr c" and "commitmentOf C d' n' = Inr c"
    and "inj_on (hashVal C) {commitment_inputs d n, commitment_inputs d' n'}"
  shows "d = d' \<and> n = n' \<and> c \<noteq> 0"
proof -
  note a = commitmentOf_Inr [OF assms(1)] and b = commitmentOf_Inr [OF assms(2)]
  have "commitment_inputs d n = commitment_inputs d' n'"
    by (rule inj_onD [OF assms(3)]) (use a b in auto)
  then show ?thesis using commitment_inputs_inj a b by blast
qed

lemma commitment_binds_witness:
  "\<exists>c. commitmentOf toy_crypto example_domain example_note = Inr c \<and> c \<noteq> 0"
proof -
  obtain c where c: "commitmentOf toy_crypto example_domain example_note = Inr c"
    using commitmentOf_defined [OF toy_poseidon_ok example_note_ok] by (simp add: example_hashes)
  with commitment_binds [OF c c] show ?thesis by simp
qed

text \<open>A nullifier binds the domain, the note and the secret, and is never another hash of the pool.
  Two nullifiers that are equal come from one domain, one commitment and one secret, so a note spent with
  its secret has one nullifier and two notes never share one; and a nullifier is not a commitment, where
  the field hash does not collide on the inputs named.\<close>

theorem nullifier_binds:
  assumes "nullifierOf C d cm s = Inr nf" and "nullifierOf C d' cm' s' = Inr nf'"
    and "commitmentOf C d'' n = Inr c"
    and "inj_on (hashVal C) {nullifier_inputs d cm s, nullifier_inputs d' cm' s', commitment_inputs d'' n}"
  shows "(nf = nf' \<longleftrightarrow> d = d' \<and> cm = cm' \<and> s = s') \<and> nf \<noteq> c \<and> nf \<noteq> 0"
proof -
  note a = nullifierOf_Inr [OF assms(1)] and b = nullifierOf_Inr [OF assms(2)] and c = commitmentOf_Inr [OF assms(3)]
  have "nf = nf' \<longleftrightarrow> nullifier_inputs d cm s = nullifier_inputs d' cm' s'"
    using a b inj_on_eq_iff [OF assms(4), of "nullifier_inputs d cm s" "nullifier_inputs d' cm' s'"] by simp
  moreover have "nullifier_inputs d cm s \<noteq> commitment_inputs d'' n"
    by (simp add: nullifier_inputs_def commitment_inputs_def)
  then have "nf \<noteq> c"
    using a c inj_on_eq_iff [OF assms(4), of "nullifier_inputs d cm s" "commitment_inputs d'' n"] by simp
  ultimately show ?thesis using a b nullifier_inputs_inj by blast
qed

lemma nullifier_binds_witness:
  "\<exists>nf nf'. nullifierOf toy_crypto example_domain 5 6 = Inr nf \<and> nullifierOf toy_crypto example_domain 5 7 = Inr nf' \<and> nf \<noteq> nf'"
proof -
  have n: "nullifierOf toy_crypto example_domain 5 6 = Inr 81628" "nullifierOf toy_crypto example_domain 5 7 = Inr 81629"
    using nullifierOf_defined [OF toy_poseidon_ok, of example_domain 5]
    by (simp_all add: example_hashes example_note_ok small_field)
  have "commitmentOf toy_crypto example_domain example_note = Inr 206028"
    using commitmentOf_defined [OF toy_poseidon_ok example_note_ok] by (simp add: example_hashes)
  from nullifier_binds [OF n this] n show ?thesis by (simp add: example_hashes)
qed

end
