(* ===== verification/Merkle.thy ===== *)
theory Merkle
  imports Notes
begin

section \<open>Binary hash trees: paths, roots and what a path proves\<close>

text \<open>
  The note tree and the scope tree are built and read the same way: a node is hashed from its
  children and their level, a path is one sibling and one direction per level, and a path is
  checked by carrying the leaf up to a root.  This theory holds the two loops, written once
  over the hashing step, the specification \<open>merkle_top\<close> of what a node is, and the locale
  \<open>tree_hash\<close> in which the trees' lemmas are proved; NoteTree and Scope interpret it.
\<close>

record tree_path =
  siblings :: "int list"
  right :: "bool list"

text \<open>The verifier's loop from one level upward.\<close>

fun carry_up :: "(int \<Rightarrow> int \<Rightarrow> int \<Rightarrow> int result) \<Rightarrow> nat \<Rightarrow> int \<Rightarrow> int list \<Rightarrow> bool list \<Rightarrow> int result" where
  "carry_up step l node (s # ss) (r # rs) =
     bindR (if r then step (int l) s node else step (int l) node s) (\<lambda>n. carry_up step (Suc l) n ss rs)"
| "carry_up step l node _ _ = Inr node"

text \<open>The prover's loop: \<open>at\<close> reads a node by level and index.\<close>

fun path_up :: "(nat \<Rightarrow> nat \<Rightarrow> int) \<Rightarrow> nat \<Rightarrow> nat \<Rightarrow> nat \<Rightarrow> tree_path" where
  "path_up at 0 l i = \<lparr>siblings = [], right = []\<rparr>"
| "path_up at (Suc k) l i =
     (let isRight = (i mod 2 = 1); rest = path_up at k (Suc l) (i div 2) in
      \<lparr>siblings = at l (if isRight then i - 1 else i + 1) # siblings rest, right = isRight # right rest\<rparr>)"

text \<open>The range check of a path: one field element and one boolean per level.\<close>

definition is_tree_path :: "nat \<Rightarrow> tree_path \<Rightarrow> bool" where
  "is_tree_path depth p \<longleftrightarrow> length (siblings p) = depth \<and> length (right p) = depth \<and> list_all isField (siblings p)"

subsection \<open>Specification\<close>

text \<open>The node at a level and index of the tree over the leaf function \<open>f\<close>.\<close>

fun merkle_top :: "(nat \<Rightarrow> int \<Rightarrow> int \<Rightarrow> int) \<Rightarrow> (nat \<Rightarrow> int) \<Rightarrow> nat \<Rightarrow> nat \<Rightarrow> int" where
  "merkle_top nd f 0 i = f i"
| "merkle_top nd f (Suc l) i = nd l (merkle_top nd f l (2 * i)) (merkle_top nd f l (2 * i + 1))"

text \<open>Leaves past the used ones are zero.\<close>

definition leaf_at :: "int list \<Rightarrow> nat \<Rightarrow> int" where
  "leaf_at xs i = (if i < length xs then xs ! i else 0)"

text \<open>The children hashed at each level while a leaf is carried up.\<close>

fun carry_children :: "(nat \<Rightarrow> int \<Rightarrow> int \<Rightarrow> int) \<Rightarrow> nat \<Rightarrow> int \<Rightarrow> int list \<Rightarrow> bool list \<Rightarrow> (int \<times> int) list" where
  "carry_children nd l node (s # ss) (r # rs) =
     (let p = (if r then (s, node) else (node, s)) in
      p # carry_children nd (Suc l) (nd l (fst p) (snd p)) ss rs)"
| "carry_children nd l node _ _ = []"

lemma leaf_at_simps [simp]:
  "i < length xs \<Longrightarrow> leaf_at xs i = xs ! i" "\<not> i < length xs \<Longrightarrow> leaf_at xs i = 0"
  by (simp_all add: leaf_at_def)

lemma leaf_at_Nil [simp]: "leaf_at [] = (\<lambda>_. 0)"
  by (simp add: fun_eq_iff)

lemma leaf_at_field: "list_all isField xs \<Longrightarrow> isField (leaf_at xs i)"
  by (simp add: leaf_at_def list_all_length)

text \<open>A node depends on its own leaves only.\<close>

lemma merkle_top_cong:
  "(\<And>j. i * 2 ^ l \<le> j \<Longrightarrow> j < (i + 1) * 2 ^ l \<Longrightarrow> f j = g j) \<Longrightarrow> merkle_top nd f l i = merkle_top nd g l i"
proof (induction l arbitrary: i)
  case (Suc l)
  have "merkle_top nd f l (2 * i) = merkle_top nd g l (2 * i)"
    by (rule Suc.IH, rule Suc.prems) (simp_all add: algebra_simps)
  moreover have "merkle_top nd f l (2 * i + 1) = merkle_top nd g l (2 * i + 1)"
    by (rule Suc.IH, rule Suc.prems) (simp_all add: algebra_simps)
  ultimately show ?case by simp
qed simp

lemma merkle_top_const: "merkle_top nd (\<lambda>_. c) l i = merkle_top nd (\<lambda>_. c) l j"
proof (induction l arbitrary: i j)
  case (Suc l)
  show ?case
    using Suc [of "2 * i" "2 * j"] Suc [of "2 * i + 1" "2 * j + 1"] by simp
qed simp

lemma path_up_lengths: "length (siblings (path_up at k l i)) = k \<and> length (right (path_up at k l i)) = k"
  by (induction k arbitrary: l i) (simp_all add: Let_def)

lemma path_up_cong:
  "(\<And>l' j. l \<le> l' \<Longrightarrow> l' < l + k \<Longrightarrow> at l' j = at' l' j) \<Longrightarrow> path_up at k l i = path_up at' k l i"
proof (induction k arbitrary: l i)
  case (Suc k)
  have "path_up at k (Suc l) (i div 2) = path_up at' k (Suc l) (i div 2)"
    by (rule Suc.IH) (use Suc.prems in simp)
  then show ?case using Suc.prems [of l] by (simp add: Let_def)
qed simp

lemma path_up_siblings: "s \<in> set (siblings (path_up at k l i)) \<Longrightarrow> \<exists>l' j. l \<le> l' \<and> l' < l + k \<and> s = at l' j"
proof (induction k arbitrary: l i)
  case (Suc k)
  then consider "s = at l (if i mod 2 = 1 then i - 1 else i + 1)"
    | "s \<in> set (siblings (path_up at k (Suc l) (i div 2)))"
    by (auto simp: Let_def)
  then show ?case
  proof cases
    case 1
    then show ?thesis by (intro exI [of _ l] exI [of _ "if i mod 2 = 1 then i - 1 else i + 1"]) simp
  next
    case 2
    from Suc.IH [OF this] obtain l' j where "Suc l \<le> l'" "l' < Suc l + k" "s = at l' j" by blast
    then show ?thesis by (intro exI [of _ l'] exI [of _ j]) simp
  qed
qed simp

lemma path_up_right: "right (path_up at k l i) = map (\<lambda>m. (i div 2 ^ m) mod 2 = 1) [0..<k]"
proof (induction k arbitrary: l i)
  case (Suc k)
  have "(i div 2) div 2 ^ m = i div 2 ^ Suc m" for m by (simp add: div_mult2_eq)
  then show ?case by (simp add: Let_def Suc map_upt_Suc del: upt_Suc)
qed simp

subsection \<open>What a hashing step promises, and what paths prove with it\<close>

locale tree_hash =
  fixes step :: "crypto \<Rightarrow> int \<Rightarrow> int \<Rightarrow> int \<Rightarrow> int result"
    and nd :: "crypto \<Rightarrow> nat \<Rightarrow> int \<Rightarrow> int \<Rightarrow> int"
    and depth :: nat
  assumes step_Inr: "step C (int l) a b = Inr h \<Longrightarrow> h = nd C l a b \<and> isField h"
    and step_total: "poseidon_ok C \<Longrightarrow> l < depth \<Longrightarrow> isField a \<Longrightarrow> isField b \<Longrightarrow>
        step C (int l) a b = Inr (nd C l a b)"
begin

lemma nd_field: "poseidon_ok C \<Longrightarrow> l < depth \<Longrightarrow> isField a \<Longrightarrow> isField b \<Longrightarrow> isField (nd C l a b)"
  using step_total step_Inr by blast

lemma top_field:
  "poseidon_ok C \<Longrightarrow> (\<And>i. isField (f i)) \<Longrightarrow> l \<le> depth \<Longrightarrow> isField (merkle_top (nd C) f l i)"
  by (induction l arbitrary: i) (simp_all add: nd_field)

text \<open>The path read off a tree carries the leaf at its index to the node above.\<close>

lemma carry_path:
  assumes "poseidon_ok C" and "\<And>i. isField (f i)"
  shows "l + k \<le> depth \<Longrightarrow> carry_up (step C) l (merkle_top (nd C) f l i)
      (siblings (path_up (merkle_top (nd C) f) k l i)) (right (path_up (merkle_top (nd C) f) k l i)) =
    Inr (merkle_top (nd C) f (l + k) (i div 2 ^ k))"
proof (induction k arbitrary: l i)
  case (Suc k)
  have l: "l < depth" using Suc.prems by simp
  note F = top_field [OF assms, of l]
  have up: "(if i mod 2 = 1 then step C (int l) (merkle_top (nd C) f l (i - 1)) (merkle_top (nd C) f l i)
      else step C (int l) (merkle_top (nd C) f l i) (merkle_top (nd C) f l (i + 1))) =
      Inr (merkle_top (nd C) f (Suc l) (i div 2))"
  proof (cases "i mod 2 = 1")
    case True
    then have "2 * (i div 2) = i - 1" and "2 * (i div 2) + 1 = i" by presburger+
    then show ?thesis using True l F by (simp add: step_total [OF assms(1)])
  next
    case False
    then have "2 * (i div 2) = i" by presburger
    then show ?thesis using False l F by (simp add: step_total [OF assms(1)])
  qed
  have "(i div 2) div 2 ^ k = i div 2 ^ Suc k" by (simp add: div_mult2_eq)
  then show ?case using up Suc.IH [of "Suc l" "i div 2"] Suc.prems
    by (auto simp: Let_def split: if_splits)
qed simp

text \<open>Two leaves carried to one root along the same directions are the same leaf, with the same
  siblings, where the hash does not collide on the two pairs of children at any level.\<close>

lemma carry_binds:
  assumes "carry_up (step C) l a ss rs = Inr root" and "carry_up (step C) l b ts rs = Inr root"
    and "length ss = length rs" and "length ts = length rs"
    and "\<And>m p q. m < length rs \<Longrightarrow> p = carry_children (nd C) l a ss rs ! m \<Longrightarrow>
        q = carry_children (nd C) l b ts rs ! m \<Longrightarrow>
        nd C (l + m) (fst p) (snd p) = nd C (l + m) (fst q) (snd q) \<Longrightarrow> p = q"
  shows "a = b \<and> ss = ts"
  using assms
proof (induction rs arbitrary: l a b ss ts)
  case (Cons r rs)
  obtain s ss' t ts' where ss: "ss = s # ss'" and ts: "ts = t # ts'"
    using Cons.prems(3,4) by (cases ss; cases ts) auto
  define p where "p = (if r then (s, a) else (a, s))"
  define q where "q = (if r then (t, b) else (b, t))"
  have up: "carry_up (step C) (Suc l) (nd C l (fst p) (snd p)) ss' rs = Inr root"
    "carry_up (step C) (Suc l) (nd C l (fst q) (snd q)) ts' rs = Inr root"
    using Cons.prems(1,2) by (auto simp: ss ts p_def q_def bindR_Inr_conv dest: step_Inr)
  have "nd C l (fst p) (snd p) = nd C l (fst q) (snd q) \<and> ss' = ts'"
  proof (rule Cons.IH [OF up])
    fix m p' q'
    assume "m < length rs"
      and "p' = carry_children (nd C) (Suc l) (nd C l (fst p) (snd p)) ss' rs ! m"
      and "q' = carry_children (nd C) (Suc l) (nd C l (fst q) (snd q)) ts' rs ! m"
      and "nd C (Suc l + m) (fst p') (snd p') = nd C (Suc l + m) (fst q') (snd q')"
    then show "p' = q'" using Cons.prems(5) [of "Suc m" p' q']
      by (simp add: ss ts p_def q_def Let_def)
  qed (use Cons.prems(3,4) in \<open>simp_all add: ss ts\<close>)
  moreover from this have "p = q" using Cons.prems(5) [of 0 p q]
    by (simp add: ss ts p_def q_def Let_def)
  ultimately show ?case by (auto simp: ss ts p_def q_def split: if_splits)
qed simp

end

end
