(* ===== verification/Scope.thy ===== *)
theory Scope
  imports Merkle
begin

section \<open>Scopes and the scope tree (src/pool/scope.ts)\<close>

text \<open>
  A scope is a list of (backing, link) entries strictly ascending by backing; its tree of depth
  16 is built level by level over the used prefix.  \<open>st_levels\<close> holds the used nodes of each
  level and \<open>st_positions\<close> is the map from a backing's hexadecimal name to its leaf.
\<close>

definition SCOPE_DEPTH :: nat where
  "SCOPE_DEPTH = 16"

definition SCOPE_CAPACITY :: int where
  "SCOPE_CAPACITY = push_bit SCOPE_DEPTH 1"

record scope_entry =
  se_backing :: bytes
  se_link :: bytes

definition isScopeEntry :: "scope_entry \<Rightarrow> bool" where
  "isScopeEntry e \<longleftrightarrow> length (se_backing e) = 32 \<and> length (se_link e) = 32"

definition copyScopeEntry :: "scope_entry \<Rightarrow> scope_entry result" where
  "copyScopeEntry e = (if \<not> isScopeEntry e then Inl (EncodingError ''malformed scope entry'') else Inr e)"

definition isCanonicalScope :: "scope_entry list \<Rightarrow> bool" where
  "isCanonicalScope entries \<longleftrightarrow>
     (if length entries < 1 \<or> int (length entries) > SCOPE_CAPACITY then False
      else list_all (\<lambda>i. isScopeEntry (entries ! i) \<and>
        \<not> (i > 0 \<and> compareBytes (se_backing (entries ! (i - 1))) (se_backing (entries ! i)) \<ge> 0))
        [0..<length entries])"

definition requireScope :: "scope_entry list \<Rightarrow> scope_entry list result" where
  "requireScope entries =
     (let refused = ''a scope is 1 to 65536 entries, strictly ascending by backing name'' in
      case copyArray entries copyScopeEntry SCOPE_CAPACITY of
        Inl _ \<Rightarrow> Inl (EncodingError refused)
      | Inr own \<Rightarrow> if \<not> isCanonicalScope own then Inl (EncodingError refused) else Inr own)"

definition scopeLeaf :: "crypto \<Rightarrow> scope_entry \<Rightarrow> int result" where
  "scopeLeaf C e =
     (if \<not> isScopeEntry e then Inl (EncodingError ''malformed scope entry'')
      else bindR (limbsOf (se_backing e)) (\<lambda>(backingHi, backingLo).
        bindR (limbsOf (se_link e)) (\<lambda>(linkHi, linkLo).
        bindR (poseidon2Hash C [T_SCOPE_LEAF, backingHi, backingLo, linkHi, linkLo]) (\<lambda>leaf.
        if leaf = 0 then Inl (EncodingError ''scope leaf must be nonzero'') else Inr leaf))))"

definition scopeNode :: "crypto \<Rightarrow> int \<Rightarrow> int \<Rightarrow> int \<Rightarrow> int result" where
  "scopeNode C level left rgt =
     (if level < 0 \<or> level \<ge> int SCOPE_DEPTH then Inl (EncodingError ''scope-tree level out of range'')
      else bindR (requireField left ''left child'') (\<lambda>a. bindR (requireField rgt ''right child'') (\<lambda>b.
        poseidon2Hash C [T_SCOPE_NODE, level, a, b])))"

definition empty_scope_subtrees :: "crypto \<Rightarrow> int list result" where
  "empty_scope_subtrees C =
     foldR (\<lambda>zeros level. bindR (scopeNode C (int level) (zeros ! level) (zeros ! level)) (\<lambda>z. Inr (zeros @ [z])))
       [0] [0..<SCOPE_DEPTH]"

definition EMPTY_SCOPE_SUBTREE :: "crypto \<Rightarrow> int list" where
  "EMPTY_SCOPE_SUBTREE C = (case empty_scope_subtrees C of Inl _ \<Rightarrow> [] | Inr zeros \<Rightarrow> zeros)"

definition isScopePath :: "tree_path \<Rightarrow> bool" where
  "isScopePath p = is_tree_path SCOPE_DEPTH p"

definition scopeRootOf :: "crypto \<Rightarrow> int \<Rightarrow> tree_path \<Rightarrow> int result" where
  "scopeRootOf C leaf p =
     (if \<not> isScopePath p then Inl (EncodingError ''malformed scope path'')
      else bindR (requireField leaf ''leaf'') (\<lambda>node. carry_up (scopeNode C) 0 node (siblings p) (right p)))"

definition scopePathProves :: "crypto \<Rightarrow> int \<Rightarrow> int \<Rightarrow> tree_path \<Rightarrow> bool" where
  "scopePathProves C root leaf p = (case scopeRootOf C leaf p of Inl _ \<Rightarrow> False | Inr r \<Rightarrow> r = root)"

subsection \<open>The tree\<close>

definition hex :: "bytes \<Rightarrow> string" where
  "hex bs = concat (map (\<lambda>b. padStart 2 (CHR ''0'') (to_hex (uint b))) bs)"

record scope_tree =
  st_list :: "scope_entry list"
  st_levels :: "int list list"
  st_positions :: "string \<Rightarrow> nat option"

text \<open>The parents of one level, two children at a time, an odd last child with the empty subtree.\<close>

fun scope_above :: "crypto \<Rightarrow> nat \<Rightarrow> int list \<Rightarrow> int list result" where
  "scope_above C level [] = Inr []"
| "scope_above C level [a] =
     bindR (scopeNode C (int level) a (EMPTY_SCOPE_SUBTREE C ! level)) (\<lambda>n. Inr [n])"
| "scope_above C level (a # b # below) =
     bindR (scopeNode C (int level) a b) (\<lambda>n. bindR (scope_above C level below) (\<lambda>ns. Inr (n # ns)))"

definition newScopeTree :: "crypto \<Rightarrow> scope_entry list \<Rightarrow> scope_tree result" where
  "newScopeTree C entries =
     bindR (requireScope entries) (\<lambda>own.
     bindR (traverseR (scopeLeaf C) own) (\<lambda>leaves.
     bindR (foldR (\<lambda>levels level. bindR (scope_above C level (levels ! level)) (\<lambda>above. Inr (levels @ [above])))
       [leaves] [0..<SCOPE_DEPTH]) (\<lambda>levels.
     Inr \<lparr>st_list = own, st_levels = levels,
       st_positions = foldl (\<lambda>m i. m(hex (se_backing (own ! i)) \<mapsto> i)) (\<lambda>_. None) [0..<length own]\<rparr>)))"

definition st_size :: "scope_tree \<Rightarrow> int" where
  "st_size t = int (length (st_list t))"

definition st_root :: "scope_tree \<Rightarrow> int" where
  "st_root t = st_levels t ! SCOPE_DEPTH ! 0"

definition st_indexOf :: "scope_tree \<Rightarrow> bytes \<Rightarrow> nat option" where
  "st_indexOf t backing = (if length backing = 32 then st_positions t (hex backing) else None)"

definition st_has :: "scope_tree \<Rightarrow> bytes \<Rightarrow> bool" where
  "st_has t backing \<longleftrightarrow> st_indexOf t backing \<noteq> None"

definition st_entry :: "scope_tree \<Rightarrow> bytes \<Rightarrow> scope_entry option" where
  "st_entry t backing = (case st_indexOf t backing of None \<Rightarrow> None | Some index \<Rightarrow> Some (st_list t ! index))"

definition st_at :: "crypto \<Rightarrow> scope_tree \<Rightarrow> nat \<Rightarrow> nat \<Rightarrow> int" where
  "st_at C t level i =
     (let nodes = st_levels t ! level in
      if i < length nodes then nodes ! i else EMPTY_SCOPE_SUBTREE C ! level)"

definition st_path :: "crypto \<Rightarrow> scope_tree \<Rightarrow> int \<Rightarrow> tree_path result" where
  "st_path C t index =
     (if index < 0 \<or> index \<ge> st_size t then Inl (EncodingError ''no scope entry at that position'')
      else Inr (path_up (st_at C t) SCOPE_DEPTH 0 (nat index)))"

definition st_pathFor :: "crypto \<Rightarrow> scope_tree \<Rightarrow> bytes \<Rightarrow> tree_path option result" where
  "st_pathFor C t backing =
     (case st_indexOf t backing of None \<Rightarrow> Inr None | Some index \<Rightarrow> mapR Some (st_path C t (int index)))"

definition scopeRoot :: "crypto \<Rightarrow> scope_entry list \<Rightarrow> int result" where
  "scopeRoot C entries = mapR st_root (newScopeTree C entries)"

subsection \<open>Canonical scopes\<close>

lemma SCOPE_CAPACITY_65536: "SCOPE_CAPACITY = 65536"
  by (simp add: SCOPE_CAPACITY_def SCOPE_DEPTH_def push_bit_eq_mult)

definition backing_less :: "scope_entry \<Rightarrow> scope_entry \<Rightarrow> bool" where
  "backing_less a b \<longleftrightarrow> compareBytes (se_backing a) (se_backing b) < 0"

lemma backing_less_trans: "backing_less a b \<Longrightarrow> backing_less b c \<Longrightarrow> backing_less a c"
  unfolding backing_less_def by (rule compareBytes_less_trans)

lemma isCanonicalScope_conv:
  "isCanonicalScope es \<longleftrightarrow>
     es \<noteq> [] \<and> length es \<le> 65536 \<and> list_all isScopeEntry es \<and> sorted_wrt backing_less es"
proof -
  have "sorted_wrt backing_less es \<longleftrightarrow> (\<forall>i. Suc i < length es \<longrightarrow> backing_less (es ! i) (es ! Suc i))"
    by (rule sorted_wrt_iff_nth_Suc_transp) (auto intro: transpI backing_less_trans)
  also have "\<dots> \<longleftrightarrow> (\<forall>i < length es. \<not> (i > 0 \<and> compareBytes (se_backing (es ! (i - 1))) (se_backing (es ! i)) \<ge> 0))"
    unfolding backing_less_def by (metis Suc_pred diff_Suc_1 not_le zero_less_Suc Suc_lessD)
  finally show ?thesis
    unfolding isCanonicalScope_def SCOPE_CAPACITY_65536 list_all_length [of isScopeEntry]
    by (simp add: list_all_iff Ball_def) (metis One_nat_def Suc_leI length_greater_0_conv not_less)
qed

lemma copyScopeEntry_conv: "copyScopeEntry e = Inr x \<longleftrightarrow> isScopeEntry e \<and> x = e"
  by (auto simp: copyScopeEntry_def)

lemma traverse_check:
  assumes "\<And>x y. f x = Inr y \<longleftrightarrow> ok x \<and> y = x"
  shows "traverseR f xs = Inr ys \<longleftrightarrow> list_all ok xs \<and> ys = xs"
  by (induction xs arbitrary: ys) (auto simp: bindR_Inr_conv assms)

lemma requireScope_conv: "requireScope es = Inr xs \<longleftrightarrow> isCanonicalScope es \<and> xs = es"
proof -
  have c: "copyArray es copyScopeEntry SCOPE_CAPACITY = Inr ys \<longleftrightarrow>
      length es \<le> 65536 \<and> list_all isScopeEntry es \<and> ys = es" for ys
    by (auto simp: copyArray_def bindR_Inr_conv SCOPE_CAPACITY_65536 traverse_check [OF copyScopeEntry_conv])
  show ?thesis
  proof (cases "copyArray es copyScopeEntry SCOPE_CAPACITY")
    case (Inl e)
    then have "\<not> isCanonicalScope es"
      using c [of es] by (auto simp: isCanonicalScope_conv)
    with Inl show ?thesis by (simp add: requireScope_def)
  next
    case (Inr ys)
    then show ?thesis using c [of ys] by (auto simp: requireScope_def)
  qed
qed

text \<open>The order makes the scope of a set of entries unique.\<close>

lemma isCanonicalScope_unique:
  assumes "isCanonicalScope xs" and "isCanonicalScope ys" and "set xs = set ys"
  shows "xs = ys"
proof -
  have "sorted_wrt backing_less xs" "sorted_wrt backing_less ys"
    using assms by (simp_all add: isCanonicalScope_conv)
  then show ?thesis using assms(3)
  proof (induction xs arbitrary: ys)
    case (Cons x xs)
    then obtain y ys' where ys: "ys = y # ys'" by (cases ys) auto
    have irr: "\<not> backing_less a a" for a by (simp add: backing_less_def)
    have "x = y"
    proof (rule ccontr)
      assume "x \<noteq> y"
      then have "x \<in> set ys'" and "y \<in> set xs" using Cons.prems(3) by (auto simp: ys)
      then have "backing_less y x" "backing_less x y" using Cons.prems(1,2) by (auto simp: ys)
      then show False using backing_less_trans irr by blast
    qed
    moreover have "x \<notin> set xs" "y \<notin> set ys'" using Cons.prems(1,2) irr by (auto simp: ys)
    ultimately have "set xs = set ys'" using Cons.prems(3) by (auto simp: ys)
    then show ?case using Cons.IH [of ys'] Cons.prems \<open>x = y\<close> by (simp add: ys)
  qed simp
qed

lemma isCanonicalScope_distinct: "isCanonicalScope es \<Longrightarrow> distinct (map se_backing es)"
proof -
  have "sorted_wrt backing_less xs \<Longrightarrow> distinct (map se_backing xs)" for xs
  proof (induction xs)
    case (Cons x xs)
    then show ?case by (auto simp: backing_less_def)
  qed simp
  then show "isCanonicalScope es \<Longrightarrow> distinct (map se_backing es)" by (simp add: isCanonicalScope_conv)
qed

subsection \<open>The tree's nodes\<close>

definition scopeVal :: "crypto \<Rightarrow> nat \<Rightarrow> int \<Rightarrow> int \<Rightarrow> int" where
  "scopeVal C level a b = hashVal C [T_SCOPE_NODE, int level, a, b]"

interpretation scope_hash: tree_hash scopeNode scopeVal SCOPE_DEPTH
proof unfold_locales
  show "scopeNode C (int l) a b = Inr h \<Longrightarrow> h = scopeVal C l a b \<and> isField h" for C l a b h
    by (auto simp: scopeNode_def scopeVal_def bindR_Inr_conv requireField_conv split: if_splits
        dest: poseidon2Hash_value poseidon2Hash_field)
  show "poseidon_ok C \<Longrightarrow> l < SCOPE_DEPTH \<Longrightarrow> isField a \<Longrightarrow> isField b \<Longrightarrow>
      scopeNode C (int l) a b = Inr (scopeVal C l a b)" for C l a b
    using poseidon2Hash_ok [of C "[T_SCOPE_NODE, int l, a, b]"]
    by (simp add: scopeNode_def scopeVal_def requireField_def SCOPE_DEPTH_def small_field)
qed

abbreviation scope_top :: "crypto \<Rightarrow> int list \<Rightarrow> nat \<Rightarrow> nat \<Rightarrow> int" where
  "scope_top C xs \<equiv> merkle_top (scopeVal C) (leaf_at xs)"

abbreviation empty_scope_top :: "crypto \<Rightarrow> nat \<Rightarrow> nat \<Rightarrow> int" where
  "empty_scope_top C \<equiv> merkle_top (scopeVal C) (\<lambda>_. 0)"

lemma empty_scope_spec:
  assumes "poseidon_ok C"
  shows "L \<le> SCOPE_DEPTH \<Longrightarrow>
    foldR (\<lambda>zeros level. bindR (scopeNode C (int level) (zeros ! level) (zeros ! level)) (\<lambda>z. Inr (zeros @ [z])))
      [0] [0..<L] = Inr (map (\<lambda>l. empty_scope_top C l 0) [0..<Suc L])"
proof (induction L)
  case (Suc L)
  let ?z = "empty_scope_top C L 0"
  have "isField ?z" by (rule scope_hash.top_field [OF assms]) (use Suc.prems in simp_all)
  then have "scopeNode C (int L) ?z ?z = Inr (scopeVal C L ?z ?z)"
    using scope_hash.step_total [OF assms, of L ?z ?z] Suc.prems by simp
  moreover have "empty_scope_top C L (Suc 0) = ?z"
    by (rule merkle_top_const)
  ultimately show ?case using Suc by (simp add: foldR_append nth_append)
qed simp

lemma EMPTY_SCOPE_SUBTREE_spec:
  assumes "poseidon_ok C" and "l \<le> SCOPE_DEPTH"
  shows "EMPTY_SCOPE_SUBTREE C ! l = empty_scope_top C l i"
proof -
  have "EMPTY_SCOPE_SUBTREE C = map (\<lambda>l. empty_scope_top C l 0) [0..<Suc SCOPE_DEPTH]"
    using empty_scope_spec [OF assms(1), of SCOPE_DEPTH]
    by (simp add: EMPTY_SCOPE_SUBTREE_def empty_scope_subtrees_def del: upt_Suc)
  then have "EMPTY_SCOPE_SUBTREE C ! l = empty_scope_top C l 0"
    using assms(2) by (simp del: upt_Suc)
  also have "\<dots> = empty_scope_top C l i" by (rule merkle_top_const)
  finally show ?thesis .
qed

text \<open>How many nodes of a level are stored.\<close>

fun scope_width :: "nat \<Rightarrow> nat \<Rightarrow> nat" where
  "scope_width n 0 = n"
| "scope_width n (Suc l) = (scope_width n l + 1) div 2"

lemma scope_width_covers: "n \<le> scope_width n l * 2 ^ l"
proof (induction l)
  case (Suc l)
  have "scope_width n l \<le> 2 * ((scope_width n l + 1) div 2)" by presburger
  then have "scope_width n l * 2 ^ l \<le> (2 * ((scope_width n l + 1) div 2)) * 2 ^ l" by (rule mult_le_mono1)
  also have "\<dots> = scope_width n (Suc l) * 2 ^ Suc l" by (simp only: scope_width.simps power_Suc ac_simps)
  finally show ?case using Suc by (rule le_trans [rotated])
qed simp

lemma scope_width_pos: "0 < n \<Longrightarrow> 0 < scope_width n l"
  by (induction l) simp_all

lemma scope_above_spec:
  assumes C: "poseidon_ok C" and l: "l < SCOPE_DEPTH" and e: "isField e" "EMPTY_SCOPE_SUBTREE C ! l = e"
  shows "list_all isField xs \<Longrightarrow> scope_above C l xs =
    Inr (map (\<lambda>i. scopeVal C l (xs ! (2 * i)) (if 2 * i + 1 < length xs then xs ! (2 * i + 1) else e))
      [0..<(length xs + 1) div 2])"
proof (induction xs rule: induct_list012)
  case (3 a b xs)
  let ?g = "\<lambda>xs i. scopeVal C l (xs ! (2 * i)) (if 2 * i + 1 < length xs then xs ! (2 * i + 1) else e)"
  have "?g (a # b # xs) (Suc i) = ?g xs i" for i by simp
  then have "map (?g (a # b # xs)) [0..<Suc ((length xs + 1) div 2)] =
      scopeVal C l a b # map (?g xs) [0..<(length xs + 1) div 2]"
    by (subst map_upt_Suc) simp
  moreover have "(length (a # b # xs) + 1) div 2 = Suc ((length xs + 1) div 2)" by simp
  moreover have "scopeNode C (int l) a b = Inr (scopeVal C l a b)"
    using 3 scope_hash.step_total [OF C l] by simp
  ultimately show ?case using 3 by (simp only: scope_above.simps bindR_simps list.pred_inject)
qed (use scope_hash.step_total [OF C l] e in auto)

lemma scope_top_past:
  assumes "scope_width (length xs) l \<le> i"
  shows "scope_top C xs l i = empty_scope_top C l i"
proof (rule merkle_top_cong)
  fix j assume "i * 2 ^ l \<le> j"
  moreover have "length xs \<le> i * 2 ^ l"
    using scope_width_covers [of "length xs" l] assms by (meson le_trans mult_le_mono1)
  ultimately show "leaf_at xs j = 0" by simp
qed

lemma scope_levels_spec:
  assumes C: "poseidon_ok C" and xs: "list_all isField xs"
  shows "L \<le> SCOPE_DEPTH \<Longrightarrow>
    foldR (\<lambda>levels level. bindR (scope_above C level (levels ! level)) (\<lambda>above. Inr (levels @ [above]))) [xs] [0..<L] =
    Inr (map (\<lambda>l. map (scope_top C xs l) [0..<scope_width (length xs) l]) [0..<Suc L])"
proof (induction L)
  case 0
  have "map (scope_top C xs 0) [0..<length xs] = xs" by (rule nth_equalityI) simp_all
  then show ?case by simp
next
  case (Suc L)
  let ?w = "scope_width (length xs) L" and ?e = "empty_scope_top C L 0"
  let ?row = "\<lambda>l. map (scope_top C xs l) [0..<scope_width (length xs) l]"
  have L: "L < SCOPE_DEPTH" using Suc.prems by simp
  have F: "isField (scope_top C xs L i)" for i
    by (rule scope_hash.top_field [OF C leaf_at_field [OF xs]]) (use L in simp)
  have e: "isField ?e" by (rule scope_hash.top_field [OF C]) (use L in simp_all)
  have beyond: "scope_top C xs L i = ?e" if "?w \<le> i" for i
    using scope_top_past [OF that] merkle_top_const by metis
  have eq: "scope_above C L (?row L) = Inr (?row (Suc L))"
  proof -
    have "list_all isField (?row L)" using F by (simp add: list_all_iff)
    from scope_above_spec [OF C L e EMPTY_SCOPE_SUBTREE_spec [OF C] this] L
    have "scope_above C L (?row L) = Inr (map (\<lambda>i. scopeVal C L (?row L ! (2 * i))
        (if 2 * i + 1 < ?w then ?row L ! (2 * i + 1) else ?e)) [0..<(?w + 1) div 2])" by simp
    also have "\<dots> = Inr (?row (Suc L))"
    proof (intro arg_cong [where f = Inr] map_cong)
      fix i assume "i \<in> set [0..<scope_width (length xs) (Suc L)]"
      then have "2 * i < ?w" by auto
      then show "scopeVal C L (?row L ! (2 * i)) (if 2 * i + 1 < ?w then ?row L ! (2 * i + 1) else ?e) =
          scope_top C xs (Suc L) i"
        using beyond [of "2 * i + 1"] by auto
    qed simp
    finally show ?thesis .
  qed
  have "map ?row [0..<Suc L] ! L = ?row L" by (simp del: upt_Suc)
  with eq Suc show ?case
    by (simp only: upt_Suc_append [OF le0] foldR_append foldR.simps bindR_simps) simp
qed

lemma scopeLeaf_field: "scopeLeaf C e = Inr h \<Longrightarrow> isField h \<and> h \<noteq> 0"
  by (auto simp: scopeLeaf_def bindR_Inr_conv split: if_splits dest: poseidon2Hash_field)

lemma hex_byte_inj: "padStart 2 (CHR ''0'') (to_hex (uint b)) = hex_digits 2 (uint (b :: byte))"
  by (rule to_hex_digits) (use byte_range [of b] in simp_all)

lemma hex_Nil: "hex [] = []"
  by (simp add: hex_def)

lemma hex_Cons: "hex (b # bs) = hex_digits 2 (uint b) @ hex bs"
  by (simp add: hex_def hex_byte_inj)

lemma hex_inj: "hex a = hex b \<Longrightarrow> a = b"
proof (induction a arbitrary: b)
  case Nil
  then show ?case by (cases b) (simp_all add: hex_Nil hex_Cons numeral_2_eq_2)
next
  case (Cons x xs)
  show ?case
  proof (cases b)
    case Nil
    then show ?thesis using Cons.prems by (simp add: hex_Nil hex_Cons numeral_2_eq_2)
  next
    case (Cons y ys)
    then have d: "hex_digits 2 (uint x) = hex_digits 2 (uint y)" and t: "hex xs = hex ys"
      using Cons.prems by (simp_all add: hex_Cons append_eq_append_conv)
    have "hex_int (hex_digits 2 (uint z)) = uint z" for z :: byte
      by (rule hex_int_digits) (use byte_range [of z] in simp_all)
    from this [of x] this [of y] d have "uint x = uint y" by metis
    then show ?thesis using Cons.IH [OF t] Cons by (simp add: uint_eq_byte)
  qed
qed

definition pos_map :: "scope_entry list \<Rightarrow> nat \<Rightarrow> string \<Rightarrow> nat option" where
  "pos_map es n = foldl (\<lambda>m i. m(hex (se_backing (es ! i)) \<mapsto> i)) (\<lambda>_. None) [0..<n]"

lemma pos_map_0: "pos_map es 0 k = None"
  by (simp add: pos_map_def)

lemma pos_map_Suc: "pos_map es (Suc n) k = (if k = hex (se_backing (es ! n)) then Some n else pos_map es n k)"
  by (simp add: pos_map_def)

lemma pos_map_conv:
  assumes d: "distinct (map se_backing es)"
  shows "n \<le> length es \<Longrightarrow> pos_map es n (hex b) = Some i \<longleftrightarrow> i < n \<and> se_backing (es ! i) = b"
proof (induction n)
  case (Suc n)
  have inj: "i = n" if "i < Suc n" "se_backing (es ! i) = se_backing (es ! n)"
  proof -
    have "map se_backing es ! i = map se_backing es ! n \<longleftrightarrow> i = n"
      by (rule nth_eq_iff_index_eq [OF d]) (use Suc.prems that(1) in simp_all)
    moreover have "i < length es" using Suc.prems that(1) by linarith
    ultimately show ?thesis using that(2) Suc.prems by simp
  qed
  show ?case
  proof (cases "b = se_backing (es ! n)")
    case True
    then show ?thesis using inj by (auto simp: pos_map_Suc)
  next
    case False
    then have "hex b \<noteq> hex (se_backing (es ! n))" using hex_inj by blast
    then show ?thesis using False Suc by (auto simp: pos_map_Suc less_Suc_eq)
  qed
qed (simp add: pos_map_0)

text \<open>What a built tree holds.\<close>

definition scope_built :: "crypto \<Rightarrow> scope_entry list \<Rightarrow> scope_tree \<Rightarrow> int list \<Rightarrow> bool" where
  "scope_built C es t leaves \<longleftrightarrow> isCanonicalScope es \<and> st_list t = es \<and> length leaves = length es \<and>
     (\<forall>i < length es. scopeLeaf C (es ! i) = Inr (leaves ! i)) \<and> list_all isField leaves \<and>
     (\<forall>l \<le> SCOPE_DEPTH. \<forall>i. st_at C t l i = scope_top C leaves l i) \<and>
     st_root t = scope_top C leaves SCOPE_DEPTH 0 \<and>
     (\<forall>b i. st_indexOf t b = Some i \<longleftrightarrow> i < length es \<and> se_backing (es ! i) = b)"

lemma newScopeTree_built:
  assumes C: "poseidon_ok C" and "newScopeTree C es = Inr t"
  shows "\<exists>leaves. scope_built C es t leaves"
proof -
  from assms(2) obtain leaves where canon: "isCanonicalScope es" and lv: "traverseR (scopeLeaf C) es = Inr leaves"
    and t: "st_list t = es"
      "foldR (\<lambda>levels level. bindR (scope_above C level (levels ! level)) (\<lambda>above. Inr (levels @ [above])))
        [leaves] [0..<SCOPE_DEPTH] = Inr (st_levels t)"
      "st_positions t = foldl (\<lambda>m i. m(hex (se_backing (es ! i)) \<mapsto> i)) (\<lambda>_. None) [0..<length es]"
    by (auto simp: newScopeTree_def bindR_Inr_conv requireScope_conv)
  have len: "length leaves = length es" and leaf: "\<And>i. i < length es \<Longrightarrow> scopeLeaf C (es ! i) = Inr (leaves ! i)"
    using lv by (auto simp: traverseR_Inr_conv list_all2_conv_all_nth)
  have fs: "list_all isField leaves" using leaf scopeLeaf_field by (metis len list_all_length)
  have rows: "st_levels t = map (\<lambda>l. map (scope_top C leaves l) [0..<scope_width (length leaves) l]) [0..<Suc SCOPE_DEPTH]"
    using t(2) scope_levels_spec [OF C fs order_refl] by simp
  have row: "st_levels t ! l = map (scope_top C leaves l) [0..<scope_width (length leaves) l]" if "l \<le> SCOPE_DEPTH" for l
    using that by (simp add: rows del: upt_Suc)
  have nodes: "st_at C t l i = scope_top C leaves l i" if "l \<le> SCOPE_DEPTH" for l i
    using that scope_top_past [of leaves l i C] EMPTY_SCOPE_SUBTREE_spec [OF C that, of i]
    by (auto simp: st_at_def row Let_def)
  have "0 < scope_width (length leaves) SCOPE_DEPTH"
    using canon by (intro scope_width_pos) (simp add: len isCanonicalScope_conv)
  then have root: "st_root t = scope_top C leaves SCOPE_DEPTH 0" by (simp add: st_root_def row)
  have idx: "st_indexOf t b = Some i \<longleftrightarrow> i < length es \<and> se_backing (es ! i) = b" for b i
  proof -
    have "length b = 32" if "i < length es" "se_backing (es ! i) = b"
      using canon that by (auto simp: isCanonicalScope_conv list_all_length isScopeEntry_def)
    then show ?thesis using pos_map_conv [OF isCanonicalScope_distinct [OF canon] order_refl]
      by (auto simp: st_indexOf_def t(3) simp flip: pos_map_def)
  qed
  show ?thesis unfolding scope_built_def
    by (intro exI [of _ leaves] conjI allI impI canon t(1) len leaf fs nodes root idx)
qed

lemma st_path_proves:
  assumes C: "poseidon_ok C" and t: "newScopeTree C es = Inr t" and i: "i < length es"
  shows "\<exists>p leaf. st_path C t (int i) = Inr p \<and> isScopePath p \<and> scopeLeaf C (es ! i) = Inr leaf \<and>
    scopeRootOf C leaf p = Inr (st_root t)"
proof -
  obtain leaves where built: "scope_built C es t leaves" using newScopeTree_built [OF C t] by blast
  then have canon: "isCanonicalScope es" and l: "st_list t = es" and len: "length leaves = length es"
    and leaf: "scopeLeaf C (es ! i) = Inr (leaves ! i)" and fs: "list_all isField leaves"
    and nodes: "\<And>l i. l \<le> SCOPE_DEPTH \<Longrightarrow> st_at C t l i = scope_top C leaves l i"
    and root: "st_root t = scope_top C leaves SCOPE_DEPTH 0"
    using i by (simp_all add: scope_built_def)
  let ?p = "path_up (scope_top C leaves) SCOPE_DEPTH 0 i"
  have p: "st_path C t (int i) = Inr ?p"
    using i nodes by (auto simp: st_path_def st_size_def l intro!: path_up_cong)
  have F: "isField (scope_top C leaves l i)" if "l \<le> SCOPE_DEPTH" for l i
    by (rule scope_hash.top_field [OF C leaf_at_field [OF fs] that])
  have "isScopePath ?p"
    using path_up_lengths [of "scope_top C leaves" SCOPE_DEPTH 0 i]
    by (auto simp: isScopePath_def is_tree_path_def list_all_iff dest!: path_up_siblings intro!: F)
  moreover have "i div 2 ^ SCOPE_DEPTH = 0"
    using canon i by (simp add: isCanonicalScope_conv SCOPE_DEPTH_def)
  then have "carry_up (scopeNode C) 0 (leaves ! i) (siblings ?p) (right ?p) = Inr (st_root t)"
    using scope_hash.carry_path [where f = "leaf_at leaves" and l = 0 and k = SCOPE_DEPTH and i = i, OF C leaf_at_field [OF fs]] i len root
    by simp
  ultimately show ?thesis using p leaf fs i len
    by (auto simp: scopeRootOf_def requireField_def list_all_length)
qed

subsection \<open>Properties\<close>

text \<open>A scope has one canonical list. The accepted lists are exactly the ones of 1 to 65536 well-formed
  entries strictly ascending by backing, each is returned unchanged, and two accepted lists with the same
  entries are the same list, so the scope root is a function of the set of entries.\<close>

theorem scope_canonical:
  "(requireScope es = Inr xs \<longleftrightarrow> xs = es \<and> es \<noteq> [] \<and> length es \<le> 65536 \<and> list_all isScopeEntry es \<and>
     sorted_wrt (\<lambda>a b. compareBytes (se_backing a) (se_backing b) < 0) es) \<and>
   (requireScope es = Inr xs \<and> requireScope fs = Inr ys \<and> set es = set fs \<longrightarrow> es = fs)"
proof -
  have "sorted_wrt backing_less es \<longleftrightarrow> sorted_wrt (\<lambda>a b. compareBytes (se_backing a) (se_backing b) < 0) es"
    by (simp add: backing_less_def [abs_def])
  then show ?thesis
    using isCanonicalScope_unique [of es fs] by (auto simp: requireScope_conv isCanonicalScope_conv)
qed

definition example_scope :: "scope_entry list" where
  "example_scope = [\<lparr>se_backing = replicate 32 1, se_link = replicate 32 3\<rparr>,
     \<lparr>se_backing = replicate 32 2, se_link = replicate 32 0\<rparr>]"

lemma example_scope_canonical: "isCanonicalScope example_scope"
  by code_simp

lemma scope_canonical_witness:
  "requireScope example_scope = Inr example_scope \<and> example_scope = example_scope"
  using scope_canonical [of example_scope example_scope example_scope example_scope] example_scope_canonical
  by (simp add: requireScope_conv)

text \<open>C19: a scope tree answers for its entries and for nothing else. A built tree's root is the root of the
  specified depth-16 tree over the entries' leaves in order; a backing has a position exactly where it is an
  entry's, the entry answered is that one, and its path carries the entry's leaf to the root.\<close>

theorem scope_tree_answers:
  assumes "poseidon_ok C" and "newScopeTree C es = Inr t"
  shows "\<exists>leaves. traverseR (scopeLeaf C) es = Inr leaves \<and>
    st_root t = merkle_top (scopeVal C) (leaf_at leaves) SCOPE_DEPTH 0 \<and>
    (\<forall>b. (st_has t b \<longleftrightarrow> b \<in> set (map se_backing es)) \<and>
      (\<forall>i. st_indexOf t b = Some i \<longrightarrow> i < length es \<and> se_backing (es ! i) = b \<and> st_entry t b = Some (es ! i) \<and>
        (\<exists>p. st_pathFor C t b = Inr (Some p) \<and> scopePathProves C (st_root t) (leaves ! i) p)))"
proof -
  obtain leaves where built: "scope_built C es t leaves" using newScopeTree_built [OF assms] by blast
  then have list: "st_list t = es" and len: "length leaves = length es"
    and leaf: "\<forall>i < length es. scopeLeaf C (es ! i) = Inr (leaves ! i)"
    and root: "st_root t = merkle_top (scopeVal C) (leaf_at leaves) SCOPE_DEPTH 0"
    and idx: "\<And>b i. st_indexOf t b = Some i \<longleftrightarrow> i < length es \<and> se_backing (es ! i) = b"
    by (auto simp: scope_built_def)
  have lv: "traverseR (scopeLeaf C) es = Inr leaves"
    using leaf len by (simp add: traverseR_Inr_conv list_all2_conv_all_nth)
  have has: "st_has t b \<longleftrightarrow> b \<in> set (map se_backing es)" for b
  proof -
    have "st_has t b \<longleftrightarrow> (\<exists>i. st_indexOf t b = Some i)" by (auto simp: st_has_def)
    also have "\<dots> \<longleftrightarrow> b \<in> set (map se_backing es)" unfolding idx in_set_conv_nth by auto
    finally show ?thesis .
  qed
  have path: "\<exists>p. st_pathFor C t b = Inr (Some p) \<and> scopePathProves C (st_root t) (leaves ! i) p"
    if i: "st_indexOf t b = Some i" for b i
  proof -
    have il: "i < length es" using i idx by blast
    obtain p where "st_path C t (int i) = Inr p" "scopeRootOf C (leaves ! i) p = Inr (st_root t)"
      using st_path_proves [OF assms il] leaf il by auto
    then show ?thesis using i by (simp add: st_pathFor_def scopePathProves_def)
  qed
  have ent: "st_entry t b = Some (es ! i)" if "st_indexOf t b = Some i" for b i
    using that by (simp add: st_entry_def list)
  show ?thesis using lv root has path ent idx by blast
qed

lemma example_leaf: "e \<in> set example_scope \<Longrightarrow> isOk (scopeLeaf toy_crypto e)"
proof -
  have "list_all (\<lambda>e. isOk (scopeLeaf toy_crypto e)) example_scope" by code_simp
  then show "e \<in> set example_scope \<Longrightarrow> isOk (scopeLeaf toy_crypto e)" by (simp add: list_all_iff)
qed

lemma newScopeTree_defined:
  assumes "poseidon_ok C" and "isCanonicalScope es" and "\<And>e. e \<in> set es \<Longrightarrow> isOk (scopeLeaf C e)"
  shows "\<exists>t. newScopeTree C es = Inr t"
proof -
  have "\<exists>leaves. list_all2 (\<lambda>e l. scopeLeaf C e = Inr l) es leaves" using assms(3)
    by (induction es) (auto simp: isOk_conv list_all2_Cons1)
  then obtain leaves where lv: "traverseR (scopeLeaf C) es = Inr leaves" by (auto simp: traverseR_Inr_conv)
  then have "list_all isField leaves"
    by (auto simp: traverseR_Inr_conv list_all2_conv_all_nth list_all_length dest: scopeLeaf_field)
  note levels = scope_levels_spec [OF assms(1) this order_refl]
  have "requireScope es = Inr es" using assms(2) by (simp add: requireScope_conv)
  with levels lv show ?thesis by (simp add: newScopeTree_def)
qed

lemma scope_tree_answers_witness:
  "\<exists>t. newScopeTree toy_crypto example_scope = Inr t \<and> st_has t (replicate 32 2) \<and> \<not> st_has t (replicate 32 0)"
proof -
  obtain t where t: "newScopeTree toy_crypto example_scope = Inr t"
    using newScopeTree_defined [OF toy_poseidon_ok example_scope_canonical] example_leaf by blast
  have "st_has t b \<longleftrightarrow> b \<in> set (map se_backing example_scope)" for b
    using scope_tree_answers [OF toy_poseidon_ok t] by blast
  then have "st_has t (replicate 32 2) \<and> \<not> st_has t (replicate 32 0)"
    unfolding example_scope_def by (simp only:) code_simp
  with t show ?thesis by blast
qed

end
