(* ===== verification/Recovery.thy ===== *)
theory Recovery
  imports Records Scope
begin

section \<open>Recovery: demands, releases and withdrawals (src/pool/v3/recovery.ts, refusals.ts)\<close>

text \<open>
  What the state machine reads of a record (the view of construction.ts) and of a state, and the
  guards of recovery over them: standing demands lock the tags they name until their deadline, a
  withdrawal or a settlement ends one, and no recovery statement takes effect twice.  The reads of a
  state are functions that may fail, as the store's do.  The guards are compared with an abstract
  recovery state, a finite map of standing demands with the effective statements and spent tags.
\<close>

definition requireReplay :: "bool \<Rightarrow> string \<Rightarrow> unit result" where
  "requireReplay condition check = requireR condition (ReplayRefusal check)"

text \<open>\<open>every\<close> and \<open>some\<close> of an array under a test that may throw, stopping early as the source does.\<close>

fun everyR :: "('a \<Rightarrow> bool result) \<Rightarrow> 'a list \<Rightarrow> bool result" where
  "everyR f [] = Inr True"
| "everyR f (x # xs) = bindR (f x) (\<lambda>b. if b then everyR f xs else Inr False)"

definition at_index :: "'a list \<Rightarrow> nat \<Rightarrow> 'a option" where
  "at_index xs i = (if i < length xs then Some (xs ! i) else None)"

definition sameBytes :: "bytes \<Rightarrow> bytes \<Rightarrow> bool" where
  "sameBytes a b \<longleftrightarrow> compareBytes a b = 0"

text \<open>A standing demand, by its statement identity elsewhere.\<close>

record demand =
  dm_backing :: bytes
  dm_quantity :: int
  dm_tags :: "int list"
  dm_presenter :: bytes
  dm_instant :: int
  dm_deadline :: int
  dm_nullifiers :: "int list option"

type_synonym verifier = "int \<Rightarrow> int list \<Rightarrow> bytes \<Rightarrow> bool result"

record settlement_terms =
  sm_deadline :: int
  sm_signed :: "bytes \<Rightarrow> bytes \<Rightarrow> bool"

text \<open>One record as the state machine reads it (construction.ts, \<open>StatementView\<close>).\<close>

record statement_view =
  v_kind :: int
  v_identity :: bytes
  v_domain :: bytes
  v_segment :: bytes
  v_scope :: "int option"
  v_digests :: evidence_digests
  v_backings :: "bytes list"
  v_ended :: "string option"
  v_needsDemand :: bool
  v_quantity :: "int option"
  v_nfs :: "int list"
  v_tags :: "int list"
  v_outputs :: "int list"
  v_capsules :: "bytes option list"
  v_roots :: "int list"
  v_inputs :: "int list"
  v_demand :: "(string \<times> demand) option"
  v_check :: "verifier \<Rightarrow> unit result"
  v_issuerSigned :: "bytes \<Rightarrow> bool result"
  v_withdrawalSigned :: "bytes \<Rightarrow> bool result"
  v_settlement :: "settlement_terms result"

text \<open>What the guards read of a state: recovery state, and below it note membership (state.ts, \<open>StateView\<close>).\<close>

record recovery_view =
  rv_demand :: "string \<Rightarrow> demand option result"
  rv_demandsWithTag :: "int \<Rightarrow> (string \<times> demand) list result"
  rv_isEffective :: "string \<Rightarrow> bool result"
  rv_hasSpentTag :: "int \<Rightarrow> bool result"

record effect =
  ef_nfs :: "int list"
  ef_outputs :: "int list"
  ef_roots :: "int list"

record recovery_effect =
  re_demand :: "(string \<times> demand) option"
  re_ended :: "string option"

definition tagOf :: "crypto \<Rightarrow> int \<Rightarrow> int result" where
  "tagOf C nf = poseidon2Hash C [1007, nf]"

definition locked :: "('a recovery_view_scheme) \<Rightarrow> int \<Rightarrow> int \<Rightarrow> string option \<Rightarrow> bool result" where
  "locked view t at except = mapR (\<lambda>ds. list_ex (\<lambda>(id, d). Some id \<noteq> except \<and> dm_deadline d \<ge> at) ds)
     (rv_demandsWithTag view t)"

definition slice_of :: "int list \<Rightarrow> nat \<Rightarrow> nat \<Rightarrow> int list" where
  "slice_of p i j = take (j - i) (drop i p)"

definition effectOf :: "'a statement_scheme \<Rightarrow> effect result" where
  "effectOf r = (let p = s_inputs r; kind = s_kind r in
     if kind = 1 then Inr \<lparr>ef_nfs = [], ef_outputs = [p ! 8], ef_roots = []\<rparr>
     else if kind = 2 then Inr \<lparr>ef_nfs = slice_of p 7 9, ef_outputs = slice_of p 9 13, ef_roots = slice_of p 5 7\<rparr>
     else if kind = 3 then Inr \<lparr>ef_nfs = slice_of p 10 12, ef_outputs = [p ! 12], ef_roots = slice_of p 8 10\<rparr>
     else if kind = 4 then Inr \<lparr>ef_nfs = [], ef_outputs = [],
       ef_roots = map snd (filter (\<lambda>(i, _). p ! (10 + i) \<noteq> 0) (enumerate 0 (slice_of p 8 10)))\<rparr>
     else if kind = 5 then Inr \<lparr>ef_nfs = [], ef_outputs = [], ef_roots = []\<rparr>
     else if kind = 6 then Inr \<lparr>ef_nfs = slice_of p 12 14, ef_outputs = [p ! 14], ef_roots = slice_of p 10 12\<rparr>
     else Inl (PlainError ''unsupported recovery record kind''))"

definition recoveryEffect :: "crypto \<Rightarrow> 'a statement_scheme \<Rightarrow> recovery_effect result" where
  "recoveryEffect C r = (let p = s_inputs r; kind = s_kind r in
     if kind = 4 then
       bindR (statementHash C r) (\<lambda>h. bindR (identifierOf (p ! 5) (p ! 6)) (\<lambda>backing.
       bindR (identifierOf (p ! 12) (p ! 13)) (\<lambda>presenter.
       Inr \<lparr>re_demand = Some (hex h, \<lparr>dm_backing = backing, dm_quantity = p ! 7, dm_tags = slice_of p 10 12,
         dm_presenter = presenter, dm_instant = p ! 14, dm_deadline = p ! 15, dm_nullifiers = None\<rparr>), re_ended = None\<rparr>)))
     else if kind = 5 \<or> kind = 6 then
       (let i = (if kind = 5 then 5 else 15) in
        bindR (identifierOf (p ! i) (p ! (i + 1))) (\<lambda>h. Inr \<lparr>re_demand = None, re_ended = Some (hex h)\<rparr>))
     else Inr \<lparr>re_demand = None, re_ended = None\<rparr>)"

record recovery_check =
  rk_check :: "bool \<Rightarrow> string \<Rightarrow> unit result"
  rk_backing :: bytes
  rk_issuer :: bytes
  rk_at :: int
  rk_lag :: "int option"
  rk_door :: bool

text \<open>The guards, before any mutation, in the source's order: of a demand, of a settlement and of any record.  A missing
  value the source reads with \<open>!\<close> is a \<open>TypeError\<close>.\<close>

definition demand_guard :: "statement_view \<Rightarrow> ('a recovery_view_scheme) \<Rightarrow> recovery_check \<Rightarrow> unit result" where
  "demand_guard view state k = (case v_demand view of None \<Rightarrow> Inl (TypeError ''demand'') | Some (_, stood) \<Rightarrow>
     let tags = filter (\<lambda>t. t \<noteq> 0) (dm_tags stood); check = rk_check k; at = rk_at k; lag = the (rk_lag k) in
     bindR (check (length tags > 0 \<and> card (set tags) = length tags) ''TAGS'') (\<lambda>_.
     bindR (everyR (\<lambda>t. bindR (rv_hasSpentTag state t) (\<lambda>s. if s then Inr False else mapR Not (locked state t at None))) tags) (\<lambda>free.
     bindR (check free ''LOCKED'') (\<lambda>_.
     if rk_door k
     then check (dm_instant stood \<ge> at - 2 * lag \<and> dm_instant stood \<le> at - lag \<and> dm_deadline stood > at) ''DEADLINE''
     else Inr ()))))"

definition settlement_guard ::
    "statement_view \<Rightarrow> ('a recovery_view_scheme) \<Rightarrow> recovery_check \<Rightarrow> string \<Rightarrow> demand \<Rightarrow> unit result" where
  "settlement_guard view state k demandId d = (let check = rk_check k; at = rk_at k in
     bindR (check (v_quantity view = Some (dm_quantity d)) ''QUANTITY'') (\<lambda>_.
     bindR (v_settlement view) (\<lambda>settlement.
     bindR (check (sm_deadline settlement \<le> dm_deadline d) ''DEADLINE'') (\<lambda>_.
     bindR (check (sm_signed settlement (rk_issuer k) (dm_presenter d)) ''SIGNATURE'') (\<lambda>_.
     bindR (if rk_door k then check (sm_deadline settlement \<ge> at) ''DEADLINE'' else Inr ()) (\<lambda>_.
     bindR (check (list_all (\<lambda>i. at_index (dm_tags d) i = Some 0 \<or> at_index (dm_tags d) i = at_index (v_tags view) i)
       [0..<length (v_nfs view)]) ''TAGS'') (\<lambda>_.
     bindR (everyR (\<lambda>t. mapR Not (locked state t at (Some demandId))) (v_tags view)) (\<lambda>free.
     check free ''LOCKED''))))))))"

definition checkRecovery :: "statement_view \<Rightarrow> ('a recovery_view_scheme) \<Rightarrow> recovery_check \<Rightarrow> unit result" where
  "checkRecovery view state k = (let kind = v_kind view; check = rk_check k in
     if rk_door k \<and> rk_lag k = None then Inl (TypeError ''a door is judged at an index under the venue's lag'')
     else bindR (if kind \<ge> 4 then bindR (rv_isEffective state (hex (v_identity view))) (\<lambda>e. check (\<not> e) ''REPEATED_STATEMENT'')
       else Inr ()) (\<lambda>_.
     if kind = 4 then demand_guard view state k
     else if kind = 5 \<or> kind = 6 then (case v_ended view of None \<Rightarrow> Inl (TypeError ''ended'') | Some demandId \<Rightarrow>
       bindR (rv_demand state demandId) (\<lambda>found.
       bindR (check (case found of None \<Rightarrow> False | Some d \<Rightarrow> sameBytes (dm_backing d) (rk_backing k)) ''DEMAND'') (\<lambda>_.
       case found of None \<Rightarrow> Inl (TypeError ''demand'') | Some d \<Rightarrow>
         if kind = 5 then bindR (v_withdrawalSigned view (dm_presenter d)) (\<lambda>s. check s ''SIGNATURE'')
         else settlement_guard view state k demandId d)))
     else if kind = 2 \<or> kind = 3 then
       bindR (everyR (\<lambda>t. mapR Not (locked state t (rk_at k) None)) (v_tags view)) (\<lambda>free. check free ''LOCKED'')
     else Inr ()))"

subsection \<open>Generic facts\<close>

lemma requireReplay_simps [simp, result_simps]:
  "requireReplay True c = Inr ()"
  "requireReplay False c = Inl (ReplayRefusal c)"
  "requireReplay b c = Inr u \<longleftrightarrow> b"
  by (simp_all add: requireReplay_def)

lemma sameBytes_iff [simp]: "sameBytes a b \<longleftrightarrow> a = b"
  by (simp add: sameBytes_def)

lemma everyR_total: "(\<And>x. x \<in> set xs \<Longrightarrow> f x = Inr (g x)) \<Longrightarrow> everyR f xs = Inr (list_all g xs)"
  by (induction xs) simp_all

lemma everyR_True: "everyR f xs = Inr True \<longleftrightarrow> (\<forall>x \<in> set xs. f x = Inr True)"
  by (induction xs) (auto simp: bindR_Inr_conv split: if_splits)

lemma card_set_length: "card (set xs) = length xs \<longleftrightarrow> distinct xs"
  using card_distinct distinct_card by blast

subsection \<open>The abstract recovery state\<close>

record recovery_state =
  rs_standing :: "string \<Rightarrow> demand option"
  rs_effective :: "bytes set"
  rs_spent :: "int set"

definition unlocked :: "recovery_state \<Rightarrow> int \<Rightarrow> int \<Rightarrow> string option \<Rightarrow> bool" where
  "unlocked rs t at except \<longleftrightarrow>
     (\<forall>id d. rs_standing rs id = Some d \<longrightarrow> t \<in> set (dm_tags d) \<longrightarrow> Some id \<noteq> except \<longrightarrow> dm_deadline d < at)"

definition live_tags :: "demand \<Rightarrow> int list" where
  "live_tags d = filter (\<lambda>t. t \<noteq> 0) (dm_tags d)"

text \<open>A demand may stand where its notes are neither spent nor locked, and at the door within the notice window.\<close>

definition demand_allowed :: "recovery_state \<Rightarrow> demand \<Rightarrow> recovery_check \<Rightarrow> bool" where
  "demand_allowed rs d k \<longleftrightarrow> live_tags d \<noteq> [] \<and> distinct (live_tags d) \<and>
     (\<forall>t \<in> set (live_tags d). t \<notin> rs_spent rs \<and> unlocked rs t (rk_at k) None) \<and>
     (rk_door k \<longrightarrow> rk_at k - 2 * the (rk_lag k) \<le> dm_instant d \<and> dm_instant d \<le> rk_at k - the (rk_lag k) \<and> rk_at k < dm_deadline d)"

definition release_allowed :: "recovery_state \<Rightarrow> statement_view \<Rightarrow> string \<Rightarrow> demand \<Rightarrow> recovery_check \<Rightarrow> bool" where
  "release_allowed rs v name d k \<longleftrightarrow> v_quantity v = Some (dm_quantity d) \<and>
     (\<exists>s. v_settlement v = Inr s \<and> sm_deadline s \<le> dm_deadline d \<and> sm_signed s (rk_issuer k) (dm_presenter d) \<and>
        (rk_door k \<longrightarrow> rk_at k \<le> sm_deadline s)) \<and>
     (\<forall>i < length (v_nfs v). at_index (dm_tags d) i = Some 0 \<or> at_index (dm_tags d) i = at_index (v_tags v) i) \<and>
     (\<forall>t \<in> set (v_tags v). unlocked rs t (rk_at k) (Some name))"

definition recovery_allowed :: "recovery_state \<Rightarrow> statement_view \<Rightarrow> recovery_check \<Rightarrow> bool" where
  "recovery_allowed rs v k \<longleftrightarrow>
     (v_kind v \<ge> 4 \<longrightarrow> v_identity v \<notin> rs_effective rs) \<and>
     (v_kind v = 4 \<longrightarrow> (\<exists>id d. v_demand v = Some (id, d) \<and> demand_allowed rs d k)) \<and>
     (v_kind v = 5 \<or> v_kind v = 6 \<longrightarrow> (\<exists>id d. v_ended v = Some id \<and> rs_standing rs id = Some d \<and> dm_backing d = rk_backing k \<and>
        (if v_kind v = 5 then v_withdrawalSigned v (dm_presenter d) = Inr True else release_allowed rs v id d k))) \<and>
     (v_kind v = 2 \<or> v_kind v = 3 \<longrightarrow> (\<forall>t \<in> set (v_tags v). unlocked rs t (rk_at k) None))"

text \<open>A stored key: 32 big-endian bytes.\<close>

definition stored_key :: "int \<Rightarrow> bool" where
  "stored_key v \<longleftrightarrow> 0 \<le> v \<and> v < 2 ^ 256"

text \<open>A state's recovery reads answer from one abstract recovery state.\<close>

definition reads_as :: "'a recovery_view_scheme \<Rightarrow> recovery_state \<Rightarrow> bool" where
  "reads_as view rs \<longleftrightarrow> (\<forall>name. rv_demand view name = Inr (rs_standing rs name)) \<and>
     (\<forall>t. stored_key t \<longrightarrow> (\<exists>ds. rv_demandsWithTag view t = Inr ds \<and>
        (\<forall>id d. (id, d) \<in> set ds \<longleftrightarrow> rs_standing rs id = Some d \<and> t \<in> set (dm_tags d)))) \<and>
     (\<forall>h. rv_isEffective view (hex h) = Inr (h \<in> rs_effective rs)) \<and>
     (\<forall>t. stored_key t \<longrightarrow> rv_hasSpentTag view t = Inr (t \<in> rs_spent rs))"

text \<open>What one effective record does to the abstract state.\<close>

definition recovery_step :: "(string \<times> demand) option \<Rightarrow> string option \<Rightarrow> bytes set \<Rightarrow> int set \<Rightarrow> recovery_state \<Rightarrow> recovery_state" where
  "recovery_step dem ended effective spent rs =
     (let standing = (case dem of None \<Rightarrow> rs_standing rs | Some (n, d) \<Rightarrow> (rs_standing rs)(n \<mapsto> d)) in
      \<lparr>rs_standing = (case ended of None \<Rightarrow> standing | Some n \<Rightarrow> standing(n := None)),
       rs_effective = rs_effective rs \<union> effective, rs_spent = rs_spent rs \<union> spent\<rparr>)"

text \<open>The contract of the states a guard runs over: each one that is \<open>ok\<close> reads as its abstract recovery state.\<close>

locale recovery_reads =
  fixes view :: "'s \<Rightarrow> 'a recovery_view_scheme"
    and rs :: "'s \<Rightarrow> recovery_state"
    and ok :: "'s \<Rightarrow> bool"
  assumes reads: "ok s \<Longrightarrow> reads_as (view s) (rs s)"
begin

lemma demand_read: "ok s \<Longrightarrow> rv_demand (view s) name = Inr (rs_standing (rs s) name)"
  using reads [of s] by (simp add: reads_as_def)

lemma effective_read: "ok s \<Longrightarrow> rv_isEffective (view s) (hex h) = Inr (h \<in> rs_effective (rs s))"
  using reads [of s] by (simp add: reads_as_def)

lemma spent_read: "ok s \<Longrightarrow> stored_key t \<Longrightarrow> rv_hasSpentTag (view s) t = Inr (t \<in> rs_spent (rs s))"
  using reads [of s] by (simp add: reads_as_def)

lemma locked_read: "ok s \<Longrightarrow> stored_key t \<Longrightarrow> locked (view s) t at except = Inr (\<not> unlocked (rs s) t at except)"
proof -
  assume "ok s" and "stored_key t"
  then obtain ds where "rv_demandsWithTag (view s) t = Inr ds"
    "\<forall>id d. (id, d) \<in> set ds \<longleftrightarrow> rs_standing (rs s) id = Some d \<and> t \<in> set (dm_tags d)"
    using reads [of s] by (auto simp: reads_as_def)
  then show ?thesis by (fastforce simp: locked_def unlocked_def list_ex_iff not_less)
qed

lemma free_read: "ok s \<Longrightarrow> \<forall>t \<in> set ts. stored_key t \<Longrightarrow>
    everyR (\<lambda>t. mapR Not (locked (view s) t at except)) ts = Inr (\<forall>t \<in> set ts. unlocked (rs s) t at except)"
  by (subst everyR_total [where g = "\<lambda>t. unlocked (rs s) t at except"]) (simp_all add: locked_read list_all_iff)

lemma unspent_read: "ok s \<Longrightarrow> \<forall>t \<in> set ts. stored_key t \<Longrightarrow>
    everyR (\<lambda>t. bindR (rv_hasSpentTag (view s) t) (\<lambda>b. if b then Inr False else mapR Not (locked (view s) t at None))) ts =
      Inr (\<forall>t \<in> set ts. t \<notin> rs_spent (rs s) \<and> unlocked (rs s) t at None)"
  by (subst everyR_total [where g = "\<lambda>t. t \<notin> rs_spent (rs s) \<and> unlocked (rs s) t at None"])
     (auto simp: locked_read spent_read list_all_iff)

lemma demand_guard_exact:
  assumes "ok s" and "v_demand v = Some (name, d)" and "\<forall>t \<in> set (dm_tags d). stored_key t" and "rk_check k = requireReplay"
  shows "demand_guard v (view s) k = Inr () \<longleftrightarrow> demand_allowed (rs s) d k"
proof -
  have "\<forall>t \<in> set (live_tags d). stored_key t" using assms(3) by (simp add: live_tags_def)
  from unspent_read [OF assms(1) this] show ?thesis
    using assms(2,4) by (auto simp: demand_guard_def live_tags_def [symmetric] Let_def bindR_Inr_conv demand_allowed_def card_set_length)
qed

lemma settlement_guard_exact:
  assumes "ok s" and "\<forall>t \<in> set (v_tags v). stored_key t" and "rk_check k = requireReplay"
  shows "settlement_guard v (view s) k name d = Inr () \<longleftrightarrow> release_allowed (rs s) v name d k"
  using assms by (auto simp: settlement_guard_def Let_def bindR_Inr_conv free_read release_allowed_def list_all_iff)

lemma checkRecovery_exact:
  assumes good: "ok s" and "rk_check k = requireReplay" and "rk_door k \<longrightarrow> rk_lag k \<noteq> None" and "\<forall>t \<in> set (v_tags v). stored_key t"
    and "v_kind v = 4 \<longrightarrow> (\<exists>id d. v_demand v = Some (id, d) \<and> (\<forall>t \<in> set (dm_tags d). stored_key t))"
  shows "checkRecovery v (view s) k = Inr () \<longleftrightarrow> recovery_allowed (rs s) v k"
proof -
  note effective_read [OF good, simp] demand_read [OF good, simp]
  consider "v_kind v = 4" | "v_kind v = 5" | "v_kind v = 6" | "v_kind v = 2 \<or> v_kind v = 3"
    | "v_kind v \<notin> {2, 3, 4, 5, 6}" by blast
  then show ?thesis
  proof cases
    case 1
    then obtain id d where d: "v_demand v = Some (id, d)" "\<forall>t \<in> set (dm_tags d). stored_key t" using assms(5) by blast
    show ?thesis using 1 assms(2,3) d demand_guard_exact [OF good d assms(2)]
      by (auto simp: checkRecovery_def Let_def bindR_Inr_conv recovery_allowed_def)
  next
    case 2
    then show ?thesis using assms(2,3)
      by (auto simp: checkRecovery_def Let_def bindR_Inr_conv recovery_allowed_def split: option.splits)
  next
    case 3
    then show ?thesis using assms(2,3) settlement_guard_exact [OF good assms(4,2)]
      by (auto simp: checkRecovery_def Let_def bindR_Inr_conv recovery_allowed_def split: option.splits)
  next
    case 4
    then show ?thesis using assms(2-4)
      by (auto simp: checkRecovery_def Let_def bindR_Inr_conv recovery_allowed_def free_read [OF good assms(4)])
  next
    case 5
    then show ?thesis using assms(2,3)
      by (auto simp: checkRecovery_def Let_def bindR_Inr_conv recovery_allowed_def)
  qed
qed

end

end
