(* ===== verification/VenueRecords.thy ===== *)
theory VenueRecords
  imports Contexts Codec
begin

section \<open>Venue records of kinds 1 to 3 (src/venue-records.ts)\<close>

text \<open>
  A commitment with the directory its root authenticates, a replacement of a backing's operator
  and a revocation of an obligor key: their frames, signed messages, hashes and signature checks.
  A verifier answers false wherever the source catches an error.
\<close>

subsection \<open>Commitments\<close>

record commitment =
  c_sequence :: int
  c_root :: bytes
  c_operator :: bytes
  c_signature :: bytes

record snapshot_digest =
  dg_name :: bytes
  dg_digest :: bytes

text \<open>The copy of the directory, each name strictly above the one before it.\<close>

fun directory_entries :: "bytes option \<Rightarrow> snapshot_digest list \<Rightarrow> snapshot_digest list result" where
  "directory_entries previous [] = Inr []"
| "directory_entries previous (entry # rest) =
     (if (case previous of None \<Rightarrow> False | Some name \<Rightarrow> compareBytes name (dg_name entry) \<ge> 0)
      then Inl (EncodingError ''directory names must be strictly increasing'')
      else bindR (directory_entries (Some (dg_name entry)) rest) (\<lambda>own. Inr (entry # own)))"

definition directoryRoot :: "crypto \<Rightarrow> snapshot_digest list \<Rightarrow> bytes result" where
  "directoryRoot C directory =
     (if int (length directory) > 0xffffffff then Inl (EncodingError ''array longer than its limit'')
      else bindR (directory_entries None directory) (\<lambda>entries.
        mapR (sha256 C) (written ([w_context DIRECTORY_MAGIC, w_u8 1, w_u32 (int (length entries))] @
          concat (map (\<lambda>entry. [w_key32 (dg_name entry) ''backing name'', w_key32 (dg_digest entry) ''snapshot digest'']) entries)))))"

definition commitmentMessage :: "int \<Rightarrow> bytes \<Rightarrow> bytes result" where
  "commitmentMessage sequence root = written [w_context COMMITMENT_CONTEXT, w_u64 sequence, w_key32 root ''root'']"

definition signCommitment :: "crypto \<Rightarrow> bytes \<Rightarrow> int \<Rightarrow> bytes \<Rightarrow> commitment result" where
  "signCommitment C operatorSecret sequence root =
     bindR (commitmentMessage sequence root) (\<lambda>message.
     Inr \<lparr>c_sequence = sequence, c_root = root, c_operator = ed25519_public C operatorSecret,
       c_signature = ed25519_sign C message operatorSecret\<rparr>)"

definition encodeCommitment :: "commitment \<Rightarrow> bytes result" where
  "encodeCommitment c = written [w_u64 (c_sequence c), w_key32 (c_root c) ''root'',
     w_key32 (c_operator c) ''operator key'', w_fixed (c_signature c) 64 ''signature'']"

definition decodeCommitment :: "bytes \<Rightarrow> commitment result" where
  "decodeCommitment = decoded_by (
     bindP (bindP r_u64 (\<lambda>sequence. bindP (r_raw 32) (\<lambda>root. bindP (r_raw 32) (\<lambda>operator. bindP (r_raw 64) (\<lambda>signature.
       returnP \<lparr>c_sequence = sequence, c_root = root, c_operator = operator, c_signature = signature\<rparr>)))))
     (\<lambda>c. bindP r_expectEnd (\<lambda>_. returnP c)))"

definition verifyCommitment :: "crypto \<Rightarrow> commitment \<Rightarrow> bool" where
  "verifyCommitment C c = (case commitmentMessage (c_sequence c) (c_root c) of
     Inl _ \<Rightarrow> False
   | Inr message \<Rightarrow> verifySignatureStrict C (c_signature c) message (c_operator c))"

definition isEquivocation :: "crypto \<Rightarrow> commitment \<Rightarrow> commitment \<Rightarrow> bool" where
  "isEquivocation C a b \<longleftrightarrow> compareBytes (c_operator a) (c_operator b) = 0 \<and> c_sequence a = c_sequence b \<and>
     compareBytes (c_root a) (c_root b) \<noteq> 0 \<and> verifyCommitment C a \<and> verifyCommitment C b"

subsection \<open>Replacements\<close>

definition ROLE_OPERATOR :: int where
  "ROLE_OPERATOR = 1"

record replacement =
  rp_role :: int
  rp_successor :: bytes
  rp_predecessor :: bytes
  rp_effective :: int
  rp_signature :: bytes
  rp_successorSignature :: bytes

definition replacementMessage :: "bytes \<Rightarrow> replacement \<Rightarrow> bytes result" where
  "replacementMessage backingName r = written [w_context REPLACEMENT_CONTEXT, w_key32 backingName ''backing name'',
     w_u8 (rp_role r), w_key32 (rp_successor r) ''successor key'', w_key32 (rp_predecessor r) ''predecessor'',
     w_u64 (rp_effective r)]"

definition replacementHash :: "crypto \<Rightarrow> bytes \<Rightarrow> replacement \<Rightarrow> bytes result" where
  "replacementHash C backingName r = mapR (sha256 C) (replacementMessage backingName r)"

definition encodeReplacement :: "bytes \<times> replacement \<Rightarrow> bytes result" where
  "encodeReplacement = (\<lambda>(backingName, r). written [w_key32 backingName ''backing name'', w_u8 (rp_role r),
     w_key32 (rp_successor r) ''successor key'', w_key32 (rp_predecessor r) ''predecessor'', w_u64 (rp_effective r),
     w_fixed (rp_signature r) 64 ''signature'', w_fixed (rp_successorSignature r) 64 ''successor signature''])"

definition decodeReplacement :: "bytes \<Rightarrow> (bytes \<times> replacement) result" where
  "decodeReplacement = decoded_by (
     bindP (bindP (r_raw 32) (\<lambda>backingName. bindP r_u8 (\<lambda>role. bindP (r_raw 32) (\<lambda>successor.
       bindP (r_raw 32) (\<lambda>predecessor. bindP r_u64 (\<lambda>effective. bindP (r_raw 64) (\<lambda>signature.
       bindP (r_raw 64) (\<lambda>successorSignature.
       returnP (backingName, \<lparr>rp_role = role, rp_successor = successor, rp_predecessor = predecessor,
         rp_effective = effective, rp_signature = signature, rp_successorSignature = successorSignature\<rparr>)))))))))
     (\<lambda>x. bindP r_expectEnd (\<lambda>_. returnP x)))"

definition verifyReplacement :: "crypto \<Rightarrow> bytes \<Rightarrow> replacement \<Rightarrow> bytes \<Rightarrow> bool" where
  "verifyReplacement C backingName r ruleKey =
     (if rp_role r \<noteq> ROLE_OPERATOR then False
      else case replacementMessage backingName r of
        Inl _ \<Rightarrow> False
      | Inr message \<Rightarrow> verifySignatureStrict C (rp_signature r) message ruleKey \<and>
          verifySignatureStrict C (rp_successorSignature r) message (rp_successor r))"

subsection \<open>Revocations\<close>

record revocation =
  rv_obligor :: bytes
  rv_signature :: bytes

definition revocationMessage :: "bytes \<Rightarrow> bytes result" where
  "revocationMessage obligor = written [w_context REVOCATION_CONTEXT, w_key32 obligor ''obligor key'']"

definition signRevocation :: "crypto \<Rightarrow> bytes \<Rightarrow> revocation result" where
  "signRevocation C obligorSecret =
     bindR (revocationMessage (ed25519_public C obligorSecret)) (\<lambda>message.
     Inr \<lparr>rv_obligor = ed25519_public C obligorSecret, rv_signature = ed25519_sign C message obligorSecret\<rparr>)"

definition encodeRevocation :: "revocation \<Rightarrow> bytes result" where
  "encodeRevocation r = written [w_key32 (rv_obligor r) ''obligor key'', w_fixed (rv_signature r) 64 ''signature'']"

definition decodeRevocation :: "bytes \<Rightarrow> revocation result" where
  "decodeRevocation = decoded_by (
     bindP (bindP (r_raw 32) (\<lambda>obligor. bindP (r_raw 64) (\<lambda>signature.
       returnP \<lparr>rv_obligor = obligor, rv_signature = signature\<rparr>)))
     (\<lambda>x. bindP r_expectEnd (\<lambda>_. returnP x)))"

definition isSignedRevocation :: "crypto \<Rightarrow> revocation \<Rightarrow> bool" where
  "isSignedRevocation C r = (case revocationMessage (rv_obligor r) of
     Inl _ \<Rightarrow> False
   | Inr message \<Rightarrow> verifySignatureStrict C (rv_signature r) message (rv_obligor r))"

subsection \<open>Frames\<close>

lemma commitmentMessage_conv: "commitmentMessage s r = Inr m \<longleftrightarrow>
    0 \<le> s \<and> s < 2 ^ 64 \<and> length r = 32 \<and> m = COMMITMENT_CONTEXT @ be_bytes 8 s @ r"
  by (auto simp: commitmentMessage_def write_simps bindR_Inr_conv)

lemma encodeCommitment_conv: "encodeCommitment c = Inr bs \<longleftrightarrow>
    (0 \<le> c_sequence c \<and> c_sequence c < 2 ^ 64 \<and> length (c_root c) = 32 \<and> length (c_operator c) = 32 \<and>
      length (c_signature c) = 64) \<and>
    bs = be_bytes 8 (c_sequence c) @ c_root c @ c_operator c @ c_signature c"
  by (auto simp: encodeCommitment_def write_simps bindR_Inr_conv)

lemma decodeCommitment_conv: "decodeCommitment bs = Inr c \<longleftrightarrow> encodeCommitment c = Inr bs"
proof -
  have "reads (bindP r_u64 (\<lambda>sequence. bindP (r_raw 32) (\<lambda>root. bindP (r_raw 32) (\<lambda>operator. bindP (r_raw 64) (\<lambda>signature.
       returnP \<lparr>c_sequence = sequence, c_root = root, c_operator = operator, c_signature = signature\<rparr>)))))
    (\<lambda>c. be_bytes 8 (c_sequence c) @ c_root c @ c_operator c @ c_signature c)
    (\<lambda>c. 0 \<le> c_sequence c \<and> c_sequence c < 2 ^ 64 \<and> length (c_root c) = 32 \<and> length (c_operator c) = 32 \<and>
      length (c_signature c) = 64)"
    by (rule reads_splitI) (auto simp: read_simps run_simps)
  from decoded_whole_unchecked [OF this] show ?thesis by (simp add: decodeCommitment_def encodeCommitment_conv)
qed

interpretation commitment_codec: frame_codec encodeCommitment decodeCommitment
  by unfold_locales (rule decodeCommitment_conv)

lemma replacementMessage_conv: "replacementMessage b r = Inr m \<longleftrightarrow>
    (length b = 32 \<and> 0 \<le> rp_role r \<and> rp_role r < 256 \<and> length (rp_successor r) = 32 \<and> length (rp_predecessor r) = 32 \<and>
      0 \<le> rp_effective r \<and> rp_effective r < 2 ^ 64) \<and>
    m = REPLACEMENT_CONTEXT @ b @ be_bytes 1 (rp_role r) @ rp_successor r @ rp_predecessor r @ be_bytes 8 (rp_effective r)"
  by (auto simp: replacementMessage_def write_simps bindR_Inr_conv)

definition replacement_shape :: "bytes \<times> replacement \<Rightarrow> bool" where
  "replacement_shape x \<longleftrightarrow> (case x of (b, r) \<Rightarrow>
     length b = 32 \<and> 0 \<le> rp_role r \<and> rp_role r < 256 \<and> length (rp_successor r) = 32 \<and> length (rp_predecessor r) = 32 \<and>
     0 \<le> rp_effective r \<and> rp_effective r < 2 ^ 64 \<and> length (rp_signature r) = 64 \<and> length (rp_successorSignature r) = 64)"

definition replacement_enc :: "bytes \<times> replacement \<Rightarrow> bytes" where
  "replacement_enc x = (case x of (b, r) \<Rightarrow> b @ be_bytes 1 (rp_role r) @ rp_successor r @ rp_predecessor r @
     be_bytes 8 (rp_effective r) @ rp_signature r @ rp_successorSignature r)"

lemma encodeReplacement_conv: "encodeReplacement x = Inr bs \<longleftrightarrow> replacement_shape x \<and> bs = replacement_enc x"
  by (cases x) (auto simp: encodeReplacement_def replacement_shape_def replacement_enc_def write_simps bindR_Inr_conv)

lemma decodeReplacement_conv: "decodeReplacement bs = Inr x \<longleftrightarrow> encodeReplacement x = Inr bs"
proof -
  let ?p = "bindP (r_raw 32) (\<lambda>backingName. bindP r_u8 (\<lambda>role. bindP (r_raw 32) (\<lambda>successor.
       bindP (r_raw 32) (\<lambda>predecessor. bindP r_u64 (\<lambda>effective. bindP (r_raw 64) (\<lambda>signature.
       bindP (r_raw 64) (\<lambda>successorSignature.
       returnP (backingName, \<lparr>rp_role = role, rp_successor = successor, rp_predecessor = predecessor,
         rp_effective = effective, rp_signature = signature, rp_successorSignature = successorSignature\<rparr>))))))))"
  have "reads ?p replacement_enc replacement_shape"
  proof (rule reads_splitI)
    fix pre rest x r'
    assume "?p (reader_at pre rest) = Inr (x, r')"
    then show "replacement_shape x \<and> (\<exists>rest'. rest = replacement_enc x @ rest' \<and> r' = reader_at (pre @ replacement_enc x) rest')"
      by (auto simp: read_simps replacement_shape_def replacement_enc_def)
  next
    fix pre rest and x :: "bytes \<times> replacement"
    assume "replacement_shape x"
    then show "?p (reader_at pre (replacement_enc x @ rest)) = Inr (x, reader_at (pre @ replacement_enc x) rest)"
      by (cases x) (simp add: run_simps replacement_shape_def replacement_enc_def)
  qed
  from decoded_whole_unchecked [OF this] show ?thesis by (simp add: decodeReplacement_def encodeReplacement_conv)
qed

interpretation replacement_codec: frame_codec encodeReplacement decodeReplacement
  by unfold_locales (rule decodeReplacement_conv)

lemma revocationMessage_conv: "revocationMessage k = Inr m \<longleftrightarrow> length k = 32 \<and> m = REVOCATION_CONTEXT @ k"
  by (auto simp: revocationMessage_def write_simps bindR_Inr_conv)

lemma encodeRevocation_conv: "encodeRevocation r = Inr bs \<longleftrightarrow>
    (length (rv_obligor r) = 32 \<and> length (rv_signature r) = 64) \<and> bs = rv_obligor r @ rv_signature r"
  by (auto simp: encodeRevocation_def write_simps bindR_Inr_conv)

lemma decodeRevocation_conv: "decodeRevocation bs = Inr r \<longleftrightarrow> encodeRevocation r = Inr bs"
proof -
  have "reads (bindP (r_raw 32) (\<lambda>obligor. bindP (r_raw 64) (\<lambda>signature.
       returnP \<lparr>rv_obligor = obligor, rv_signature = signature\<rparr>)))
    (\<lambda>r. rv_obligor r @ rv_signature r) (\<lambda>r. length (rv_obligor r) = 32 \<and> length (rv_signature r) = 64)"
    by (rule reads_splitI) (auto simp: read_simps run_simps)
  from decoded_whole_unchecked [OF this] show ?thesis by (simp add: decodeRevocation_def encodeRevocation_conv)
qed

interpretation revocation_codec: frame_codec encodeRevocation decodeRevocation
  by unfold_locales (rule decodeRevocation_conv)

subsection \<open>The directory's frame\<close>

definition directory_enc :: "snapshot_digest list \<Rightarrow> bytes" where
  "directory_enc es = DIRECTORY_MAGIC @ be_bytes 1 1 @ be_bytes 4 (int (length es)) @
     concat (map (\<lambda>e. dg_name e @ dg_digest e) es)"

definition directory_ok :: "snapshot_digest list \<Rightarrow> bool" where
  "directory_ok es \<longleftrightarrow> int (length es) < 2 ^ 32 \<and>
     sorted_wrt (\<lambda>a b. compareBytes (dg_name a) (dg_name b) < 0) es \<and>
     list_all (\<lambda>e. length (dg_name e) = 32 \<and> length (dg_digest e) = 32) es"

lemma directory_entries_conv: "directory_entries p es = Inr r \<longleftrightarrow> r = es \<and>
    sorted_wrt (\<lambda>a b. compareBytes (dg_name a) (dg_name b) < 0) es \<and>
    (\<forall>n \<in> set_option p. \<forall>e \<in> set es. compareBytes n (dg_name e) < 0)"
proof (induction es arbitrary: p r)
  case (Cons e es)
  have tr: "compareBytes n (dg_name e) < 0 \<Longrightarrow> compareBytes (dg_name e) m < 0 \<Longrightarrow> compareBytes n m < 0" for n m
    by (rule compareBytes_less_trans)
  have "directory_entries p (e # es) = Inr r \<longleftrightarrow> (\<forall>n \<in> set_option p. compareBytes n (dg_name e) < 0) \<and>
      (\<exists>own. directory_entries (Some (dg_name e)) es = Inr own \<and> r = e # own)"
    by (cases p) (auto simp: bindR_Inr_conv not_le)
  also have "\<dots> \<longleftrightarrow> r = e # es \<and> sorted_wrt (\<lambda>a b. compareBytes (dg_name a) (dg_name b) < 0) (e # es) \<and>
      (\<forall>n \<in> set_option p. \<forall>e \<in> set (e # es). compareBytes n (dg_name e) < 0)"
    unfolding Cons.IH using tr by auto
  finally show ?case .
qed auto

lemma run_directory: "run_writes (concat (map (\<lambda>entry. [w_key32 (dg_name entry) a, w_key32 (dg_digest entry) b]) es)) out = Inr r \<longleftrightarrow>
    list_all (\<lambda>e. length (dg_name e) = 32 \<and> length (dg_digest e) = 32) es \<and> r = out @ concat (map (\<lambda>e. dg_name e @ dg_digest e) es)"
  by (induction es arbitrary: out) (auto simp: bindR_Inr_conv w_key32_conv)

lemma directoryRoot_conv: "directoryRoot C es = Inr r \<longleftrightarrow> directory_ok es \<and> r = sha256 C (directory_enc es)"
proof -
  have "written ([w_context DIRECTORY_MAGIC, w_u8 1, w_u32 (int (length es))] @
      concat (map (\<lambda>entry. [w_key32 (dg_name entry) a, w_key32 (dg_digest entry) b]) es)) = Inr m \<longleftrightarrow>
      (int (length es) < 2 ^ 32 \<and> list_all (\<lambda>e. length (dg_name e) = 32 \<and> length (dg_digest e) = 32) es) \<and>
      m = directory_enc es" for a b m
    unfolding written_conv by (auto simp: write_simps bindR_Inr_conv run_directory directory_enc_def)
  then show ?thesis
    by (auto simp: directoryRoot_def bindR_Inr_conv directory_entries_conv mapR_Inr_conv directory_ok_def)
qed

lemma directory_bodies_inj:
  fixes xs ys :: "snapshot_digest list"
  shows "list_all (\<lambda>e. length (dg_name e) = 32 \<and> length (dg_digest e) = 32) xs \<Longrightarrow>
   list_all (\<lambda>e. length (dg_name e) = 32 \<and> length (dg_digest e) = 32) ys \<Longrightarrow> length xs = length ys \<Longrightarrow>
   concat (map (\<lambda>e. dg_name e @ dg_digest e) xs) = concat (map (\<lambda>e. dg_name e @ dg_digest e) ys) \<Longrightarrow> xs = ys"
proof (induction xs arbitrary: ys)
  case (Cons x xs)
  from Cons.prems(3) obtain y ys' where ys: "ys = y # ys'" by (cases ys) auto
  have "dg_name x = dg_name y \<and> dg_digest x = dg_digest y \<and>
      concat (map (\<lambda>e. dg_name e @ dg_digest e) xs) = concat (map (\<lambda>e. dg_name e @ dg_digest e) ys')"
    using Cons.prems by (simp add: ys)
  moreover from this have "xs = ys'" by (intro Cons.IH) (use Cons.prems in \<open>simp_all add: ys\<close>)
  ultimately show ?case unfolding ys by (cases x; cases y) simp
qed simp

lemma directory_enc_inj: "directory_ok xs \<Longrightarrow> directory_ok ys \<Longrightarrow> directory_enc xs = directory_enc ys \<Longrightarrow> xs = ys"
proof -
  assume ok: "directory_ok xs" "directory_ok ys" and eq: "directory_enc xs = directory_enc ys"
  then have "be_bytes 4 (int (length xs)) = be_bytes 4 (int (length ys))"
    and b: "concat (map (\<lambda>e. dg_name e @ dg_digest e) xs) = concat (map (\<lambda>e. dg_name e @ dg_digest e) ys)"
    by (simp_all add: directory_enc_def)
  then have "length xs = length ys"
    using ok be_bytes_inj [of 4 "int (length xs)" "int (length ys)"] by (simp add: directory_ok_def)
  then show "xs = ys" using directory_bodies_inj [OF _ _ _ b] ok by (simp add: directory_ok_def)
qed

subsection \<open>What an operator signed\<close>

text \<open>A message the operator's key signed is a commitment of its journal, or a message of another context.\<close>

definition commitment_signed :: "(int \<times> bytes) set \<Rightarrow> bytes \<Rightarrow> bool" where
  "commitment_signed journal m \<longleftrightarrow> (\<exists>(s, r) \<in> journal. commitmentMessage s r = Inr m)"

definition foreign_message :: "bytes \<Rightarrow> bool" where
  "foreign_message m \<longleftrightarrow> (\<exists>t \<in> set ALL_CONTEXTS. t \<noteq> COMMITMENT_CONTEXT \<and> take (length t) m = t)"

lemma commitmentMessage_inj: "commitmentMessage s r = Inr m \<Longrightarrow> commitmentMessage s' r' = Inr m \<Longrightarrow> s = s' \<and> r = r'"
  using be_bytes_inj [of 8 s s'] by (auto simp: commitmentMessage_conv)

lemma commitmentMessage_own: "commitmentMessage s r = Inr m \<Longrightarrow> \<not> foreign_message m"
proof
  assume m: "commitmentMessage s r = Inr m" and "foreign_message m"
  then obtain t where t: "t \<in> set ALL_CONTEXTS" "t \<noteq> COMMITMENT_CONTEXT" "m = t @ drop (length t) m"
    by (metis append_take_drop_id foreign_message_def)
  moreover have "COMMITMENT_CONTEXT \<in> set ALL_CONTEXTS" by (simp add: ALL_CONTEXTS_def)
  moreover have "m = COMMITMENT_CONTEXT @ be_bytes 8 s @ r" using m by (simp add: commitmentMessage_conv)
  ultimately show False using context_frames_apart by metis
qed

lemma signed_commitment:
  assumes "ed25519_ok C" and "signCommitment C secret s r = Inr c"
  shows "verifyCommitment C c \<and> c_operator c = ed25519_public C secret \<and> c_sequence c = s \<and> c_root c = r"
  using assms by (auto simp: signCommitment_def bindR_Inr_conv verifyCommitment_def verifySignatureStrict_sign)

subsection \<open>Properties\<close>

text \<open>C38: the venue's records have one frame each. Commitments, replacements and revocations decode to a value exactly
  where the bytes are its frame, so no record of these kinds has a second spelling.\<close>

theorem venue_records_canonical:
  "(decodeCommitment bs = Inr c \<longleftrightarrow> encodeCommitment c = Inr bs) \<and>
   (decodeReplacement bs = Inr x \<longleftrightarrow> encodeReplacement x = Inr bs) \<and>
   (decodeRevocation bs = Inr r \<longleftrightarrow> encodeRevocation r = Inr bs) \<and>
   (isOk (encodeCommitment c) \<longleftrightarrow> 0 \<le> c_sequence c \<and> c_sequence c < 2 ^ 64 \<and> length (c_root c) = 32 \<and>
     length (c_operator c) = 32 \<and> length (c_signature c) = 64)"
  using commitment_codec.decode_iff replacement_codec.decode_iff revocation_codec.decode_iff
  by (auto simp: isOk_conv encodeCommitment_conv)

text \<open>C30: a directory root names one complete, ordered directory. A directory that has a root lists its names in strictly
  ascending byte order, each name and digest 32 bytes and fewer than 2^32 of them; and two directories with one root are the
  same list of names and digests, where SHA-256 does not collide on their two frames.\<close>

theorem directory_root_binds:
  assumes "directoryRoot C xs = Inr r" and "directoryRoot C ys = Inr r"
    and "inj_on (sha256 C) {directory_enc xs, directory_enc ys}"
  shows "xs = ys \<and> sorted_wrt (\<lambda>a b. compareBytes (dg_name a) (dg_name b) < 0) xs \<and> distinct (map dg_name xs) \<and>
    length xs < 2 ^ 32 \<and> list_all (\<lambda>e. length (dg_name e) = 32 \<and> length (dg_digest e) = 32) xs"
proof -
  have "directory_enc xs = directory_enc ys"
    by (rule inj_onD [OF assms(3)]) (use assms(1,2) in \<open>auto simp: directoryRoot_conv\<close>)
  moreover have "distinct (map dg_name es)" if "sorted_wrt (\<lambda>a b. compareBytes (dg_name a) (dg_name b) < 0) es" for es
    using that by (induction es) auto
  ultimately show ?thesis using assms(1,2) directory_enc_inj by (auto simp: directoryRoot_conv directory_ok_def)
qed

definition example_directory :: "snapshot_digest list" where
  "example_directory = [\<lparr>dg_name = replicate 32 1, dg_digest = replicate 32 9\<rparr>, \<lparr>dg_name = replicate 32 2, dg_digest = replicate 32 8\<rparr>]"

lemma directory_root_binds_witness:
  "\<exists>r. directoryRoot toy_crypto example_directory = Inr r \<and> distinct (map dg_name example_directory)"
proof -
  have "compareBytes (replicate 32 1) (replicate 32 2) < 0" by code_simp
  then have "directory_ok example_directory" by (simp add: directory_ok_def example_directory_def)
  then obtain r where r: "directoryRoot toy_crypto example_directory = Inr r" by (simp add: directoryRoot_conv)
  from directory_root_binds [OF r r] r show ?thesis by simp
qed

text \<open>C20: an operator is convicted of equivocation exactly by its own two roots at one sequence. Whatever commitments are shown
  of an operator whose key signed the commitments of its journal and otherwise only messages of other contexts, where each shown
  signature that verifies is one it made: no two of them are equivocation if the journal has one root at each sequence; and any
  two roots it signs at one sequence are, in either order, while a commitment never convicts itself.\<close>

theorem equivocation_exact:
  assumes "ed25519_ok C"
    and "\<And>c m. c \<in> shown \<Longrightarrow> c_operator c = ed25519_public C secret \<Longrightarrow> commitmentMessage (c_sequence c) (c_root c) = Inr m \<Longrightarrow>
      verifySignatureStrict C (c_signature c) m (c_operator c) \<Longrightarrow> commitment_signed journal m \<or> foreign_message m"
  shows "((\<forall>s r r'. (s, r) \<in> journal \<longrightarrow> (s, r') \<in> journal \<longrightarrow> r = r') \<longrightarrow>
      (\<forall>a \<in> shown. \<forall>b \<in> shown. c_operator a = ed25519_public C secret \<longrightarrow> \<not> isEquivocation C a b)) \<and>
    (\<forall>s r r' a b. signCommitment C secret s r = Inr a \<longrightarrow> signCommitment C secret s r' = Inr b \<longrightarrow>
      (isEquivocation C a b \<longleftrightarrow> r \<noteq> r') \<and> (isEquivocation C b a \<longleftrightarrow> r \<noteq> r'))"
proof (intro conjI impI ballI allI)
  fix a b
  assume once: "\<forall>s r r'. (s, r) \<in> journal \<longrightarrow> (s, r') \<in> journal \<longrightarrow> r = r'" and shown: "a \<in> shown" "b \<in> shown"
    and key: "c_operator a = ed25519_public C secret"
  have signed: "(c_sequence c, c_root c) \<in> journal"
    if c: "c \<in> shown" "c_operator c = ed25519_public C secret" "verifyCommitment C c" for c
  proof -
    obtain m where m: "commitmentMessage (c_sequence c) (c_root c) = Inr m" "verifySignatureStrict C (c_signature c) m (c_operator c)"
      using c(3) by (auto simp: verifyCommitment_def split: sum.splits)
    then have "commitment_signed journal m" using assms(2) [OF c(1,2) m] commitmentMessage_own by blast
    then show ?thesis using commitmentMessage_inj [OF m(1)] by (auto simp: commitment_signed_def)
  qed
  show "\<not> isEquivocation C a b"
  proof
    assume "isEquivocation C a b"
    then have e: "c_operator b = c_operator a" "c_sequence b = c_sequence a" "c_root a \<noteq> c_root b" "verifyCommitment C a" "verifyCommitment C b"
      by (auto simp: isEquivocation_def)
    then show False using signed [OF shown(1) key] signed [OF shown(2)] key once by metis
  qed
next
  fix s r r' a b
  assume "signCommitment C secret s r = Inr a" and "signCommitment C secret s r' = Inr b"
  then show "isEquivocation C a b \<longleftrightarrow> r \<noteq> r'" "isEquivocation C b a \<longleftrightarrow> r \<noteq> r'"
    using signed_commitment [OF assms(1)] by (auto simp: isEquivocation_def)
qed

lemma equivocation_exact_witness:
  "\<exists>a b. signCommitment toy_crypto [1] 3 (replicate 32 4) = Inr a \<and> signCommitment toy_crypto [1] 3 (replicate 32 5) = Inr b \<and>
     isEquivocation toy_crypto a b \<and> \<not> isEquivocation toy_crypto a (a\<lparr>c_signature := c_signature b\<rparr>)"
proof -
  have msg: "commitmentMessage 3 (replicate 32 4) = Inr (COMMITMENT_CONTEXT @ be_bytes 8 3 @ replicate 32 4)"
    by (simp add: commitmentMessage_conv)
  obtain a b where s: "signCommitment toy_crypto [1] 3 (replicate 32 4) = Inr a" "signCommitment toy_crypto [1] 3 (replicate 32 5) = Inr b"
    by (simp add: signCommitment_def commitmentMessage_def written_def w_u64_def w_key32_def w_fixed_def w_context_def FIXED32_def)
  have ne: "replicate 32 (4 :: byte) \<noteq> replicate 32 5" by simp
  have a: "verifyCommitment toy_crypto a" "c_operator a = ed25519_public toy_crypto [1]" "c_sequence a = 3" "c_root a = replicate 32 4"
    using signed_commitment [OF toy_crypto_ed25519_ok s(1)] by blast+
  have hyp: "commitment_signed {(3, replicate 32 4)} m \<or> foreign_message m"
    if "c \<in> {a, a\<lparr>c_signature := c_signature b\<rparr>}" "commitmentMessage (c_sequence c) (c_root c) = Inr m" for c m
    using that a(3,4) by (auto simp: commitment_signed_def)
  have "((\<forall>s r r'. (s, r) \<in> {(3 :: int, replicate 32 (4 :: byte))} \<longrightarrow> (s, r') \<in> {(3, replicate 32 4)} \<longrightarrow> r = r') \<longrightarrow>
      (\<forall>x \<in> {a, a\<lparr>c_signature := c_signature b\<rparr>}. \<forall>y \<in> {a, a\<lparr>c_signature := c_signature b\<rparr>}.
        c_operator x = ed25519_public toy_crypto [1] \<longrightarrow> \<not> isEquivocation toy_crypto x y)) \<and>
    (\<forall>s r r' a b. signCommitment toy_crypto [1] s r = Inr a \<longrightarrow> signCommitment toy_crypto [1] s r' = Inr b \<longrightarrow>
      (isEquivocation toy_crypto a b \<longleftrightarrow> r \<noteq> r') \<and> (isEquivocation toy_crypto b a \<longleftrightarrow> r \<noteq> r'))"
    by (rule equivocation_exact [OF toy_crypto_ed25519_ok]) (rule hyp)
  then show ?thesis using s ne a(2) by (metis insertCI singletonD prod.inject)
qed

text \<open>C27: a replacement needs both parties to one message, and the message fixes the handover. A verified replacement is of
  the operator role, carries the rule key's and the successor's strict signatures over the message, and two
  replacements with one message are of one backing with the same successor, predecessor and effective index, so a
  consent cannot be lifted into another handover; a chain link's hash therefore names one handover too.\<close>

theorem replacement_consent_binds:
  assumes "verifyReplacement C b r ruleKey" and "replacementHash C b r = Inr h" and "replacementHash C b' r' = Inr h"
    and "inj_on (sha256 C) {m. replacementMessage b r = Inr m \<or> replacementMessage b' r' = Inr m}"
  shows "rp_role r = ROLE_OPERATOR \<and> (\<exists>m. replacementMessage b r = Inr m \<and> h = sha256 C m \<and>
      verifySignatureStrict C (rp_signature r) m ruleKey \<and> verifySignatureStrict C (rp_successorSignature r) m (rp_successor r)) \<and>
    b' = b \<and> rp_role r' = rp_role r \<and> rp_successor r' = rp_successor r \<and> rp_predecessor r' = rp_predecessor r \<and>
    rp_effective r' = rp_effective r"
proof -
  obtain m m' where m: "replacementMessage b r = Inr m" "h = sha256 C m" and m': "replacementMessage b' r' = Inr m'" "h = sha256 C m'"
    using assms(2,3) by (auto simp: replacementHash_def mapR_Inr_conv)
  have eq: "m = m'" by (rule inj_onD [OF assms(4)]) (use m m' in auto)
  note c = m(1) [unfolded replacementMessage_conv] and c' = m'(1) [unfolded replacementMessage_conv]
  have parts: "b = b'" "be_bytes 1 (rp_role r) = be_bytes 1 (rp_role r')" "rp_successor r = rp_successor r'"
    "rp_predecessor r = rp_predecessor r'" "be_bytes 8 (rp_effective r) = be_bytes 8 (rp_effective r')"
    using c c' eq by auto
  have "rp_role r = rp_role r'" by (rule be_bytes_inj [OF parts(2)]) (use c c' in auto)
  moreover have "rp_effective r = rp_effective r'" by (rule be_bytes_inj [OF parts(5)]) (use c c' in auto)
  ultimately show ?thesis using assms(1) m parts by (auto simp: verifyReplacement_def split: if_splits)
qed

definition example_replacement :: replacement where
  "example_replacement = (let u = \<lparr>rp_role = 1, rp_successor = toy_sha [2], rp_predecessor = replicate 32 3, rp_effective = 9,
     rp_signature = [], rp_successorSignature = []\<rparr>;
     m = REPLACEMENT_CONTEXT @ replicate 32 3 @ be_bytes 1 1 @ toy_sha [2] @ replicate 32 3 @ be_bytes 8 9 in
     u\<lparr>rp_signature := toy_sha m @ toy_sha [1], rp_successorSignature := toy_sha m @ toy_sha [2]\<rparr>)"

lemma replacement_consent_binds_witness:
  "verifyReplacement toy_crypto (replicate 32 3) example_replacement (toy_sha [1]) \<and> rp_role example_replacement = ROLE_OPERATOR"
proof -
  let ?m = "REPLACEMENT_CONTEXT @ replicate 32 3 @ be_bytes 1 1 @ toy_sha [2] @ replicate 32 3 @ be_bytes 8 9"
  have m: "replacementMessage (replicate 32 3) example_replacement = Inr ?m"
    by (simp add: replacementMessage_conv example_replacement_def Let_def)
  have v: "verifyReplacement toy_crypto (replicate 32 3) example_replacement (toy_sha [1])"
    unfolding verifyReplacement_def m by (simp add: ROLE_OPERATOR_def example_replacement_def Let_def toy_crypto_def
        verifySignatureStrict_def SIGNATURE_LENGTH_def KEY_LENGTH_def)
  have h: "replacementHash toy_crypto (replicate 32 3) example_replacement = Inr (sha256 toy_crypto ?m)"
    by (simp add: replacementHash_def m)
  have "inj_on (sha256 toy_crypto) {m. replacementMessage (replicate 32 3) example_replacement = Inr m \<or>
      replacementMessage (replicate 32 3) example_replacement = Inr m}"
    by (simp add: m inj_on_def)
  from replacement_consent_binds [OF v h h this] v show ?thesis by blast
qed

end
