(* ===== verification/EvidenceChain.thy ===== *)
theory EvidenceChain
  imports VenueRecords
begin

section \<open>The evidence chain (src/pool/evidence-chain.ts)\<close>

text \<open>
  The chain of evidence entries a segment commits, generic in a profile: its contexts, the number
  of digests of an entry, its target fields and how they are digested.  An entry is the list of its
  digests in the profile's order and the target fields of fault evidence are a list in the profile's
  order; a list of another length is an object with a missing property.  The verifiers catch
  \<open>EncodingError\<close> and let every other error through, so their answer is a result.
\<close>

record snapshot =
  sn_backing :: bytes
  sn_segment :: bytes
  sn_historyHash :: bytes
  sn_evidenceHash :: bytes
  sn_issued :: int
  sn_burned :: int

record expected_snapshot =
  es_backing :: bytes
  es_segment :: bytes
  es_digest :: bytes

record evidence_opening =
  eo_position :: int
  eo_length :: int
  eo_previous :: bytes
  eo_target :: "bytes list"
  eo_suffix :: "bytes list list"

record fault_evidence =
  fe_snapshot :: snapshot
  fe_position :: int
  fe_length :: int
  fe_previous :: bytes
  fe_fields :: "bytes list"
  fe_suffix :: "bytes list list"

record chain_profile =
  ch_seed :: bytes
  ch_link :: bytes
  ch_snapshot :: bytes
  ch_faultEvidence :: bytes
  ch_digests :: "string list"
  ch_fields :: "string list"
  ch_maxTargetFieldBytes :: int
  ch_boundBeforeCopy :: bool
  ch_target :: "bytes list \<Rightarrow> bytes list result"

definition own_bytes :: "bytes \<Rightarrow> nat \<Rightarrow> bytes result" where
  "own_bytes v width = (if length v \<noteq> width then Inl (EncodingError ''invalid bytes'') else Inr v)"

definition w_u64_checked :: "int \<Rightarrow> bool \<Rightarrow> writer" where
  "w_u64_checked v positive out =
     (if \<not> isValue v \<or> (positive \<and> v = 0) then Inl (EncodingError ''invalid u64'') else w_u64 v out)"

definition segmentSeed :: "crypto \<Rightarrow> bytes \<Rightarrow> bytes \<Rightarrow> bytes result" where
  "segmentSeed C context segment = mapR (sha256 C) (written [w_context context, w_key32 segment ''segment''])"

definition snapshotLength :: "chain_profile \<Rightarrow> nat" where
  "snapshotLength P = length (ch_snapshot P) + 144"

definition entryBytes :: "chain_profile \<Rightarrow> nat" where
  "entryBytes P = 32 * length (ch_digests P)"

definition positionAt :: "chain_profile \<Rightarrow> nat" where
  "positionAt P = length (ch_faultEvidence P) + snapshotLength P"

definition fieldsAt :: "chain_profile \<Rightarrow> nat" where
  "fieldsAt P = positionAt P + 16 + 32"

definition fixedBytes :: "chain_profile \<Rightarrow> nat" where
  "fixedBytes P = fieldsAt P + 4 * length (ch_fields P)"

definition ownEntry :: "chain_profile \<Rightarrow> bytes list \<Rightarrow> bytes list result" where
  "ownEntry P entry =
     bindR (requireR (length entry = length (ch_digests P)) (EncodingError ''not a byte array'')) (\<lambda>_.
     traverseR (\<lambda>d. own_bytes d 32) entry)"

definition nextEvidenceHash :: "crypto \<Rightarrow> chain_profile \<Rightarrow> bytes \<Rightarrow> bytes list \<Rightarrow> int \<Rightarrow> bytes result" where
  "nextEvidenceHash C P previous evidence position =
     bindR (ownEntry P evidence) (\<lambda>entry.
     mapR (sha256 C) (written ([w_context (ch_link P), w_key32 previous ''previous''] @
       map (\<lambda>d. w_key32 d ''digest'') entry @ [w_u64_checked position True])))"

definition genesisEvidenceHash :: "crypto \<Rightarrow> chain_profile \<Rightarrow> bytes \<Rightarrow> bytes result" where
  "genesisEvidenceHash C P segment = segmentSeed C (ch_seed P) segment"

definition snapshotBytes :: "chain_profile \<Rightarrow> snapshot \<Rightarrow> bytes result" where
  "snapshotBytes P s = written [w_context (ch_snapshot P), w_key32 (sn_backing s) ''backing'',
     w_key32 (sn_segment s) ''segment'', w_key32 (sn_historyHash s) ''historyHash'',
     w_key32 (sn_evidenceHash s) ''evidenceHash'', w_u64_checked (sn_issued s) False, w_u64_checked (sn_burned s) False]"

definition snapshotDigest :: "crypto \<Rightarrow> chain_profile \<Rightarrow> snapshot \<Rightarrow> bytes result" where
  "snapshotDigest C P s = mapR (sha256 C) (snapshotBytes P s)"

definition expectContext :: "bytes \<Rightarrow> unit read" where
  "expectContext tg = bindP (r_raw (int (length tg))) (\<lambda>b.
     liftP (requireR (compareBytes b tg = 0) (EncodingError ''wrong context'')))"

definition decodeSnapshot :: "chain_profile \<Rightarrow> bytes \<Rightarrow> snapshot result" where
  "decodeSnapshot P = decoded_by (
     bindP (bindP (expectContext (ch_snapshot P)) (\<lambda>_. bindP (r_raw 32) (\<lambda>backing. bindP (r_raw 32) (\<lambda>segment.
       bindP (r_raw 32) (\<lambda>historyHash. bindP (r_raw 32) (\<lambda>evidenceHash. bindP r_u64 (\<lambda>issued. bindP r_u64 (\<lambda>burned.
       returnP \<lparr>sn_backing = backing, sn_segment = segment, sn_historyHash = historyHash,
         sn_evidenceHash = evidenceHash, sn_issued = issued, sn_burned = burned\<rparr>))))))))
     (\<lambda>s. bindP r_expectEnd (\<lambda>_. returnP s)))"

text \<open>The catch of the verifiers.\<close>

definition catchEncoding :: "bool result \<Rightarrow> bool result" where
  "catchEncoding r = (case r of Inl (EncodingError _) \<Rightarrow> Inr False | _ \<Rightarrow> r)"

definition verifyEvidenceOpening :: "crypto \<Rightarrow> chain_profile \<Rightarrow> bytes \<Rightarrow> snapshot \<Rightarrow> evidence_opening \<Rightarrow> bool result" where
  "verifyEvidenceOpening C P expectedIn snapshotIn opening = catchEncoding (
     bindR (own_bytes expectedIn 32) (\<lambda>expected.
     bindR (snapshotBytes P snapshotIn) (\<lambda>sb.
     bindR (decodeSnapshot P sb) (\<lambda>snapshot.
     bindR (snapshotDigest C P snapshot) (\<lambda>digest.
     if compareBytes digest expected \<noteq> 0 then Inr False
     else let position = eo_position opening; len = eo_length opening in
       if \<not> isValue position \<or> position = 0 \<or> \<not> isValue len \<or> len < position \<or>
          len - position \<noteq> int (length (eo_suffix opening)) then Inr False
       else bindR (own_bytes (eo_previous opening) 32) (\<lambda>previous.
         bindR (ownEntry P (eo_target opening)) (\<lambda>entry.
         bindR (copyArray (eo_suffix opening) (ownEntry P) (len - position)) (\<lambda>suffix.
         if int (length suffix) \<noteq> len - position then Inr False
         else bindR (if position = 1 then mapR (\<lambda>g. compareBytes previous g = 0) (genesisEvidenceHash C P (sn_segment snapshot))
             else Inr True) (\<lambda>genuine.
           if \<not> genuine then Inr False
           else bindR (nextEvidenceHash C P previous entry position) (\<lambda>first.
             bindR (foldR (\<lambda>result i. nextEvidenceHash C P result (suffix ! i) (position + int i + 1)) first [0..<length suffix]) (\<lambda>result.
             Inr (compareBytes result (sn_evidenceHash snapshot) = 0))))))))))))"

subsection \<open>Fault evidence\<close>

definition suffixCount :: "int \<Rightarrow> int \<Rightarrow> int \<Rightarrow> int result" where
  "suffixCount position len maximum =
     (if \<not> isValue maximum then Inl (EncodingError ''invalid suffix budget'')
      else if \<not> isValue position \<or> position = 0 \<or> \<not> isValue len \<or> len < position
      then Inl (EncodingError ''invalid evidence positions'')
      else if len - position > maximum then Inl (LimitError ''suffix exceeds reader budget'')
      else Inr (len - position))"

definition targetField :: "chain_profile \<Rightarrow> bytes \<Rightarrow> bytes result" where
  "targetField P v =
     (if int (length v) > ch_maxTargetFieldBytes P then Inl (EncodingError ''target field too long'') else Inr v)"

definition requireEvidence :: "chain_profile \<Rightarrow> fault_evidence \<Rightarrow> int \<Rightarrow> (bytes \<times> fault_evidence) result" where
  "requireEvidence P e maximum =
     bindR (suffixCount (fe_position e) (fe_length e) maximum) (\<lambda>count.
     bindR (requireR (int (length (fe_suffix e)) = count) (EncodingError ''wrong evidence suffix length'')) (\<lambda>_.
     bindR (requireR (length (fe_fields e) = length (ch_fields P)) (EncodingError ''not a byte array'')) (\<lambda>_.
     bindR (traverseR (targetField P) (fe_fields e)) (\<lambda>own.
     bindR (own_bytes (fe_previous e) 32) (\<lambda>previous.
     bindR (snapshotBytes P (fe_snapshot e)) (\<lambda>sb.
     bindR (copyArray (fe_suffix e) (ownEntry P) (int (length (fe_suffix e)))) (\<lambda>entries.
     bindR (decodeSnapshot P sb) (\<lambda>s.
     Inr (sb, \<lparr>fe_snapshot = s, fe_position = fe_position e, fe_length = fe_length e, fe_previous = previous,
       fe_fields = own, fe_suffix = entries\<rparr>)))))))))"

definition field_frame :: "bytes \<Rightarrow> bytes" where
  "field_frame f = be_bytes 4 (int (length f)) @ f"

definition encodeFaultEvidence :: "chain_profile \<Rightarrow> int \<Rightarrow> fault_evidence \<Rightarrow> bytes result" where
  "encodeFaultEvidence P maxSuffixEntries input =
     bindR (requireEvidence P input maxSuffixEntries) (\<lambda>(sb, e).
     Inr (ch_faultEvidence P @ sb @ be_bytes 8 (fe_position e) @ be_bytes 8 (fe_length e) @ fe_previous e @
       concat (map field_frame (fe_fields e)) @ concat (map concat (fe_suffix e))))"

definition subarray :: "nat \<Rightarrow> nat \<Rightarrow> bytes \<Rightarrow> bytes" where
  "subarray start n input = take n (drop start input)"

text \<open>The spans of the target fields, and the offset after them.\<close>

fun scan_fields :: "int \<Rightarrow> nat \<Rightarrow> nat \<Rightarrow> bytes \<Rightarrow> ((nat \<times> nat) list \<times> nat) result" where
  "scan_fields maximum 0 offset input = Inr ([], offset)"
| "scan_fields maximum (Suc n) offset input =
     (if offset + 4 > length input then Inl (EncodingError ''truncated target length'')
      else let fieldLength = be_int (subarray offset 4 input) in
        if fieldLength > maximum then Inl (EncodingError ''target field too long'')
        else if offset + 4 + nat fieldLength > length input then Inl (EncodingError ''truncated target field'')
        else bindR (scan_fields maximum n (offset + 4 + nat fieldLength) input) (\<lambda>(spans, end).
          Inr ((offset + 4, nat fieldLength) # spans, end)))"

definition decodeFaultEvidence :: "chain_profile \<Rightarrow> int \<Rightarrow> bytes \<Rightarrow> fault_evidence result" where
  "decodeFaultEvidence P maxSuffixEntries input =
     (if \<not> isValue maxSuffixEntries then Inl (EncodingError ''invalid suffix budget'')
      else if ch_boundBeforeCopy P \<and> int (length input) > int (fixedBytes P) + int (length (ch_fields P)) * ch_maxTargetFieldBytes P +
          int (entryBytes P) * maxSuffixEntries then Inl (LimitError ''evidence exceeds reader budget'')
      else if length input < fixedBytes P then Inl (EncodingError ''truncated evidence'')
      else bindR (requireR (subarray 0 (length (ch_faultEvidence P)) input = ch_faultEvidence P) (EncodingError ''wrong evidence context'')) (\<lambda>_.
        bindR (requireR (subarray (length (ch_faultEvidence P)) (length (ch_snapshot P)) input = ch_snapshot P)
          (EncodingError ''wrong evidence context'')) (\<lambda>_.
        let position = be_int (subarray (positionAt P) 8 input); len = be_int (subarray (positionAt P + 8) 8 input) in
        bindR (suffixCount position len maxSuffixEntries) (\<lambda>count.
        bindR (scan_fields (ch_maxTargetFieldBytes P) (length (ch_fields P)) (fieldsAt P) input) (\<lambda>(spans, offset).
        if int (length input - offset) \<noteq> int (entryBytes P) * count then Inl (EncodingError ''wrong suffix byte length'')
        else bindR (decodeSnapshot P (subarray (length (ch_faultEvidence P)) (snapshotLength P) input)) (\<lambda>s.
          Inr \<lparr>fe_snapshot = s, fe_position = position, fe_length = len, fe_previous = subarray (positionAt P + 16) 32 input,
            fe_fields = map (\<lambda>(start, n). subarray start n input) spans,
            fe_suffix = map (\<lambda>i. map (\<lambda>j. subarray (offset + 32 * (i * length (ch_digests P) + j)) 32 input)
              [0..<length (ch_digests P)]) [0..<nat count]\<rparr>))))))"

definition verifyFaultEvidence :: "crypto \<Rightarrow> chain_profile \<Rightarrow> expected_snapshot \<Rightarrow> fault_evidence \<Rightarrow> int \<Rightarrow> bool result" where
  "verifyFaultEvidence C P expectedIn input maxSuffixEntries = catchEncoding (
     bindR (own_bytes (es_backing expectedIn) 32) (\<lambda>backing.
     bindR (own_bytes (es_segment expectedIn) 32) (\<lambda>segment.
     bindR (own_bytes (es_digest expectedIn) 32) (\<lambda>digest.
     bindR (requireEvidence P input maxSuffixEntries) (\<lambda>(_, e).
     if compareBytes (sn_backing (fe_snapshot e)) backing \<noteq> 0 \<or> compareBytes (sn_segment (fe_snapshot e)) segment \<noteq> 0
     then Inr False
     else bindR (ch_target P (fe_fields e)) (\<lambda>entry.
       verifyEvidenceOpening C P digest (fe_snapshot e) \<lparr>eo_position = fe_position e, eo_length = fe_length e,
         eo_previous = fe_previous e, eo_target = entry, eo_suffix = fe_suffix e\<rparr>))))))"

subsection \<open>Frames\<close>

definition entry_ok :: "chain_profile \<Rightarrow> bytes list \<Rightarrow> bool" where
  "entry_ok P e \<longleftrightarrow> length e = length (ch_digests P) \<and> list_all (\<lambda>d. length d = 32) e"

lemma own_bytes_conv: "own_bytes v n = Inr w \<longleftrightarrow> length v = n \<and> w = v"
  by (auto simp: own_bytes_def)

lemma traverse_filter:
  assumes "\<And>x y. f x = Inr y \<longleftrightarrow> ok x \<and> y = x"
  shows "traverseR f xs = Inr ys \<longleftrightarrow> list_all ok xs \<and> ys = xs"
  by (induction xs arbitrary: ys) (auto simp: bindR_Inr_conv assms)

lemma ownEntry_conv: "ownEntry P e = Inr x \<longleftrightarrow> entry_ok P e \<and> x = e"
  by (auto simp: ownEntry_def entry_ok_def bindR_Inr_conv traverse_filter [OF own_bytes_conv])

lemma w_u64_checked_conv [write_simps]: "w_u64_checked v p out = Inr r \<longleftrightarrow>
    0 \<le> v \<and> v < 2 ^ 64 \<and> (p \<longrightarrow> v \<noteq> 0) \<and> r = out @ be_bytes 8 v"
  by (auto simp: w_u64_checked_def w_u64_conv isValue_conv)

definition link_frame :: "chain_profile \<Rightarrow> bytes \<Rightarrow> bytes list \<Rightarrow> int \<Rightarrow> bytes" where
  "link_frame P previous entry position = ch_link P @ previous @ concat entry @ be_bytes 8 position"

definition link_hash :: "crypto \<Rightarrow> chain_profile \<Rightarrow> bytes \<Rightarrow> bytes list \<Rightarrow> int \<Rightarrow> bytes" where
  "link_hash C P previous entry position = sha256 C (link_frame P previous entry position)"

lemma run_w_keys: "run_writes (map (\<lambda>d. w_key32 d what) ds) out = Inr r \<longleftrightarrow>
    list_all (\<lambda>d. length d = 32) ds \<and> r = out @ concat (map (\<lambda>d. d) ds)"
  by (rule run_writes_map) (rule w_key32_conv)

lemma nextEvidenceHash_conv: "nextEvidenceHash C P h e n = Inr x \<longleftrightarrow>
    entry_ok P e \<and> length h = 32 \<and> 0 < n \<and> n < 2 ^ 64 \<and> x = link_hash C P h e n"
proof -
  have "written ([w_context (ch_link P), w_key32 h a] @ map (\<lambda>d. w_key32 d b) e @ [w_u64_checked n True]) = Inr m \<longleftrightarrow>
      length h = 32 \<and> list_all (\<lambda>d. length d = 32) e \<and> 0 < n \<and> n < 2 ^ 64 \<and> m = link_frame P h e n" for a b m
    unfolding written_conv run_writes_append bindR_Inr_conv run_w_keys
    by (auto simp: write_simps bindR_Inr_conv link_frame_def)
  then show ?thesis
    by (auto simp: nextEvidenceHash_def bindR_Inr_conv ownEntry_conv mapR_Inr_conv link_hash_def entry_ok_def)
qed

lemma segmentSeed_conv: "segmentSeed C c s = Inr h \<longleftrightarrow> length s = 32 \<and> h = sha256 C (c @ s)"
  by (auto simp: segmentSeed_def mapR_Inr_conv write_simps bindR_Inr_conv)

definition snapshot_ok :: "snapshot \<Rightarrow> bool" where
  "snapshot_ok s \<longleftrightarrow> length (sn_backing s) = 32 \<and> length (sn_segment s) = 32 \<and> length (sn_historyHash s) = 32 \<and>
     length (sn_evidenceHash s) = 32 \<and> 0 \<le> sn_issued s \<and> sn_issued s < 2 ^ 64 \<and> 0 \<le> sn_burned s \<and> sn_burned s < 2 ^ 64"

definition snapshot_enc :: "chain_profile \<Rightarrow> snapshot \<Rightarrow> bytes" where
  "snapshot_enc P s = ch_snapshot P @ sn_backing s @ sn_segment s @ sn_historyHash s @ sn_evidenceHash s @
     be_bytes 8 (sn_issued s) @ be_bytes 8 (sn_burned s)"

lemma snapshotBytes_conv: "snapshotBytes P s = Inr bs \<longleftrightarrow> snapshot_ok s \<and> bs = snapshot_enc P s"
  by (auto simp: snapshotBytes_def snapshot_ok_def snapshot_enc_def write_simps bindR_Inr_conv)

lemma length_snapshot_enc: "snapshot_ok s \<Longrightarrow> length (snapshot_enc P s) = snapshotLength P"
  by (simp add: snapshot_ok_def snapshot_enc_def snapshotLength_def)

lemma expectContext_conv [read_simps]:
  "expectContext tg (reader_at pre rest) = Inr (u, r') \<longleftrightarrow> (\<exists>rest'. rest = tg @ rest' \<and> r' = reader_at (pre @ tg) rest')"
  by (auto simp: expectContext_def read_simps)

lemma expectContext_run [run_simps]: "expectContext tg (reader_at pre (tg @ rest)) = Inr ((), reader_at (pre @ tg) rest)"
  by (simp add: expectContext_conv)

lemma decodeSnapshot_conv: "decodeSnapshot P bs = Inr s \<longleftrightarrow> snapshotBytes P s = Inr bs"
proof -
  let ?p = "bindP (expectContext (ch_snapshot P)) (\<lambda>_. bindP (r_raw 32) (\<lambda>backing. bindP (r_raw 32) (\<lambda>segment.
       bindP (r_raw 32) (\<lambda>historyHash. bindP (r_raw 32) (\<lambda>evidenceHash. bindP r_u64 (\<lambda>issued. bindP r_u64 (\<lambda>burned.
       returnP \<lparr>sn_backing = backing, sn_segment = segment, sn_historyHash = historyHash,
         sn_evidenceHash = evidenceHash, sn_issued = issued, sn_burned = burned\<rparr>)))))))"
  have "reads ?p (snapshot_enc P) snapshot_ok"
  proof (rule reads_splitI)
    fix pre rest s r'
    assume "?p (reader_at pre rest) = Inr (s, r')"
    then show "snapshot_ok s \<and> (\<exists>rest'. rest = snapshot_enc P s @ rest' \<and> r' = reader_at (pre @ snapshot_enc P s) rest')"
      by (auto simp: read_simps snapshot_ok_def snapshot_enc_def)
  next
    fix pre rest and s :: snapshot
    assume "snapshot_ok s"
    then show "?p (reader_at pre (snapshot_enc P s @ rest)) = Inr (s, reader_at (pre @ snapshot_enc P s) rest)"
      by (simp add: run_simps snapshot_ok_def snapshot_enc_def)
  qed
  from decoded_whole_unchecked [OF this] show ?thesis by (simp add: decodeSnapshot_def snapshotBytes_conv)
qed

lemma decodeSnapshot_enc: "snapshot_ok s \<Longrightarrow> decodeSnapshot P (snapshot_enc P s) = Inr x \<longleftrightarrow> x = s"
proof -
  assume "snapshot_ok s"
  then have "decodeSnapshot P (snapshot_enc P s) = Inr s" by (simp add: decodeSnapshot_conv snapshotBytes_conv)
  then show ?thesis by auto
qed

interpretation snapshot_codec: digest_codec "snapshotBytes P" "decodeSnapshot P" "sha256 C" "snapshotDigest C P" for C P
  by unfold_locales (simp_all add: decodeSnapshot_conv snapshotDigest_def)

subsection \<open>Chains of links\<close>

fun chain_hash :: "crypto \<Rightarrow> chain_profile \<Rightarrow> bytes \<Rightarrow> int \<Rightarrow> bytes list list \<Rightarrow> bytes" where
  "chain_hash C P h n [] = h"
| "chain_hash C P h n (e # es) = chain_hash C P (link_hash C P h e n) (n + 1) es"

fun chain_frames :: "crypto \<Rightarrow> chain_profile \<Rightarrow> bytes \<Rightarrow> int \<Rightarrow> bytes list list \<Rightarrow> bytes list" where
  "chain_frames C P h n [] = []"
| "chain_frames C P h n (e # es) = link_frame P h e n # chain_frames C P (link_hash C P h e n) (n + 1) es"

lemma chain_hash_append: "chain_hash C P h n (xs @ ys) = chain_hash C P (chain_hash C P h n xs) (n + int (length xs)) ys"
  by (induction xs arbitrary: h n) (simp_all add: algebra_simps)

lemma chain_frames_append: "chain_frames C P h n (xs @ ys) =
    chain_frames C P h n xs @ chain_frames C P (chain_hash C P h n xs) (n + int (length xs)) ys"
  by (induction xs arbitrary: h n) (simp_all add: algebra_simps)

lemma chain_hash_width: "sha_width C \<Longrightarrow> length h = 32 \<Longrightarrow> length (chain_hash C P h n es) = 32"
  by (induction es arbitrary: h n) (simp_all add: link_hash_def sha_width_def)

lemma concat_entry_inj:
  "entry_ok P x \<Longrightarrow> entry_ok P y \<Longrightarrow> concat x = concat y \<Longrightarrow> x = y"
proof -
  have "length xs = length ys \<Longrightarrow> list_all (\<lambda>d. length d = 32) xs \<Longrightarrow> list_all (\<lambda>d. length d = 32) ys \<Longrightarrow>
      concat xs = concat ys \<Longrightarrow> xs = ys" for xs ys :: "bytes list"
    by (induction xs ys rule: list_induct2) simp_all
  then show "entry_ok P x \<Longrightarrow> entry_ok P y \<Longrightarrow> concat x = concat y \<Longrightarrow> x = y" by (simp add: entry_ok_def)
qed

lemma length_entry: "entry_ok P e \<Longrightarrow> length (concat e) = entryBytes P"
proof -
  have "list_all (\<lambda>d. length d = 32) xs \<Longrightarrow> length (concat xs) = 32 * length xs" for xs :: "bytes list"
    by (induction xs) simp_all
  then show "entry_ok P e \<Longrightarrow> length (concat e) = entryBytes P" by (simp add: entry_ok_def entryBytes_def)
qed

lemma link_frame_inj:
  assumes "link_frame P h x n = link_frame P g y m" and "entry_ok P x" and "entry_ok P y"
    and "length h = 32" and "length g = 32" and "0 \<le> n" "n < 2 ^ 64" "0 \<le> m" "m < 2 ^ 64"
  shows "h = g \<and> x = y \<and> n = m"
proof -
  have parts: "h = g" "concat x = concat y" "be_bytes 8 n = be_bytes 8 m"
    using assms length_entry [OF assms(2)] length_entry [OF assms(3)] by (auto simp: link_frame_def)
  have "n = m" by (rule be_bytes_inj [OF parts(3)]) (use assms in simp_all)
  then show ?thesis using parts concat_entry_inj assms(2,3) by blast
qed

text \<open>Two runs that reach one hash: the one that starts later is an end of the other.\<close>

lemma chain_binds:
  assumes C: "sha_width C" and len: "length h = 32" "length g = 32"
    and ok: "list_all (entry_ok P) os" "list_all (entry_ok P) es"
    and pos: "0 < m" "m \<le> n" "n + int (length os) \<le> 2 ^ 64" "m + int (length es) \<le> 2 ^ 64"
  shows "inj_on (sha256 C) (set (chain_frames C P h n os) \<union> set (chain_frames C P g m es)) \<Longrightarrow>
    chain_hash C P h n os = chain_hash C P g m es \<Longrightarrow> os \<noteq> [] \<Longrightarrow> es \<noteq> [] \<Longrightarrow>
    \<exists>pre. es = pre @ os \<and> h = chain_hash C P g m pre \<and> n = m + int (length pre)"
  using ok pos(3,4)
proof (induction os arbitrary: es rule: rev_induct)
  case (snoc x os)
  obtain y es' where es: "es = es' @ [y]" using snoc.prems(4) by (cases es rule: rev_cases) auto
  let ?h = "chain_hash C P h n os" and ?g = "chain_hash C P g m es'"
  have w: "length ?h = 32" "length ?g = 32" using chain_hash_width [OF C] len by blast+
  have "link_frame P ?h x (n + int (length os)) = link_frame P ?g y (m + int (length es'))"
    by (rule inj_onD [OF snoc.prems(1)])
      (use snoc.prems(2) in \<open>simp_all add: es chain_hash_append chain_frames_append link_hash_def\<close>)
  then have eq: "?h = ?g" "x = y" "n + int (length os) = m + int (length es')"
    using link_frame_inj [of P ?h x "n + int (length os)" ?g y "m + int (length es')"] w snoc.prems(5-8) pos(1,2)
    by (auto simp: es)
  show ?case
  proof (cases "os = []")
    case True
    then show ?thesis using eq by (intro exI [of _ es']) (simp add: es)
  next
    case False
    have "es' \<noteq> []" using eq(3) pos(2) False by (cases os; auto)
    moreover have "inj_on (sha256 C) (set (chain_frames C P h n os) \<union> set (chain_frames C P g m es'))"
      by (rule inj_on_subset [OF snoc.prems(1)]) (auto simp: es chain_frames_append)
    ultimately obtain pre where "es' = pre @ os" "h = chain_hash C P g m pre" "n = m + int (length pre)"
      using snoc.IH [OF _ eq(1) False] snoc.prems(5-8) by (auto simp: es)
    then show ?thesis using eq(2) by (intro exI [of _ pre]) (simp add: es)
  qed
qed simp

lemma verify_suffix:
  "foldR (\<lambda>result i. nextEvidenceHash C P result (sfx ! i) (position + int i + 1)) first [0..<length sfx] = Inr r \<Longrightarrow>
   list_all (entry_ok P) sfx \<and> r = chain_hash C P first (position + 1) sfx"
proof (induction sfx arbitrary: r rule: rev_induct)
  case (snoc x xs)
  have cong: "foldR (\<lambda>result i. nextEvidenceHash C P result ((xs @ [x]) ! i) (position + int i + 1)) f [0..<length xs] =
      foldR (\<lambda>result i. nextEvidenceHash C P result (xs ! i) (position + int i + 1)) f [0..<length xs]" for f
    by (rule foldR_cong) (simp add: nth_append)
  from snoc.prems obtain q where
    q: "foldR (\<lambda>result i. nextEvidenceHash C P result (xs ! i) (position + int i + 1)) first [0..<length xs] = Inr q"
    and last: "nextEvidenceHash C P q x (position + int (length xs) + 1) = Inr r"
    by (auto simp: foldR_append cong bindR_Inr_conv)
  from snoc.IH [OF q] last show ?case
    by (simp add: nextEvidenceHash_conv chain_hash_append algebra_simps)
qed simp

lemma verify_suffix_total:
  assumes "sha_width C"
  shows "list_all (entry_ok P) sfx \<Longrightarrow> length first = 32 \<Longrightarrow> 0 \<le> position \<Longrightarrow> position + int (length sfx) < 2 ^ 64 \<Longrightarrow>
   foldR (\<lambda>result i. nextEvidenceHash C P result (sfx ! i) (position + int i + 1)) first [0..<length sfx] =
     Inr (chain_hash C P first (position + 1) sfx)"
proof (induction sfx rule: rev_induct)
  case (snoc x xs)
  have cong: "foldR (\<lambda>result i. nextEvidenceHash C P result ((xs @ [x]) ! i) (position + int i + 1)) f [0..<length xs] =
      foldR (\<lambda>result i. nextEvidenceHash C P result (xs ! i) (position + int i + 1)) f [0..<length xs]" for f
    by (rule foldR_cong) (simp add: nth_append)
  have "nextEvidenceHash C P (chain_hash C P first (position + 1) xs) x (position + int (length xs) + 1) =
      Inr (link_hash C P (chain_hash C P first (position + 1) xs) x (position + int (length xs) + 1))"
    using snoc.prems chain_hash_width [OF assms] by (simp add: nextEvidenceHash_conv)
  moreover have "foldR (\<lambda>result i. nextEvidenceHash C P result (xs ! i) (position + int i + 1)) first [0..<length xs] =
      Inr (chain_hash C P first (position + 1) xs)"
    by (rule snoc.IH) (use snoc.prems in simp_all)
  moreover have e: "position + 1 + int (length xs) = position + int (length xs) + 1" by simp
  ultimately show ?case unfolding chain_hash_append chain_hash.simps e by (simp add: foldR_append cong)
qed simp

lemma catchEncoding_True: "catchEncoding r = Inr True \<longleftrightarrow> r = Inr True"
  by (auto simp: catchEncoding_def split: sum.splits error.splits)

lemma copyEntries_conv: "copyArray xs (ownEntry P) (int n) = Inr ys \<longleftrightarrow> length xs \<le> n \<and> list_all (entry_ok P) xs \<and> ys = xs"
  by (auto simp: copyArray_def bindR_Inr_conv traverse_filter [OF ownEntry_conv])

text \<open>When an opening verifies.\<close>

lemma verifyEvidenceOpening_conv:
  assumes "sha_width C"
  shows "verifyEvidenceOpening C P expected s op = Inr True \<longleftrightarrow>
    snapshot_ok s \<and> expected = sha256 C (snapshot_enc P s) \<and>
    0 < eo_position op \<and> eo_length op < 2 ^ 64 \<and> eo_length op = eo_position op + int (length (eo_suffix op)) \<and>
    length (eo_previous op) = 32 \<and> list_all (entry_ok P) (eo_target op # eo_suffix op) \<and>
    (eo_position op = 1 \<longrightarrow> eo_previous op = sha256 C (ch_seed P @ sn_segment s)) \<and>
    chain_hash C P (eo_previous op) (eo_position op) (eo_target op # eo_suffix op) = sn_evidenceHash s"
    (is "_ \<longleftrightarrow> ?r")
proof
  assume v: "verifyEvidenceOpening C P expected s op = Inr True"
  let ?p = "eo_position op" and ?n = "eo_length op" and ?xs = "eo_suffix op"
  have u: "snapshot_ok s \<and> expected = sha256 C (snapshot_enc P s) \<and> isValue ?p \<and> ?p \<noteq> 0 \<and> isValue ?n \<and> ?p \<le> ?n \<and>
      ?n - ?p = int (length ?xs) \<and> length (eo_previous op) = 32 \<and> entry_ok P (eo_target op) \<and>
      (?p = 1 \<longrightarrow> eo_previous op = sha256 C (ch_seed P @ sn_segment s)) \<and>
      (\<exists>first. nextEvidenceHash C P (eo_previous op) (eo_target op) ?p = Inr first \<and>
        foldR (\<lambda>result i. nextEvidenceHash C P result (?xs ! i) (?p + int i + 1)) first [0..<length ?xs] = Inr (sn_evidenceHash s))"
    using v unfolding verifyEvidenceOpening_def catchEncoding_True
    by (auto simp: bindR_Inr_conv own_bytes_conv snapshotBytes_conv decodeSnapshot_enc snapshotDigest_def mapR_Inr_conv
        ownEntry_conv copyEntries_conv genesisEvidenceHash_def segmentSeed_conv Let_def split: if_splits)
  then obtain first where f: "nextEvidenceHash C P (eo_previous op) (eo_target op) ?p = Inr first"
    and run: "foldR (\<lambda>result i. nextEvidenceHash C P result (?xs ! i) (?p + int i + 1)) first [0..<length ?xs] = Inr (sn_evidenceHash s)"
    by blast
  from u f verify_suffix [OF run] show ?r by (auto simp: isValue_conv nextEvidenceHash_conv)
next
  assume r: ?r
  let ?p = "eo_position op" and ?xs = "eo_suffix op"
  have sd: "snapshotBytes P s = Inr (snapshot_enc P s)" using r by (simp add: snapshotBytes_conv)
  then have dec: "decodeSnapshot P (snapshot_enc P s) = Inr s" by (simp add: decodeSnapshot_conv)
  have p: "isValue ?p" "isValue (eo_length op)" using r by (auto simp: isValue_conv)
  have first: "nextEvidenceHash C P (eo_previous op) (eo_target op) ?p = Inr (link_hash C P (eo_previous op) (eo_target op) ?p)"
    using r by (simp add: nextEvidenceHash_conv)
  have "length (link_hash C P (eo_previous op) (eo_target op) ?p) = 32"
    using assms by (simp add: link_hash_def sha_width_def)
  then have run: "foldR (\<lambda>result i. nextEvidenceHash C P result (?xs ! i) (?p + int i + 1))
      (link_hash C P (eo_previous op) (eo_target op) ?p) [0..<length ?xs] = Inr (sn_evidenceHash s)"
    using verify_suffix_total [OF assms, of P ?xs "link_hash C P (eo_previous op) (eo_target op) ?p" ?p] r by simp
  have ent: "ownEntry P (eo_target op) = Inr (eo_target op)" using r by (simp add: ownEntry_conv)
  have copy: "copyArray ?xs (ownEntry P) (int (length ?xs)) = Inr ?xs" using r by (simp add: copyEntries_conv)
  have gen: "genesisEvidenceHash C P (sn_segment s) = Inr (sha256 C (ch_seed P @ sn_segment s))"
    using r by (simp add: genesisEvidenceHash_def segmentSeed_conv snapshot_ok_def)
  have own: "own_bytes expected 32 = Inr expected" "own_bytes (eo_previous op) 32 = Inr (eo_previous op)"
    using r assms by (simp_all add: own_bytes_conv sha_width_def)
  have genuine: "(if ?p = 1 then mapR (\<lambda>g. compareBytes (eo_previous op) g = 0) (genesisEvidenceHash C P (sn_segment s)) else Inr True) =
      Inr True"
    using r gen by simp
  have e: "expected = sha256 C (snapshot_enc P s)" and n: "eo_length op - ?p = int (length ?xs)" "?p \<noteq> 0" "\<not> eo_length op < ?p"
    using r by auto
  show "verifyEvidenceOpening C P expected s op = Inr True"
    unfolding verifyEvidenceOpening_def catchEncoding_True Let_def own sd bindR_simps dec snapshotDigest_def mapR_simps n ent copy genuine
      first run
    using p n by (simp add: e)
qed

subsection \<open>The fault-evidence frame\<close>

lemma subarray_append: "length x = k \<Longrightarrow> subarray (length a) k (a @ x @ b) = x"
  by (simp add: subarray_def)

lemma length_subarray: "start + n \<le> length input \<Longrightarrow> length (subarray start n input) = n"
  by (simp add: subarray_def)

lemma drop_subarray: "drop start input = subarray start n input @ drop (start + n) input"
  by (simp add: subarray_def) (metis add.commute append_take_drop_id drop_drop)

lemma scan_fields_sound:
  "scan_fields m n off input = Inr (spans, end) \<Longrightarrow> off \<le> length input \<Longrightarrow>
    end \<le> length input \<and> off \<le> end \<and> length spans = n \<and>
    list_all (\<lambda>f. int (length f) \<le> m) (map (\<lambda>(start, k). subarray start k input) spans) \<and>
    drop off input = concat (map field_frame (map (\<lambda>(start, k). subarray start k input) spans)) @ drop end input"
proof (induction n arbitrary: off spans)
  case (Suc n)
  let ?k = "be_int (subarray off 4 input)"
  from Suc.prems(1) have b: "off + 4 \<le> length input" "?k \<le> m" "off + 4 + nat ?k \<le> length input"
    by (auto simp: Let_def split: if_splits)
  from Suc.prems(1) b obtain rest where rest: "scan_fields m n (off + 4 + nat ?k) input = Inr (rest, end)"
    and spans: "spans = (off + 4, nat ?k) # rest"
    by (auto simp: Let_def bindR_Inr_conv)
  let ?f = "subarray (off + 4) (nat ?k) input"
  have len: "length ?f = nat ?k" using b(3) by (simp add: length_subarray)
  have "be_bytes 4 ?k = subarray off 4 input"
    using be_bytes_be_int [of "subarray off 4 input"] b(1) by (simp add: length_subarray)
  then have frame: "field_frame ?f = subarray off 4 input @ ?f" by (simp add: field_frame_def len)
  have "drop off input = subarray off 4 input @ ?f @ drop (off + 4 + nat ?k) input"
    using drop_subarray [of off input 4] drop_subarray [of "off + 4" input "nat ?k"] by simp
  then show ?case using Suc.IH [OF rest b(3)] b(2) len frame by (simp add: spans)
qed simp

lemma scan_fields_complete:
  assumes "0 \<le> m" and "m < 2 ^ 32"
  shows "list_all (\<lambda>f. int (length f) \<le> m) fs \<Longrightarrow> input = pre @ concat (map field_frame fs) @ rest \<Longrightarrow>
    \<exists>spans. scan_fields m (length fs) (length pre) input = Inr (spans, length pre + length (concat (map field_frame fs))) \<and>
      map (\<lambda>(start, k). subarray start k input) spans = fs"
proof (induction fs arbitrary: pre)
  case (Cons f fs)
  let ?l = "be_bytes 4 (int (length f))"
  have input: "input = pre @ ?l @ f @ concat (map field_frame fs) @ rest" using Cons.prems(2) by (simp add: field_frame_def [of f])
  have s: "subarray (length pre) 4 input = ?l" unfolding input by (rule subarray_append) simp
  have k: "be_int ?l = int (length f)" using Cons.prems(1) assms by simp
  have f: "subarray (length pre + 4) (length f) input = f"
    using subarray_append [of f "length f" "pre @ ?l" "concat (map field_frame fs) @ rest"] by (simp add: input)
  obtain spans where spans: "scan_fields m (length fs) (length (pre @ ?l @ f)) input =
      Inr (spans, length (pre @ ?l @ f) + length (concat (map field_frame fs)))"
    "map (\<lambda>(start, k). subarray start k input) spans = fs"
    using Cons.IH [of "pre @ ?l @ f"] Cons.prems(1) input by auto
  have "length pre + 4 \<le> length input" "length pre + 4 + length f \<le> length input" by (simp_all add: input)
  then have "scan_fields m (length (f # fs)) (length pre) input =
      Inr ((length pre + 4, length f) # spans, length pre + length (concat (map field_frame (f # fs))))"
    using spans(1) Cons.prems(1) s k by (simp add: field_frame_def add.assoc)
  then show ?case using spans(2) f by (intro exI [of _ "(length pre + 4, length f) # spans"]) simp
qed simp

lemma chunks_concat:
  "length xs = k * n \<Longrightarrow> concat (map (\<lambda>i. subarray (off + k * i) k (pre @ xs)) [0..<n]) = xs" if "length pre = off"
proof (induction n arbitrary: xs)
  case (Suc n)
  have "subarray (off + k * i) k (pre @ xs) = subarray (off + k * i) k (pre @ take (k * n) xs)" if "i < n" for i
  proof -
    have "k * i + k \<le> k * n" using that by (metis Suc_leI mult_Suc_right mult_le_mono2 add.commute)
    then show ?thesis using \<open>length pre = off\<close> by (simp add: subarray_def take_drop min_def)
  qed
  then have "map (\<lambda>i. subarray (off + k * i) k (pre @ xs)) [0..<n] = map (\<lambda>i. subarray (off + k * i) k (pre @ take (k * n) xs)) [0..<n]"
    by (intro map_cong) simp_all
  moreover have "concat (map (\<lambda>i. subarray (off + k * i) k (pre @ take (k * n) xs)) [0..<n]) = take (k * n) xs"
    using Suc.IH [of "take (k * n) xs"] Suc.prems by simp
  ultimately have "concat (map (\<lambda>i. subarray (off + k * i) k (pre @ xs)) [0..<n]) = take (k * n) xs" by (simp only:)
  moreover have "subarray (off + k * n) k (pre @ xs) = drop (k * n) xs"
    using \<open>length pre = off\<close> Suc.prems by (simp add: subarray_def)
  ultimately show ?case by simp
qed simp

lemma chunk_at:
  assumes "list_all (\<lambda>d. length d = k) ds" and "i < length ds" and "length pre = off"
  shows "subarray (off + k * i) k (pre @ concat ds @ rest) = ds ! i"
  using assms
proof (induction ds arbitrary: pre off i)
  case (Cons d ds)
  show ?case
  proof (cases i)
    case 0
    then show ?thesis using Cons.prems subarray_append [of d k pre "concat ds @ rest"] by simp
  next
    case (Suc j)
    have "subarray ((off + k) + k * j) k ((pre @ d) @ concat ds @ rest) = ds ! j"
      by (rule Cons.IH) (use Cons.prems Suc in simp_all)
    then show ?thesis by (simp add: Suc add.assoc)
  qed
qed simp

definition fault_ok :: "chain_profile \<Rightarrow> int \<Rightarrow> fault_evidence \<Rightarrow> bool" where
  "fault_ok P m e \<longleftrightarrow> isValue m \<and> 0 < fe_position e \<and> fe_position e \<le> fe_length e \<and> fe_length e < 2 ^ 64 \<and>
     fe_length e - fe_position e \<le> m \<and> int (length (fe_suffix e)) = fe_length e - fe_position e \<and>
     length (fe_fields e) = length (ch_fields P) \<and> list_all (\<lambda>f. int (length f) \<le> ch_maxTargetFieldBytes P) (fe_fields e) \<and>
     length (fe_previous e) = 32 \<and> snapshot_ok (fe_snapshot e) \<and> list_all (entry_ok P) (fe_suffix e)"

definition fault_enc :: "chain_profile \<Rightarrow> fault_evidence \<Rightarrow> bytes" where
  "fault_enc P e = ch_faultEvidence P @ snapshot_enc P (fe_snapshot e) @ be_bytes 8 (fe_position e) @ be_bytes 8 (fe_length e) @
     fe_previous e @ concat (map field_frame (fe_fields e)) @ concat (map concat (fe_suffix e))"

lemma suffixCount_conv: "suffixCount p n m = Inr c \<longleftrightarrow> isValue m \<and> 0 < p \<and> p \<le> n \<and> n < 2 ^ 64 \<and> n - p \<le> m \<and> c = n - p"
  by (auto simp: suffixCount_def isValue_conv)

lemma targetField_conv: "targetField P v = Inr w \<longleftrightarrow> int (length v) \<le> ch_maxTargetFieldBytes P \<and> w = v"
  by (auto simp: targetField_def)

lemma fault_evidence_eq: "\<lparr>fe_snapshot = fe_snapshot e, fe_position = fe_position e, fe_length = fe_length e,
    fe_previous = fe_previous e, fe_fields = fe_fields e, fe_suffix = fe_suffix e\<rparr> = (e :: fault_evidence)"
  by (cases e) simp

lemma requireEvidence_conv: "requireEvidence P e m = Inr x \<longleftrightarrow> fault_ok P m e \<and> x = (snapshot_enc P (fe_snapshot e), e)"
proof -
  have "requireEvidence P e m = Inr x \<longleftrightarrow> fault_ok P m e \<and> x = (snapshot_enc P (fe_snapshot e),
      \<lparr>fe_snapshot = fe_snapshot e, fe_position = fe_position e, fe_length = fe_length e,
       fe_previous = fe_previous e, fe_fields = fe_fields e, fe_suffix = fe_suffix e\<rparr>)"
    unfolding requireEvidence_def bindR_Inr_conv suffixCount_conv requireR_Inr traverse_filter [OF targetField_conv]
      own_bytes_conv snapshotBytes_conv copyEntries_conv fault_ok_def
    by (auto simp: decodeSnapshot_enc)
  then show ?thesis unfolding fault_evidence_eq .
qed

lemma encodeFaultEvidence_conv: "encodeFaultEvidence P m e = Inr bs \<longleftrightarrow> fault_ok P m e \<and> bs = fault_enc P e"
  by (auto simp: encodeFaultEvidence_def bindR_Inr_conv requireEvidence_conv fault_enc_def)

lemma concat_nested: "concat (map (\<lambda>i. concat (map (\<lambda>j. f (i * d + j)) [0..<d])) [0..<n]) = concat (map f [0..<n * d])"
proof (induction n)
  case (Suc n)
  have "map (\<lambda>j. f (n * d + j)) [0..<d] = map f [n * d..<n * d + d]"
    by (rule nth_equalityI) simp_all
  moreover have "[0..<n * d + d] = [0..<n * d] @ [n * d..<n * d + d]" by (rule upt_add_eq_append) simp
  moreover have "Suc n * d = n * d + d" by simp
  ultimately show ?case using Suc by (simp only: map_append concat_append upt_Suc) simp
qed simp

lemma index_less: "i < n \<Longrightarrow> j < d \<Longrightarrow> i * d + j < n * (d :: nat)"
proof -
  assume "i < n" "j < d"
  then have "Suc i * d \<le> n * d" by (intro mult_le_mono1) simp
  with \<open>j < d\<close> show ?thesis by simp
qed

lemma length_entries: "list_all (entry_ok P) es \<Longrightarrow> length (concat (map concat es)) = entryBytes P * length es"
  by (induction es) (simp_all add: length_entry)

lemma entries_concat: "list_all (entry_ok P) es \<Longrightarrow> concat (map concat es) = concat (concat es)"
  by (induction es) simp_all

lemma decode_entries:
  assumes "list_all (entry_ok P) es" and "length pre = off" and D: "length (ch_digests P) = d"
  shows "map (\<lambda>i. map (\<lambda>j. subarray (off + 32 * (i * d + j)) 32 (pre @ concat (map concat es))) [0..<d]) [0..<length es] = es"
proof (rule nth_equalityI)
  fix i assume i: "i < length (map (\<lambda>i. map (\<lambda>j. subarray (off + 32 * (i * d + j)) 32 (pre @ concat (map concat es))) [0..<d]) [0..<length es])"
  have ok: "entry_ok P e" if "e \<in> set es" for e using assms(1) that by (simp add: list_all_iff)
  have len: "length e = d" "list_all (\<lambda>x. length x = 32) e" if "e \<in> set es" for e
    using ok [OF that] D by (simp_all add: entry_ok_def)
  have all: "list_all (\<lambda>x. length x = 32) (concat es)" using len(2) by (fastforce simp: list_all_iff)
  have lc: "length (concat es) = length es * d" using len(1)
    by (induction es) simp_all
  have nth: "concat es ! (i * d + j) = es ! i ! j" if "i < length es" "j < d" for i j
    using that len(1)
  proof (induction es arbitrary: i)
    case (Cons e es)
    then show ?case by (cases i) (simp_all add: nth_append)
  qed simp
  have "subarray (off + 32 * (i * d + j)) 32 (pre @ concat (map concat es)) = es ! i ! j" if "j < d" for j
  proof -
    have "i * d + j < length (concat es)"
      using index_less [OF _ that, of i "length es"] i lc by simp
    then show ?thesis
      using chunk_at [OF all _ assms(2), of "i * d + j" "[]"] nth [of i j] i that
      by (simp add: entries_concat [OF assms(1)])
  qed
  then show "map (\<lambda>i. map (\<lambda>j. subarray (off + 32 * (i * d + j)) 32 (pre @ concat (map concat es))) [0..<d]) [0..<length es] ! i = es ! i"
    using i len(1) [of "es ! i"] by (auto intro!: nth_equalityI)
qed simp

lemma decodeFaultEvidence_sound:
  assumes "0 \<le> ch_maxTargetFieldBytes P" and "decodeFaultEvidence P m bs = Inr e"
  shows "fault_ok P m e \<and> bs = fault_enc P e"
proof -
  let ?F = "length (ch_faultEvidence P)" and ?S = "snapshotLength P" and ?d = "length (ch_digests P)"
  let ?pos = "be_int (subarray (positionAt P) 8 bs)" and ?len = "be_int (subarray (positionAt P + 8) 8 bs)"
  from assms(2) obtain spans off s where m: "isValue m" and fb: "fixedBytes P \<le> length bs"
    and ctx: "subarray 0 ?F bs = ch_faultEvidence P"
    and cnt: "suffixCount ?pos ?len m = Inr (?len - ?pos)"
    and scan: "scan_fields (ch_maxTargetFieldBytes P) (length (ch_fields P)) (fieldsAt P) bs = Inr (spans, off)"
    and rest: "int (length bs - off) = int (entryBytes P) * (?len - ?pos)"
    and s: "decodeSnapshot P (subarray ?F ?S bs) = Inr s"
    and e: "e = \<lparr>fe_snapshot = s, fe_position = ?pos, fe_length = ?len, fe_previous = subarray (positionAt P + 16) 32 bs,
        fe_fields = map (\<lambda>(start, n). subarray start n bs) spans,
        fe_suffix = map (\<lambda>i. map (\<lambda>j. subarray (off + 32 * (i * ?d + j)) 32 bs) [0..<?d]) [0..<nat (?len - ?pos)]\<rparr>"
    by (auto simp: decodeFaultEvidence_def bindR_Inr_conv Let_def suffixCount_conv split: if_splits)
  have at: "positionAt P = ?F + ?S" "fieldsAt P = ?F + ?S + 48" "fieldsAt P \<le> length bs" "?F + ?S + 48 \<le> length bs"
    using fb by (simp_all add: positionAt_def fieldsAt_def fixedBytes_def)
  note sc = scan_fields_sound [OF scan at(3)]
  have count: "0 < ?pos" "?pos \<le> ?len" "?len < 2 ^ 64" "?len - ?pos \<le> m" using cnt by (auto simp: suffixCount_conv)
  have len: "length bs - off = entryBytes P * nat (?len - ?pos)"
    using rest count by (metis int_nat_eq nat_int nat_mult_distrib of_nat_0_le_iff)
  let ?n = "nat (?len - ?pos)"
  have chunks: "concat (map (\<lambda>i. subarray (off + 32 * i) 32 bs) [0..<?n * ?d]) = drop off bs"
    using chunks_concat [of "take off bs" off "drop off bs" 32 "?n * ?d"] sc len
    by (simp add: entryBytes_def mult.commute mult.left_commute)
  have each: "length (subarray (off + 32 * (i * ?d + j)) 32 bs) = 32" if "i < ?n" "j < ?d" for i j
  proof (rule length_subarray)
    have "i * ?d + j + 1 \<le> ?n * ?d"
      using index_less [OF that] by simp
    then have "32 * (i * ?d + j + 1) \<le> 32 * (?n * ?d)" by simp
    then show "off + 32 * (i * ?d + j) + 32 \<le> length bs"
      using len sc by (simp add: entryBytes_def mult.commute mult.left_commute)
  qed
  have sb: "snapshot_ok s" "subarray ?F ?S bs = snapshot_enc P s" using s by (simp_all add: decodeSnapshot_conv snapshotBytes_conv)
  have ok: "fault_ok P m e"
    using m count sc sb(1) each at by (auto simp: e fault_ok_def entry_ok_def list_all_iff length_subarray)
  have pos: "be_bytes 8 ?pos = subarray (positionAt P) 8 bs" "be_bytes 8 ?len = subarray (positionAt P + 8) 8 bs"
    using be_bytes_be_int [of "subarray (positionAt P) 8 bs"] be_bytes_be_int [of "subarray (positionAt P + 8) 8 bs"] at
    by (simp_all add: length_subarray)
  have "bs = subarray 0 ?F bs @ drop ?F bs" using drop_subarray [of 0 bs ?F] by simp
  also have "drop ?F bs = subarray ?F ?S bs @ drop (positionAt P) bs" using drop_subarray [of ?F bs ?S] by (simp add: at)
  also have "drop (positionAt P) bs = subarray (positionAt P) 8 bs @ drop (positionAt P + 8) bs" by (rule drop_subarray)
  also have "drop (positionAt P + 8) bs = subarray (positionAt P + 8) 8 bs @ drop (positionAt P + 16) bs"
    using drop_subarray [of "positionAt P + 8" bs 8] by (simp add: add.commute)
  also have "drop (positionAt P + 16) bs = subarray (positionAt P + 16) 32 bs @ drop (fieldsAt P) bs"
    using drop_subarray [of "positionAt P + 16" bs 32] by (simp add: at add.commute)
  also have "drop (fieldsAt P) bs = concat (map field_frame (fe_fields e)) @ drop off bs"
    using sc by (simp add: e)
  also have "drop off bs = concat (map concat (fe_suffix e))"
    unfolding chunks [symmetric] concat_nested [symmetric] by (simp add: e comp_def)
  finally have "bs = fault_enc P e" using ctx sb(2) pos by (simp add: fault_enc_def e)
  with ok show ?thesis by blast
qed

lemma decodeFaultEvidence_complete:
  assumes "0 \<le> ch_maxTargetFieldBytes P" and "ch_maxTargetFieldBytes P < 2 ^ 32" and ok: "fault_ok P m e"
  shows "decodeFaultEvidence P m (fault_enc P e) = Inr e"
proof -
  let ?bs = "fault_enc P e" and ?F = "length (ch_faultEvidence P)" and ?S = "snapshotLength P"
  let ?fs = "concat (map field_frame (fe_fields e))" and ?es = "concat (map concat (fe_suffix e))"
  let ?head = "ch_faultEvidence P @ snapshot_enc P (fe_snapshot e) @ be_bytes 8 (fe_position e) @ be_bytes 8 (fe_length e) @ fe_previous e"
  have sn: "length (snapshot_enc P (fe_snapshot e)) = ?S" using ok by (simp add: fault_ok_def length_snapshot_enc)
  have head: "length ?head = fieldsAt P" using ok sn by (simp add: fieldsAt_def positionAt_def fault_ok_def)
  have bs: "?bs = ?head @ ?fs @ ?es" by (simp add: fault_enc_def)
  have slices: "subarray 0 ?F ?bs = ch_faultEvidence P" "subarray ?F (length (ch_snapshot P)) ?bs = ch_snapshot P"
    "subarray ?F ?S ?bs = snapshot_enc P (fe_snapshot e)"
    "subarray (positionAt P) 8 ?bs = be_bytes 8 (fe_position e)" "subarray (positionAt P + 8) 8 ?bs = be_bytes 8 (fe_length e)"
    "subarray (positionAt P + 16) 32 ?bs = fe_previous e"
    using sn ok by (simp_all add: fault_enc_def subarray_def positionAt_def fault_ok_def) (simp add: snapshot_enc_def)
  have nums: "be_int (be_bytes 8 (fe_position e)) = fe_position e" "be_int (be_bytes 8 (fe_length e)) = fe_length e"
    using ok by (simp_all add: fault_ok_def)
  have cnt: "suffixCount (fe_position e) (fe_length e) m = Inr (fe_length e - fe_position e)"
    using ok by (simp add: fault_ok_def suffixCount_conv)
  have fields: "length (fe_fields e) = length (ch_fields P)" "list_all (\<lambda>f. int (length f) \<le> ch_maxTargetFieldBytes P) (fe_fields e)"
    using ok by (simp_all add: fault_ok_def)
  obtain spans where scan: "scan_fields (ch_maxTargetFieldBytes P) (length (ch_fields P)) (fieldsAt P) ?bs =
      Inr (spans, fieldsAt P + length ?fs)" and sp: "map (\<lambda>(start, k). subarray start k ?bs) spans = fe_fields e"
    using scan_fields_complete [OF assms(1,2) fields(2) bs] unfolding head fields(1) by blast
  have ents: "list_all (entry_ok P) (fe_suffix e)" using ok by (simp add: fault_ok_def)
  have count: "int (length (fe_suffix e)) = fe_length e - fe_position e" "nat (fe_length e - fe_position e) = length (fe_suffix e)"
    using ok unfolding fault_ok_def by linarith+
  have size: "length ?bs = fieldsAt P + length ?fs + entryBytes P * length (fe_suffix e)"
    unfolding bs using head length_entries [OF ents] by simp
  have "map (\<lambda>i. map (\<lambda>j. subarray (fieldsAt P + length ?fs + 32 * (i * length (ch_digests P) + j)) 32 ?bs)
      [0..<length (ch_digests P)]) [0..<length (fe_suffix e)] = fe_suffix e"
    using decode_entries [OF ents, of "?head @ ?fs" "fieldsAt P + length ?fs" "length (ch_digests P)"] head by (simp add: bs)
  moreover
  have fl: "length xs = k \<Longrightarrow> list_all (\<lambda>f. int (length f) \<le> mx) xs \<Longrightarrow>
      4 * k \<le> length (concat (map field_frame xs)) \<and> int (length (concat (map field_frame xs))) \<le> 4 * int k + int k * mx" for xs k mx
    by (induction xs arbitrary: k) (auto simp: field_frame_def algebra_simps)
  from fl [OF fields] have "fixedBytes P \<le> length ?bs"
    using size by (simp add: fixedBytes_def)
  moreover have "int (length ?bs) \<le> int (fixedBytes P) + int (length (ch_fields P)) * ch_maxTargetFieldBytes P + int (entryBytes P) * m"
  proof -
    have "int (entryBytes P) * int (length (fe_suffix e)) \<le> int (entryBytes P) * m"
      using ok count by (intro mult_left_mono) (simp_all add: fault_ok_def)
    then show ?thesis using fl [OF fields] size by (simp add: fixedBytes_def)
  qed
  moreover have "decodeSnapshot P (snapshot_enc P (fe_snapshot e)) = Inr (fe_snapshot e)"
    using ok by (simp add: fault_ok_def decodeSnapshot_enc)
  moreover have "isValue m" using ok by (simp add: fault_ok_def)
  ultimately show ?thesis
    unfolding decodeFaultEvidence_def slices nums Let_def
    using cnt scan sp count size by (simp add: fault_evidence_eq)
qed

lemma decodeFaultEvidence_conv:
  "0 \<le> ch_maxTargetFieldBytes P \<Longrightarrow> ch_maxTargetFieldBytes P < 2 ^ 32 \<Longrightarrow>
     decodeFaultEvidence P m bs = Inr e \<longleftrightarrow> encodeFaultEvidence P m e = Inr bs"
  unfolding encodeFaultEvidence_conv using decodeFaultEvidence_sound decodeFaultEvidence_complete by blast

lemma verifyFaultEvidence_True: "verifyFaultEvidence C P x e m = Inr True \<longleftrightarrow>
    length (es_backing x) = 32 \<and> length (es_segment x) = 32 \<and> length (es_digest x) = 32 \<and> fault_ok P m e \<and>
    sn_backing (fe_snapshot e) = es_backing x \<and> sn_segment (fe_snapshot e) = es_segment x \<and>
    (\<exists>entry. ch_target P (fe_fields e) = Inr entry \<and>
      verifyEvidenceOpening C P (es_digest x) (fe_snapshot e) \<lparr>eo_position = fe_position e, eo_length = fe_length e,
         eo_previous = fe_previous e, eo_target = entry, eo_suffix = fe_suffix e\<rparr> = Inr True)"
  unfolding verifyFaultEvidence_def catchEncoding_True bindR_Inr_conv own_bytes_conv requireEvidence_conv
  by (auto simp: bindR_Inr_conv)

end
