(* ===== verification/Commitments.thy ===== *)
theory Commitments
  imports EvidenceChain Records
begin

section \<open>Histories, receipts and the v3 evidence chain (src/pool/v3/commitments.ts)\<close>

text \<open>
  The history hash of a segment, the receipt an operator signs for an admitted statement with its
  verification and its comparison with a committed event, and v3's instance of the evidence chain.
\<close>

definition MAX_TARGET_FIELD_BYTES :: int where
  "MAX_TARGET_FIELD_BYTES = 131072"

definition v3_target :: "crypto \<Rightarrow> bytes list \<Rightarrow> bytes list result" where
  "v3_target C fs = mapR (\<lambda>d. [e_statementHash d, e_proofHash d, e_signatureHash d])
     (hashEvidenceFields C (sha256 C (fs ! 0)) (fs ! 1) (fs ! 2))"

definition V3_CHAIN :: "crypto \<Rightarrow> chain_profile" where
  "V3_CHAIN C = \<lparr>ch_seed = V3_EVIDENCE_SEED_CONTEXT, ch_link = V3_EVIDENCE_LINK_CONTEXT, ch_snapshot = V3_SNAPSHOT_CONTEXT,
     ch_faultEvidence = V3_FAULT_EVIDENCE_CONTEXT, ch_digests = [''statementHash'', ''proofHash'', ''signatureHash''],
     ch_fields = [''statement'', ''proof'', ''authorization''], ch_maxTargetFieldBytes = MAX_TARGET_FIELD_BYTES,
     ch_boundBeforeCopy = False, ch_target = v3_target C\<rparr>"

definition genesisHistoryHash :: "crypto \<Rightarrow> bytes \<Rightarrow> bytes result" where
  "genesisHistoryHash C segment = segmentSeed C V3_GENESIS_CONTEXT segment"

definition w_fixed_field :: "bytes \<Rightarrow> nat \<Rightarrow> writer" where
  "w_fixed_field bs width = w_fixed bs width ''fixed field''"

definition w_fixed_value :: "int \<Rightarrow> writer" where
  "w_fixed_value v out = bindR (fieldToBytes v) (\<lambda>bs. w_fixed_field bs 32 out)"

definition nextHistoryHash :: "crypto \<Rightarrow> bytes \<Rightarrow> bytes \<Rightarrow> int \<Rightarrow> bytes \<Rightarrow> int \<Rightarrow> bytes result" where
  "nextHistoryHash C previous st noteRoot spentRoot position =
     mapR (sha256 C) (written [w_context V3_HISTORY_CONTEXT, w_fixed_field previous 32, w_fixed_field st 32,
       w_fixed_value noteRoot, w_fixed_field spentRoot 32, w_u64_checked position True])"

subsection \<open>Receipts\<close>

record receipt_fields = evidence_digests +
  rc_domain :: bytes
  rc_segment :: bytes
  rc_scopeRoot :: int
  rc_position :: int
  rc_historyHash :: bytes
  rc_after :: int

record receipt = receipt_fields +
  rc_operator :: bytes
  rc_signature :: bytes

record receipt_authority =
  ra_domain :: bytes
  ra_segment :: bytes
  ra_scopeRoot :: int
  ra_operator :: bytes

record inclusion_event = evidence_digests +
  ie_position :: int
  ie_historyHash :: bytes

definition owned32 :: "bytes \<Rightarrow> bytes result" where
  "owned32 v = (if length v \<noteq> 32 then Inl (EncodingError ''fixed field must be 32 bytes'') else Inr v)"

definition receiptBytes :: "'a receipt_fields_scheme \<Rightarrow> bytes result" where
  "receiptBytes r = written ([w_context V3_RECEIPT_CONTEXT, w_fixed_field (rc_domain r) 32, w_fixed_field (rc_segment r) 32,
     w_fixed_value (rc_scopeRoot r), w_u64_checked (rc_position r) True] @
     map (\<lambda>bs. w_fixed_field bs 32) [e_statementHash r, rc_historyHash r, e_proofHash r, e_signatureHash r] @
     [w_u64_checked (rc_after r) False])"

definition encodeReceipt :: "receipt \<Rightarrow> bytes result" where
  "encodeReceipt r = bindR (receiptBytes r) (\<lambda>rb.
     written [w_context rb, w_fixed_field (rc_operator r) 32, w_fixed_field (rc_signature r) 64])"

definition readFieldValue :: "int read" where
  "readFieldValue = bindP (r_raw 32) (\<lambda>b. liftP (bytesToField b))"

definition decodeReceipt :: "bytes \<Rightarrow> receipt result" where
  "decodeReceipt = decoded_by (
     bindP (bindP (expectContext V3_RECEIPT_CONTEXT) (\<lambda>_. bindP (r_raw 32) (\<lambda>domain. bindP (r_raw 32) (\<lambda>segment.
       bindP readFieldValue (\<lambda>scopeRoot. bindP r_u64 (\<lambda>position. bindP (r_raw 32) (\<lambda>st. bindP (r_raw 32) (\<lambda>history.
       bindP (r_raw 32) (\<lambda>prf. bindP (r_raw 32) (\<lambda>sig. bindP r_u64 (\<lambda>after. bindP (r_raw 32) (\<lambda>operator. bindP (r_raw 64) (\<lambda>signature.
       returnP \<lparr>e_statementHash = st, e_proofHash = prf, e_signatureHash = sig, rc_domain = domain, rc_segment = segment,
         rc_scopeRoot = scopeRoot, rc_position = position, rc_historyHash = history, rc_after = after,
         rc_operator = operator, rc_signature = signature\<rparr>)))))))))))))
     (\<lambda>r. bindP r_expectEnd (\<lambda>_. bindP (liftP (requireR (rc_position r \<noteq> 0) (EncodingError ''receipt position is zero''))) (\<lambda>_.
       returnP r))))"

definition verifyReceipt :: "crypto \<Rightarrow> receipt_authority \<Rightarrow> receipt \<Rightarrow> bool result" where
  "verifyReceipt C authority receiptIn = catchEncoding (
     bindR (encodeReceipt receiptIn) (\<lambda>eb. bindR (decodeReceipt eb) (\<lambda>rc. bindR (receiptBytes rc) (\<lambda>message.
     bindR (owned32 (ra_domain authority)) (\<lambda>domain. bindR (owned32 (ra_segment authority)) (\<lambda>segment.
     bindR (owned32 (ra_operator authority)) (\<lambda>operator. bindR (fieldToBytes (ra_scopeRoot authority)) (\<lambda>_.
     Inr (compareBytes domain (rc_domain rc) = 0 \<and> compareBytes segment (rc_segment rc) = 0 \<and>
       ra_scopeRoot authority = rc_scopeRoot rc \<and> compareBytes operator (rc_operator rc) = 0 \<and>
       verifySignatureStrict C (rc_signature rc) message operator)))))))))"

definition receiptMatchesEvent :: "'a receipt_fields_scheme \<Rightarrow> inclusion_event \<Rightarrow> bool result" where
  "receiptMatchesEvent r event = catchEncoding (
     bindR (traverseR owned32 [rc_domain r, rc_segment r, e_statementHash r, rc_historyHash r, e_proofHash r, e_signatureHash r]) (\<lambda>_.
     bindR (receiptBytes r) (\<lambda>_.
     bindR (traverseR owned32 [e_statementHash event, ie_historyHash event, e_proofHash event, e_signatureHash event]) (\<lambda>_.
     if \<not> isValue (ie_position event) \<or> ie_position event = 0 then Inl (EncodingError ''invalid u64'')
     else Inr (compareBytes (e_statementHash r) (e_statementHash event) = 0 \<and>
       compareBytes (rc_historyHash r) (ie_historyHash event) = 0 \<and>
       compareBytes (e_proofHash r) (e_proofHash event) = 0 \<and>
       compareBytes (e_signatureHash r) (e_signatureHash event) = 0 \<and> rc_position r = ie_position event)))))"

subsection \<open>Frames\<close>

lemma w_fixed_field_conv [write_simps]: "w_fixed_field v n out = Inr r \<longleftrightarrow> length v = n \<and> r = out @ v"
  by (simp add: w_fixed_field_def w_fixed_conv)

lemma w_fixed_value_conv [write_simps]: "w_fixed_value v out = Inr r \<longleftrightarrow> isField v \<and> r = out @ be_bytes 32 v"
  by (auto simp: w_fixed_value_def bindR_Inr_conv fieldToBytes_conv w_fixed_field_conv)

definition receipt_ok :: "'a receipt_fields_scheme \<Rightarrow> bool" where
  "receipt_ok r \<longleftrightarrow> length (rc_domain r) = 32 \<and> length (rc_segment r) = 32 \<and> isField (rc_scopeRoot r) \<and>
     0 < rc_position r \<and> rc_position r < 2 ^ 64 \<and> length (e_statementHash r) = 32 \<and> length (rc_historyHash r) = 32 \<and>
     length (e_proofHash r) = 32 \<and> length (e_signatureHash r) = 32 \<and> 0 \<le> rc_after r \<and> rc_after r < 2 ^ 64"

definition receipt_enc :: "'a receipt_fields_scheme \<Rightarrow> bytes" where
  "receipt_enc r = V3_RECEIPT_CONTEXT @ rc_domain r @ rc_segment r @ be_bytes 32 (rc_scopeRoot r) @ be_bytes 8 (rc_position r) @
     e_statementHash r @ rc_historyHash r @ e_proofHash r @ e_signatureHash r @ be_bytes 8 (rc_after r)"

lemma receiptBytes_conv: "receiptBytes r = Inr m \<longleftrightarrow> receipt_ok r \<and> m = receipt_enc r"
  by (auto simp: receiptBytes_def receipt_ok_def receipt_enc_def write_simps bindR_Inr_conv)

lemma encodeReceipt_conv: "encodeReceipt r = Inr bs \<longleftrightarrow>
    (receipt_ok r \<and> length (rc_operator r) = 32 \<and> length (rc_signature r) = 64) \<and> bs = receipt_enc r @ rc_operator r @ rc_signature r"
  by (auto simp: encodeReceipt_def bindR_Inr_conv receiptBytes_conv write_simps)

lemma readFieldValue_reads: "reads readFieldValue (be_bytes 32) isField"
  using readField_reads by (simp add: readFieldValue_def readField_def)

lemmas readFieldValue_run [run_simps] = reads_run [OF readFieldValue_reads]
lemmas readFieldValue_conv [read_simps] = readsD [OF readFieldValue_reads]

lemma decodeReceipt_conv: "decodeReceipt bs = Inr r \<longleftrightarrow> encodeReceipt r = Inr bs"
proof -
  let ?p = "bindP (expectContext V3_RECEIPT_CONTEXT) (\<lambda>_. bindP (r_raw 32) (\<lambda>domain. bindP (r_raw 32) (\<lambda>segment.
       bindP readFieldValue (\<lambda>scopeRoot. bindP r_u64 (\<lambda>position. bindP (r_raw 32) (\<lambda>st. bindP (r_raw 32) (\<lambda>history.
       bindP (r_raw 32) (\<lambda>prf. bindP (r_raw 32) (\<lambda>sig. bindP r_u64 (\<lambda>after. bindP (r_raw 32) (\<lambda>operator. bindP (r_raw 64) (\<lambda>signature.
       returnP \<lparr>e_statementHash = st, e_proofHash = prf, e_signatureHash = sig, rc_domain = domain, rc_segment = segment,
         rc_scopeRoot = scopeRoot, rc_position = position, rc_historyHash = history, rc_after = after,
         rc_operator = operator, rc_signature = signature\<rparr>))))))))))))"
  let ?ok = "\<lambda>r :: receipt. length (rc_domain r) = 32 \<and> length (rc_segment r) = 32 \<and> isField (rc_scopeRoot r) \<and>
     0 \<le> rc_position r \<and> rc_position r < 2 ^ 64 \<and> length (e_statementHash r) = 32 \<and> length (rc_historyHash r) = 32 \<and>
     length (e_proofHash r) = 32 \<and> length (e_signatureHash r) = 32 \<and> 0 \<le> rc_after r \<and> rc_after r < 2 ^ 64 \<and>
     length (rc_operator r) = 32 \<and> length (rc_signature r) = 64"
  let ?enc = "\<lambda>r :: receipt. receipt_enc r @ rc_operator r @ rc_signature r"
  have "reads ?p ?enc ?ok"
  proof (rule reads_splitI)
    fix pre rest r r'
    assume "?p (reader_at pre rest) = Inr (r, r')"
    then show "?ok r \<and> (\<exists>rest'. rest = ?enc r @ rest' \<and> r' = reader_at (pre @ ?enc r) rest')"
      by (auto simp: read_simps receipt_enc_def)
  next
    fix pre rest and r :: receipt
    assume "?ok r"
    then show "?p (reader_at pre (?enc r @ rest)) = Inr (r, reader_at (pre @ ?enc r) rest)"
      by (simp add: run_simps receipt_enc_def)
  qed
  from decoded_whole [OF this, of "\<lambda>r. requireR (rc_position r \<noteq> 0) (EncodingError ''receipt position is zero'')"]
  show ?thesis by (auto simp: decodeReceipt_def encodeReceipt_conv receipt_ok_def)
qed

interpretation receipt_codec: frame_codec encodeReceipt decodeReceipt
  by unfold_locales (rule decodeReceipt_conv)

lemma verifyReceipt_True: "verifyReceipt C a r = Inr True \<longleftrightarrow>
    receipt_ok r \<and> length (rc_operator r) = 32 \<and> length (rc_signature r) = 64 \<and>
    rc_domain r = ra_domain a \<and> rc_segment r = ra_segment a \<and> rc_scopeRoot r = ra_scopeRoot a \<and> rc_operator r = ra_operator a \<and>
    verifySignatureStrict C (rc_signature r) (receipt_enc r) (rc_operator r)"
proof -
  have "verifyReceipt C a r = Inr True \<longleftrightarrow> (\<exists>eb. encodeReceipt r = Inr eb \<and> (\<exists>rc. rc = r \<and> (\<exists>m. receiptBytes rc = Inr m \<and>
     length (ra_domain a) = 32 \<and> length (ra_segment a) = 32 \<and> length (ra_operator a) = 32 \<and> isField (ra_scopeRoot a) \<and>
     ra_domain a = rc_domain rc \<and> ra_segment a = rc_segment rc \<and> ra_scopeRoot a = rc_scopeRoot rc \<and> ra_operator a = rc_operator rc \<and>
     verifySignatureStrict C (rc_signature rc) m (ra_operator a))))"
  proof -
    have d: "decodeReceipt eb = Inr rc \<longleftrightarrow> rc = r" if "encodeReceipt r = Inr eb" for eb rc
      using receipt_codec.decode_encode [OF that] by auto
    show ?thesis unfolding verifyReceipt_def catchEncoding_True bindR_Inr_conv
      by (auto simp: d owned32_def fieldToBytes_conv requireField_conv)
  qed
  then show ?thesis by (auto simp: encodeReceipt_conv receiptBytes_conv receipt_ok_def)
qed

lemma receiptMatchesEvent_True: "receiptMatchesEvent r ev = Inr True \<longleftrightarrow> receipt_ok r \<and>
    e_statementHash r = e_statementHash ev \<and> rc_historyHash r = ie_historyHash ev \<and> e_proofHash r = e_proofHash ev \<and>
    e_signatureHash r = e_signatureHash ev \<and> rc_position r = ie_position ev"
proof -
  have o: "owned32 v = Inr w \<longleftrightarrow> length v = 32 \<and> w = v" for v w by (auto simp: owned32_def)
  show ?thesis unfolding receiptMatchesEvent_def catchEncoding_True bindR_Inr_conv traverse_filter [OF o]
    by (auto simp: receiptBytes_conv receipt_ok_def isValue_conv)
qed

subsection \<open>Histories\<close>

text \<open>One event as the history hashes it: the statement's hash and the roots after it.\<close>

record history_event =
  he_statement :: bytes
  he_noteRoot :: int
  he_spentRoot :: bytes

definition history_frame :: "bytes \<Rightarrow> history_event \<Rightarrow> int \<Rightarrow> bytes" where
  "history_frame h e n = V3_HISTORY_CONTEXT @ h @ he_statement e @ be_bytes 32 (he_noteRoot e) @ he_spentRoot e @ be_bytes 8 n"

definition event_ok :: "history_event \<Rightarrow> bool" where
  "event_ok e \<longleftrightarrow> length (he_statement e) = 32 \<and> isField (he_noteRoot e) \<and> length (he_spentRoot e) = 32"

lemma nextHistoryHash_conv: "nextHistoryHash C h (he_statement e) (he_noteRoot e) (he_spentRoot e) n = Inr x \<longleftrightarrow>
    length h = 32 \<and> event_ok e \<and> 0 < n \<and> n < 2 ^ 64 \<and> x = sha256 C (history_frame h e n)"
  by (auto simp: nextHistoryHash_def mapR_Inr_conv write_simps bindR_Inr_conv event_ok_def history_frame_def)

text \<open>The history hash after a list of events, the first at position \<open>n\<close>.\<close>

fun history_from :: "crypto \<Rightarrow> bytes \<Rightarrow> int \<Rightarrow> history_event list \<Rightarrow> bytes result" where
  "history_from C h n [] = Inr h"
| "history_from C h n (e # es) =
     bindR (nextHistoryHash C h (he_statement e) (he_noteRoot e) (he_spentRoot e) n) (\<lambda>h'. history_from C h' (n + 1) es)"

definition history_hash :: "crypto \<Rightarrow> bytes \<Rightarrow> history_event list \<Rightarrow> bytes result" where
  "history_hash C segment es = bindR (genesisHistoryHash C segment) (\<lambda>g. history_from C g 1 es)"

fun history_frames :: "crypto \<Rightarrow> bytes \<Rightarrow> int \<Rightarrow> history_event list \<Rightarrow> bytes list" where
  "history_frames C h n [] = []"
| "history_frames C h n (e # es) = history_frame h e n # history_frames C (sha256 C (history_frame h e n)) (n + 1) es"

definition all_history_frames :: "crypto \<Rightarrow> bytes \<Rightarrow> history_event list \<Rightarrow> bytes list" where
  "all_history_frames C segment es =
     (V3_GENESIS_CONTEXT @ segment) # history_frames C (sha256 C (V3_GENESIS_CONTEXT @ segment)) 1 es"

lemma history_from_append:
  "history_from C h n (xs @ ys) = bindR (history_from C h n xs) (\<lambda>h'. history_from C h' (n + int (length xs)) ys)"
  by (induction xs arbitrary: h n) (simp_all add: algebra_simps)

lemma history_frames_append:
  "history_from C h n xs = Inr h' \<Longrightarrow>
   history_frames C h n (xs @ ys) = history_frames C h n xs @ history_frames C h' (n + int (length xs)) ys"
  by (induction xs arbitrary: h n) (auto simp: bindR_Inr_conv nextHistoryHash_conv algebra_simps)

lemma history_frame_inj:
  assumes "history_frame h e n = history_frame g f m" and "event_ok e" and "event_ok f" and "length h = 32" and "length g = 32"
    and "0 \<le> n" "n < 2 ^ 64" "0 \<le> m" "m < 2 ^ 64"
  shows "h = g \<and> e = f \<and> n = m"
proof -
  have parts: "h = g" "he_statement e = he_statement f" "be_bytes 32 (he_noteRoot e) = be_bytes 32 (he_noteRoot f)"
    "he_spentRoot e = he_spentRoot f" "be_bytes 8 n = be_bytes 8 m"
    using assms by (auto simp: history_frame_def event_ok_def)
  have "n = m" by (rule be_bytes_inj [OF parts(5)]) (use assms in simp_all)
  moreover have "he_noteRoot e = he_noteRoot f"
    by (rule be_bytes_inj [OF parts(3)]) (use assms isField_bound in \<open>auto simp: event_ok_def\<close>)
  ultimately show ?thesis using parts by (cases e; cases f) simp
qed

lemma history_genesis_apart: "V3_GENESIS_CONTEXT @ s \<noteq> history_frame h e n"
proof
  assume a: "V3_GENESIS_CONTEXT @ s = history_frame h e n"
  have "V3_GENESIS_CONTEXT \<in> set ALL_CONTEXTS" "V3_HISTORY_CONTEXT \<in> set ALL_CONTEXTS" by (simp_all add: ALL_CONTEXTS_def)
  then have "V3_GENESIS_CONTEXT = V3_HISTORY_CONTEXT"
    using a context_frames_apart unfolding history_frame_def by blast
  then have "length V3_GENESIS_CONTEXT = length V3_HISTORY_CONTEXT \<and> V3_GENESIS_CONTEXT ! 12 = V3_HISTORY_CONTEXT ! 12" by simp
  then show False by (simp add: V3_GENESIS_CONTEXT_def V3_HISTORY_CONTEXT_def tag_def numeral_eq_Suc)
qed

lemma history_last:
  assumes "history_hash C s (xs @ [x]) = Inr h" and "sha_width C"
  shows "\<exists>g. history_hash C s xs = Inr g \<and> length g = 32 \<and> event_ok x \<and> int (length xs) + 1 < 2 ^ 64 \<and>
    h = sha256 C (history_frame g x (int (length xs) + 1)) \<and>
    all_history_frames C s (xs @ [x]) = all_history_frames C s xs @ [history_frame g x (int (length xs) + 1)]"
proof -
  obtain g0 g where g0: "genesisHistoryHash C s = Inr g0" and g: "history_from C g0 1 xs = Inr g"
    and h: "nextHistoryHash C g (he_statement x) (he_noteRoot x) (he_spentRoot x) (1 + int (length xs)) = Inr h"
    using assms(1) by (auto simp: history_hash_def history_from_append bindR_Inr_conv)
  have "g0 = sha256 C (V3_GENESIS_CONTEXT @ s)" using g0 by (simp add: genesisHistoryHash_def segmentSeed_conv)
  then show ?thesis using g0 g h history_frames_append [OF g, of "[x]"]
    by (intro exI [of _ g]) (simp add: history_hash_def all_history_frames_def nextHistoryHash_conv add.commute)
qed

lemma history_binds:
  assumes "sha_width C"
  shows "history_hash C s xs = Inr h \<Longrightarrow> history_hash C s' ys = Inr h \<Longrightarrow>
    inj_on (sha256 C) (set (all_history_frames C s xs) \<union> set (all_history_frames C s' ys)) \<Longrightarrow> s = s' \<and> xs = ys"
proof (induction xs arbitrary: ys h rule: rev_induct)
  case Nil
  have h: "h = sha256 C (V3_GENESIS_CONTEXT @ s)" using Nil.prems(1)
    by (auto simp: history_hash_def genesisHistoryHash_def segmentSeed_conv bindR_Inr_conv)
  show ?case
  proof (cases ys rule: rev_cases)
    case Nil
    then have h': "h = sha256 C (V3_GENESIS_CONTEXT @ s')" using Nil.prems(2)
      by (auto simp: history_hash_def genesisHistoryHash_def segmentSeed_conv bindR_Inr_conv)
    have "V3_GENESIS_CONTEXT @ s = V3_GENESIS_CONTEXT @ s'"
      by (rule inj_onD [OF Nil.prems(3)]) (use h h' in \<open>simp_all add: all_history_frames_def\<close>)
    then show ?thesis using Nil by simp
  next
    case (snoc ys' y)
    from history_last [OF Nil.prems(2) [unfolded snoc] assms] obtain g where
      y: "h = sha256 C (history_frame g y (int (length ys') + 1))"
      "all_history_frames C s' ys = all_history_frames C s' ys' @ [history_frame g y (int (length ys') + 1)]"
      by (auto simp: snoc)
    have "V3_GENESIS_CONTEXT @ s = history_frame g y (int (length ys') + 1)"
      by (rule inj_onD [OF Nil.prems(3)]) (use h y in \<open>simp_all add: all_history_frames_def [of C s]\<close>)
    then show ?thesis using history_genesis_apart by blast
  qed
next
  case (snoc x xs)
  from history_last [OF snoc.prems(1) assms] obtain g where g: "history_hash C s xs = Inr g" "length g = 32" "event_ok x"
    "int (length xs) + 1 < 2 ^ 64" "h = sha256 C (history_frame g x (int (length xs) + 1))"
    "all_history_frames C s (xs @ [x]) = all_history_frames C s xs @ [history_frame g x (int (length xs) + 1)]" by blast
  show ?case
  proof (cases ys rule: rev_cases)
    case Nil
    then have h': "h = sha256 C (V3_GENESIS_CONTEXT @ s')" using snoc.prems(2)
      by (auto simp: history_hash_def genesisHistoryHash_def segmentSeed_conv bindR_Inr_conv)
    have "V3_GENESIS_CONTEXT @ s' = history_frame g x (int (length xs) + 1)"
      by (rule inj_onD [OF snoc.prems(3)]) (use h' g in \<open>simp_all add: all_history_frames_def [of C s']\<close>)
    then show ?thesis using history_genesis_apart by blast
  next
    case (snoc ys' y)
    from history_last [OF snoc.prems(2) [unfolded snoc] assms] obtain f where f: "history_hash C s' ys' = Inr f" "length f = 32"
      "event_ok y" "int (length ys') + 1 < 2 ^ 64" "h = sha256 C (history_frame f y (int (length ys') + 1))"
      "all_history_frames C s' ys = all_history_frames C s' ys' @ [history_frame f y (int (length ys') + 1)]"
      by (auto simp: snoc)
    have "history_frame g x (int (length xs) + 1) = history_frame f y (int (length ys') + 1)"
      by (rule inj_onD [OF snoc.prems(3)]) (use g(5,6) f(5,6) in simp_all)
    from history_frame_inj [OF this g(3) f(3) g(2) f(2)] g(4) f(4) have eq: "g = f" "x = y" by simp_all
    have "inj_on (sha256 C) (set (all_history_frames C s xs) \<union> set (all_history_frames C s' ys'))"
      by (rule inj_on_subset [OF snoc.prems(3)]) (auto simp: g(6) f(6))
    from snoc.IH [OF g(1) f(1) [folded eq(1)] this] show ?thesis by (simp add: snoc eq(2))
  qed
qed

subsection \<open>Properties\<close>

text \<open>C28: a history hash names its segment and every event in order. Two histories with one hash are of one segment and are
  the same list of statement hashes, note roots and spent roots, hence the same positions, where SHA-256 does not
  collide on the frames the two histories hash; a shorter history never has the hash of a longer one.\<close>

theorem history_hash_binds:
  assumes "sha_width C" and "history_hash C s xs = Inr h" and "history_hash C s' ys = Inr h"
    and "inj_on (sha256 C) (set (all_history_frames C s xs) \<union> set (all_history_frames C s' ys))"
  shows "s = s' \<and> xs = ys"
  by (rule history_binds [OF assms])

definition example_event :: history_event where
  "example_event = \<lparr>he_statement = replicate 32 1, he_noteRoot = 5, he_spentRoot = replicate 32 2\<rparr>"

lemma example_history: "\<exists>h. history_hash toy_crypto (replicate 32 9) [example_event] = Inr h"
proof -
  have e: "event_ok example_event" by (simp add: event_ok_def example_event_def small_field)
  have g: "genesisHistoryHash toy_crypto (replicate 32 9) = Inr (sha256 toy_crypto (V3_GENESIS_CONTEXT @ replicate 32 9))"
    by (simp add: genesisHistoryHash_def segmentSeed_conv)
  let ?g = "sha256 toy_crypto (V3_GENESIS_CONTEXT @ replicate 32 9)"
  have "length ?g = 32" using toy_crypto_sha_width by (simp add: sha_width_def)
  then have "nextHistoryHash toy_crypto ?g (he_statement example_event) (he_noteRoot example_event) (he_spentRoot example_event) 1 =
      Inr (sha256 toy_crypto (history_frame ?g example_event 1))"
    using e by (simp add: nextHistoryHash_conv)
  then show ?thesis using g by (simp add: history_hash_def)
qed

lemma example_history_inj:
  "inj_on (sha256 toy_crypto) (set (all_history_frames toy_crypto (replicate 32 9) [example_event]))"
proof -
  let ?g = "sha256 toy_crypto (V3_GENESIS_CONTEXT @ replicate 32 9)"
  have "?g \<noteq> sha256 toy_crypto (history_frame ?g example_event 1)" by code_simp
  then show ?thesis by (auto simp: all_history_frames_def inj_on_def)
qed

lemma history_hash_binds_witness:
  "\<exists>h. history_hash toy_crypto (replicate 32 9) [example_event] = Inr h \<and> [example_event] = [example_event]"
  using example_history example_history_inj
    history_hash_binds [OF toy_crypto_sha_width, of "replicate 32 9" "[example_event]" _ "replicate 32 9" "[example_event]"] by auto

lemma opening_sound:
  assumes "sha_width C" and "verifyEvidenceOpening C P expected s op = Inr True"
    and "es \<noteq> []" and "list_all (entry_ok P) es" and "int (length es) < 2 ^ 64"
    and "sn_evidenceHash s = chain_hash C P (sha256 C (ch_seed P @ sn_segment s)) 1 es"
    and "inj_on (sha256 C) (set (chain_frames C P (eo_previous op) (eo_position op) (eo_target op # eo_suffix op)) \<union>
      set (chain_frames C P (sha256 C (ch_seed P @ sn_segment s)) 1 es))"
  shows "expected = sha256 C (snapshot_enc P s) \<and> eo_length op = int (length es) \<and>
    1 \<le> eo_position op \<and> eo_position op \<le> int (length es) \<and> eo_target op = es ! nat (eo_position op - 1) \<and>
    eo_suffix op = drop (nat (eo_position op)) es \<and>
    eo_previous op = chain_hash C P (sha256 C (ch_seed P @ sn_segment s)) 1 (take (nat (eo_position op - 1)) es)"
proof -
  let ?g = "sha256 C (ch_seed P @ sn_segment s)"
  note v = assms(2) [unfolded verifyEvidenceOpening_conv [OF assms(1)]]
  have "\<exists>pre. es = pre @ (eo_target op # eo_suffix op) \<and> eo_previous op = chain_hash C P ?g 1 pre \<and>
      eo_position op = 1 + int (length pre)"
    by (rule chain_binds [OF assms(1)]) (use v assms in \<open>auto simp: sha_width_def\<close>)
  then obtain pre where pre: "es = pre @ (eo_target op # eo_suffix op)" "eo_previous op = chain_hash C P ?g 1 pre"
    "eo_position op = 1 + int (length pre)" by blast
  have n: "nat (eo_position op - 1) = length pre" "nat (eo_position op) = Suc (length pre)" using pre(3) by simp_all
  show ?thesis unfolding n using v pre by simp
qed

text \<open>C11: an opening of the evidence chain opens the committed entry. Where the snapshot's evidence hash is the chain of the
  committed entries, a verified opening has the chain's own length, its target is the entry committed at that position,
  its previous hash is the hash of the entries before it and its suffix is the entries after it, where SHA-256 does not
  collide on the links of the two chains.\<close>

theorem evidence_opening_sound:
  assumes "sha_width C" and "verifyEvidenceOpening C P expected s op = Inr True"
    and "es \<noteq> []" and "list_all (entry_ok P) es" and "int (length es) < 2 ^ 64"
    and "sn_evidenceHash s = chain_hash C P (sha256 C (ch_seed P @ sn_segment s)) 1 es"
    and "inj_on (sha256 C) (set (chain_frames C P (eo_previous op) (eo_position op) (eo_target op # eo_suffix op)) \<union>
      set (chain_frames C P (sha256 C (ch_seed P @ sn_segment s)) 1 es))"
  shows "expected = sha256 C (snapshot_enc P s) \<and> eo_length op = int (length es) \<and>
    1 \<le> eo_position op \<and> eo_position op \<le> int (length es) \<and> eo_target op = es ! nat (eo_position op - 1) \<and>
    eo_suffix op = drop (nat (eo_position op)) es \<and>
    eo_previous op = chain_hash C P (sha256 C (ch_seed P @ sn_segment s)) 1 (take (nat (eo_position op - 1)) es)"
  by (rule opening_sound [OF assms])

lemma evidence_opening_complete:
  assumes "sha_width C" and "snapshot_ok s" and "list_all (entry_ok P) es" and "int (length es) < 2 ^ 64" and "k < length es"
    and "sn_evidenceHash s = chain_hash C P (sha256 C (ch_seed P @ sn_segment s)) 1 es"
  shows "verifyEvidenceOpening C P (sha256 C (snapshot_enc P s)) s
    \<lparr>eo_position = int k + 1, eo_length = int (length es),
     eo_previous = chain_hash C P (sha256 C (ch_seed P @ sn_segment s)) 1 (take k es),
     eo_target = es ! k, eo_suffix = drop (Suc k) es\<rparr> = Inr True"
proof -
  let ?g = "sha256 C (ch_seed P @ sn_segment s)"
  have split: "es = take k es @ (es ! k # drop (Suc k) es)" using assms(5) by (simp add: Cons_nth_drop_Suc)
  have "length ?g = 32" using assms(1) by (simp add: sha_width_def)
  then have w: "length (chain_hash C P ?g 1 (take k es)) = 32" by (rule chain_hash_width [OF assms(1)])
  have len: "1 + int (length (take k es)) = int k + 1" using assms(5) by simp
  have "chain_hash C P ?g 1 es = chain_hash C P (chain_hash C P ?g 1 (take k es)) (1 + int (length (take k es))) (es ! k # drop (Suc k) es)"
    by (subst split) (rule chain_hash_append)
  then have h: "chain_hash C P (chain_hash C P ?g 1 (take k es)) (int k + 1) (es ! k # drop (Suc k) es) = sn_evidenceHash s"
    unfolding len assms(6) by (rule sym)
  have ok: "list_all (entry_ok P) (es ! k # drop (Suc k) es)"
    using assms(3) split by (metis list_all_append)
  show ?thesis unfolding verifyEvidenceOpening_conv [OF assms(1)]
    using assms(1-5) w h ok chain_hash.simps(1) [of C P ?g 1] by (simp del: chain_hash.simps)
qed

definition example_entries :: "bytes list list" where
  "example_entries = [[replicate 32 1, replicate 32 2, replicate 32 3], [replicate 32 4, replicate 32 5, replicate 32 6]]"

definition example_seed :: bytes where
  "example_seed = sha256 toy_crypto (V3_EVIDENCE_SEED_CONTEXT @ replicate 32 7)"

definition example_snapshot :: snapshot where
  "example_snapshot = \<lparr>sn_backing = replicate 32 8, sn_segment = replicate 32 7, sn_historyHash = replicate 32 9,
     sn_evidenceHash = chain_hash toy_crypto (V3_CHAIN toy_crypto) example_seed 1 example_entries, sn_issued = 5, sn_burned = 2\<rparr>"

lemma toy_width: "length (sha256 toy_crypto m) = 32"
  using toy_crypto_sha_width by (simp add: sha_width_def)

lemma example_entries_ok: "list_all (entry_ok (V3_CHAIN C)) example_entries"
  by (simp add: example_entries_def entry_ok_def V3_CHAIN_def)

lemma example_snapshot_ok: "snapshot_ok example_snapshot"
proof -
  have "length example_seed = 32" by (simp add: example_seed_def toy_width)
  from chain_hash_width [OF toy_crypto_sha_width this] show ?thesis
    by (simp add: snapshot_ok_def example_snapshot_def)
qed

lemma example_frames_inj:
  "inj_on (sha256 toy_crypto) (set (chain_frames toy_crypto (V3_CHAIN toy_crypto) example_seed 1 example_entries))"
proof -
  have "distinct (map (sha256 toy_crypto) (chain_frames toy_crypto (V3_CHAIN toy_crypto) example_seed 1 example_entries))"
    by code_simp
  then show ?thesis by (simp add: distinct_map)
qed

lemma evidence_opening_sound_witness:
  "\<exists>op. verifyEvidenceOpening toy_crypto (V3_CHAIN toy_crypto) (sha256 toy_crypto (snapshot_enc (V3_CHAIN toy_crypto) example_snapshot))
      example_snapshot op = Inr True \<and> eo_target op = example_entries ! 0 \<and> eo_length op = 2"
proof -
  let ?P = "V3_CHAIN toy_crypto"
  have seed: "sha256 toy_crypto (ch_seed ?P @ sn_segment example_snapshot) = example_seed"
    by (simp add: V3_CHAIN_def example_snapshot_def example_seed_def)
  have ev: "sn_evidenceHash example_snapshot = chain_hash toy_crypto ?P (sha256 toy_crypto (ch_seed ?P @ sn_segment example_snapshot)) 1 example_entries"
    unfolding seed by (simp add: example_snapshot_def)
  let ?op = "\<lparr>eo_position = int 0 + 1, eo_length = int (length example_entries),
     eo_previous = chain_hash toy_crypto ?P (sha256 toy_crypto (ch_seed ?P @ sn_segment example_snapshot)) 1 (take 0 example_entries),
     eo_target = example_entries ! 0, eo_suffix = drop (Suc 0) example_entries\<rparr>"
  have n: "int (length example_entries) < 2 ^ 64" "0 < length example_entries" "example_entries \<noteq> []"
    by (simp_all add: example_entries_def)
  have v: "verifyEvidenceOpening toy_crypto ?P (sha256 toy_crypto (snapshot_enc ?P example_snapshot)) example_snapshot ?op = Inr True"
    by (rule evidence_opening_complete [OF toy_crypto_sha_width example_snapshot_ok example_entries_ok n(1,2) ev])
  have run: "eo_target ?op # eo_suffix ?op = example_entries" using n(2) by (simp add: example_entries_def)
  have inj: "inj_on (sha256 toy_crypto) (set (chain_frames toy_crypto ?P (eo_previous ?op) (eo_position ?op) (eo_target ?op # eo_suffix ?op)) \<union>
      set (chain_frames toy_crypto ?P (sha256 toy_crypto (ch_seed ?P @ sn_segment example_snapshot)) 1 example_entries))"
    unfolding run using example_frames_inj by (simp add: seed)
  from evidence_opening_sound [OF toy_crypto_sha_width v n(3) example_entries_ok n(1) ev inj] v
  have "eo_length ?op = 2" by (simp add: example_entries_def)
  with v show ?thesis by (intro exI [of _ ?op]) simp
qed

text \<open>C36: the evidence frames are canonical and every committed entry can be opened. Snapshots and fault evidence decode to a
  value exactly where the bytes are its frame, for v3's chain and any reader budget, and the snapshot of a chain of
  committed entries has, at every position, an opening that verifies.\<close>

theorem evidence_frames_canonical:
  assumes "sha_width C" and "list_all (entry_ok (V3_CHAIN C)) es" and "int (length es) < 2 ^ 64" and "k < length es"
    and "snapshot_ok s" and "sn_evidenceHash s = chain_hash C (V3_CHAIN C) (sha256 C (V3_EVIDENCE_SEED_CONTEXT @ sn_segment s)) 1 es"
  shows "(decodeFaultEvidence (V3_CHAIN C) m bs = Inr e \<longleftrightarrow> encodeFaultEvidence (V3_CHAIN C) m e = Inr bs) \<and>
    (decodeSnapshot (V3_CHAIN C) bs = Inr t \<longleftrightarrow> snapshotBytes (V3_CHAIN C) t = Inr bs) \<and>
    (\<exists>op. eo_position op = int k + 1 \<and> eo_target op = es ! k \<and>
      verifyEvidenceOpening C (V3_CHAIN C) (sha256 C (snapshot_enc (V3_CHAIN C) s)) s op = Inr True)"
proof -
  have seed: "ch_seed (V3_CHAIN C) = V3_EVIDENCE_SEED_CONTEXT" by (simp add: V3_CHAIN_def)
  have "decodeFaultEvidence (V3_CHAIN C) m bs = Inr e \<longleftrightarrow> encodeFaultEvidence (V3_CHAIN C) m e = Inr bs"
    by (rule decodeFaultEvidence_conv) (simp_all add: V3_CHAIN_def MAX_TARGET_FIELD_BYTES_def)
  moreover note snapshot_codec.decode_iff [of "V3_CHAIN C" bs t]
  moreover note evidence_opening_complete [OF assms(1,5,2,3,4), unfolded seed, OF assms(6)]
  ultimately show ?thesis by force
qed

lemma evidence_frames_canonical_witness:
  "\<exists>op. eo_position op = 2 \<and> eo_target op = example_entries ! 1 \<and>
     verifyEvidenceOpening toy_crypto (V3_CHAIN toy_crypto) (sha256 toy_crypto (snapshot_enc (V3_CHAIN toy_crypto) example_snapshot))
       example_snapshot op = Inr True"
proof -
  have "int (length example_entries) < 2 ^ 64" "1 < length example_entries" by (simp_all add: example_entries_def)
  moreover have "sn_evidenceHash example_snapshot = chain_hash toy_crypto (V3_CHAIN toy_crypto)
      (sha256 toy_crypto (V3_EVIDENCE_SEED_CONTEXT @ sn_segment example_snapshot)) 1 example_entries"
    by (simp add: example_snapshot_def example_seed_def)
  ultimately show ?thesis
    using evidence_frames_canonical [OF toy_crypto_sha_width example_entries_ok _ _ example_snapshot_ok, of 1] by force
qed

text \<open>C16: fault evidence shows the committed bytes. Where fault evidence verifies against a committed snapshot, the snapshot
  is of the expected backing and segment with the expected digest, and the digests of the raw statement, proof and
  authorization it carries are the entry committed at its position.\<close>

theorem fault_evidence_authentic:
  assumes "sha_width C" and "verifyFaultEvidence C (V3_CHAIN C) x e m = Inr True"
    and "es \<noteq> []" and "list_all (entry_ok (V3_CHAIN C)) es" and "int (length es) < 2 ^ 64"
    and "sn_evidenceHash (fe_snapshot e) = chain_hash C (V3_CHAIN C) (sha256 C (V3_EVIDENCE_SEED_CONTEXT @ sn_segment (fe_snapshot e))) 1 es"
    and "inj_on (sha256 C) (\<Union>t \<in> {t. v3_target C (fe_fields e) = Inr t}.
        set (chain_frames C (V3_CHAIN C) (fe_previous e) (fe_position e) (t # fe_suffix e)) \<union>
        set (chain_frames C (V3_CHAIN C) (sha256 C (V3_EVIDENCE_SEED_CONTEXT @ sn_segment (fe_snapshot e))) 1 es))"
  shows "sn_backing (fe_snapshot e) = es_backing x \<and> sn_segment (fe_snapshot e) = es_segment x \<and>
    es_digest x = sha256 C (snapshot_enc (V3_CHAIN C) (fe_snapshot e)) \<and> fe_length e = int (length es) \<and>
    1 \<le> fe_position e \<and> fe_position e \<le> fe_length e \<and>
    (\<exists>d. hashEvidenceFields C (sha256 C (fe_fields e ! 0)) (fe_fields e ! 1) (fe_fields e ! 2) = Inr d \<and>
      es ! nat (fe_position e - 1) = [e_statementHash d, e_proofHash d, e_signatureHash d])"
proof -
  have seed: "ch_seed (V3_CHAIN C) = V3_EVIDENCE_SEED_CONTEXT" and tgt: "ch_target (V3_CHAIN C) = v3_target C"
    by (simp_all add: V3_CHAIN_def)
  obtain entry where t: "v3_target C (fe_fields e) = Inr entry"
    and b: "sn_backing (fe_snapshot e) = es_backing x" "sn_segment (fe_snapshot e) = es_segment x"
    and v: "verifyEvidenceOpening C (V3_CHAIN C) (es_digest x) (fe_snapshot e) \<lparr>eo_position = fe_position e,
      eo_length = fe_length e, eo_previous = fe_previous e, eo_target = entry, eo_suffix = fe_suffix e\<rparr> = Inr True"
    using assms(2) unfolding verifyFaultEvidence_True tgt by blast
  note s = opening_sound [OF assms(1) v assms(3,4,5), unfolded seed, OF assms(6)]
  have "{u. v3_target C (fe_fields e) = Inr u} = {entry}" using t by auto
  then have "inj_on (sha256 C) (set (chain_frames C (V3_CHAIN C) (fe_previous e) (fe_position e) (entry # fe_suffix e)) \<union>
      set (chain_frames C (V3_CHAIN C) (sha256 C (V3_EVIDENCE_SEED_CONTEXT @ sn_segment (fe_snapshot e))) 1 es))"
    using assms(7) by simp
  with s t b show ?thesis by (auto simp: v3_target_def mapR_Inr_conv)
qed

definition fault_fields :: "bytes list" where
  "fault_fields = [[5, 6], [7], []]"

definition fault_entries :: "bytes list list" where
  "fault_entries = [[sha256 toy_crypto [5, 6], sha256 toy_crypto [7], replicate 32 0]]"

definition fault_snapshot :: snapshot where
  "fault_snapshot = \<lparr>sn_backing = replicate 32 8, sn_segment = replicate 32 7, sn_historyHash = replicate 32 9,
     sn_evidenceHash = chain_hash toy_crypto (V3_CHAIN toy_crypto) example_seed 1 fault_entries, sn_issued = 5, sn_burned = 2\<rparr>"

definition example_fault :: fault_evidence where
  "example_fault = \<lparr>fe_snapshot = fault_snapshot, fe_position = 1, fe_length = 1, fe_previous = example_seed,
     fe_fields = fault_fields, fe_suffix = []\<rparr>"

lemma fault_target: "v3_target C fault_fields = Inr [sha256 C [5, 6], sha256 C [7], replicate 32 0] \<longleftrightarrow> length (sha256 C [5, 6]) = 32"
  by (auto simp: v3_target_def fault_fields_def hashEvidenceFields_def mapR_Inr_conv bindR_Inr_conv requireBytes_def)

lemma fault_entries_ok: "list_all (entry_ok (V3_CHAIN C)) fault_entries"
  by (simp add: fault_entries_def entry_ok_def V3_CHAIN_def toy_width)

lemma fault_snapshot_ok: "snapshot_ok fault_snapshot"
proof -
  have "length example_seed = 32" by (simp add: example_seed_def toy_width)
  from chain_hash_width [OF toy_crypto_sha_width this] show ?thesis
    by (simp add: snapshot_ok_def fault_snapshot_def)
qed

lemma fault_evidence_authentic_witness:
  "\<exists>x. verifyFaultEvidence toy_crypto (V3_CHAIN toy_crypto) x example_fault 0 = Inr True \<and>
     es_backing x = replicate 32 8 \<and> fault_entries ! 0 = [sha256 toy_crypto [5, 6], sha256 toy_crypto [7], replicate 32 0]"
proof -
  let ?P = "V3_CHAIN toy_crypto"
  let ?x = "\<lparr>es_backing = replicate 32 8, es_segment = replicate 32 7,
    es_digest = sha256 toy_crypto (snapshot_enc ?P fault_snapshot)\<rparr>"
  have seed: "sha256 toy_crypto (V3_EVIDENCE_SEED_CONTEXT @ sn_segment fault_snapshot) = example_seed"
    by (simp add: fault_snapshot_def example_seed_def)
  have ev: "sn_evidenceHash fault_snapshot = chain_hash toy_crypto ?P (sha256 toy_crypto (V3_EVIDENCE_SEED_CONTEXT @ sn_segment fault_snapshot)) 1 fault_entries"
    unfolding seed by (simp add: fault_snapshot_def)
  have n: "int (length fault_entries) < 2 ^ 64" "0 < length fault_entries" "fault_entries \<noteq> []"
    by (simp_all add: fault_entries_def)
  have sd: "ch_seed ?P = V3_EVIDENCE_SEED_CONTEXT" by (simp add: V3_CHAIN_def)
  note o = evidence_opening_complete [OF toy_crypto_sha_width fault_snapshot_ok fault_entries_ok n(1,2), of toy_crypto, unfolded sd, OF ev]
  have t: "v3_target toy_crypto fault_fields = Inr (fault_entries ! 0)"
    using fault_target [of toy_crypto] by (simp add: fault_entries_def toy_width)
  have "fault_ok ?P 0 example_fault"
    using fault_snapshot_ok by (simp add: fault_ok_def example_fault_def fault_fields_def V3_CHAIN_def MAX_TARGET_FIELD_BYTES_def
        isValue_conv example_seed_def toy_width)
  moreover have "ch_target ?P fault_fields = Inr (fault_entries ! 0)" using t by (simp add: V3_CHAIN_def)
  ultimately have v: "verifyFaultEvidence toy_crypto ?P ?x example_fault 0 = Inr True"
    unfolding verifyFaultEvidence_True
    using o by (simp add: example_fault_def toy_width seed) (simp add: fault_snapshot_def fault_entries_def)
  have f: "fault_entries = [fault_entries ! 0]" by (simp add: fault_entries_def)
  have "{u. v3_target toy_crypto (fe_fields example_fault) = Inr u} = {fault_entries ! 0}"
    using t by (auto simp: example_fault_def)
  then have inj: "inj_on (sha256 toy_crypto) (\<Union>u \<in> {u. v3_target toy_crypto (fe_fields example_fault) = Inr u}.
        set (chain_frames toy_crypto ?P (fe_previous example_fault) (fe_position example_fault) (u # fe_suffix example_fault)) \<union>
        set (chain_frames toy_crypto ?P (sha256 toy_crypto (V3_EVIDENCE_SEED_CONTEXT @ sn_segment (fe_snapshot example_fault))) 1 fault_entries))"
    by (subst f) (simp add: example_fault_def seed)
  have e: "fe_snapshot example_fault = fault_snapshot" by (simp add: example_fault_def)
  from fault_evidence_authentic [OF toy_crypto_sha_width v n(3) fault_entries_ok n(1) _ inj, unfolded e, OF ev] v
  show ?thesis by (intro exI [of _ ?x]) (simp add: fault_entries_def)
qed

text \<open>C21: a receipt pins the whole history up to its position. Where a receipt verifies under an authority and matches the
  last event of a history, it carries that authority's operator signature over its exact frame and names its domain,
  segment and scope root, and any history with the receipt's history hash, of any segment, is that history: of the same
  segment, with as many events as the receipt's position and its statement last.\<close>

theorem receipt_pins_history:
  assumes "sha_width C" and "verifyReceipt C a r = Inr True" and "receiptMatchesEvent r ev = Inr True"
    and "history_hash C s xs = Inr (ie_historyHash ev)" and "xs \<noteq> []" and "ie_position ev = int (length xs)"
    and "e_statementHash ev = he_statement (last xs)" and "history_hash C s' ys = Inr (rc_historyHash r)"
    and "inj_on (sha256 C) (set (all_history_frames C s xs) \<union> set (all_history_frames C s' ys))"
  shows "s' = s \<and> rc_position r = int (length ys) \<and> e_statementHash r = he_statement (last ys) \<and>
    take (nat (rc_position r)) ys = xs \<and> rc_domain r = ra_domain a \<and> rc_segment r = ra_segment a \<and> rc_scopeRoot r = ra_scopeRoot a \<and>
    (\<exists>m. receiptBytes r = Inr m \<and> verifySignatureStrict C (rc_signature r) m (ra_operator a)) \<and>
    (\<exists>frame. encodeReceipt r = Inr frame \<and> decodeReceipt frame = Inr r)"
proof -
  note v = assms(2) [unfolded verifyReceipt_True] and m = assms(3) [unfolded receiptMatchesEvent_True]
  have "history_hash C s' ys = Inr (ie_historyHash ev)" using assms(8) m by simp
  then have "s = s' \<and> xs = ys" by (rule history_binds [OF assms(1,4) _ assms(9)])
  moreover have "\<exists>b. receiptBytes r = Inr b \<and> verifySignatureStrict C (rc_signature r) b (ra_operator a)"
    using v by (auto simp: receiptBytes_conv)
  moreover have "\<exists>frame. encodeReceipt r = Inr frame \<and> decodeReceipt frame = Inr r"
    using v unfolding decodeReceipt_conv by (auto simp: encodeReceipt_conv)
  ultimately show ?thesis using v m assms(6,7) by simp
qed

lemma receipt_pins_history_witness:
  "\<exists>h a r ev. history_hash toy_crypto (replicate 32 9) [example_event] = Inr h \<and> rc_historyHash r = h \<and>
     verifyReceipt toy_crypto a r = Inr True \<and> receiptMatchesEvent r ev = Inr True \<and> rc_position r = 1"
proof -
  let ?s = "replicate 32 (9 :: byte)"
  obtain h where h: "history_hash toy_crypto ?s [example_event] = Inr h" using example_history by blast
  have l: "length h = 32"
    using h by (auto simp: history_hash_def bindR_Inr_conv nextHistoryHash_conv toy_width)
  let ?k = "toy_sha [1]"
  let ?r = "\<lambda>sig. \<lparr>e_statementHash = replicate 32 1, e_proofHash = replicate 32 3, e_signatureHash = replicate 32 4,
    rc_domain = replicate 32 5, rc_segment = ?s, rc_scopeRoot = 6, rc_position = 1, rc_historyHash = h, rc_after = 0,
    rc_operator = ?k, rc_signature = sig\<rparr> :: receipt"
  let ?sig = "toy_sha (receipt_enc (?r [])) @ ?k"
  let ?ev = "\<lparr>e_statementHash = replicate 32 1, e_proofHash = replicate 32 3, e_signatureHash = replicate 32 4,
    ie_position = 1, ie_historyHash = h\<rparr> :: inclusion_event"
  let ?a = "\<lparr>ra_domain = replicate 32 5, ra_segment = ?s, ra_scopeRoot = 6, ra_operator = ?k\<rparr>"
  have ok: "receipt_ok (?r ?sig)" using l by (simp add: receipt_ok_def small_field)
  have enc: "receipt_enc (?r ?sig) = receipt_enc (?r [])" by (simp add: receipt_enc_def)
  have v: "verifyReceipt toy_crypto ?a (?r ?sig) = Inr True"
    using ok enc by (simp add: verifyReceipt_True verifySignatureStrict_def SIGNATURE_LENGTH_def KEY_LENGTH_def toy_crypto_def)
  have m: "receiptMatchesEvent (?r ?sig) ?ev = Inr True" using ok by (simp add: receiptMatchesEvent_True)
  have "rc_position (?r ?sig) = 1" 
    using receipt_pins_history [OF toy_crypto_sha_width v m, of ?s "[example_event]" ?s "[example_event]"] h example_history_inj
    by (simp add: example_event_def)
  with h v m show ?thesis by (intro exI [of _ h] exI [of _ ?a] exI [of _ "?r ?sig"] exI [of _ ?ev]) simp
qed

end
