(* ===== verification/Construction.thy ===== *)
theory Construction
  imports Recovery Commitments
begin

section \<open>Constructions and their statement views (src/pool/v3/construction.ts)\<close>

text \<open>
  A construction gives the one state machine its record codec, its views and its chains.  It is a
  record of functions here as it is an object of functions there, so the state machine's model is
  written once over any construction; this theory holds pool v3's instance.  The view of a record is
  a result because the functions it calls check their arguments; \<open>v3_view_total\<close> shows that on a
  record that decoded it never fails.
\<close>

record namespace_construction =
  nc_name :: string
  nc_tree :: bool

definition POOL_V3_NAMESPACE :: namespace_construction where
  "POOL_V3_NAMESPACE = \<lparr>nc_name = ''moe/pool/v3'', nc_tree = True\<rparr>"

text \<open>An output as a receiver scans it: its capsule, its settlement's statement and authorization, or its public opening.\<close>

record lit_scan =
  ls_backing :: bytes
  ls_value :: int
  ls_owner :: bytes
  ls_rho :: bytes
  ls_acceptance :: "(bytes \<times> int) option"

record scan_output =
  so_cm :: int
  so_capsule :: "bytes option"
  so_settlement :: "(statement \<times> bytes) option"
  so_lit :: "lit_scan option"

record 'r construction =
  c_namespace :: namespace_construction
  c_decode :: "bytes \<Rightarrow> 'r result"
  c_kind :: "'r \<Rightarrow> int"
  c_view :: "'r \<Rightarrow> (string \<Rightarrow> demand option result) \<Rightarrow> statement_view result"
  c_genesisHistory :: "bytes \<Rightarrow> bytes result"
  c_genesisEvidence :: "bytes \<Rightarrow> bytes result"
  c_nextHistory :: "bytes \<Rightarrow> bytes \<Rightarrow> int \<Rightarrow> bytes \<Rightarrow> int \<Rightarrow> bytes result"
  c_nextEvidence :: "bytes \<Rightarrow> evidence_digests \<Rightarrow> int \<Rightarrow> bytes result"
  c_settledDemand :: "bytes \<Rightarrow> string option result"
  c_scanOutput :: "'r \<Rightarrow> statement_view \<Rightarrow> int \<Rightarrow> nat \<Rightarrow> demand option \<Rightarrow> scan_output result"

text \<open>Pool v3's view of a statement with its authorization and capsules, complete or proof-free.\<close>

definition v3_settlement :: "crypto \<Rightarrow> 'a statement_scheme \<Rightarrow> bytes \<Rightarrow> settlement_terms result" where
  "v3_settlement C r authorization = mapR (\<lambda>auth.
     \<lparr>sm_deadline = a_deadline (sa_acceptance auth),
      sm_signed = (\<lambda>issuer presenter.
        verifySignatureStrict C (a_signature (sa_acceptance auth)) (sa_acceptanceMessage auth) issuer \<and>
        verifySignatureStrict C (sa_releaseSignature auth) (sa_releaseMessage auth) presenter)\<rparr>)
     (settlementAuthorization C r authorization)"

definition v3View :: "crypto \<Rightarrow> 'a statement_scheme \<Rightarrow> bytes \<Rightarrow> bytes list \<Rightarrow> evidence_digests \<Rightarrow> (verifier \<Rightarrow> unit result) \<Rightarrow>
    statement_view result" where
  "v3View C r authorization capsules digests check = (let p = s_inputs r; kind = s_kind r in
     bindR (effectOf r) (\<lambda>e. bindR (recoveryEffect C r) (\<lambda>re.
     bindR (statementHash C r) (\<lambda>identity. bindR (pair p 2) (\<lambda>segment.
     bindR (if kind = 2 \<or> kind = 5 then Inr [] else mapR (\<lambda>b. [b]) (pair p 5)) (\<lambda>backings.
     bindR (traverseR (tagOf C) (ef_nfs e)) (\<lambda>tags.
     Inr \<lparr>v_kind = kind, v_identity = identity, v_domain = s_domain r, v_segment = segment, v_scope = Some (p ! 4),
       v_digests = digests, v_backings = backings, v_ended = re_ended re, v_needsDemand = (kind = 5),
       v_quantity = (if kind = 1 \<or> kind = 3 \<or> kind = 6 then Some (p ! 7) else None),
       v_nfs = ef_nfs e, v_tags = tags, v_outputs = ef_outputs e,
       v_capsules = map (\<lambda>i. if kind = 6 then None else at_index capsules i) [0..<length (ef_outputs e)],
       v_roots = ef_roots e, v_inputs = [], v_demand = re_demand re,
       v_check = (\<lambda>verifier. if kind \<noteq> 5 then check verifier else Inr ()),
       v_issuerSigned = (\<lambda>issuer. if kind = 1
         then mapR (\<lambda>m. verifySignatureStrict C authorization m issuer) (statementBytes r) else Inr False),
       v_withdrawalSigned = (\<lambda>presenter. if kind = 5
         then mapR (\<lambda>m. verifySignatureStrict C authorization m presenter) (withdrawalBytes C r) else Inr False),
       v_settlement = v3_settlement C r authorization\<rparr>)))))))"

definition v3_proof_check :: "v3_record \<Rightarrow> verifier \<Rightarrow> unit result" where
  "v3_proof_check r verifier =
     bindR (verifier (s_kind r) (s_inputs r) (r_proof r)) (\<lambda>ok. requireReplay ok ''PROOF'')"

definition digest_list :: "evidence_digests \<Rightarrow> bytes list" where
  "digest_list d = [e_statementHash d, e_proofHash d, e_signatureHash d]"

definition v3_scanOutput :: "v3_record \<Rightarrow> statement_view \<Rightarrow> int \<Rightarrow> nat \<Rightarrow> demand option \<Rightarrow> scan_output" where
  "v3_scanOutput r view cm i d =
     (if s_kind r = 6 then \<lparr>so_cm = cm, so_capsule = None, so_settlement = Some (statement.truncate r, r_authorization r), so_lit = None\<rparr>
      else \<lparr>so_cm = cm, so_capsule = (case at_index (v_capsules view) i of None \<Rightarrow> None | Some c \<Rightarrow> c), so_settlement = None, so_lit = None\<rparr>)"

definition POOL_V3 :: "crypto \<Rightarrow> v3_record construction" where
  "POOL_V3 C = \<lparr>c_namespace = POOL_V3_NAMESPACE,
     c_decode = decodeRecord C,
     c_kind = s_kind,
     c_view = (\<lambda>r _. bindR (evidenceHashes C r) (\<lambda>digests.
       v3View C r (r_authorization r) (r_capsules r) digests (v3_proof_check r))),
     c_genesisHistory = genesisHistoryHash C,
     c_genesisEvidence = genesisEvidenceHash C (V3_CHAIN C),
     c_nextHistory = nextHistoryHash C,
     c_nextEvidence = (\<lambda>previous digests position. nextEvidenceHash C (V3_CHAIN C) previous (digest_list digests) position),
     c_settledDemand = (\<lambda>bs. bindR (decodeRecord C bs) (\<lambda>r. mapR re_ended (recoveryEffect C r))),
     c_scanOutput = (\<lambda>r view cm i d. Inr (v3_scanOutput r view cm i d))\<rparr>"

subsection \<open>What a reader reads of acceptances, answers and requests\<close>

text \<open>The owner is pool v3's field element, lit's key.\<close>

record 'o acceptance_view =
  av_demand :: bytes
  av_deadline :: int
  av_owner :: 'o
  av_id :: bytes
  av_signed :: "bytes \<Rightarrow> bool"

record release_view =
  rw_segment :: bytes
  rw_output :: int
  rw_rho :: int
  rw_releaseMessage :: bytes
  rw_releaseSignature :: bytes

record answer_view =
  an_domain :: bytes
  an_backing :: bytes
  an_acceptance :: "int acceptance_view"
  an_release :: "release_view option"

definition v3Acceptance :: "crypto \<Rightarrow> signed_acceptance \<Rightarrow> int acceptance_view result" where
  "v3Acceptance C a = bindR (acceptanceBytes a) (\<lambda>message. bindR (acceptanceId C a) (\<lambda>aid.
     Inr \<lparr>av_demand = a_demand a, av_deadline = a_deadline a, av_owner = a_owner a, av_id = aid,
       av_signed = (\<lambda>obligor. verifySignatureStrict C (a_signature a) message obligor)\<rparr>))"

definition v3_answer :: "crypto \<Rightarrow> bytes \<Rightarrow> answer_view option result" where
  "v3_answer C bs = bindR (decodePublication C bs) (\<lambda>p.
     if p_kind p = 2 then (case p_body p of
       AcceptanceBody a \<Rightarrow> mapR (\<lambda>v. Some \<lparr>an_domain = p_domain p, an_backing = p_backing p, an_acceptance = v, an_release = None\<rparr>)
         (v3Acceptance C a)
     | RecordBody _ \<Rightarrow> Inl (TypeError ''acceptance''))
     else if p_kind p \<noteq> 3 then Inr None
     else (case p_body p of
       RecordBody r \<Rightarrow> bindR (settlementAuthorization C r (r_authorization r)) (\<lambda>sa.
         bindR (v3Acceptance C (sa_acceptance sa)) (\<lambda>v. bindR (pair (s_inputs r) 2) (\<lambda>segment.
         Inr (Some \<lparr>an_domain = p_domain p, an_backing = p_backing p, an_acceptance = v,
           an_release = Some \<lparr>rw_segment = segment, rw_output = s_inputs r ! 14, rw_rho = s_inputs r ! 9,
             rw_releaseMessage = sa_releaseMessage sa, rw_releaseSignature = sa_releaseSignature sa\<rparr>\<rparr>))))
     | AcceptanceBody _ \<Rightarrow> Inl (TypeError ''record'')))"

record request_view =
  rq_identity :: string
  rq_tag :: int
  rq_anchor :: int
  rq_holds :: "verifier \<Rightarrow> bool result"

definition v3_request :: "crypto \<Rightarrow> bytes \<Rightarrow> request_view result" where
  "v3_request C bs = bindR (decodeRecord C bs) (\<lambda>r.
     bindR (requireR (s_kind r = 7) (EncodingError ''not a request'')) (\<lambda>_.
     bindR (statementHash C r) (\<lambda>h.
     Inr \<lparr>rq_identity = hex h, rq_tag = s_inputs r ! 5, rq_anchor = s_inputs r ! 4,
       rq_holds = (\<lambda>verifier. verifier 7 (s_inputs r) (r_proof r))\<rparr>)))"

subsection \<open>Views are total and well formed\<close>

definition demand_ok :: "demand \<Rightarrow> bool" where
  "demand_ok d \<longleftrightarrow> length (dm_backing d) = 32 \<and> length (dm_presenter d) = 32 \<and> length (dm_tags d) = 2 \<and>
     list_all stored_key (dm_tags d) \<and> 0 < dm_quantity d \<and> isValue (dm_quantity d) \<and> isValue (dm_instant d) \<and> isValue (dm_deadline d) \<and> dm_nullifiers d \<noteq> Some []"

text \<open>What the state machine relies on of a view, whatever its construction.\<close>

definition view_ok :: "statement_view \<Rightarrow> bool" where
  "view_ok v \<longleftrightarrow> 1 \<le> v_kind v \<and> v_kind v \<le> 6 \<and> length (v_tags v) = length (v_nfs v) \<and> length (v_capsules v) = length (v_outputs v) \<and>
     list_all stored_key (v_nfs v) \<and> list_all stored_key (v_tags v) \<and> list_all stored_key (v_outputs v) \<and>
     list_all (\<lambda>b. length b = 32) (v_backings v) \<and>
     (v_kind v = 4 \<longleftrightarrow> v_demand v \<noteq> None) \<and>
     (\<forall>n d. v_demand v = Some (n, d) \<longrightarrow> n = hex (v_identity v) \<and> demand_ok d) \<and>
     (v_kind v \<in> {5, 6} \<longleftrightarrow> v_ended v \<noteq> None) \<and>
     (v_kind v \<in> {1, 3, 6} \<longleftrightarrow> v_quantity v \<noteq> None) \<and>
     (\<forall>q. v_quantity v = Some q \<longrightarrow> 0 < q \<and> q < VALUE_BOUND) \<and>
     (v_kind v \<in> {1, 4, 5} \<longrightarrow> v_nfs v = []) \<and> (v_kind v \<in> {4, 5} \<longrightarrow> v_outputs v = [])"

lemma field_stored: "isField v \<Longrightarrow> stored_key v"
  by (simp add: isField_def stored_key_def FIELD_MODULUS_def)

lemma slice_set: "set (slice_of p i j) \<subseteq> set p"
  by (auto simp: slice_of_def dest!: in_set_takeD in_set_dropD)

lemma tags_total:
  assumes "poseidon_ok C" and "list_all isField nfs"
  shows "\<exists>ts. traverseR (tagOf C) nfs = Inr ts \<and> length ts = length nfs \<and> list_all isField ts"
proof -
  have "poseidon2Hash C [1007, nf] = Inr (hashVal C [1007, nf]) \<and> isField (hashVal C [1007, nf])" if "isField nf" for nf
    using poseidon2Hash_ok [OF assms(1), of "[1007, nf]"] that by (simp add: isField_def FIELD_MODULUS_def)
  then show ?thesis using assms(2) by (induction nfs) (auto simp: tagOf_def)
qed

lemma statement_pairs:
  assumes "statement_ok s"
  shows "\<exists>b. pair (s_inputs s) 2 = Inr b"
    and "s_kind s \<noteq> 2 \<Longrightarrow> s_kind s \<noteq> 7 \<Longrightarrow> \<exists>b. pair (s_inputs s) 5 = Inr b"
    and "s_kind s \<notin> {2, 5, 7} \<Longrightarrow> isValue (s_inputs s ! 7) \<and> s_inputs s ! 7 \<noteq> 0"
    and "s_kind s = 4 \<Longrightarrow> (\<exists>b. pair (s_inputs s) 12 = Inr b) \<and> isValue (s_inputs s ! 14) \<and> isValue (s_inputs s ! 15)"
    and "s_kind s = 6 \<Longrightarrow> \<exists>b. pair (s_inputs s) 15 = Inr b"
  using assms unfolding requireStatement_def Let_def requirePair_def bindR_Inr_conv requireR_Inr
  by (auto simp: requirePair_def bindR_Inr_conv split: if_splits)

lemma pair_length: "pair p i = Inr b \<Longrightarrow> length b = 32"
  by (auto simp: pair_def identifierOf_conv)

lemma effect_fields:
  assumes "statement_ok s" and "s_kind s \<noteq> 7"
  shows "\<exists>e. effectOf s = Inr e \<and> list_all isField (ef_nfs e) \<and> list_all isField (ef_outputs e) \<and> list_all isField (ef_roots e) \<and>
    (s_kind s \<in> {1, 4, 5} \<longrightarrow> ef_nfs e = []) \<and> (s_kind s \<in> {4, 5} \<longrightarrow> ef_outputs e = [])"
proof -
  note sh = requireStatement_shape [OF assms(1)]
  have set_field: "x \<in> set (s_inputs s) \<Longrightarrow> isField x" for x using sh(5) by (simp add: list_all_iff)
  have slices: "list_all isField (slice_of (s_inputs s) i j)" for i j
    using slice_set [of "s_inputs s" i j] set_field by (auto simp: list_all_iff)
  have at: "isField (s_inputs s ! i)" if "i < length (s_inputs s)" for i using set_field that by simp
  have anchors: "list_all isField (map snd (filter Q (enumerate 0 (slice_of (s_inputs s) i j))))" for Q i j
    using slices [of i j] by (auto simp: list_all_iff in_set_enumerate_eq)
  have "s_kind s = 1 \<or> s_kind s = 2 \<or> s_kind s = 3 \<or> s_kind s = 4 \<or> s_kind s = 5 \<or> s_kind s = 6"
    using kind_cases [OF sh(2,3)] assms(2) by blast
  then show ?thesis using sh(4) slices at anchors
    by (elim disjE) (simp_all add: effectOf_def Let_def COUNTS_def)
qed

lemma isValue_bounds: "isValue v \<longleftrightarrow> 0 \<le> v \<and> v < VALUE_BOUND"
  by (simp add: isValue_def)

lemma recovery_effect_shape:
  assumes "statement_ok s" and "s_kind s \<noteq> 7"
  shows "\<exists>re h. recoveryEffect C s = Inr re \<and> statementHash C s = Inr h \<and>
    (s_kind s = 4 \<longleftrightarrow> re_demand re \<noteq> None) \<and> (s_kind s \<in> {5, 6} \<longleftrightarrow> re_ended re \<noteq> None) \<and>
    (\<forall>n d. re_demand re = Some (n, d) \<longrightarrow> n = hex h \<and> demand_ok d)"
proof -
  note sh = requireStatement_shape [OF assms(1)] and pr = statement_pairs [OF assms(1)]
  obtain h where h: "statementHash C s = Inr h"
    using assms(1) by (auto simp: statementHash_def mapR_def statementBytes_conv [THEN iffD2] split: sum.splits) 
  consider "s_kind s = 4" | "s_kind s = 5" | "s_kind s = 6" | "s_kind s \<notin> {4, 5, 6}" by blast
  then show ?thesis
  proof cases
    case 1
    obtain b where b: "pair (s_inputs s) 5 = Inr b" using pr(2) 1 by auto
    obtain q where q: "pair (s_inputs s) 12 = Inr q" using pr(4) 1 by auto
    have len: "length (s_inputs s) = 16" using sh(4) 1 by (simp add: COUNTS_def)
    have tags: "list_all stored_key (slice_of (s_inputs s) 10 12)"
      using slice_set [of "s_inputs s" 10 12] sh(5) field_stored by (auto simp: list_all_iff)
    show ?thesis using 1 b q h pr(3,4) len tags pair_length [OF b] pair_length [OF q]
      by (auto simp: recoveryEffect_def Let_def pair_def demand_ok_def isValue_bounds slice_of_def)
  next
    case 2
    then show ?thesis using pr(2) h by (auto simp: recoveryEffect_def Let_def pair_def)
  next
    case 3
    then show ?thesis using pr(5) h by (auto simp: recoveryEffect_def Let_def pair_def)
  next
    case 4
    then show ?thesis using h by (auto simp: recoveryEffect_def Let_def)
  qed
qed

lemma v3View_total:
  assumes "poseidon_ok C" and "statement_ok r" and "s_kind r \<noteq> 7"
  shows "\<exists>v. v3View C r authorization capsules digests check = Inr v \<and> view_ok v \<and> v_kind v = s_kind r \<and>
    statementHash C r = Inr (v_identity v) \<and> v_digests v = digests \<and> list_all isField (v_outputs v) \<and> v_inputs v = [] \<and>
    v_needsDemand v = (v_kind v = 5)"
proof -
  note sh = requireStatement_shape [OF assms(2)] and pr = statement_pairs [OF assms(2)]
  obtain e where e: "effectOf r = Inr e" "list_all isField (ef_nfs e)" "list_all isField (ef_outputs e)"
    "s_kind r \<in> {1, 4, 5} \<longrightarrow> ef_nfs e = []" "s_kind r \<in> {4, 5} \<longrightarrow> ef_outputs e = []"
    using effect_fields [OF assms(2,3)] by blast
  obtain re h where re: "recoveryEffect C r = Inr re" "statementHash C r = Inr h"
    "s_kind r = 4 \<longleftrightarrow> re_demand re \<noteq> None" "s_kind r \<in> {5, 6} \<longleftrightarrow> re_ended re \<noteq> None"
    "\<forall>n d. re_demand re = Some (n, d) \<longrightarrow> n = hex h \<and> demand_ok d"
    using recovery_effect_shape [OF assms(2,3)] by blast
  obtain ts where ts: "traverseR (tagOf C) (ef_nfs e) = Inr ts" "length ts = length (ef_nfs e)" "list_all isField ts"
    using tags_total [OF assms(1) e(2)] by blast
  obtain seg where seg: "pair (s_inputs r) 2 = Inr seg" using pr(1) by blast
  obtain bs where bs: "(if s_kind r = 2 \<or> s_kind r = 5 then Inr [] else mapR (\<lambda>b. [b]) (pair (s_inputs r) 5)) = Inr bs"
    "list_all (\<lambda>b. length b = 32) bs"
    using pr(2) assms(3) pair_length [of "s_inputs r" 5] by (cases "s_kind r = 2 \<or> s_kind r = 5") auto
  have keys: "list_all stored_key (ef_nfs e)" "list_all stored_key ts" "list_all stored_key (ef_outputs e)"
    using e(2,3) ts(3) field_stored by (auto simp: list_all_iff)
  have quantity: "s_kind r = 1 \<or> s_kind r = 3 \<or> s_kind r = 6 \<Longrightarrow> 0 < s_inputs r ! 7 \<and> s_inputs r ! 7 < VALUE_BOUND"
    using pr(3) by (auto simp: isValue_bounds)
  have "1 \<le> s_kind r" "s_kind r \<le> 6" using sh(2,3) assms(3) by linarith+
  then show ?thesis using e re ts seg bs keys quantity
    by (simp add: v3View_def Let_def view_ok_def)
qed

lemma decoded_ok: "decodeRecord C bs = Inr r \<Longrightarrow> record_ok C r \<and> statement_ok r"
  using requireRecord_shape(1) [of C r] by (simp add: decodeRecord_conv encodeRecord_conv)

lemma evidenceHashes_total: "record_ok C r \<Longrightarrow> sha_width C \<Longrightarrow> \<exists>d. evidenceHashes C r = Inr d \<and> statementHash C r = Inr (e_statementHash d)"
  using requireRecord_shape(1) [of C r]
  by (auto simp: evidenceHashes_def bindR_Inr_conv statementHash_def mapR_Inr_conv statementBytes_conv hashEvidenceFields_def sha_width_def requireBytes_conv)

lemma pool_view_total:
  assumes "poseidon_ok C" and "sha_width C" and "decodeRecord C bs = Inr r" and "s_kind r \<noteq> 7"
  shows "\<exists>v. c_view (POOL_V3 C) r look = Inr v \<and> view_ok v \<and> v_kind v = s_kind r \<and> statementHash C r = Inr (v_identity v) \<and>
    v_identity v = e_statementHash (v_digests v) \<and> length (v_identity v) = 32 \<and> list_all isField (v_outputs v)"
proof -
  note ok = decoded_ok [OF assms(3)]
  obtain d where d: "evidenceHashes C r = Inr d" "statementHash C r = Inr (e_statementHash d)"
    using evidenceHashes_total ok assms(2) by blast
  have "length (e_statementHash d) = 32" using d(2) assms(2) by (auto simp: statementHash_def mapR_Inr_conv sha_width_def)
  then show ?thesis
    using v3View_total [OF assms(1) conjunct2 [OF ok] assms(4), of "r_authorization r" "r_capsules r" d "v3_proof_check r"] d
    by (auto simp: POOL_V3_def)
qed

subsection \<open>Property\<close>

text \<open>C33: the view of a pool v3 record is total and well typed. On a record that decoded and is no request, whatever the state
  answers about demands, building the view does not throw; its identity is the statement's hash in 32 bytes; nullifiers and
  their tags are aligned 256-bit values; a quantity is a positive u64 and is there exactly for an issue, a burn and a
  settlement; a demand is there exactly for a presentation, named by the statement's identity, with 32-byte keys and two tags;
  an ended demand is there exactly for a withdrawal and a settlement; issues, demands and withdrawals spend nothing.\<close>

theorem v3_views_well_typed:
  assumes "poseidon_ok C" and "sha_width C" and "decodeRecord C bs = Inr r" and "s_kind r \<noteq> 7"
  shows "\<exists>v. c_view (POOL_V3 C) r look = Inr v \<and> view_ok v \<and> v_kind v = s_kind r \<and>
    statementHash C r = Inr (v_identity v) \<and> length (v_identity v) = 32"
  using pool_view_total [OF assms] by blast

lemma v3_views_well_typed_witness:
  "\<exists>v. c_view (POOL_V3 toy_crypto) example_demand (\<lambda>_. Inr None) = Inr v \<and> v_kind v = 4 \<and> v_demand v \<noteq> None"
proof -
  obtain bs where bs: "decodeRecord toy_crypto bs = Inr example_demand"
    using example_demand_ok [of toy_crypto] by (auto simp: decodeRecord_conv encodeRecord_conv)
  have "s_kind example_demand = 4" by (simp add: example_demand_def)
  then show ?thesis using v3_views_well_typed [OF toy_poseidon_ok toy_crypto_sha_width bs]
    by (fastforce simp: view_ok_def)
qed

end
