(* ===== verification/NoteTree.thy ===== *)
theory NoteTree
  imports Merkle
begin

section \<open>The note tree (src/pool/note-tree.ts)\<close>

text \<open>
  The append-only tree of depth 32 over the pool's commitments: its leaves, the set of the
  commitments present and the map of computed nodes, keyed by level and index, in which an
  absent node is the empty subtree of its level.  \<open>appendAll\<close> recomputes level by level
  the parents of the changed range; the invariant \<open>nt_inv\<close> says that every node it stores or
  leaves absent is the node of the specified tree.
\<close>

definition NOTE_TREE_DEPTH :: nat where
  "NOTE_TREE_DEPTH = 32"

definition NOTE_TREE_CAPACITY :: int where
  "NOTE_TREE_CAPACITY = push_bit 32 1"

definition noteNode :: "crypto \<Rightarrow> int \<Rightarrow> int \<Rightarrow> int \<Rightarrow> int result" where
  "noteNode C level left rgt =
     (if level < 0 \<or> level \<ge> int NOTE_TREE_DEPTH then Inl (EncodingError ''note-tree level out of range'')
      else bindR (requireField left ''left child'') (\<lambda>a. bindR (requireField rgt ''right child'') (\<lambda>b.
        poseidon2Hash C [T_NODE, level, a, b])))"

text \<open>The empty subtrees are computed when the module is loaded, which a failing hash fails.\<close>

definition empty_note_subtrees :: "crypto \<Rightarrow> int list result" where
  "empty_note_subtrees C =
     foldR (\<lambda>zeros level. bindR (noteNode C (int level) (zeros ! level) (zeros ! level)) (\<lambda>z. Inr (zeros @ [z])))
       [0] [0..<NOTE_TREE_DEPTH]"

definition EMPTY_NOTE_SUBTREE :: "crypto \<Rightarrow> int list" where
  "EMPTY_NOTE_SUBTREE C = (case empty_note_subtrees C of Inl _ \<Rightarrow> [] | Inr zeros \<Rightarrow> zeros)"

definition EMPTY_NOTE_ROOT :: "crypto \<Rightarrow> int" where
  "EMPTY_NOTE_ROOT C = EMPTY_NOTE_SUBTREE C ! NOTE_TREE_DEPTH"

definition isNotePath :: "tree_path \<Rightarrow> bool" where
  "isNotePath p = is_tree_path NOTE_TREE_DEPTH p"

definition copyNotePath :: "tree_path \<Rightarrow> tree_path result" where
  "copyNotePath p = (if \<not> isNotePath p then Inl (EncodingError ''malformed note path'') else Inr p)"

definition noteRootOf :: "crypto \<Rightarrow> int \<Rightarrow> tree_path \<Rightarrow> int result" where
  "noteRootOf C leaf p =
     (if \<not> isNotePath p then Inl (EncodingError ''malformed note path'')
      else bindR (requireField leaf ''leaf'') (\<lambda>node. carry_up (noteNode C) 0 node (siblings p) (right p)))"

definition notePathProves :: "crypto \<Rightarrow> int \<Rightarrow> int \<Rightarrow> tree_path \<Rightarrow> bool" where
  "notePathProves C anchor leaf p = (case noteRootOf C leaf p of Inl _ \<Rightarrow> False | Inr root \<Rightarrow> root = anchor)"

record note_tree =
  nt_leafList :: "int list"
  nt_present :: "int set"
  nt_nodes :: "nat \<times> nat \<Rightarrow> int option"

definition newNoteTree :: note_tree where
  "newNoteTree = \<lparr>nt_leafList = [], nt_present = {}, nt_nodes = (\<lambda>_. None)\<rparr>"

definition nt_size :: "note_tree \<Rightarrow> int" where
  "nt_size t = int (length (nt_leafList t))"

definition nt_node :: "crypto \<Rightarrow> note_tree \<Rightarrow> nat \<Rightarrow> nat \<Rightarrow> int" where
  "nt_node C t level index =
     (if level = 0 then (if index < length (nt_leafList t) then nt_leafList t ! index else 0)
      else case nt_nodes t (level, index) of Some v \<Rightarrow> v | None \<Rightarrow> EMPTY_NOTE_SUBTREE C ! level)"

definition nt_root :: "crypto \<Rightarrow> note_tree \<Rightarrow> int" where
  "nt_root C t = nt_node C t NOTE_TREE_DEPTH 0"

definition nt_has :: "note_tree \<Rightarrow> int \<Rightarrow> bool" where
  "nt_has t commitment = (commitment \<in> nt_present t)"

definition nt_leaf :: "note_tree \<Rightarrow> int \<Rightarrow> int option" where
  "nt_leaf t position =
     (if position < 0 \<or> position \<ge> nt_size t then None else Some (nt_leafList t ! nat position))"

text \<open>The checks of a batch before anything changes.\<close>

definition nt_check :: "note_tree \<Rightarrow> int set \<Rightarrow> int \<Rightarrow> int set result" where
  "nt_check t fresh commitment =
     bindR (requireField commitment ''commitment'') (\<lambda>c.
     if c = 0 then Inl (EncodingError ''a zero commitment is an unused leaf'')
     else if c \<in> nt_present t \<or> c \<in> fresh then Inl (EncodingError ''commitment already in the note tree'')
     else Inr (insert c fresh))"

text \<open>One parent, then the parents of the changed range at one level.\<close>

definition nt_set_parent :: "crypto \<Rightarrow> nat \<Rightarrow> note_tree \<Rightarrow> nat \<Rightarrow> note_tree result" where
  "nt_set_parent C level t index =
     bindR (noteNode C (int level) (nt_node C t level (2 * index)) (nt_node C t level (2 * index + 1))) (\<lambda>v.
     Inr (t\<lparr>nt_nodes := (nt_nodes t)((level + 1, index) \<mapsto> v)\<rparr>))"

definition nt_level :: "crypto \<Rightarrow> note_tree \<times> nat \<times> nat \<Rightarrow> nat \<Rightarrow> (note_tree \<times> nat \<times> nat) result" where
  "nt_level C = (\<lambda>(t, low, high) level. let parentLow = low div 2; parentHigh = high div 2 in
     bindR (foldR (nt_set_parent C level) t [parentLow..<parentHigh + 1]) (\<lambda>t'. Inr (t', parentLow, parentHigh)))"

definition nt_appendAll :: "crypto \<Rightarrow> note_tree \<Rightarrow> int list \<Rightarrow> (int list \<times> note_tree) result" where
  "nt_appendAll C t commitments =
     bindR (foldR (nt_check t) {} commitments) (\<lambda>_.
     if nt_size t + int (length commitments) > NOTE_TREE_CAPACITY then Inl (EncodingError ''note tree is full'')
     else if length commitments = 0 then Inr ([], t)
     else let first = length (nt_leafList t);
         pushed = t\<lparr>nt_leafList := nt_leafList t @ commitments, nt_present := nt_present t \<union> set commitments\<rparr> in
       bindR (foldR (nt_level C) (pushed, first, length (nt_leafList pushed) - 1) [0..<NOTE_TREE_DEPTH]) (\<lambda>(t', _, _).
       Inr (map (\<lambda>i. int (first + i)) [0..<length commitments], t')))"

definition nt_append :: "crypto \<Rightarrow> note_tree \<Rightarrow> int \<Rightarrow> (int \<times> note_tree) result" where
  "nt_append C t commitment = mapR (\<lambda>(ps, t'). (ps ! 0, t')) (nt_appendAll C t [commitment])"

definition nt_path :: "crypto \<Rightarrow> note_tree \<Rightarrow> int \<Rightarrow> tree_path result" where
  "nt_path C t position =
     (if position < 0 \<or> position \<ge> nt_size t then Inl (EncodingError ''no leaf at that position'')
      else Inr (path_up (nt_node C t) NOTE_TREE_DEPTH 0 (nat position)))"

subsection \<open>The hashing step\<close>

definition noteVal :: "crypto \<Rightarrow> nat \<Rightarrow> int \<Rightarrow> int \<Rightarrow> int" where
  "noteVal C level a b = hashVal C [T_NODE, int level, a, b]"

interpretation note_hash: tree_hash noteNode noteVal NOTE_TREE_DEPTH
proof unfold_locales
  show "noteNode C (int l) a b = Inr h \<Longrightarrow> h = noteVal C l a b \<and> isField h" for C l a b h
    by (auto simp: noteNode_def noteVal_def bindR_Inr_conv requireField_conv split: if_splits
        dest: poseidon2Hash_value poseidon2Hash_field)
  show "poseidon_ok C \<Longrightarrow> l < NOTE_TREE_DEPTH \<Longrightarrow> isField a \<Longrightarrow> isField b \<Longrightarrow>
      noteNode C (int l) a b = Inr (noteVal C l a b)" for C l a b
    using poseidon2Hash_ok [of C "[T_NODE, int l, a, b]"]
    by (simp add: noteNode_def noteVal_def requireField_def NOTE_TREE_DEPTH_def small_field)
qed

abbreviation note_top :: "crypto \<Rightarrow> int list \<Rightarrow> nat \<Rightarrow> nat \<Rightarrow> int" where
  "note_top C xs \<equiv> merkle_top (noteVal C) (leaf_at xs)"

abbreviation empty_top :: "crypto \<Rightarrow> nat \<Rightarrow> nat \<Rightarrow> int" where
  "empty_top C \<equiv> merkle_top (noteVal C) (\<lambda>_. 0)"

lemma empty_subtrees_spec:
  assumes "poseidon_ok C"
  shows "L \<le> NOTE_TREE_DEPTH \<Longrightarrow>
    foldR (\<lambda>zeros level. bindR (noteNode C (int level) (zeros ! level) (zeros ! level)) (\<lambda>z. Inr (zeros @ [z])))
      [0] [0..<L] = Inr (map (\<lambda>l. empty_top C l 0) [0..<Suc L])"
proof (induction L)
  case (Suc L)
  let ?z = "empty_top C L 0"
  have "isField ?z" by (rule note_hash.top_field [OF assms]) (use Suc.prems in simp_all)
  then have "noteNode C (int L) ?z ?z = Inr (noteVal C L ?z ?z)"
    using note_hash.step_total [OF assms, of L ?z ?z] Suc.prems by simp
  moreover have "empty_top C L (Suc 0) = ?z"
    by (rule merkle_top_const)
  ultimately show ?case using Suc by (simp add: foldR_append nth_append)
qed simp

lemma EMPTY_NOTE_SUBTREE_spec:
  assumes "poseidon_ok C" and "l \<le> NOTE_TREE_DEPTH"
  shows "EMPTY_NOTE_SUBTREE C ! l = empty_top C l i"
proof -
  have "EMPTY_NOTE_SUBTREE C = map (\<lambda>l. empty_top C l 0) [0..<Suc NOTE_TREE_DEPTH]"
    using empty_subtrees_spec [OF assms(1), of NOTE_TREE_DEPTH]
    by (simp add: EMPTY_NOTE_SUBTREE_def empty_note_subtrees_def del: upt_Suc)
  then have "EMPTY_NOTE_SUBTREE C ! l = empty_top C l 0"
    using assms(2) by (simp del: upt_Suc)
  also have "\<dots> = empty_top C l i" by (rule merkle_top_const)
  finally show ?thesis .
qed

subsection \<open>The invariant\<close>

definition nt_inv :: "crypto \<Rightarrow> note_tree \<Rightarrow> bool" where
  "nt_inv C t \<longleftrightarrow> (\<forall>l \<le> NOTE_TREE_DEPTH. \<forall>i. nt_node C t l i = note_top C (nt_leafList t) l i) \<and>
     nt_present t = set (nt_leafList t) \<and> distinct (nt_leafList t) \<and>
     list_all (\<lambda>c. isField c \<and> c \<noteq> 0) (nt_leafList t) \<and> nt_size t \<le> NOTE_TREE_CAPACITY"

lemma newNoteTree_inv: "poseidon_ok C \<Longrightarrow> nt_inv C newNoteTree"
  by (auto simp: nt_inv_def newNoteTree_def nt_node_def nt_size_def NOTE_TREE_CAPACITY_def
      EMPTY_NOTE_SUBTREE_spec push_bit_eq_mult)

lemma nt_check_conv: "nt_check t fresh c = Inr fresh' \<longleftrightarrow>
    isField c \<and> c \<noteq> 0 \<and> c \<notin> nt_present t \<and> c \<notin> fresh \<and> fresh' = insert c fresh"
  by (auto simp: nt_check_def bindR_Inr_conv requireField_conv)

lemma nt_check_fold:
  "foldR (nt_check t) fresh cs = Inr fresh' \<longleftrightarrow>
     list_all (\<lambda>c. isField c \<and> c \<noteq> 0 \<and> c \<notin> nt_present t \<and> c \<notin> fresh) cs \<and> distinct cs \<and> fresh' = fresh \<union> set cs"
proof (induction cs arbitrary: fresh)
  case (Cons c cs)
  have "list_all (\<lambda>x. isField x \<and> x \<noteq> 0 \<and> x \<notin> nt_present t \<and> x \<notin> insert c fresh) cs \<longleftrightarrow>
      c \<notin> set cs \<and> list_all (\<lambda>x. isField x \<and> x \<noteq> 0 \<and> x \<notin> nt_present t \<and> x \<notin> fresh) cs"
    by (auto simp: list_all_iff)
  moreover have "foldR (nt_check t) fresh (c # cs) = Inr fresh' \<longleftrightarrow>
      isField c \<and> c \<noteq> 0 \<and> c \<notin> nt_present t \<and> c \<notin> fresh \<and> foldR (nt_check t) (insert c fresh) cs = Inr fresh'"
    unfolding foldR.simps bindR_Inr_conv nt_check_conv by blast
  ultimately show ?case unfolding Cons.IH by auto
qed auto

text \<open>The parents of one level, in closed form.\<close>

definition fill_level :: "nat \<Rightarrow> nat \<Rightarrow> nat \<Rightarrow> (nat \<Rightarrow> int) \<Rightarrow> note_tree \<Rightarrow> note_tree" where
  "fill_level l a b v t = t\<lparr>nt_nodes := (\<lambda>k. if fst k = l \<and> a \<le> snd k \<and> snd k < b
     then Some (v (snd k)) else nt_nodes t k)\<rparr>"

lemma fill_level_node:
  "0 < l \<Longrightarrow> nt_node C (fill_level l a b v t) l' i = (if l' = l \<and> a \<le> i \<and> i < b then v i else nt_node C t l' i)"
  by (auto simp: fill_level_def nt_node_def)

lemma fill_level_keep [simp]:
  "nt_leafList (fill_level l a b v t) = nt_leafList t" "nt_present (fill_level l a b v t) = nt_present t"
  by (simp_all add: fill_level_def)

lemma fill_level_empty: "b \<le> a \<Longrightarrow> fill_level l a b v t = t"
  by (cases t) (auto simp: fill_level_def fun_eq_iff)

lemma fill_level_Suc: "a \<le> b \<Longrightarrow> fill_level l a (Suc b) v t =
    (fill_level l a b v t)\<lparr>nt_nodes := (nt_nodes (fill_level l a b v t))((l, b) \<mapsto> v b)\<rparr>"
  by (auto simp: fill_level_def fun_eq_iff intro!: note_tree.equality)

lemma nt_set_parents:
  assumes "poseidon_ok C" and "L < NOTE_TREE_DEPTH" and f: "\<And>i. isField (f i)"
    and nodes: "\<And>i. nt_node C t L i = merkle_top (noteVal C) f L i"
  shows "foldR (nt_set_parent C L) t [a..<b] = Inr (fill_level (Suc L) a b (merkle_top (noteVal C) f (Suc L)) t)"
proof (induction b)
  case 0
  show ?case by (simp add: fill_level_empty)
next
  case (Suc b)
  show ?case
  proof (cases "a \<le> b")
    case True
    define v where "v = merkle_top (noteVal C) f (Suc L)"
    let ?t = "fill_level (Suc L) a b v t"
    have n: "nt_node C ?t L i = merkle_top (noteVal C) f L i" for i
      using nodes [of i] by (simp add: fill_level_node)
    have "isField (merkle_top (noteVal C) f L i)" for i
      by (rule note_hash.top_field [OF assms(1) f]) (use assms(2) in simp)
    then have "nt_set_parent C L ?t b = Inr (?t\<lparr>nt_nodes := (nt_nodes ?t)((Suc L, b) \<mapsto> v b)\<rparr>)"
      unfolding nt_set_parent_def n by (simp add: note_hash.step_total [OF assms(1,2)] v_def)
    then show ?thesis using True Suc.IH unfolding v_def [symmetric]
      by (simp add: foldR_append fill_level_Suc)
  qed (simp add: fill_level_empty)
qed

text \<open>All levels below \<open>L\<close> done: the nodes up to \<open>L\<close> are those of the new leaves, the ones above
  still those of the old.\<close>

lemma nt_levels:
  assumes C: "poseidon_ok C" and f: "\<And>i. isField (f i)" and g: "\<And>i. isField (g i)"
    and same: "\<And>i. i < lo \<or> hi < i \<Longrightarrow> f i = g i"
    and leaves: "\<And>i. nt_node C t 0 i = g i"
    and above: "\<And>l i. 0 < l \<Longrightarrow> l \<le> NOTE_TREE_DEPTH \<Longrightarrow> nt_node C t l i = merkle_top (noteVal C) f l i"
  shows "L \<le> NOTE_TREE_DEPTH \<Longrightarrow> \<exists>t'. foldR (nt_level C) (t, lo, hi) [0..<L] = Inr (t', lo div 2 ^ L, hi div 2 ^ L) \<and>
    nt_leafList t' = nt_leafList t \<and> nt_present t' = nt_present t \<and>
    (\<forall>l \<le> L. \<forall>i. nt_node C t' l i = merkle_top (noteVal C) g l i) \<and>
    (\<forall>l i. L < l \<longrightarrow> l \<le> NOTE_TREE_DEPTH \<longrightarrow> nt_node C t' l i = merkle_top (noteVal C) f l i)"
proof (induction L)
  case 0
  show ?case using leaves above by (intro exI [of _ t]) simp
next
  case (Suc L)
  then obtain t' where t': "foldR (nt_level C) (t, lo, hi) [0..<L] = Inr (t', lo div 2 ^ L, hi div 2 ^ L)"
    and keep: "nt_leafList t' = nt_leafList t" "nt_present t' = nt_present t"
    and lower: "\<And>l i. l \<le> L \<Longrightarrow> nt_node C t' l i = merkle_top (noteVal C) g l i"
    and upper: "\<And>l i. L < l \<Longrightarrow> l \<le> NOTE_TREE_DEPTH \<Longrightarrow> nt_node C t' l i = merkle_top (noteVal C) f l i"
    by auto
  let ?a = "lo div 2 ^ Suc L" and ?b = "hi div 2 ^ Suc L + 1"
  let ?t = "fill_level (Suc L) ?a ?b (merkle_top (noteVal C) g (Suc L)) t'"
  have "foldR (nt_set_parent C L) t' [?a..<?b] = Inr ?t"
    by (rule nt_set_parents [OF C _ g]) (use Suc.prems lower in simp_all)
  then have "nt_level C (t', lo div 2 ^ L, hi div 2 ^ L) L = Inr (?t, lo div 2 ^ Suc L, hi div 2 ^ Suc L)"
    unfolding nt_level_def Let_def prod.case by (simp only: div_mult2_eq power_Suc2 bindR_simps)
  with t' have run: "foldR (nt_level C) (t, lo, hi) [0..<Suc L] = Inr (?t, lo div 2 ^ Suc L, hi div 2 ^ Suc L)"
    by (simp only: upt_Suc_append [OF le0] foldR_append foldR.simps bindR_simps)
  have outside: "merkle_top (noteVal C) f (Suc L) i = merkle_top (noteVal C) g (Suc L) i"
    if "i < ?a \<or> ?b \<le> i" for i
  proof (rule merkle_top_cong, rule same)
    fix j assume "i * 2 ^ Suc L \<le> j" and "j < (i + 1) * 2 ^ Suc L"
    then have "j div 2 ^ Suc L = i" by (intro div_nat_eqI) (simp_all only: mult.commute Suc_eq_plus1)
    with that show "j < lo \<or> hi < j" by (metis Suc_eq_plus1 div_le_mono leI less_Suc_eq_le not_le)
  qed
  have "nt_node C ?t l i = merkle_top (noteVal C) g l i" if "l \<le> Suc L" for l i
  proof (cases "l = Suc L")
    case True
    then show ?thesis using upper [of "Suc L" i] outside [of i] Suc.prems
      by (simp only: fill_level_node zero_less_Suc) (simp split: if_splits, linarith?)
  next
    case False
    then show ?thesis using that lower [of l i] by (simp add: fill_level_node)
  qed
  moreover have "nt_node C ?t l i = merkle_top (noteVal C) f l i"
    if "Suc L < l" "l \<le> NOTE_TREE_DEPTH" for l i
    using that upper [of l i] by (simp add: fill_level_node)
  ultimately show ?case using run keep by (intro exI [of _ ?t]) simp
qed

lemma nt_appendAll_spec:
  assumes C: "poseidon_ok C" and inv: "nt_inv C t"
    and ok: "foldR (nt_check t) {} cs = Inr fresh" and cap: "nt_size t + int (length cs) \<le> NOTE_TREE_CAPACITY"
  shows "\<exists>t'. nt_appendAll C t cs = Inr (map (\<lambda>i. int (length (nt_leafList t) + i)) [0..<length cs], t') \<and>
    nt_leafList t' = nt_leafList t @ cs \<and> nt_inv C t'"
proof (cases "cs = []")
  case True
  with ok cap inv show ?thesis by (auto simp: nt_appendAll_def)
next
  case False
  let ?xs = "nt_leafList t" and ?p = "t\<lparr>nt_leafList := nt_leafList t @ cs, nt_present := nt_present t \<union> set cs\<rparr>"
  have chk: "list_all (\<lambda>c. isField c \<and> c \<noteq> 0 \<and> c \<notin> set ?xs) cs" "distinct cs"
    using ok inv by (auto simp: nt_check_fold nt_inv_def)
  have lists: "list_all isField ?xs" "list_all isField (?xs @ cs)"
    using inv chk by (auto simp: nt_inv_def list_all_iff)
  have "\<exists>t'. foldR (nt_level C) (?p, length ?xs, length (?xs @ cs) - 1) [0..<NOTE_TREE_DEPTH] =
      Inr (t', length ?xs div 2 ^ NOTE_TREE_DEPTH, (length (?xs @ cs) - 1) div 2 ^ NOTE_TREE_DEPTH) \<and>
    nt_leafList t' = nt_leafList ?p \<and> nt_present t' = nt_present ?p \<and>
    (\<forall>l \<le> NOTE_TREE_DEPTH. \<forall>i. nt_node C t' l i = note_top C (?xs @ cs) l i) \<and>
    (\<forall>l i. NOTE_TREE_DEPTH < l \<longrightarrow> l \<le> NOTE_TREE_DEPTH \<longrightarrow> nt_node C t' l i = note_top C ?xs l i)"
  proof (rule nt_levels [OF C])
    fix l i assume "0 < l" "l \<le> NOTE_TREE_DEPTH"
    then show "nt_node C ?p l i = note_top C ?xs l i"
      using inv by (auto simp: nt_inv_def nt_node_def)
  next
    show "isField (leaf_at ?xs i)" "isField (leaf_at (?xs @ cs) i)" for i
      using lists leaf_at_field by blast+
  qed (use False in \<open>auto simp: nt_node_def leaf_at_def nth_append\<close>)
  then obtain t' where t': "foldR (nt_level C) (?p, length ?xs, length (?xs @ cs) - 1) [0..<NOTE_TREE_DEPTH] =
      Inr (t', length ?xs div 2 ^ NOTE_TREE_DEPTH, (length (?xs @ cs) - 1) div 2 ^ NOTE_TREE_DEPTH)"
    and keep: "nt_leafList t' = ?xs @ cs" "nt_present t' = nt_present t \<union> set cs"
    and nodes: "\<forall>l \<le> NOTE_TREE_DEPTH. \<forall>i. nt_node C t' l i = note_top C (?xs @ cs) l i"
    by auto
  have "nt_inv C t'" using inv chk nodes cap
    by (auto simp: nt_inv_def keep nt_size_def list_all_iff)
  then show ?thesis using ok cap t' keep False
    by (auto simp: nt_appendAll_def Let_def)
qed

lemma nt_path_at:
  assumes "nt_inv C t" and "0 \<le> pos" and "pos < nt_size t"
  shows "nt_path C t pos = Inr (path_up (note_top C (nt_leafList t)) NOTE_TREE_DEPTH 0 (nat pos))"
  using assms by (auto simp: nt_path_def nt_inv_def intro!: path_up_cong)

lemma nt_path_proves:
  assumes C: "poseidon_ok C" and inv: "nt_inv C t" and pos: "0 \<le> pos" "pos < nt_size t"
  shows "\<exists>p. nt_path C t pos = Inr p \<and> isNotePath p \<and>
    noteRootOf C (nt_leafList t ! nat pos) p = Inr (nt_root C t)"
proof -
  let ?f = "leaf_at (nt_leafList t)" and ?i = "nat pos"
  let ?p = "path_up (note_top C (nt_leafList t)) NOTE_TREE_DEPTH 0 ?i"
  have fs: "list_all isField (nt_leafList t)" using inv by (auto simp: nt_inv_def list_all_iff)
  have i: "?i < length (nt_leafList t)" using pos by (simp add: nt_size_def nat_less_iff)
  have small: "?i div 2 ^ NOTE_TREE_DEPTH = 0"
    using inv i by (simp add: nt_inv_def nt_size_def NOTE_TREE_CAPACITY_def NOTE_TREE_DEPTH_def push_bit_eq_mult)
  have F: "isField (note_top C (nt_leafList t) l i)" if "l \<le> NOTE_TREE_DEPTH" for l i
    by (rule note_hash.top_field [OF C leaf_at_field [OF fs] that])
  have "isNotePath ?p"
    using path_up_lengths [of "note_top C (nt_leafList t)" NOTE_TREE_DEPTH 0 ?i]
    by (auto simp: isNotePath_def is_tree_path_def list_all_iff dest!: path_up_siblings intro!: F)
  moreover have "carry_up (noteNode C) 0 (note_top C (nt_leafList t) 0 ?i) (siblings ?p) (right ?p) =
      Inr (note_top C (nt_leafList t) NOTE_TREE_DEPTH 0)"
    using note_hash.carry_path [where l = 0 and k = NOTE_TREE_DEPTH and i = ?i, OF C leaf_at_field [OF fs]] small
    by simp
  ultimately show ?thesis
    using nt_path_at [OF inv pos] inv i fs
    by (auto simp: noteRootOf_def requireField_def nt_root_def nt_inv_def list_all_length)
qed

subsection \<open>Properties\<close>

text \<open>The leaf lists a sequence of batches leaves behind.\<close>

definition nt_appendBatches :: "crypto \<Rightarrow> note_tree \<Rightarrow> int list list \<Rightarrow> note_tree result" where
  "nt_appendBatches C = foldR (\<lambda>t cs. mapR snd (nt_appendAll C t cs))"

lemma nt_appendAll_Inr:
  assumes "poseidon_ok C" and "nt_inv C t" and "nt_appendAll C t cs = Inr (ps, t')"
  shows "nt_inv C t' \<and> nt_leafList t' = nt_leafList t @ cs \<and>
    ps = map (\<lambda>i. int (length (nt_leafList t) + i)) [0..<length cs]"
proof -
  obtain fresh where "foldR (nt_check t) {} cs = Inr fresh" and "nt_size t + int (length cs) \<le> NOTE_TREE_CAPACITY"
    using assms(3) by (auto simp: nt_appendAll_def bindR_Inr_conv split: if_splits)
  from nt_appendAll_spec [OF assms(1,2) this] assms(3) show ?thesis by auto
qed

lemma nt_appendBatches_inv:
  assumes "poseidon_ok C"
  shows "nt_inv C t \<Longrightarrow> nt_appendBatches C t css = Inr t' \<Longrightarrow> nt_inv C t' \<and> nt_leafList t' = nt_leafList t @ concat css"
proof (induction css arbitrary: t)
  case (Cons cs css)
  then obtain ps u where u: "nt_appendAll C t cs = Inr (ps, u)" and rest: "nt_appendBatches C u css = Inr t'"
    by (auto simp: nt_appendBatches_def bindR_Inr_conv mapR_Inr_conv)
  from nt_appendAll_Inr [OF assms Cons.prems(1) u] Cons.IH [OF _ rest] show ?case by simp
qed (simp add: nt_appendBatches_def)

text \<open>C12: the tree is the Merkle tree of everything appended. However the commitments were batched, the tree's
  leaves are exactly the appended commitments in order, they are distinct nonzero field elements within the
  capacity, the anchor is the root of the specified depth-32 tree over them, and membership is membership in
  the list; the recomputation of changed parents never leaves a stale node.\<close>

theorem note_tree_root:
  assumes "poseidon_ok C" and "nt_appendBatches C newNoteTree css = Inr t"
  shows "nt_leafList t = concat css \<and> distinct (concat css) \<and> list_all (\<lambda>c. isField c \<and> c \<noteq> 0) (concat css) \<and>
    nt_size t \<le> NOTE_TREE_CAPACITY \<and>
    nt_root C t = merkle_top (noteVal C) (leaf_at (concat css)) NOTE_TREE_DEPTH 0 \<and>
    (nt_has t c \<longleftrightarrow> c \<in> set (concat css))"
proof -
  have inv: "nt_inv C t" and l: "nt_leafList t = concat css"
    using nt_appendBatches_inv [OF assms(1) newNoteTree_inv [OF assms(1)] assms(2)]
    by (simp_all add: newNoteTree_def)
  show ?thesis unfolding l [symmetric] using inv by (auto simp: nt_inv_def nt_root_def nt_has_def)
qed

lemma toy_append_defined: "\<exists>t. nt_appendBatches toy_crypto newNoteTree [[5, 7], [], [9]] = Inr t"
proof -
  have f: "isField 5" "isField 7" "isField 9" by (simp_all add: small_field)
  have inv: "nt_inv toy_crypto newNoteTree" by (rule newNoteTree_inv [OF toy_poseidon_ok])
  have "foldR (nt_check newNoteTree) {} [5, 7] = Inr {5, 7}"
    unfolding nt_check_fold using f by (simp add: newNoteTree_def)
  moreover have "nt_size newNoteTree + int (length [5, 7 :: int]) \<le> NOTE_TREE_CAPACITY"
    by (simp add: newNoteTree_def nt_size_def NOTE_TREE_CAPACITY_def push_bit_eq_mult)
  ultimately obtain ps t where t: "nt_appendAll toy_crypto newNoteTree [5, 7] = Inr (ps, t)"
    "nt_leafList t = nt_leafList newNoteTree @ [5, 7]" "nt_inv toy_crypto t"
    using nt_appendAll_spec [OF toy_poseidon_ok inv] by blast
  then have l: "nt_leafList t = [5, 7]" and "nt_present t = {5, 7}"
    by (simp_all add: nt_inv_def newNoteTree_def)
  then have "foldR (nt_check t) {} [9] = Inr {9}" and "nt_size t + int (length [9 :: int]) \<le> NOTE_TREE_CAPACITY"
    unfolding nt_check_fold using f by (simp_all add: nt_size_def NOTE_TREE_CAPACITY_def push_bit_eq_mult)
  then obtain ps' t' where t': "nt_appendAll toy_crypto t [9] = Inr (ps', t')"
    using nt_appendAll_spec [OF toy_poseidon_ok t(3)] by blast
  have "nt_appendAll toy_crypto t [] = Inr ([], t)"
    using l by (simp add: nt_appendAll_def nt_size_def NOTE_TREE_CAPACITY_def push_bit_eq_mult)
  with t(1) t' show ?thesis by (simp add: nt_appendBatches_def)
qed

lemma note_tree_root_witness:
  "\<exists>t. nt_appendBatches toy_crypto newNoteTree [[5, 7], [], [9]] = Inr t \<and> nt_has t 9 \<and> \<not> nt_has t 8"
  using toy_append_defined note_tree_root [OF toy_poseidon_ok, of "[[5, 7], [], [9]]" _ 9]
    note_tree_root [OF toy_poseidon_ok, of "[[5, 7], [], [9]]" _ 8] by fastforce

text \<open>every batch is accepted exactly where it may be, and nothing changes otherwise. A batch is appended
  where its commitments are distinct nonzero field elements, none is present and they fit the capacity; it then
  takes the next positions in order and preserves the invariant, and any other batch is refused.\<close>

theorem note_tree_append:
  assumes "poseidon_ok C" and "nt_inv C t"
  shows "(case nt_appendAll C t cs of
      Inr (ps, t') \<Rightarrow> distinct cs \<and> list_all (\<lambda>c. isField c \<and> c \<noteq> 0 \<and> \<not> nt_has t c) cs \<and>
        nt_size t + int (length cs) \<le> NOTE_TREE_CAPACITY \<and>
        ps = map (\<lambda>i. nt_size t + int i) [0..<length cs] \<and> nt_leafList t' = nt_leafList t @ cs \<and> nt_inv C t'
    | Inl e \<Rightarrow> \<not> (distinct cs \<and> list_all (\<lambda>c. isField c \<and> c \<noteq> 0 \<and> \<not> nt_has t c) cs \<and>
        nt_size t + int (length cs) \<le> NOTE_TREE_CAPACITY))"
proof -
  let ?ok = "distinct cs \<and> list_all (\<lambda>c. isField c \<and> c \<noteq> 0 \<and> \<not> nt_has t c) cs"
  have chk: "foldR (nt_check t) {} cs = Inr fresh \<longleftrightarrow> ?ok \<and> fresh = set cs" for fresh
    by (auto simp: nt_check_fold nt_has_def)
  show ?thesis
  proof (cases "nt_appendAll C t cs")
    case (Inl e)
    have "\<not> (?ok \<and> nt_size t + int (length cs) \<le> NOTE_TREE_CAPACITY)"
      using nt_appendAll_spec [OF assms, of cs "set cs"] chk Inl by auto
    then show ?thesis by (simp add: Inl)
  next
    case (Inr r)
    obtain ps t' where r: "nt_appendAll C t cs = Inr (ps, t')" using Inr by (cases r) simp
    then have "?ok" and "nt_size t + int (length cs) \<le> NOTE_TREE_CAPACITY"
      using chk by (auto simp: nt_appendAll_def bindR_Inr_conv split: if_splits)
    then show ?thesis using nt_appendAll_Inr [OF assms r] by (simp add: r nt_size_def)
  qed
qed

lemma note_tree_append_witness:
  "\<exists>ps t'. nt_appendAll toy_crypto newNoteTree [5, 7] = Inr (ps, t') \<and> ps = [0, 1] \<and> nt_leafList t' = [5, 7]"
proof -
  have ok: "distinct [5, 7 :: int] \<and> list_all (\<lambda>c. isField c \<and> c \<noteq> 0 \<and> \<not> nt_has newNoteTree c) [5, 7] \<and>
      nt_size newNoteTree + int (length [5, 7 :: int]) \<le> NOTE_TREE_CAPACITY"
    by (simp add: small_field newNoteTree_def nt_size_def nt_has_def NOTE_TREE_CAPACITY_def push_bit_eq_mult)
  have ps: "map (\<lambda>i. nt_size newNoteTree + int i) [0..<length [5, 7 :: int]] = [0, 1]"
    "nt_leafList newNoteTree @ [5, 7] = [5, 7]"
    by (simp_all add: newNoteTree_def nt_size_def)
  note note_tree_append [OF toy_poseidon_ok newNoteTree_inv [OF toy_poseidon_ok], of "[5, 7]"]
  then show ?thesis unfolding ps using ok
    by (cases "nt_appendAll toy_crypto newNoteTree [5, 7]") (force, force)
qed

text \<open>the path of every used leaf proves it, and a path of another leaf does not prove at its position.
  For each used position \<open>path\<close> answers a well-formed path that carries the leaf to the anchor; and any
  value that a path with the same directions carries to the anchor is that leaf, where the hash does not
  collide on the two pairs of children of any level.\<close>

theorem note_path_sound:
  assumes "poseidon_ok C" and "nt_inv C t" and "0 \<le> pos" and "pos < nt_size t"
  shows "\<exists>p. nt_path C t pos = Inr p \<and> notePathProves C (nt_root C t) (nt_leafList t ! nat pos) p \<and>
    (\<forall>leaf q. notePathProves C (nt_root C t) leaf q \<and> right q = right p \<and>
      (\<forall>m < NOTE_TREE_DEPTH. inj_on (\<lambda>(a, b). noteVal C m a b)
        {carry_children (noteVal C) 0 (nt_leafList t ! nat pos) (siblings p) (right p) ! m,
         carry_children (noteVal C) 0 leaf (siblings q) (right q) ! m}) \<longrightarrow>
      leaf = nt_leafList t ! nat pos \<and> q = p)"
proof -
  let ?x = "nt_leafList t ! nat pos"
  obtain p where p: "nt_path C t pos = Inr p" "isNotePath p" "noteRootOf C ?x p = Inr (nt_root C t)"
    using nt_path_proves [OF assms] by blast
  have len: "length (siblings q) = NOTE_TREE_DEPTH" "length (right q) = NOTE_TREE_DEPTH" if "isNotePath q" for q
    using that by (simp_all add: isNotePath_def is_tree_path_def)
  have up: "carry_up (noteNode C) 0 leaf (siblings q) (right q) = Inr (nt_root C t)" and qp: "isNotePath q"
    if "notePathProves C (nt_root C t) leaf q" for leaf q
    using that by (auto simp: notePathProves_def noteRootOf_def bindR_def requireField_def
        split: sum.splits if_splits)
  have proves: "notePathProves C (nt_root C t) ?x p" using p by (simp add: notePathProves_def)
  have "leaf = ?x \<and> q = p" if q: "notePathProves C (nt_root C t) leaf q" "right q = right p"
    and inj: "\<forall>m < NOTE_TREE_DEPTH. inj_on (\<lambda>(a, b). noteVal C m a b)
        {carry_children (noteVal C) 0 ?x (siblings p) (right p) ! m,
         carry_children (noteVal C) 0 leaf (siblings q) (right q) ! m}" for leaf q
  proof -
    have "?x = leaf \<and> siblings p = siblings q"
    proof (rule note_hash.carry_binds [OF up [OF proves] up [OF q(1), unfolded q(2)]])
      fix m u v
      assume m: "m < length (right p)" and u: "u = carry_children (noteVal C) 0 ?x (siblings p) (right p) ! m"
        and v: "v = carry_children (noteVal C) 0 leaf (siblings q) (right p) ! m"
        and eq: "noteVal C (0 + m) (fst u) (snd u) = noteVal C (0 + m) (fst v) (snd v)"
      have "inj_on (\<lambda>(a, b). noteVal C m a b) {u, v}" using inj m len(2) [OF p(2)] q(2) by (simp add: u v)
      then show "u = v" by (rule inj_onD) (use eq in \<open>simp_all add: case_prod_beta\<close>)
    qed (use len p(2) qp [OF q(1)] q(2) in simp_all)
    then show ?thesis using q(2) by (auto intro: tree_path.equality)
  qed
  then show ?thesis using p(1) proves by blast
qed

lemma note_path_sound_witness:
  "\<exists>t p. nt_appendBatches toy_crypto newNoteTree [[5, 7], [], [9]] = Inr t \<and>
     nt_path toy_crypto t 1 = Inr p \<and> notePathProves toy_crypto (nt_root toy_crypto t) 7 p"
proof -
  obtain t where t: "nt_appendBatches toy_crypto newNoteTree [[5, 7], [], [9]] = Inr t"
    using toy_append_defined by blast
  have i: "nt_inv toy_crypto t" "nt_leafList t = [5, 7, 9]"
    using nt_appendBatches_inv [OF toy_poseidon_ok newNoteTree_inv [OF toy_poseidon_ok] t]
    by (simp_all add: newNoteTree_def)
  have "1 < nt_size t" and x: "nt_leafList t ! nat 1 = 7" by (simp_all add: nt_size_def i(2))
  with note_path_sound [OF toy_poseidon_ok i(1) zero_le_one]
  have "\<exists>p. nt_path toy_crypto t 1 = Inr p \<and> notePathProves toy_crypto (nt_root toy_crypto t) 7 p"
    unfolding x by blast
  with t show ?thesis by blast
qed

text \<open>The empty root of the concrete instance, evaluated once.\<close>

lemma toy_note_root: "EMPTY_NOTE_ROOT toy_crypto = 950741"
  by code_simp

end
