(* ===== verification/Frontier.thy ===== *)
theory Frontier
  imports NoteTree
begin

section \<open>The stored note tree: frontier and incremental witnesses (src/pool/v3/replay-store.ts)\<close>

text \<open>
  The replay store keeps no interior node of a segment's note tree.  It keeps the frontier, the
  completed left subtree of each height that waits for its right sibling, and for the outputs a
  replay witnesses the siblings of their paths.  This theory models the loops of \<open>append\<close> over one
  record's outputs and the reads of \<open>witness\<close>, and shows that the root folded from the frontier and
  the paths read from the rows are those of the tree of NoteTree over the same commitments.
\<close>

type_synonym ommers = "int option list"

text \<open>A block completed by an append: its height, its index at that height and its node.\<close>

type_synonym completed = "(nat \<times> nat \<times> int) list"

definition EMPTY_OMMERS :: ommers where
  "EMPTY_OMMERS = replicate (Suc NOTE_TREE_DEPTH) None"

definition ommer_at :: "ommers \<Rightarrow> nat \<Rightarrow> int option" where
  "ommer_at os h = (if h < length os then os ! h else None)"

text \<open>A node over a left child that may be absent, which the field check of the node refuses.\<close>

definition node_over :: "crypto \<Rightarrow> nat \<Rightarrow> int option \<Rightarrow> int \<Rightarrow> int result" where
  "node_over C h left node = noteNode C (int h) (case left of None \<Rightarrow> - 1 | Some v \<Rightarrow> v) node"

function close_blocks :: "crypto \<Rightarrow> nat \<Rightarrow> nat \<Rightarrow> int \<Rightarrow> ommers \<Rightarrow> completed \<Rightarrow> (ommers \<times> completed) result" where
  "close_blocks C h n node os done =
     (if odd n then bindR (node_over C h (ommer_at os h) node) (\<lambda>p.
          close_blocks C (Suc h) (n div 2) p (os[h := None]) (done @ [(Suc h, n div 2, p)]))
      else Inr (os[h := Some node], done))"
  by pat_completeness auto
termination by (relation "measure (\<lambda>(C, h, n, node, os, done). n)") (auto elim: oddE)

declare close_blocks.simps [simp del]

text \<open>What an output's witness row starts with: the left siblings, and the empty subtree on the right.\<close>

definition birth_siblings :: "crypto \<Rightarrow> ommers \<Rightarrow> nat \<Rightarrow> int list result" where
  "birth_siblings C before leaf = traverseR (\<lambda>h.
     if odd (leaf div 2 ^ h) then requireField (case ommer_at before h of None \<Rightarrow> - 1 | Some v \<Rightarrow> v) ''field''
     else Inr (EMPTY_NOTE_SUBTREE C ! h)) [0..<NOTE_TREE_DEPTH]"

record frontier_run =
  fr_leaves :: nat
  fr_ommers :: ommers
  fr_before :: ommers
  fr_completed :: completed
  fr_born :: "(nat \<times> int list) list"

definition frontier_output :: "crypto \<Rightarrow> frontier_run \<Rightarrow> int \<times> bool \<Rightarrow> frontier_run result" where
  "frontier_output C r = (\<lambda>(cm, witnessed). let leaf = fr_leaves r; before = fr_ommers r in
     bindR (if witnessed then mapR (\<lambda>s. fr_born r @ [(leaf, s)]) (birth_siblings C before leaf) else Inr (fr_born r)) (\<lambda>born.
     bindR (close_blocks C 0 leaf cm (fr_ommers r) (fr_completed r @ [(0, leaf, cm)])) (\<lambda>(os, done).
     Inr \<lparr>fr_leaves = Suc leaf, fr_ommers = os, fr_before = before, fr_completed = done, fr_born = born\<rparr>)))"

definition rightmost_root :: "crypto \<Rightarrow> nat \<Rightarrow> ommers \<Rightarrow> int \<Rightarrow> int result" where
  "rightmost_root C last_leaf before cm = foldR (\<lambda>node h.
     if odd (last_leaf div 2 ^ h) then node_over C h (ommer_at before h) node
     else noteNode C (int h) node (EMPTY_NOTE_SUBTREE C ! h)) cm [0..<NOTE_TREE_DEPTH]"

text \<open>One record's outputs: the new leaf count and frontier, the new root, and what witness rows need.\<close>

definition frontier_append :: "crypto \<Rightarrow> nat \<Rightarrow> ommers \<Rightarrow> int \<Rightarrow> (int \<times> bool) list \<Rightarrow> (frontier_run \<times> int) result" where
  "frontier_append C leaves os root outputs =
     (let start = \<lparr>fr_leaves = leaves, fr_ommers = os, fr_before = os, fr_completed = [], fr_born = []\<rparr> in
      if outputs = [] then Inr (start, root)
      else bindR (foldR (frontier_output C) start outputs) (\<lambda>r.
        bindR (rightmost_root C (fr_leaves r - 1) (fr_before r) (fst (last outputs))) (\<lambda>root'. Inr (r, root'))))"

text \<open>A kept witness beside a block that completed gets the block's node as its right sibling.\<close>

definition complete_sibling :: "nat \<Rightarrow> int list \<Rightarrow> nat \<times> nat \<times> int \<Rightarrow> int list" where
  "complete_sibling leaf sib = (\<lambda>(h, block, value).
     if h \<ge> NOTE_TREE_DEPTH \<or> even block then sib
     else if (block - 1) * 2 ^ h \<le> leaf \<and> leaf < block * 2 ^ h then sib[h := value] else sib)"

definition move_witness :: "completed \<Rightarrow> nat \<Rightarrow> int list \<Rightarrow> int list" where
  "move_witness done leaf sib = foldl (complete_sibling leaf) sib done"

definition filling_nodes :: "crypto \<Rightarrow> nat \<Rightarrow> ommers \<Rightarrow> int list result" where
  "filling_nodes C leaves os = foldR (\<lambda>nodes k.
     bindR (if odd (leaves div 2 ^ k) then node_over C k (ommer_at os k) (nodes ! k)
       else noteNode C (int k) (nodes ! k) (EMPTY_NOTE_SUBTREE C ! k)) (\<lambda>v. Inr (nodes @ [v])))
     [EMPTY_NOTE_SUBTREE C ! 0] [0..<NOTE_TREE_DEPTH - 1]"

text \<open>A witnessed leaf's path at the tip, from its row and the frontier.\<close>

definition witness_path :: "crypto \<Rightarrow> nat \<Rightarrow> ommers \<Rightarrow> nat \<Rightarrow> int list \<Rightarrow> tree_path result" where
  "witness_path C leaves os leaf sib =
     bindR (filling_nodes C leaves os) (\<lambda>nodes. Inr
       \<lparr>siblings = map (\<lambda>h. if odd (leaf div 2 ^ h) then sib ! h
          else let start = (leaf div 2 ^ h + 1) * 2 ^ h in
            if start \<ge> leaves then EMPTY_NOTE_SUBTREE C ! h
            else if start + 2 ^ h > leaves then nodes ! h else sib ! h) [0..<NOTE_TREE_DEPTH],
        right = map (\<lambda>h. odd (leaf div 2 ^ h)) [0..<NOTE_TREE_DEPTH]\<rparr>)"

text \<open>What a namespace keeps of its note tree, and one record's outputs on it.\<close>

record note_frontier =
  nf_leaves :: nat
  nf_ommers :: ommers
  nf_root :: int
  nf_rows :: "(nat \<times> int list) list"

definition newFrontier :: "crypto \<Rightarrow> note_frontier" where
  "newFrontier C = \<lparr>nf_leaves = 0, nf_ommers = EMPTY_OMMERS, nf_root = EMPTY_NOTE_ROOT C, nf_rows = []\<rparr>"

definition frontier_record :: "crypto \<Rightarrow> note_frontier \<Rightarrow> (int \<times> bool) list \<Rightarrow> note_frontier result" where
  "frontier_record C f outputs = bindR (frontier_append C (nf_leaves f) (nf_ommers f) (nf_root f) outputs) (\<lambda>(r, root).
     Inr \<lparr>nf_leaves = fr_leaves r, nf_ommers = fr_ommers r, nf_root = root,
       nf_rows = map (\<lambda>(leaf, sib). (leaf, move_witness (fr_completed r) leaf sib)) (nf_rows f @ fr_born r)\<rparr>)"

subsection \<open>What the frontier holds\<close>

text \<open>The leaves so far are distinct heights' complete blocks, one per bit of their count.\<close>

definition frontier_inv :: "crypto \<Rightarrow> int list \<Rightarrow> ommers \<Rightarrow> bool" where
  "frontier_inv C xs os \<longleftrightarrow> length os = Suc NOTE_TREE_DEPTH \<and> int (length xs) \<le> NOTE_TREE_CAPACITY \<and> list_all isField xs \<and>
     (\<forall>h \<le> NOTE_TREE_DEPTH. os ! h =
       (if odd (length xs div 2 ^ h) then Some (note_top C xs h (length xs div 2 ^ h - 1)) else None))"

lemma capacity_nat: "int n \<le> NOTE_TREE_CAPACITY \<longleftrightarrow> n \<le> 2 ^ NOTE_TREE_DEPTH"
  by (simp add: NOTE_TREE_CAPACITY_def NOTE_TREE_DEPTH_def push_bit_eq_mult)

lemma frontier_start: "frontier_inv C [] EMPTY_OMMERS"
  by (simp add: frontier_inv_def EMPTY_OMMERS_def capacity_nat nth_replicate del: replicate.simps)
     (simp add: NOTE_TREE_CAPACITY_def)

text \<open>A complete block does not change when leaves are added, and a block past the leaves is empty.\<close>

lemma block_complete: "(i + 1) * 2 ^ h \<le> length xs \<Longrightarrow> note_top C (xs @ ys) h i = note_top C xs h i"
  by (rule merkle_top_cong) (simp add: leaf_at_def nth_append)

lemma block_empty: "poseidon_ok C \<Longrightarrow> h \<le> NOTE_TREE_DEPTH \<Longrightarrow> length xs \<le> i * 2 ^ h \<Longrightarrow>
    note_top C xs h i = EMPTY_NOTE_SUBTREE C ! h"
  by (subst EMPTY_NOTE_SUBTREE_spec [where i = i], assumption, assumption) (rule merkle_top_cong, simp add: leaf_at_def)

lemma top_of_fields: "poseidon_ok C \<Longrightarrow> list_all isField xs \<Longrightarrow> h \<le> NOTE_TREE_DEPTH \<Longrightarrow> isField (note_top C xs h i)"
  by (rule note_hash.top_field [OF _ leaf_at_field])

lemma parent_value:
  assumes "poseidon_ok C" and "list_all isField xs" and "h < NOTE_TREE_DEPTH" and "a = note_top C xs h (2 * i)"
    and "b = note_top C xs h (2 * i + 1)"
  shows "noteNode C (int h) a b = Inr (note_top C xs (Suc h) i)"
  using note_hash.step_total [OF assms(1,3), of a b] top_of_fields [OF assms(1,2), of h] assms(3,4,5) by simp

lemma frontier_ommer: "frontier_inv C xs os \<Longrightarrow> h \<le> NOTE_TREE_DEPTH \<Longrightarrow> odd (length xs div 2 ^ h) \<Longrightarrow>
    ommer_at os h = Some (note_top C xs h (length xs div 2 ^ h - 1))"
  by (simp add: frontier_inv_def ommer_at_def)

lemma odd_index: "odd (n :: nat) \<Longrightarrow> n - 1 = 2 * (n div 2) \<and> n = 2 * (n div 2) + 1"
  by presburger

lemma even_index: "even (n :: nat) \<Longrightarrow> n = 2 * (n div 2)"
  by presburger

lemma div_pow_Suc: "(n :: nat) div 2 ^ Suc h = n div 2 ^ h div 2"
  by (metis div_mult2_eq mult.commute power_Suc)

lemma even_div_Suc:
  assumes "even (m :: nat)"
  shows "(m + 1) div 2 ^ Suc j = m div 2 ^ Suc j"
proof -
  have "(m + 1) div 2 = m div 2" using assms by presburger
  then show ?thesis by (simp only: power_Suc div_mult2_eq)
qed

lemma double_up: "odd (m :: nat) \<Longrightarrow> (m + 1) * 2 ^ h = n \<Longrightarrow> (m div 2 + 1) * 2 ^ Suc h = n"
  by (elim oddE) (simp add: algebra_simps)

lemma less_add_Suc: "(h :: nat) < k \<Longrightarrow> \<exists>j. k = h + Suc j"
  unfolding less_iff_Suc_add by auto

lemma div_mult_bounds: "(n :: nat) div 2 ^ h * 2 ^ h \<le> n" "n < (n div 2 ^ h + 1) * 2 ^ h"
proof -
  show "n < (n div 2 ^ h + 1) * 2 ^ h"
    using dividend_less_times_div [of "2 ^ h" n] by (simp add: algebra_simps)
qed simp

lemma div_block: "(i :: nat) * 2 ^ h \<le> n \<Longrightarrow> n < (i + 1) * 2 ^ h \<Longrightarrow> n div 2 ^ h = i"
  by (rule div_nat_eqI) (simp_all add: mult.commute)

lemma block_left: "frontier_inv C xs os \<Longrightarrow> h \<le> NOTE_TREE_DEPTH \<Longrightarrow> odd (length xs div 2 ^ h) \<Longrightarrow>
    ommer_at os h = Some (note_top C (xs @ ys) h (length xs div 2 ^ h - 1))"
proof -
  assume a: "frontier_inv C xs os" "h \<le> NOTE_TREE_DEPTH" "odd (length xs div 2 ^ h)"
  have "(length xs div 2 ^ h - 1 + 1) * 2 ^ h \<le> length xs" using div_mult_bounds(1) [of "length xs" h] a(3) by (cases "length xs div 2 ^ h") simp_all
  then show ?thesis using frontier_ommer [OF a] block_complete [of "length xs div 2 ^ h - 1" h xs C ys] by simp
qed

text \<open>The blocks completed while the leaves grow from \<open>n\<close> to \<open>n'\<close> of them.\<close>

definition completed_ok :: "crypto \<Rightarrow> nat \<Rightarrow> int list \<Rightarrow> completed \<Rightarrow> bool" where
  "completed_ok C n ys d \<longleftrightarrow> (\<forall>h i v. (h, i, v) \<in> set d \<longleftrightarrow>
     h \<le> NOTE_TREE_DEPTH \<and> n < (i + 1) * 2 ^ h \<and> (i + 1) * 2 ^ h \<le> length ys \<and> v = note_top C ys h i)"

lemma completed_snoc:
  assumes "completed_ok C n xs d" and "completed_ok C (length xs) (xs @ [x]) d'" and "n \<le> length xs"
  shows "completed_ok C n (xs @ [x]) (d @ d')"
  unfolding completed_ok_def
proof (intro allI)
  fix h i v
  show "(h, i, v) \<in> set (d @ d') \<longleftrightarrow> h \<le> NOTE_TREE_DEPTH \<and> n < (i + 1) * 2 ^ h \<and> (i + 1) * 2 ^ h \<le> length (xs @ [x]) \<and>
    v = note_top C (xs @ [x]) h i"
  proof (cases "(i + 1) * 2 ^ h \<le> length xs")
    case True
    then show ?thesis using assms block_complete [OF True, of C "[x]"] by (auto simp: completed_ok_def)
  next
    case False
    then show ?thesis using assms by (auto simp: completed_ok_def)
  qed
qed

lemma close_blocks_run:
  assumes C: "poseidon_ok C" and ys: "ys = xs @ [x]" and f: "list_all isField ys" and n: "length ys \<le> 2 ^ NOTE_TREE_DEPTH"
  shows "h \<le> NOTE_TREE_DEPTH \<Longrightarrow> m = length xs div 2 ^ h \<Longrightarrow> (m + 1) * 2 ^ h = length ys \<Longrightarrow> node = note_top C ys h m \<Longrightarrow>
    length os = Suc NOTE_TREE_DEPTH \<Longrightarrow> (\<And>k. k < h \<Longrightarrow> os ! k = None) \<Longrightarrow>
    (\<And>k. h \<le> k \<Longrightarrow> k \<le> NOTE_TREE_DEPTH \<Longrightarrow> os ! k = (if odd (length xs div 2 ^ k) then Some (note_top C xs k (length xs div 2 ^ k - 1)) else None)) \<Longrightarrow>
    \<exists>os' d. close_blocks C h m node os acc = Inr (os', acc @ d) \<and> frontier_inv C ys os' \<and>
      (\<forall>k i v. (k, i, v) \<in> set d \<longleftrightarrow> h < k \<and> k \<le> NOTE_TREE_DEPTH \<and> (i + 1) * 2 ^ k = length ys \<and> v = note_top C ys k i)"
proof (induction m arbitrary: h node os acc rule: less_induct)
  case (less m)
  show ?case
  proof (cases "odd m")
    case False
    have z: "odd (length ys div 2 ^ h)" "length ys div 2 ^ h - 1 = m" using less.prems(3) False by (simp_all flip: less.prems(3))
    have "length ys div 2 ^ k = (m + 1) * 2 ^ (h - k)" if "k < h" for k
    proof -
      have "(2 :: nat) ^ h = 2 ^ (h - k) * 2 ^ k" using that by (simp flip: power_add)
      then have "length ys = (m + 1) * 2 ^ (h - k) * 2 ^ k" using less.prems(3) by (metis mult.assoc)
      then show ?thesis by simp
    qed
    then have low: "even (length ys div 2 ^ k)" if "k < h" for k using that by simp
    have high: "length ys div 2 ^ k = length xs div 2 ^ k" if hk: "h < k" for k
    proof -
      obtain j where k: "k = h + Suc j" using less_add_Suc [OF hk] by blast
      have "length ys div 2 ^ k = (m + 1) * 2 ^ h div 2 ^ h div 2 ^ Suc j" by (simp only: less.prems(3) k power_add div_mult2_eq)
      also have "(m + 1) * 2 ^ h div 2 ^ h = m + 1" by simp
      also have "(m + 1) div 2 ^ Suc j = m div 2 ^ Suc j" by (rule even_div_Suc) (use False in simp)
      also have "\<dots> = length xs div 2 ^ k" by (simp only: less.prems(2) k power_add div_mult2_eq)
      finally show ?thesis .
    qed
    have "frontier_inv C ys (os[h := Some node])"
      unfolding frontier_inv_def
    proof (intro conjI allI impI)
      fix k assume k: "k \<le> NOTE_TREE_DEPTH"
      show "os[h := Some node] ! k = (if odd (length ys div 2 ^ k) then Some (note_top C ys k (length ys div 2 ^ k - 1)) else None)"
      proof (cases "k = h")
        case True
        then show ?thesis using z less.prems(1,4,5) by simp
      next
        case kh: False
        show ?thesis
        proof (cases "k < h")
          case True
          then show ?thesis using low less.prems(6) by simp
        next
          case False
          then have hk: "h < k" using kh by simp
          have v: "note_top C ys k (length xs div 2 ^ k - 1) = note_top C xs k (length xs div 2 ^ k - 1)" if "odd (length xs div 2 ^ k)"
            unfolding ys by (rule block_complete) (use that div_mult_bounds(1) [of "length xs" k] in \<open>cases "length xs div 2 ^ k"; simp\<close>)
          show ?thesis using less.prems(7) [of k] hk k v high [OF hk] kh by simp
        qed
      qed
    qed (use less.prems(5) f n in \<open>simp_all add: capacity_nat\<close>)
    moreover have "\<not> (i + 1) * 2 ^ k = length ys" if hk: "h < k" for i k
    proof
      assume e: "(i + 1) * 2 ^ k = length ys"
      obtain j where k: "k = h + Suc j" using less_add_Suc [OF hk] by blast
      have "(m + 1) * 2 ^ h = (i + 1) * 2 ^ Suc j * 2 ^ h" using e less.prems(3) by (simp add: k power_add algebra_simps)
      then have "m + 1 = (i + 1) * 2 ^ Suc j" by (simp only: mult_cancel2) simp
      then have "even (m + 1)" by simp
      then show False using False by simp
    qed
    ultimately show ?thesis using False by (intro exI [of _ "os[h := Some node]"] exI [of _ "[]"]) (auto simp: close_blocks.simps [of C h m])
  next
    case True
    have hd: "h < NOTE_TREE_DEPTH"
    proof (rule ccontr)
      assume "\<not> h < NOTE_TREE_DEPTH"
      then have "h = NOTE_TREE_DEPTH" using less.prems(1) by simp
      then have "(m + 1) * 2 ^ NOTE_TREE_DEPTH \<le> 1 * 2 ^ NOTE_TREE_DEPTH" using less.prems(3) n by simp
      then have "m + 1 \<le> 1" by (simp only: mult_le_cancel2) simp
      then show False using True by simp
    qed
    let ?p = "note_top C ys (Suc h) (m div 2)"
    note oi = odd_index [OF True]
    have left: "ommer_at os h = Some (note_top C ys h (m - 1))"
    proof -
      have "(m - 1 + 1) * 2 ^ h \<le> length xs" using div_mult_bounds(1) [of "length xs" h] True less.prems(2) by (cases m) simp_all
      then have "note_top C ys h (m - 1) = note_top C xs h (m - 1)" unfolding ys by (rule block_complete)
      then show ?thesis using less.prems(1,2,5) less.prems(7) [of h] True by (simp add: ommer_at_def)
    qed
    have node: "node_over C h (ommer_at os h) node = Inr ?p"
      unfolding left node_over_def option.case
      by (rule parent_value [OF C f hd]) (use oi less.prems(4) in simp_all)
    have lt: "m div 2 < m" using True by (auto elim: oddE)
    have "\<exists>os' d. close_blocks C (Suc h) (m div 2) ?p (os[h := None]) (acc @ [(Suc h, m div 2, ?p)]) =
        Inr (os', (acc @ [(Suc h, m div 2, ?p)]) @ d) \<and> frontier_inv C ys os' \<and>
      (\<forall>k i v. (k, i, v) \<in> set d \<longleftrightarrow> Suc h < k \<and> k \<le> NOTE_TREE_DEPTH \<and> (i + 1) * 2 ^ k = length ys \<and> v = note_top C ys k i)"
    proof (rule less.IH [OF lt])
      show "m div 2 = length xs div 2 ^ Suc h" using less.prems(2) by (simp add: div_pow_Suc del: power_Suc)
      show up: "(m div 2 + 1) * 2 ^ Suc h = length ys" by (rule double_up [OF True less.prems(3)])
      show "os[h := None] ! k = None" if "k < Suc h" for k using that less.prems(1,5,6) by (cases "k = h") auto
    qed (use hd less.prems(5,7) in auto)
    then obtain os' d where d: "close_blocks C (Suc h) (m div 2) ?p (os[h := None]) (acc @ [(Suc h, m div 2, ?p)]) =
        Inr (os', (acc @ [(Suc h, m div 2, ?p)]) @ d)" "frontier_inv C ys os'"
      "\<And>k i v. (k, i, v) \<in> set d \<longleftrightarrow> Suc h < k \<and> k \<le> NOTE_TREE_DEPTH \<and> (i + 1) * 2 ^ k = length ys \<and> v = note_top C ys k i" by blast
    have up: "(m div 2 + 1) * 2 ^ Suc h = length ys" by (rule double_up [OF True less.prems(3)])
    have "(k, i, v) \<in> set ((Suc h, m div 2, ?p) # d) \<longleftrightarrow> h < k \<and> k \<le> NOTE_TREE_DEPTH \<and> (i + 1) * 2 ^ k = length ys \<and> v = note_top C ys k i"
      for k i v
    proof (cases "k = Suc h")
      case True
      have "i = m div 2" if "(i + 1) * 2 ^ Suc h = length ys"
      proof -
        have "(i + 1) * 2 ^ Suc h = (m div 2 + 1) * 2 ^ Suc h" using that up by simp
        then show ?thesis by (simp del: power_Suc)
      qed
      then show ?thesis using True hd up d(3) [of k i v] by (auto simp del: power_Suc)
    qed (use d(3) [of k i v] in auto)
    then show ?thesis using d(1,2) node True
      by (intro exI [of _ os'] exI [of _ "(Suc h, m div 2, ?p) # d"]) (simp add: close_blocks.simps [of C h m])
  qed
qed

lemma completed_leaf:
  assumes "\<And>k i v. (k, i, v) \<in> set d \<longleftrightarrow> 0 < k \<and> k \<le> NOTE_TREE_DEPTH \<and> (i + 1) * 2 ^ k = length (xs @ [x]) \<and> v = note_top C (xs @ [x]) k i"
  shows "completed_ok C (length xs) (xs @ [x]) ((0, length xs, x) # d)"
  unfolding completed_ok_def
proof (intro allI)
  fix h i v
  show "(h, i, v) \<in> set ((0, length xs, x) # d) \<longleftrightarrow>
    h \<le> NOTE_TREE_DEPTH \<and> length xs < (i + 1) * 2 ^ h \<and> (i + 1) * 2 ^ h \<le> length (xs @ [x]) \<and> v = note_top C (xs @ [x]) h i"
  proof (cases h)
    case 0
    then show ?thesis using assms [of 0 i v] by (cases "i = length xs") (auto simp: leaf_at_def)
  next
    case (Suc k)
    then show ?thesis using assms [of h i v] by auto
  qed
qed

subsection \<open>What a witness row holds\<close>

text \<open>The siblings of a leaf that no longer change when \<open>n\<close> leaves were appended.\<close>

definition siblings_upto :: "crypto \<Rightarrow> int list \<Rightarrow> nat \<Rightarrow> nat \<Rightarrow> int list \<Rightarrow> bool" where
  "siblings_upto C xs n leaf sib \<longleftrightarrow> length sib = NOTE_TREE_DEPTH \<and> (\<forall>h < NOTE_TREE_DEPTH.
     if odd (leaf div 2 ^ h) then sib ! h = note_top C xs h (leaf div 2 ^ h - 1)
     else (leaf div 2 ^ h + 2) * 2 ^ h \<le> n \<longrightarrow> sib ! h = note_top C xs h (leaf div 2 ^ h + 1))"

definition witness_ok :: "crypto \<Rightarrow> int list \<Rightarrow> nat \<Rightarrow> int list \<Rightarrow> bool" where
  "witness_ok C xs leaf sib \<longleftrightarrow> leaf < length xs \<and> siblings_upto C xs (length xs) leaf sib"

lemma siblings_more:
  assumes "siblings_upto C xs n leaf sib" and "leaf < length xs" and "n \<le> length xs"
  shows "siblings_upto C (xs @ zs) n leaf sib"
proof -
  have "note_top C (xs @ zs) h (leaf div 2 ^ h - 1) = note_top C xs h (leaf div 2 ^ h - 1)" if "odd (leaf div 2 ^ h)" for h
    by (rule block_complete) (use that div_mult_bounds(1) [of leaf h] assms(2) in \<open>cases "leaf div 2 ^ h"; simp\<close>)
  moreover have "note_top C (xs @ zs) h (leaf div 2 ^ h + 1) = note_top C xs h (leaf div 2 ^ h + 1)" if "(leaf div 2 ^ h + 2) * 2 ^ h \<le> n" for h
    by (rule block_complete) (use that assms(3) in simp)
  ultimately show ?thesis using assms(1) by (simp add: siblings_upto_def)
qed

lemma complete_sibling_nth:
  "length sib = NOTE_TREE_DEPTH \<Longrightarrow> h < NOTE_TREE_DEPTH \<Longrightarrow> complete_sibling leaf sib (k, b, v) ! h =
    (if k = h \<and> odd b \<and> leaf div 2 ^ h = b - 1 then v else sib ! h)"
proof -
  assume a: "length sib = NOTE_TREE_DEPTH" "h < NOTE_TREE_DEPTH"
  have "(b - 1) * 2 ^ k \<le> leaf \<and> leaf < b * 2 ^ k \<longleftrightarrow> leaf div 2 ^ k = b - 1" if "odd b"
    using that div_block [of "b - 1" k leaf] div_mult_bounds [of leaf k] by (cases b) auto
  then show ?thesis using a by (cases "k = h") (auto simp: complete_sibling_def)
qed

lemma complete_sibling_length [simp]: "length (complete_sibling leaf sib c) = length sib"
  by (cases c) (simp add: complete_sibling_def)

lemma move_witness_length [simp]: "length (move_witness d leaf sib) = length sib"
  unfolding move_witness_def by (induction d arbitrary: sib) simp_all

lemma move_witness_nth:
  assumes "\<And>k i v. (k, i, v) \<in> set d \<Longrightarrow> v = f k i"
  shows "length sib = NOTE_TREE_DEPTH \<Longrightarrow> h < NOTE_TREE_DEPTH \<Longrightarrow> move_witness d leaf sib ! h =
    (if even (leaf div 2 ^ h) \<and> (\<exists>v. (h, leaf div 2 ^ h + 1, v) \<in> set d) then f h (leaf div 2 ^ h + 1) else sib ! h)"
  using assms
proof (induction d arbitrary: sib)
  case (Cons c d)
  obtain k i v where c: "c = (k, i, v)" by (cases c)
  have v: "v = f k i" by (rule Cons.prems(3)) (simp add: c)
  have "move_witness (c # d) leaf sib ! h = move_witness d leaf (complete_sibling leaf sib c) ! h" by (simp add: move_witness_def)
  also have "\<dots> = (if even (leaf div 2 ^ h) \<and> (\<exists>v. (h, leaf div 2 ^ h + 1, v) \<in> set d) then f h (leaf div 2 ^ h + 1)
      else complete_sibling leaf sib c ! h)"
    by (rule Cons.IH) (use Cons.prems in auto)
  also have "complete_sibling leaf sib c ! h = (if k = h \<and> odd i \<and> leaf div 2 ^ h = i - 1 then v else sib ! h)"
    unfolding c by (rule complete_sibling_nth) (use Cons.prems in auto)
  finally show ?case using v by (cases i) (auto simp: c)
qed (simp add: move_witness_def)

lemma witness_moved:
  assumes "siblings_upto C ys n leaf sib" and "leaf < length ys" and "completed_ok C n ys d"
  shows "witness_ok C ys leaf (move_witness d leaf sib)"
proof -
  have l: "length sib = NOTE_TREE_DEPTH" using assms(1) by (simp add: siblings_upto_def)
  have nth: "move_witness d leaf sib ! h = (if even (leaf div 2 ^ h) \<and> (\<exists>v. (h, leaf div 2 ^ h + 1, v) \<in> set d)
      then note_top C ys h (leaf div 2 ^ h + 1) else sib ! h)" if "h < NOTE_TREE_DEPTH" for h
    by (rule move_witness_nth [OF _ l that]) (use assms(3) in \<open>auto simp: completed_ok_def\<close>)
  have "\<exists>v. (h, leaf div 2 ^ h + 1, v) \<in> set d"
    if "h < NOTE_TREE_DEPTH" "\<not> (leaf div 2 ^ h + 2) * 2 ^ h \<le> n" "(leaf div 2 ^ h + 2) * 2 ^ h \<le> length ys" for h
    using that assms(3) unfolding completed_ok_def by (intro exI [of _ "note_top C ys h (leaf div 2 ^ h + 1)"]) simp
  then have "move_witness d leaf sib ! h = note_top C ys h (leaf div 2 ^ h + 1)"
    if "h < NOTE_TREE_DEPTH" "even (leaf div 2 ^ h)" "(leaf div 2 ^ h + 2) * 2 ^ h \<le> length ys" for h
    using that assms(1) nth [OF that(1)] unfolding siblings_upto_def by (cases "(leaf div 2 ^ h + 2) * 2 ^ h \<le> n") auto
  moreover have "move_witness d leaf sib ! h = note_top C ys h (leaf div 2 ^ h - 1)"
    if "h < NOTE_TREE_DEPTH" "odd (leaf div 2 ^ h)" for h
    using that assms(1) nth [OF that(1)] by (auto simp: siblings_upto_def)
  ultimately show ?thesis using assms(2) l by (simp add: witness_ok_def siblings_upto_def)
qed

lemma birth_siblings_run:
  assumes "frontier_inv C xs os" and C: "poseidon_ok C"
  shows "\<exists>s. birth_siblings C os (length xs) = Inr s \<and> siblings_upto C (xs @ ys) n (length xs) s \<or> \<not> n \<le> length xs"
proof (cases "n \<le> length xs")
  case True
  let ?v = "\<lambda>h. if odd (length xs div 2 ^ h) then note_top C (xs @ ys) h (length xs div 2 ^ h - 1) else EMPTY_NOTE_SUBTREE C ! h"
  have f: "list_all isField xs" using assms(1) by (simp add: frontier_inv_def)
  have "birth_siblings C os (length xs) = Inr (map ?v [0..<NOTE_TREE_DEPTH])"
    unfolding birth_siblings_def traverseR_Inr_conv
  proof (rule list_all2_all_nthI)
    fix m assume "m < length [0..<NOTE_TREE_DEPTH]"
    then have m: "m < NOTE_TREE_DEPTH" by simp
    show "(if odd (length xs div 2 ^ ([0..<NOTE_TREE_DEPTH] ! m)) then requireField (case ommer_at os ([0..<NOTE_TREE_DEPTH] ! m) of None \<Rightarrow> - 1 | Some v \<Rightarrow> v) ''field''
        else Inr (EMPTY_NOTE_SUBTREE C ! ([0..<NOTE_TREE_DEPTH] ! m))) = Inr (map ?v [0..<NOTE_TREE_DEPTH] ! m)"
    proof (cases "odd (length xs div 2 ^ m)")
      case True
      have e: "note_top C (xs @ ys) m (length xs div 2 ^ m - 1) = note_top C xs m (length xs div 2 ^ m - 1)"
        by (rule block_complete) (use True div_mult_bounds(1) [of "length xs" m] in \<open>cases "length xs div 2 ^ m"; simp\<close>)
      then show ?thesis using m True block_left [OF assms(1) _ True, of ys] top_of_fields [OF C f, of m]
        by (simp add: requireField_def e)
    qed (use m in simp)
  qed simp
  moreover have "\<not> (length xs div 2 ^ h + 2) * 2 ^ h \<le> n" for h
    using div_mult_bounds(2) [of "length xs" h] True by (simp add: algebra_simps)
  ultimately show ?thesis by (auto simp: siblings_upto_def)
qed simp

subsection \<open>One record's outputs\<close>

definition run_inv :: "crypto \<Rightarrow> int list \<Rightarrow> int list \<Rightarrow> frontier_run \<Rightarrow> bool" where
  "run_inv C xs ys r \<longleftrightarrow> frontier_inv C ys (fr_ommers r) \<and> fr_leaves r = length ys \<and> length xs \<le> length ys \<and>
     completed_ok C (length xs) ys (fr_completed r) \<and>
     list_all (\<lambda>(leaf, s). length xs \<le> leaf \<and> leaf < length ys \<and> siblings_upto C ys (length xs) leaf s) (fr_born r)"

lemma frontier_output_run:
  assumes C: "poseidon_ok C" and r: "run_inv C xs ys r" and x: "isField x" and cap: "length ys < 2 ^ NOTE_TREE_DEPTH"
  shows "\<exists>r'. frontier_output C r (x, w) = Inr r' \<and> run_inv C xs (ys @ [x]) r' \<and> fr_before r' = fr_ommers r \<and>
    map fst (fr_born r') = map fst (fr_born r) @ (if w then [length ys] else [])"
proof -
  have inv: "frontier_inv C ys (fr_ommers r)" and n: "fr_leaves r = length ys" "length xs \<le> length ys"
    and d: "completed_ok C (length xs) ys (fr_completed r)" using r by (simp_all add: run_inv_def)
  have f: "list_all isField (ys @ [x])" using inv x by (simp add: frontier_inv_def)
  obtain s where s: "birth_siblings C (fr_ommers r) (length ys) = Inr s" "siblings_upto C (ys @ [x]) (length xs) (length ys) s"
    using birth_siblings_run [OF inv C, of "[x]" "length xs"] n(2) by auto
  obtain os' d' where c: "close_blocks C 0 (length ys) x (fr_ommers r) (fr_completed r @ [(0, length ys, x)]) =
      Inr (os', (fr_completed r @ [(0, length ys, x)]) @ d')" "frontier_inv C (ys @ [x]) os'"
    "\<And>k i v. (k, i, v) \<in> set d' \<longleftrightarrow> 0 < k \<and> k \<le> NOTE_TREE_DEPTH \<and> (i + 1) * 2 ^ k = length (ys @ [x]) \<and> v = note_top C (ys @ [x]) k i"
    using close_blocks_run [OF C refl f, where h = 0 and m = "length ys" and node = x and os = "fr_ommers r" 
        and acc = "fr_completed r @ [(0, length ys, x)]"] inv cap
    by (auto simp: frontier_inv_def leaf_at_def)
  have d2: "completed_ok C (length xs) (ys @ [x]) (fr_completed r @ [(0, length ys, x)] @ d')"
    using completed_snoc [OF d completed_leaf [OF c(3)] n(2)] by simp
  have born: "list_all (\<lambda>(leaf, s). length xs \<le> leaf \<and> leaf < length (ys @ [x]) \<and> siblings_upto C (ys @ [x]) (length xs) leaf s) (fr_born r)"
    using r siblings_more [of C ys "length xs" _ _ "[x]"] n(2) by (auto simp: run_inv_def list_all_iff)
  show ?thesis using s c(1,2) d2 born n
    by (cases w) (auto simp: frontier_output_def run_inv_def Let_def)
qed

lemma frontier_outputs_run:
  assumes C: "poseidon_ok C"
  shows "run_inv C xs ys r \<Longrightarrow> list_all isField (map fst outputs) \<Longrightarrow> length ys + length outputs \<le> 2 ^ NOTE_TREE_DEPTH \<Longrightarrow>
    \<exists>r'. foldR (frontier_output C) r outputs = Inr r' \<and> run_inv C xs (ys @ map fst outputs) r' \<and>
      (outputs \<noteq> [] \<longrightarrow> frontier_inv C (butlast (ys @ map fst outputs)) (fr_before r')) \<and>
      map fst (fr_born r') = map fst (fr_born r) @ map (\<lambda>i. length ys + i) (filter (\<lambda>i. snd (outputs ! i)) [0..<length outputs])"
proof (induction outputs rule: rev_induct)
  case (snoc o1 outputs)
  obtain x w where o: "o1 = (x, w)" by (cases o1)
  obtain r1 where r1: "foldR (frontier_output C) r outputs = Inr r1" "run_inv C xs (ys @ map fst outputs) r1"
    "map fst (fr_born r1) = map fst (fr_born r) @ map (\<lambda>i. length ys + i) (filter (\<lambda>i. snd (outputs ! i)) [0..<length outputs])"
    using snoc by auto
  obtain r2 where r2: "frontier_output C r1 (x, w) = Inr r2" "run_inv C xs ((ys @ map fst outputs) @ [x]) r2"
    "fr_before r2 = fr_ommers r1" "map fst (fr_born r2) = map fst (fr_born r1) @ (if w then [length (ys @ map fst outputs)] else [])"
    using frontier_output_run [OF C r1(2), of x w] snoc.prems o by auto
  have e: "filter (\<lambda>i. snd ((outputs @ [(x, w)]) ! i)) [0..<length outputs] = filter (\<lambda>i. snd (outputs ! i)) [0..<length outputs]"
    by (rule filter_cong) (auto simp: nth_append)
  have "frontier_inv C (ys @ map fst outputs) (fr_before r2)" using r1(2) r2(3) by (simp add: run_inv_def)
  then show ?case using r1(1,3) r2 o e
    by (intro exI [of _ r2]) (simp add: foldR_append butlast_append)
qed simp

lemma rightmost_root_run:
  assumes C: "poseidon_ok C" and b: "frontier_inv C xs before" and x: "isField x"
  shows "rightmost_root C (length xs) before x = Inr (note_top C (xs @ [x]) NOTE_TREE_DEPTH (length xs div 2 ^ NOTE_TREE_DEPTH))"
proof -
  let ?ys = "xs @ [x]" and ?n = "length xs"
  have f: "list_all isField ?ys" using b x by (simp add: frontier_inv_def)
  have "foldR (\<lambda>node h. if odd (?n div 2 ^ h) then node_over C h (ommer_at before h) node
      else noteNode C (int h) node (EMPTY_NOTE_SUBTREE C ! h)) x [0..<L] = Inr (note_top C ?ys L (?n div 2 ^ L))"
    if "L \<le> NOTE_TREE_DEPTH" for L
    using that
  proof (induction L)
    case (Suc L)
    then have L: "L < NOTE_TREE_DEPTH" by simp
    have "(if odd (?n div 2 ^ L) then node_over C L (ommer_at before L) (note_top C ?ys L (?n div 2 ^ L))
      else noteNode C (int L) (note_top C ?ys L (?n div 2 ^ L)) (EMPTY_NOTE_SUBTREE C ! L)) = Inr (note_top C ?ys (Suc L) (?n div 2 ^ Suc L))"
    proof (cases "odd (?n div 2 ^ L)")
      case True
      note i = odd_index [OF True]
      show ?thesis unfolding if_P [OF True] block_left [OF b less_imp_le [OF L] True, of "[x]"] node_over_def option.case div_pow_Suc
        by (rule parent_value [OF C f L]) (use i in simp_all)
    next
      case False
      then have i: "?n div 2 ^ L = 2 * (?n div 2 ^ L div 2)" by simp
      have "note_top C ?ys L (?n div 2 ^ L + 1) = EMPTY_NOTE_SUBTREE C ! L"
        by (rule block_empty [OF C]) (use L div_mult_bounds(2) [of ?n L] in simp_all)
      then show ?thesis unfolding if_not_P [OF False] div_pow_Suc
        by (intro parent_value [OF C f L]) (use i in simp_all)
    qed
    then show ?case using Suc by (simp add: foldR_append del: merkle_top.simps power_Suc)
  qed (simp add: leaf_at_def)
  then show ?thesis unfolding rightmost_root_def by blast
qed

lemma frontier_append_run:
  assumes C: "poseidon_ok C" and inv: "frontier_inv C xs os" and f: "list_all isField (map fst outputs)"
    and cap: "length xs + length outputs \<le> 2 ^ NOTE_TREE_DEPTH" and root: "root = note_top C xs NOTE_TREE_DEPTH 0"
  shows "\<exists>r. frontier_append C (length xs) os root outputs = Inr (r, note_top C (xs @ map fst outputs) NOTE_TREE_DEPTH 0) \<and>
    run_inv C xs (xs @ map fst outputs) r \<and>
    map fst (fr_born r) = map (\<lambda>i. length xs + i) (filter (\<lambda>i. snd (outputs ! i)) [0..<length outputs])"
proof -
  let ?start = "\<lparr>fr_leaves = length xs, fr_ommers = os, fr_before = os, fr_completed = [], fr_born = []\<rparr>"
  have start: "run_inv C xs xs ?start" using inv by (auto simp: run_inv_def completed_ok_def)
  obtain r where r: "foldR (frontier_output C) ?start outputs = Inr r" "run_inv C xs (xs @ map fst outputs) r"
    "outputs \<noteq> [] \<longrightarrow> frontier_inv C (butlast (xs @ map fst outputs)) (fr_before r)"
    "map fst (fr_born r) = map (\<lambda>i. length xs + i) (filter (\<lambda>i. snd (outputs ! i)) [0..<length outputs])"
    using frontier_outputs_run [OF C start f cap] by auto
  show ?thesis
  proof (cases outputs rule: rev_cases)
    case Nil
    then show ?thesis using r root by (auto simp: frontier_append_def)
  next
    case (snoc os1 o1)
    obtain x w where o: "o1 = (x, w)" by (cases o1)
    let ?ys = "xs @ map fst os1"
    have b: "frontier_inv C ?ys (fr_before r)" using r(3) by (simp add: snoc butlast_append)
    have "length ?ys < 2 ^ NOTE_TREE_DEPTH" using cap by (simp add: snoc)
    then have z: "length ?ys div 2 ^ NOTE_TREE_DEPTH = 0" by simp
    have "rightmost_root C (length ?ys) (fr_before r) x = Inr (note_top C (?ys @ [x]) NOTE_TREE_DEPTH 0)"
      using rightmost_root_run [OF C b, of x] f z by (simp add: snoc o)
    moreover have "fr_leaves r - 1 = length ?ys" using r(2) by (simp add: run_inv_def snoc)
    ultimately show ?thesis using r by (simp add: frontier_append_def snoc o)
  qed
qed

subsection \<open>Reading a witnessed path\<close>

lemma filling_nodes_run:
  assumes C: "poseidon_ok C" and inv: "frontier_inv C xs os"
  shows "filling_nodes C (length xs) os = Inr (map (\<lambda>k. note_top C xs k (length xs div 2 ^ k)) [0..<NOTE_TREE_DEPTH])"
proof -
  let ?n = "length xs"
  have f: "list_all isField xs" using inv by (simp add: frontier_inv_def)
  have "foldR (\<lambda>nodes k. bindR (if odd (?n div 2 ^ k) then node_over C k (ommer_at os k) (nodes ! k)
       else noteNode C (int k) (nodes ! k) (EMPTY_NOTE_SUBTREE C ! k)) (\<lambda>v. Inr (nodes @ [v]))) [EMPTY_NOTE_SUBTREE C ! 0] [0..<L] =
     Inr (map (\<lambda>k. note_top C xs k (?n div 2 ^ k)) [0..<Suc L])" if "L < NOTE_TREE_DEPTH" for L
    using that
  proof (induction L)
    case 0
    have "EMPTY_NOTE_SUBTREE C ! 0 = empty_top C 0 0" by (rule EMPTY_NOTE_SUBTREE_spec [OF C]) simp
    then show ?case by simp
  next
    case (Suc L)
    then have L: "L < NOTE_TREE_DEPTH" by simp
    let ?nodes = "map (\<lambda>k. note_top C xs k (?n div 2 ^ k)) [0..<Suc L]"
    have nl: "?nodes ! L = note_top C xs L (?n div 2 ^ L)" by (simp add: nth_append del: merkle_top.simps)
    have "(if odd (?n div 2 ^ L) then node_over C L (ommer_at os L) (?nodes ! L)
       else noteNode C (int L) (?nodes ! L) (EMPTY_NOTE_SUBTREE C ! L)) = Inr (note_top C xs (Suc L) (?n div 2 ^ Suc L))"
    proof (cases "odd (?n div 2 ^ L)")
      case True
      note i = odd_index [OF True]
      show ?thesis unfolding nl if_P [OF True] frontier_ommer [OF inv less_imp_le [OF L] True] node_over_def option.case div_pow_Suc
        by (rule parent_value [OF C f L]) (use i in simp_all)
    next
      case False
      then have i: "?n div 2 ^ L = 2 * (?n div 2 ^ L div 2)" by simp
      have "note_top C xs L (?n div 2 ^ L + 1) = EMPTY_NOTE_SUBTREE C ! L"
        by (rule block_empty [OF C]) (use L div_mult_bounds(2) [of ?n L] in simp_all)
      then show ?thesis unfolding nl if_not_P [OF False] div_pow_Suc
        by (intro parent_value [OF C f L]) (use i in simp_all)
    qed
    then have "bindR (if odd (?n div 2 ^ L) then node_over C L (ommer_at os L) (?nodes ! L)
       else noteNode C (int L) (?nodes ! L) (EMPTY_NOTE_SUBTREE C ! L)) (\<lambda>v. Inr (?nodes @ [v])) =
       Inr (?nodes @ [note_top C xs (Suc L) (?n div 2 ^ Suc L)])" by simp
    then have "foldR (\<lambda>nodes k. bindR (if odd (?n div 2 ^ k) then node_over C k (ommer_at os k) (nodes ! k)
       else noteNode C (int k) (nodes ! k) (EMPTY_NOTE_SUBTREE C ! k)) (\<lambda>v. Inr (nodes @ [v]))) [EMPTY_NOTE_SUBTREE C ! 0] ([0..<L] @ [L]) =
      Inr (?nodes @ [note_top C xs (Suc L) (?n div 2 ^ Suc L)])"
      by (simp only: foldR_append Suc.IH [OF L] bindR_simps foldR.simps)
    then show ?case by (simp del: merkle_top.simps power_Suc)
  qed
  from this [of "NOTE_TREE_DEPTH - 1"] show ?thesis
    unfolding filling_nodes_def by (simp add: NOTE_TREE_DEPTH_def del: upt_Suc)
qed

lemma path_up_siblings_nth: "siblings (path_up at k l i) =
    map (\<lambda>m. at (l + m) (if odd (i div 2 ^ m) then i div 2 ^ m - 1 else i div 2 ^ m + 1)) [0..<k]"
proof (induction k arbitrary: l i)
  case (Suc k)
  have "(i div 2) div 2 ^ m = i div 2 ^ Suc m" for m by (simp add: div_mult2_eq)
  then show ?case by (simp add: Let_def Suc map_upt_Suc odd_iff_mod_2_eq_one del: upt_Suc)
qed simp

lemma witness_path_run:
  assumes C: "poseidon_ok C" and inv: "frontier_inv C xs os" and w: "witness_ok C xs leaf sib"
  shows "witness_path C (length xs) os leaf sib = Inr (path_up (note_top C xs) NOTE_TREE_DEPTH 0 leaf)"
proof -
  let ?n = "length xs"
  have sib: "(if odd (leaf div 2 ^ h) then sib ! h
      else let start = (leaf div 2 ^ h + 1) * 2 ^ h in
        if start \<ge> ?n then EMPTY_NOTE_SUBTREE C ! h
        else if start + 2 ^ h > ?n then map (\<lambda>k. note_top C xs k (?n div 2 ^ k)) [0..<NOTE_TREE_DEPTH] ! h else sib ! h) =
    note_top C xs h (if odd (leaf div 2 ^ h) then leaf div 2 ^ h - 1 else leaf div 2 ^ h + 1)" if h: "h < NOTE_TREE_DEPTH" for h
  proof (cases "odd (leaf div 2 ^ h)")
    case True
    then show ?thesis using w h by (simp add: witness_ok_def siblings_upto_def)
  next
    case False
    let ?b = "leaf div 2 ^ h + 1"
    consider "?n \<le> ?b * 2 ^ h" | "?b * 2 ^ h < ?n" "?n < ?b * 2 ^ h + 2 ^ h" | "?b * 2 ^ h + 2 ^ h \<le> ?n" by linarith
    then show ?thesis
    proof cases
      case 1
      then show ?thesis using False block_empty [OF C _ 1] h by (simp add: Let_def)
    next
      case 2
      have "?n div 2 ^ h = ?b" by (rule div_block) (use 2 in \<open>simp_all add: algebra_simps\<close>)
      then show ?thesis using False 2 h by (simp add: Let_def)
    next
      case 3
      then have "sib ! h = note_top C xs h ?b" using w h False by (simp add: witness_ok_def siblings_upto_def algebra_simps)
      moreover have "?b * 2 ^ h < ?n" by (rule less_le_trans [OF _ 3]) simp
      ultimately show ?thesis using False 3 by (auto simp: Let_def)
    qed
  qed
  have "right (path_up (note_top C xs) NOTE_TREE_DEPTH 0 leaf) = map (\<lambda>h. odd (leaf div 2 ^ h)) [0..<NOTE_TREE_DEPTH]"
    by (simp add: path_up_right odd_iff_mod_2_eq_one)
  moreover have "siblings (path_up (note_top C xs) NOTE_TREE_DEPTH 0 leaf) = map (\<lambda>h. if odd (leaf div 2 ^ h) then sib ! h
      else let start = (leaf div 2 ^ h + 1) * 2 ^ h in
        if start \<ge> ?n then EMPTY_NOTE_SUBTREE C ! h
        else if start + 2 ^ h > ?n then map (\<lambda>k. note_top C xs k (?n div 2 ^ k)) [0..<NOTE_TREE_DEPTH] ! h else sib ! h) [0..<NOTE_TREE_DEPTH]"
    unfolding path_up_siblings_nth by (rule map_cong [OF refl]) (use sib in simp)
  ultimately show ?thesis unfolding witness_path_def filling_nodes_run [OF C inv] bindR_simps
    by (intro arg_cong [of _ _ Inr] tree_path.equality) simp_all
qed

subsection \<open>Properties\<close>

definition stored_inv :: "crypto \<Rightarrow> int list \<Rightarrow> note_frontier \<Rightarrow> bool" where
  "stored_inv C xs f \<longleftrightarrow> nf_leaves f = length xs \<and> frontier_inv C xs (nf_ommers f) \<and> nf_root f = note_top C xs NOTE_TREE_DEPTH 0 \<and>
     list_all (\<lambda>(leaf, sib). witness_ok C xs leaf sib) (nf_rows f)"

lemma newFrontier_inv: "poseidon_ok C \<Longrightarrow> stored_inv C [] (newFrontier C)"
  using EMPTY_NOTE_SUBTREE_spec [of C NOTE_TREE_DEPTH 0]
  by (simp add: stored_inv_def newFrontier_def frontier_start EMPTY_NOTE_ROOT_def)

lemma frontier_record_run:
  assumes C: "poseidon_ok C" and inv: "stored_inv C xs f" and fs: "list_all isField (map fst outputs)"
    and cap: "length xs + length outputs \<le> 2 ^ NOTE_TREE_DEPTH"
  shows "\<exists>f'. frontier_record C f outputs = Inr f' \<and> stored_inv C (xs @ map fst outputs) f' \<and>
    map fst (nf_rows f') = map fst (nf_rows f) @ map (\<lambda>i. length xs + i) (filter (\<lambda>i. snd (outputs ! i)) [0..<length outputs])"
proof -
  let ?ys = "xs @ map fst outputs"
  obtain r where r: "frontier_append C (length xs) (nf_ommers f) (nf_root f) outputs = Inr (r, note_top C ?ys NOTE_TREE_DEPTH 0)"
    "run_inv C xs ?ys r" "map fst (fr_born r) = map (\<lambda>i. length xs + i) (filter (\<lambda>i. snd (outputs ! i)) [0..<length outputs])"
    using frontier_append_run [OF C _ fs cap, of "nf_ommers f" "nf_root f"] inv by (auto simp: stored_inv_def)
  have d: "completed_ok C (length xs) ?ys (fr_completed r)" using r(2) by (simp add: run_inv_def)
  have old: "witness_ok C ?ys leaf (move_witness (fr_completed r) leaf sib)" if "(leaf, sib) \<in> set (nf_rows f)" for leaf sib
  proof (rule witness_moved [OF _ _ d])
    have "witness_ok C xs leaf sib" using inv that by (auto simp: stored_inv_def list_all_iff)
    then show "siblings_upto C ?ys (length xs) leaf sib" "leaf < length ?ys"
      using siblings_more [of C xs "length xs" leaf sib "map fst outputs"] by (simp_all add: witness_ok_def)
  qed
  have new: "witness_ok C ?ys leaf (move_witness (fr_completed r) leaf sib)" if "(leaf, sib) \<in> set (fr_born r)" for leaf sib
    by (rule witness_moved [OF _ _ d]) (use r(2) that in \<open>auto simp: run_inv_def list_all_iff\<close>)
  have keep: "map (fst \<circ> (\<lambda>(leaf, sib). (leaf, g leaf sib))) rows = map fst rows" for g :: "nat \<Rightarrow> int list \<Rightarrow> int list" and rows
    by (simp add: case_prod_unfold comp_def)
  show ?thesis using r inv old new
    by (auto simp: keep frontier_record_def stored_inv_def run_inv_def list_all_iff)
qed

lemma frontier_records_run:
  assumes C: "poseidon_ok C"
  shows "list_all isField (map fst (concat bs)) \<Longrightarrow> length (concat bs) \<le> 2 ^ NOTE_TREE_DEPTH \<Longrightarrow>
    \<exists>f. foldR (frontier_record C) (newFrontier C) bs = Inr f \<and> stored_inv C (map fst (concat bs)) f \<and>
      map fst (nf_rows f) = filter (\<lambda>i. snd (concat bs ! i)) [0..<length (concat bs)]"
proof (induction bs rule: rev_induct)
  case Nil
  show ?case using newFrontier_inv [OF C] by (simp add: newFrontier_def)
next
  case (snoc b bs)
  let ?n = "length (concat bs)"
  obtain f where f: "foldR (frontier_record C) (newFrontier C) bs = Inr f" "stored_inv C (map fst (concat bs)) f"
    "map fst (nf_rows f) = filter (\<lambda>i. snd (concat bs ! i)) [0..<?n]" using snoc by auto
  obtain g where g: "frontier_record C f b = Inr g" "stored_inv C (map fst (concat bs) @ map fst b) g"
    "map fst (nf_rows g) = map fst (nf_rows f) @ map (\<lambda>i. ?n + i) (filter (\<lambda>i. snd (b ! i)) [0..<length b])"
    using frontier_record_run [OF C f(2), of b] snoc.prems by auto
  have split: "[0..<?n + length b] = [0..<?n] @ map (\<lambda>i. ?n + i) [0..<length b]"
    by (rule nth_equalityI) (auto simp: nth_append)
  have "filter (\<lambda>i. snd ((concat bs @ b) ! i)) [0..<?n] = filter (\<lambda>i. snd (concat bs ! i)) [0..<?n]"
    by (rule filter_cong) (auto simp: nth_append)
  then have "filter (\<lambda>i. snd ((concat bs @ b) ! i)) [0..<?n + length b] =
      filter (\<lambda>i. snd (concat bs ! i)) [0..<?n] @ map (\<lambda>i. ?n + i) (filter (\<lambda>i. snd (b ! i)) [0..<length b])"
    unfolding split by (simp add: filter_map comp_def nth_append)
  then show ?case using f(1,3) g by (intro exI [of _ g]) (simp add: foldR_append)
qed

text \<open>C13: the stored frontier and its incremental witnesses are the note tree. For every sequence of records whose commitments
  the in-memory tree accepts, with any choice of outputs to witness, the store's appends succeed, the root folded from the
  frontier is that tree's root, the leaf count its size, the witness rows are exactly the chosen leaves, and the path read
  from each row is the path the in-memory tree answers for that leaf.\<close>

theorem stored_frontier_equals_tree:
  assumes "poseidon_ok C" and "nt_appendBatches C newNoteTree (map (map fst) bs) = Inr t"
  shows "\<exists>f. foldR (frontier_record C) (newFrontier C) bs = Inr f \<and> nf_root f = nt_root C t \<and> int (nf_leaves f) = nt_size t \<and>
    map fst (nf_rows f) = filter (\<lambda>i. snd (concat bs ! i)) [0..<length (concat bs)] \<and>
    (\<forall>(leaf, sib) \<in> set (nf_rows f). witness_path C (nf_leaves f) (nf_ommers f) leaf sib = nt_path C t (int leaf))"
proof -
  have inv: "nt_inv C t" and l: "nt_leafList t = map fst (concat bs)"
    using nt_appendBatches_inv [OF assms(1) newNoteTree_inv [OF assms(1)] assms(2)]
    by (simp_all add: newNoteTree_def map_concat)
  have fs: "list_all isField (map fst (concat bs))" and cap: "length (concat bs) \<le> 2 ^ NOTE_TREE_DEPTH"
    using inv unfolding nt_inv_def nt_size_def capacity_nat l by (auto simp: list_all_iff)
  obtain f where f: "foldR (frontier_record C) (newFrontier C) bs = Inr f" "stored_inv C (map fst (concat bs)) f"
    "map fst (nf_rows f) = filter (\<lambda>i. snd (concat bs ! i)) [0..<length (concat bs)]"
    using frontier_records_run [OF assms(1) fs cap] by blast
  have path: "witness_path C (nf_leaves f) (nf_ommers f) leaf sib = nt_path C t (int leaf)" if "(leaf, sib) \<in> set (nf_rows f)" for leaf sib
  proof -
    have w: "witness_ok C (map fst (concat bs)) leaf sib" using f(2) that by (auto simp: stored_inv_def list_all_iff)
    then have "int leaf < nt_size t" by (simp add: witness_ok_def nt_size_def l)
    then show ?thesis using witness_path_run [OF assms(1) _ w] f(2) nt_path_at [OF inv, of "int leaf"]
      by (simp add: stored_inv_def l)
  qed
  show ?thesis using f path inv
    by (intro exI [of _ f]) (auto simp: stored_inv_def nt_root_def nt_inv_def nt_size_def l)
qed

lemma stored_frontier_equals_tree_witness:
  "\<exists>f. foldR (frontier_record toy_crypto) (newFrontier toy_crypto) [[(5, True), (7, False)], [], [(9, True)]] = Inr f \<and>
     map fst (nf_rows f) = [0, 2] \<and> nf_leaves f = 3"
proof -
  obtain t where t: "nt_appendBatches toy_crypto newNoteTree [[5, 7], [], [9]] = Inr t" using toy_append_defined by blast
  have l: "nt_leafList t = [5, 7, 9]"
    using nt_appendBatches_inv [OF toy_poseidon_ok newNoteTree_inv [OF toy_poseidon_ok] t] by (simp add: newNoteTree_def)
  have rows: "filter (\<lambda>i. snd (concat [[(5 :: int, True), (7, False)], [], [(9, True)]] ! i)) [0..<length (concat [[(5 :: int, True), (7, False)], [], [(9, True)]])] = [0, 2]"
    by code_simp
  from stored_frontier_equals_tree [OF toy_poseidon_ok, of "[[(5, True), (7, False)], [], [(9, True)]]" t] t l rows
  show ?thesis by (auto simp: nt_size_def)
qed

end
