(* ===== verification/SpentSet.thy ===== *)
theory SpentSet
  imports Contexts Crypto
begin

section \<open>The compressed spent set (src/pool/v3/spent-set.ts)\<close>

text \<open>
  The binary tree of full-key leaves and first-differing-bit branches a segment keeps its
  nullifiers in.  Keys are unbounded integers read from 32 bytes, as the source reads them; a
  branch keeps its first child's key, its bit and its hash.  The set's operations are shown to be
  those of a set of 32-byte keys, its tree to be a function of that set alone, and its root to bind
  it.  The locale \<open>insert_once_set\<close> is the interface a reader of a spent set relies on.
\<close>

datatype spent_tree =
    Leaf (t_key: int) (t_hash: bytes)
  | Branch (t_key: int) int spent_tree spent_tree (t_hash: bytes)

record spent_set =
  ss_tree :: "spent_tree option"
  ss_size :: int
  ss_hashes :: int

definition keyOf :: "bytes \<Rightarrow> (int \<times> bytes) result" where
  "keyOf input = (if length input \<noteq> 32 then Inl (TypeError ''a spent-set key is 32 bytes'')
     else Inr (foldl (\<lambda>key b. push_bit 8 key OR uint b) 0 input, input))"

text \<open>The shift of a JavaScript integer: a negative count shifts the other way.\<close>

definition shift_right :: "int \<Rightarrow> int \<Rightarrow> int" where
  "shift_right k n = (if n < 0 then push_bit (nat (- n)) k else drop_bit (nat n) k)"

definition rightAt :: "int \<Rightarrow> int \<Rightarrow> bool" where
  "rightAt key b \<longleftrightarrow> shift_right key (255 - b) AND 1 = 1"

function binary_length :: "int \<Rightarrow> nat" where
  "binary_length n = (if n < 2 then 1 else Suc (binary_length (n div 2)))"
  by auto
termination by (relation "measure nat") auto

declare binary_length.simps [simp del]

definition splitAt :: "int \<Rightarrow> int \<Rightarrow> int" where
  "splitAt a b = 256 - int (binary_length (a XOR b))"

definition EMPTY :: "crypto \<Rightarrow> bytes" where
  "EMPTY C = sha256 C V3_SPENT_EMPTY_CONTEXT"

definition newSpentSet :: spent_set where
  "newSpentSet = \<lparr>ss_tree = None, ss_size = 0, ss_hashes = 0\<rparr>"

definition ss_root :: "crypto \<Rightarrow> spent_set \<Rightarrow> bytes" where
  "ss_root C s = (case ss_tree s of None \<Rightarrow> EMPTY C | Some t \<Rightarrow> t_hash t)"

fun terminal :: "int \<Rightarrow> spent_tree \<Rightarrow> spent_tree" where
  "terminal key (Leaf k h) = Leaf k h"
| "terminal key (Branch k b l r h) = terminal key (if rightAt key b then r else l)"

definition ss_has :: "bytes \<Rightarrow> spent_set \<Rightarrow> bool result" where
  "ss_has input s = bindR (keyOf input) (\<lambda>(key, _).
     Inr (case ss_tree s of None \<Rightarrow> False | Some t \<Rightarrow> t_key (terminal key t) = key))"

definition spent_leaf :: "crypto \<Rightarrow> int \<Rightarrow> bytes \<Rightarrow> spent_tree" where
  "spent_leaf C key bs = Leaf key (sha256 C (V3_SPENT_LEAF_CONTEXT @ bs))"

definition branch :: "crypto \<Rightarrow> int \<Rightarrow> spent_tree \<Rightarrow> spent_tree \<Rightarrow> spent_tree" where
  "branch C b l r = Branch (t_key l) b l r
     (sha256 C (V3_SPENT_NODE_CONTEXT @ [word_of_int (drop_bit 8 b), word_of_int (b AND 255)] @ t_hash l @ t_hash r))"

text \<open>The tree with the leaf in it, and how many branches were hashed.\<close>

fun insert_node :: "crypto \<Rightarrow> int \<Rightarrow> spent_tree \<Rightarrow> spent_tree \<Rightarrow> spent_tree \<times> int" where
  "insert_node C key leaf (Leaf k h) =
     (let b = if k = key then 256 else splitAt k key in
      if rightAt key b then (branch C b (Leaf k h) leaf, 1) else (branch C b leaf (Leaf k h), 1))"
| "insert_node C key leaf (Branch k nb l r h) =
     (let b = if k = key then 256 else splitAt k key in
      if b < nb then (if rightAt key b then (branch C b (Branch k nb l r h) leaf, 1) else (branch C b leaf (Branch k nb l r h), 1))
      else if rightAt key nb then (let (r', n) = insert_node C key leaf r in (branch C nb l r', n + 1))
      else (let (l', n) = insert_node C key leaf l in (branch C nb l' r, n + 1)))"

definition ss_insert :: "crypto \<Rightarrow> bytes \<Rightarrow> spent_set \<Rightarrow> spent_set result" where
  "ss_insert C input s =
     bindR (keyOf input) (\<lambda>(key, bs).
     bindR (requireR (case ss_tree s of None \<Rightarrow> True | Some t \<Rightarrow> t_key (terminal key t) \<noteq> key)
       (PlainError ''nullifier already in the spent set'')) (\<lambda>_.
     let leaf = spent_leaf C key bs;
         (t, n) = (case ss_tree s of None \<Rightarrow> (leaf, 0) | Some t \<Rightarrow> insert_node C key leaf t)
     in Inr \<lparr>ss_tree = Some t, ss_size = ss_size s + 1, ss_hashes = ss_hashes s + (1 + n)\<rparr>))"

subsection \<open>Bits of keys\<close>

definition key_range :: "int \<Rightarrow> bool" where
  "key_range k \<longleftrightarrow> 0 \<le> k \<and> k < 2 ^ 256"

text \<open>The bit a branch at \<open>b\<close> looks at, from the most significant.\<close>

definition kbit :: "int \<Rightarrow> int \<Rightarrow> bool" where
  "kbit k b = bit k (nat (255 - b))"

lemma rightAt_kbit: "b \<le> 255 \<Longrightarrow> rightAt k b = kbit k b"
  by (simp add: rightAt_def shift_right_def kbit_def and_one_eq bit_iff_odd_drop_bit odd_iff_mod_2_eq_one)

lemma key_bit_above: "key_range k \<Longrightarrow> 256 \<le> n \<Longrightarrow> \<not> bit k n"
proof -
  assume k: "key_range k" and n: "256 \<le> n"
  have "(2 :: int) ^ 256 \<le> 2 ^ n" using n by (intro power_increasing) simp_all
  then have "k div 2 ^ n = 0" using k by (intro div_pos_pos_trivial) (auto simp: key_range_def)
  then show ?thesis by (simp add: bit_iff_odd)
qed

lemma key_eqI:
  assumes "key_range a" and "key_range b" and "\<And>i. 0 \<le> i \<Longrightarrow> i \<le> 255 \<Longrightarrow> kbit a i = kbit b i"
  shows "a = b"
proof (rule bit_eqI)
  fix n
  show "bit a n \<longleftrightarrow> bit b n"
  proof (cases "n < 256")
    case True
    then have "kbit a (255 - int n) = kbit b (255 - int n)" by (intro assms(3)) simp_all
    then show ?thesis by (simp add: kbit_def)
  qed (use key_bit_above assms(1,2) in auto)
qed

lemma binary_length_bounds: "0 < n \<Longrightarrow> 2 ^ (binary_length n - 1) \<le> n \<and> n < 2 ^ binary_length n \<and> 0 < binary_length n"
proof (induction n rule: binary_length.induct)
  case (1 n)
  show ?case
  proof (cases "n < 2")
    case True
    then show ?thesis using "1.prems" by (simp add: binary_length.simps [of n])
  next
    case False
    then have ih: "2 ^ (binary_length (n div 2) - 1) \<le> n div 2 \<and> n div 2 < 2 ^ binary_length (n div 2) \<and> 0 < binary_length (n div 2)"
      by (intro "1.IH") simp_all
    then have e: "2 ^ binary_length (n div 2) = 2 * (2 :: int) ^ (binary_length (n div 2) - 1)"
      by (metis Suc_pred' power_Suc)
    show ?thesis using ih e False by (simp add: binary_length.simps [of n]) linarith
  qed
qed

lemma binary_length_pos [simp]: "0 < binary_length n"
  by (simp add: binary_length.simps [of n])

lemma splitAt_range: "key_range a \<Longrightarrow> key_range b \<Longrightarrow> 0 \<le> splitAt a b \<and> splitAt a b \<le> 255"
proof -
  assume k: "key_range a" "key_range b"
  let ?x = "a XOR b"
  have x0: "0 \<le> ?x" using k by (simp add: key_range_def)
  have x: "?x < 2 ^ 256" using k by (intro XOR_upper) (simp_all add: key_range_def)
  have "binary_length ?x \<le> 256"
  proof (cases "?x = 0")
    case False
    then have "2 ^ (binary_length ?x - 1) < (2 :: int) ^ 256" using binary_length_bounds [of ?x] x x0 by linarith
    then have "binary_length ?x - 1 < 256" by (rule power_less_imp_less_exp [rotated]) simp
    then show ?thesis by simp
  qed (simp add: binary_length.simps [of 0])
  then show ?thesis using binary_length_pos [of ?x] by (simp add: splitAt_def Suc_le_eq del: binary_length_pos)
qed

lemma splitAt_bits:
  assumes "key_range a" and "key_range b" and "a \<noteq> b"
  shows "kbit a (splitAt a b) \<noteq> kbit b (splitAt a b)" and "0 \<le> i \<Longrightarrow> i < splitAt a b \<Longrightarrow> kbit a i = kbit b i"
proof -
  let ?x = "a XOR b" and ?l = "binary_length (a XOR b)"
  have x0: "0 \<le> ?x" using assms by (simp add: key_range_def)
  have "?x \<noteq> 0"
  proof
    assume "?x = 0"
    then have "(a XOR b) XOR b = b" by simp
    then show False using assms(3) by (simp add: xor.assoc)
  qed
  then have "0 < ?x" using x0 by linarith
  from binary_length_bounds [OF this] have l: "2 ^ (?l - 1) \<le> ?x" "?x < 2 ^ ?l" "0 < ?l" by blast+
  have e: "2 ^ ?l = 2 * (2 :: int) ^ (?l - 1)" using l(3) by (metis Suc_pred' power_Suc)
  have "?x div 2 ^ (?l - 1) = 1" by (rule int_div_pos_eq [where r = "?x - 2 ^ (?l - 1)"]) (use l e in simp_all)
  then have top: "bit ?x (?l - 1)" by (simp add: bit_iff_odd)
  have s: "nat (255 - splitAt a b) = ?l - 1" using l(3) by (simp add: splitAt_def)
  show "kbit a (splitAt a b) \<noteq> kbit b (splitAt a b)" using top unfolding kbit_def s by (simp add: bit_simps)
  assume i: "0 \<le> i" "i < splitAt a b"
  then have n: "?l \<le> nat (255 - i)" by (simp add: splitAt_def)
  have "(2 :: int) ^ ?l \<le> 2 ^ nat (255 - i)" using n by (intro power_increasing) simp_all
  with l(2) have "?x < 2 ^ nat (255 - i)" by (rule less_le_trans)
  then have "?x div 2 ^ nat (255 - i) = 0" using x0 by (simp add: div_pos_pos_trivial)
  then have "\<not> bit ?x (nat (255 - i))" by (simp add: bit_iff_odd)
  then show "kbit a i = kbit b i" by (simp add: kbit_def bit_simps)
qed

subsection \<open>The invariant of the tree\<close>

fun tree_keys :: "spent_tree \<Rightarrow> int set" where
  "tree_keys (Leaf k h) = {k}"
| "tree_keys (Branch k b l r h) = tree_keys l \<union> tree_keys r"

definition agree :: "int \<Rightarrow> int \<Rightarrow> int \<Rightarrow> bool" where
  "agree n a b \<longleftrightarrow> (\<forall>i. 0 \<le> i \<and> i < n \<longrightarrow> kbit a i = kbit b i)"

fun node_frame :: "spent_tree \<Rightarrow> bytes" where
  "node_frame (Leaf k h) = V3_SPENT_LEAF_CONTEXT @ be_bytes 32 k"
| "node_frame (Branch k b l r h) = V3_SPENT_NODE_CONTEXT @ be_bytes 2 b @ t_hash l @ t_hash r"

text \<open>Every branch of the tree is below bit \<open>n\<close>, splits its keys by the first bit they differ in, and
  every node carries its first key and the digest of its frame.\<close>

fun tree_ok :: "crypto \<Rightarrow> int \<Rightarrow> spent_tree \<Rightarrow> bool" where
  "tree_ok C n (Leaf k h) \<longleftrightarrow> n \<le> 256 \<and> key_range k \<and> h = sha256 C (node_frame (Leaf k h))"
| "tree_ok C n (Branch k b l r h) \<longleftrightarrow> n \<le> b \<and> b \<le> 255 \<and> k = t_key l \<and> h = sha256 C (node_frame (Branch k b l r h)) \<and>
     tree_ok C (b + 1) l \<and> tree_ok C (b + 1) r \<and> (\<forall>x \<in> tree_keys l \<union> tree_keys r. agree b x k) \<and>
     (\<forall>x \<in> tree_keys l. \<not> kbit x b) \<and> (\<forall>x \<in> tree_keys r. kbit x b)"

lemma agree_refl [simp]: "agree n a a" by (simp add: agree_def)
lemma agree_zero [simp]: "agree 0 a b" by (auto simp: agree_def)
lemma agree_sym: "agree n a b \<Longrightarrow> agree n b a" by (simp add: agree_def)
lemma agree_trans: "agree n a b \<Longrightarrow> agree n b c \<Longrightarrow> agree n a c" by (simp add: agree_def)
lemma agree_less: "agree n a b \<Longrightarrow> m \<le> n \<Longrightarrow> agree m a b" by (simp add: agree_def)
lemma agree_Suc: "agree n a b \<Longrightarrow> kbit a n = kbit b n \<Longrightarrow> agree (n + 1) a b"
  by (metis agree_def zle_add1_eq_le order_le_less)

lemma tree_key_in: "tree_ok C n t \<Longrightarrow> t_key t \<in> tree_keys t"
  by (induction C n t rule: tree_ok.induct) auto

lemma tree_keys_range: "tree_ok C n t \<Longrightarrow> x \<in> tree_keys t \<Longrightarrow> key_range x"
  by (induction C n t rule: tree_ok.induct) auto

lemma tree_keys_finite [simp]: "finite (tree_keys t)"
  by (induction t) simp_all

lemma tree_ok_less: "tree_ok C n t \<Longrightarrow> m \<le> n \<Longrightarrow> tree_ok C m t"
  by (cases t) auto

lemma tree_ok_above: "tree_ok C n (Branch k b l r h) \<Longrightarrow> m \<le> b \<Longrightarrow> tree_ok C m (Branch k b l r h)"
  unfolding tree_ok.simps by (elim conjE) (intro conjI)

lemma terminal_leaf: "\<exists>k h. terminal key t = Leaf k h"
  by (induction t) simp_all

lemma terminal_key: "tree_ok C n t \<Longrightarrow> t_key (terminal key t) = key \<longleftrightarrow> key \<in> tree_keys t"
proof (induction t arbitrary: n)
  case (Branch k b l r h)
  then have "rightAt key b = kbit key b" by (simp add: rightAt_kbit)
  then show ?case using Branch by auto
qed auto

lemma branch_frame: "0 \<le> b \<Longrightarrow> b \<le> 255 \<Longrightarrow> branch C b l r = Branch (t_key l) b l r
    (sha256 C (node_frame (Branch (t_key l) b l r [])))"
proof -
  have "b AND 255 = b mod 256" using and_0xff [of b] by simp
  then show ?thesis
    by (simp add: branch_def drop_bit_eq_div numeral_2_eq_2)
qed

lemma branch_ok:
  assumes "0 \<le> b" and "b \<le> 255" and "n \<le> b" and "tree_ok C (b + 1) l" and "tree_ok C (b + 1) r"
    and "\<And>x. x \<in> tree_keys l \<union> tree_keys r \<Longrightarrow> agree b x k"
    and "\<And>x. x \<in> tree_keys l \<Longrightarrow> \<not> kbit x b" and "\<And>x. x \<in> tree_keys r \<Longrightarrow> kbit x b"
  shows "tree_ok C n (branch C b l r)" and "tree_keys (branch C b l r) = tree_keys l \<union> tree_keys r"
proof -
  have "agree b (t_key l) k" using assms(4,6) tree_key_in by blast
  then have "agree b x (t_key l)" if "x \<in> tree_keys l \<union> tree_keys r" for x
    using assms(6) [OF that] agree_sym agree_trans by blast
  then show "tree_ok C n (branch C b l r)" using assms by (simp add: branch_frame)
qed (simp add: branch_def)

text \<open>Splitting a tree whose keys agree up to the split with a key it does not hold.\<close>

lemma split_above:
  assumes "key_range key" and "tree_ok C (b + 1) t" and "tree_ok C (b + 1) leaf" and "tree_keys leaf = {key}"
    and "0 \<le> n" and "n \<le> b" and "b \<le> 255" and "\<And>x. x \<in> tree_keys t \<Longrightarrow> agree b x key \<and> kbit x b \<noteq> kbit key b"
  shows "let u = (if rightAt key b then branch C b t leaf else branch C b leaf t)
    in tree_ok C n u \<and> tree_keys u = insert key (tree_keys t)"
proof (cases "kbit key b")
  case True
  then have "rightAt key b" using rightAt_kbit assms(7) by blast
  moreover have "tree_ok C n (branch C b t leaf)" "tree_keys (branch C b t leaf) = tree_keys t \<union> tree_keys leaf"
    by (rule branch_ok [of b n C t leaf key]; use assms True in auto)+
  ultimately show ?thesis using assms(4) by simp
next
  case False
  then have "\<not> rightAt key b" using rightAt_kbit assms(7) by blast
  moreover have "tree_ok C n (branch C b leaf t)" "tree_keys (branch C b leaf t) = tree_keys leaf \<union> tree_keys t"
    by (rule branch_ok [of b n C leaf t key]; use assms False in auto)+
  ultimately show ?thesis using assms(4) by simp
qed

lemma split_bounds:
  assumes "key_range k" "key_range key" "k \<noteq> key" "agree n k key" "n \<le> 256"
  shows "n \<le> splitAt k key" and "agree (splitAt k key) k key" and "kbit k (splitAt k key) \<noteq> kbit key (splitAt k key)"
    and "0 \<le> splitAt k key" and "splitAt k key \<le> 255"
proof -
  show r: "0 \<le> splitAt k key" "splitAt k key \<le> 255" using splitAt_range [OF assms(1,2)] by simp_all
  show d: "kbit k (splitAt k key) \<noteq> kbit key (splitAt k key)" by (rule splitAt_bits(1) [OF assms(1-3)])
  show "n \<le> splitAt k key"
  proof (rule ccontr)
    assume "\<not> n \<le> splitAt k key"
    then show False using assms(4) d r by (simp add: agree_def)
  qed
  show "agree (splitAt k key) k key" using splitAt_bits(2) [OF assms(1-3)] by (simp add: agree_def)
qed

lemma insert_node_ok:
  assumes "tree_ok C n t" and "0 \<le> n" and "key_range key" and "key \<notin> tree_keys t"
    and "\<And>m. m \<le> 256 \<Longrightarrow> tree_ok C m leaf" and "tree_keys leaf = {key}" and "\<And>x. x \<in> tree_keys t \<Longrightarrow> agree n x key"
    and "insert_node C key leaf t = (u, c)"
  shows "tree_ok C n u \<and> tree_keys u = insert key (tree_keys t) \<and> 1 \<le> c \<and> c \<le> 256 - n"
  using assms
proof (induction t arbitrary: n u c)
  case (Leaf k h)
  have k: "key_range k" "k \<noteq> key" "n \<le> 256" "agree n k key" using Leaf.prems by auto
  note b = split_bounds [OF k(1) assms(3) k(2,4,3)]
  from split_above [OF assms(3), of C "splitAt k key" "Leaf k h" leaf n]
  have "let v = (if rightAt key (splitAt k key) then branch C (splitAt k key) (Leaf k h) leaf
      else branch C (splitAt k key) leaf (Leaf k h)) in tree_ok C n v \<and> tree_keys v = insert key {k}"
    using Leaf.prems(1,2,5,6) b by simp
  then show ?case using Leaf.prems(8) k(2) b(1,5) by (auto simp: Let_def split: if_splits)
next
  case (Branch k nb l r h)
  note t = Branch.prems(1) [unfolded tree_ok.simps]
  have kin: "k \<in> tree_keys (Branch k nb l r h)" using tree_key_in [OF Branch.prems(1)] by simp
  have k: "key_range k" "k \<noteq> key" "n \<le> 256" "agree n k key"
    using kin tree_keys_range [OF Branch.prems(1) kin] Branch.prems(4,7) t by auto
  note b = split_bounds [OF k(1) assms(3) k(2,4,3)]
  show ?case
  proof (cases "splitAt k key < nb")
    case True
    have sp: "agree (splitAt k key) x key \<and> kbit x (splitAt k key) \<noteq> kbit key (splitAt k key)"
      if x: "x \<in> tree_keys (Branch k nb l r h)" for x
    proof -
      have a: "agree nb x k" using t x by auto
      then have "kbit x (splitAt k key) = kbit k (splitAt k key)" using True b(4) by (simp add: agree_def)
      then show ?thesis using agree_trans [OF agree_less [OF a] b(2)] True b(3) by simp
    qed
    have "tree_ok C (splitAt k key + 1) (Branch k nb l r h)" by (rule tree_ok_above [OF Branch.prems(1)]) (use True in simp)
    from split_above [OF assms(3) this Branch.prems(5,6,2) b(1,5) sp] b(5)
    have "let v = (if rightAt key (splitAt k key) then branch C (splitAt k key) (Branch k nb l r h) leaf
        else branch C (splitAt k key) leaf (Branch k nb l r h))
      in tree_ok C n v \<and> tree_keys v = insert key (tree_keys (Branch k nb l r h))" by simp
    then show ?thesis using Branch.prems(8) k(2) b(1,5) True by (auto simp: Let_def split: if_splits)
  next
    case False
    have ag: "agree nb x key" if "x \<in> tree_keys l \<union> tree_keys r" for x
      using agree_trans [OF _ agree_less [OF b(2)]] t that False by auto
    have nb: "0 \<le> nb" "nb \<le> 255" "n \<le> nb" "nb + 1 \<le> 256" using t Branch.prems(2) by auto
    have right: "rightAt key nb = kbit key nb" using nb(2) by (rule rightAt_kbit)
    show ?thesis
    proof (cases "kbit key nb")
      case True
      obtain r' c' where i: "insert_node C key leaf r = (r', c')" by fastforce
      then have u: "u = branch C nb l r'" "c = c' + 1" using Branch.prems(8) k(2) False True right by auto
      have ih: "tree_ok C (nb + 1) r' \<and> tree_keys r' = insert key (tree_keys r) \<and> 1 \<le> c' \<and> c' \<le> 256 - (nb + 1)"
      proof (rule Branch.IH(2) [OF _ _ assms(3) _ Branch.prems(5,6) _ i])
        show "agree (nb + 1) x key" if "x \<in> tree_keys r" for x using agree_Suc [OF ag] t that True by auto
      qed (use t nb Branch.prems(4) in auto)
      have "tree_ok C n (branch C nb l r')" "tree_keys (branch C nb l r') = tree_keys l \<union> tree_keys r'"
        by (rule branch_ok [of nb n C l r' key]; use t nb ih ag True in auto)+
      then show ?thesis using ih u nb by auto
    next
      case kf: False
      obtain l' c' where i: "insert_node C key leaf l = (l', c')" by fastforce
      then have u: "u = branch C nb l' r" "c = c' + 1" using Branch.prems(8) k(2) False kf right by auto
      have ih: "tree_ok C (nb + 1) l' \<and> tree_keys l' = insert key (tree_keys l) \<and> 1 \<le> c' \<and> c' \<le> 256 - (nb + 1)"
      proof (rule Branch.IH(1) [OF _ _ assms(3) _ Branch.prems(5,6) _ i])
        show "agree (nb + 1) x key" if "x \<in> tree_keys l" for x using agree_Suc [OF ag] t that kf by auto
      qed (use t nb Branch.prems(4) in auto)
      have "tree_ok C n (branch C nb l' r)" "tree_keys (branch C nb l' r) = tree_keys l' \<union> tree_keys r"
        by (rule branch_ok [of nb n C l' r key]; use t nb ih ag kf in auto)+
      then show ?thesis using ih u nb by auto
    qed
  qed
qed

subsection \<open>One tree per set of keys\<close>

lemma tree_ok_two: "tree_ok C n (Branch k b l r h) \<Longrightarrow> \<exists>x \<in> tree_keys l. \<exists>y \<in> tree_keys r. kbit x b \<noteq> kbit y b"
  using tree_key_in by (metis tree_ok.simps(2))

lemma tree_keys_two: "tree_ok C n (Branch k b l r h) \<Longrightarrow> tree_keys (Branch k b l r h) \<noteq> {x}"
proof
  assume "tree_ok C n (Branch k b l r h)" and s: "tree_keys (Branch k b l r h) = {x}"
  then obtain y z where yz: "y \<in> tree_keys l" "z \<in> tree_keys r" "kbit y b \<noteq> kbit z b" using tree_ok_two by blast
  have "y \<in> tree_keys (Branch k b l r h)" "z \<in> tree_keys (Branch k b l r h)" using yz by simp_all
  then have "y = z" unfolding s by simp
  with yz(3) show False by simp
qed

lemma branch_bit_le:
  assumes "tree_ok C n (Branch k b l r h)" and "tree_ok C m (Branch k' b' l' r' h')" and "0 \<le> n"
    and "tree_keys (Branch k b l r h) = tree_keys (Branch k' b' l' r' h')"
  shows "b' \<le> b"
proof (rule ccontr)
  assume "\<not> b' \<le> b"
  moreover obtain x y where xy: "x \<in> tree_keys l" "y \<in> tree_keys r" "kbit x b \<noteq> kbit y b" using tree_ok_two [OF assms(1)] by blast
  moreover have "agree b' x k'" "agree b' y k'" using assms(2,4) xy(1,2) by auto
  moreover have "0 \<le> b" using assms(1,3) by simp
  ultimately show False by (auto simp: agree_def)
qed

lemma tree_unique: "tree_ok C n t \<Longrightarrow> tree_ok C m u \<Longrightarrow> 0 \<le> n \<Longrightarrow> 0 \<le> m \<Longrightarrow> tree_keys t = tree_keys u \<Longrightarrow> t = u"
proof (induction t arbitrary: n m u)
  case (Leaf k h)
  show ?case
  proof (cases u)
    case (Branch k' b l r h')
    from tree_keys_two [OF Leaf.prems(2) [unfolded Branch]] Leaf.prems(5) show ?thesis unfolding Branch tree_keys.simps by metis
  qed (use Leaf.prems in auto)
next
  case (Branch k b l r h)
  show ?case
  proof (cases u)
    case (Leaf k' h')
    from tree_keys_two [OF Branch.prems(1)] Branch.prems(5) show ?thesis unfolding Leaf tree_keys.simps by metis
  next
    case u: (Branch k' b' l' r' h')
    have b: "b = b'" using branch_bit_le [OF Branch.prems(1) Branch.prems(2) [unfolded u]]
        branch_bit_le [OF Branch.prems(2) [unfolded u] Branch.prems(1)] Branch.prems(3,4,5) u by fastforce
    note t = Branch.prems(1) [unfolded tree_ok.simps] and t' = Branch.prems(2) [unfolded u tree_ok.simps]
    have "tree_keys l = {x \<in> tree_keys l \<union> tree_keys r. \<not> kbit x b}" using t by auto
    moreover have "tree_keys l' = {x \<in> tree_keys l' \<union> tree_keys r'. \<not> kbit x b}" using t' b by auto
    moreover have "tree_keys r = {x \<in> tree_keys l \<union> tree_keys r. kbit x b}" using t by auto
    moreover have "tree_keys r' = {x \<in> tree_keys l' \<union> tree_keys r'. kbit x b}" using t' b by auto
    moreover have "tree_keys l \<union> tree_keys r = tree_keys l' \<union> tree_keys r'" using Branch.prems(5) u by simp
    ultimately have e: "tree_keys l = tree_keys l'" "tree_keys r = tree_keys r'" by metis+
    have z: "0 \<le> b + 1" using t Branch.prems(3) by simp
    have "l = l'" by (rule Branch.IH(1) [of "b + 1" "b + 1"]) (use t t' b e z in auto)
    moreover have "r = r'" by (rule Branch.IH(2) [of "b + 1" "b + 1"]) (use t t' b e z in auto)
    ultimately show ?thesis using t t' b u by simp
  qed
qed

fun node_frames :: "spent_tree \<Rightarrow> bytes set" where
  "node_frames (Leaf k h) = {node_frame (Leaf k h)}"
| "node_frames (Branch k b l r h) = insert (node_frame (Branch k b l r h)) (node_frames l \<union> node_frames r)"

lemma spent_contexts: "V3_SPENT_LEAF_CONTEXT @ x \<noteq> V3_SPENT_NODE_CONTEXT @ y" "V3_SPENT_EMPTY_CONTEXT \<noteq> V3_SPENT_LEAF_CONTEXT @ x"
  "V3_SPENT_EMPTY_CONTEXT \<noteq> V3_SPENT_NODE_CONTEXT @ y"
proof -
  have i: "V3_SPENT_LEAF_CONTEXT \<in> set ALL_CONTEXTS" "V3_SPENT_NODE_CONTEXT \<in> set ALL_CONTEXTS"
    "V3_SPENT_EMPTY_CONTEXT \<in> set ALL_CONTEXTS" by (simp_all add: ALL_CONTEXTS_def)
  have n: "V3_SPENT_LEAF_CONTEXT \<noteq> V3_SPENT_NODE_CONTEXT" "V3_SPENT_EMPTY_CONTEXT \<noteq> V3_SPENT_LEAF_CONTEXT"
    "V3_SPENT_EMPTY_CONTEXT \<noteq> V3_SPENT_NODE_CONTEXT" by code_simp+
  show "V3_SPENT_LEAF_CONTEXT @ x \<noteq> V3_SPENT_NODE_CONTEXT @ y" using i n context_frames_apart by blast
  show "V3_SPENT_EMPTY_CONTEXT \<noteq> V3_SPENT_LEAF_CONTEXT @ x" using i n context_frames_apart [of _ _ "[]"] by force
  show "V3_SPENT_EMPTY_CONTEXT \<noteq> V3_SPENT_NODE_CONTEXT @ y" using i n context_frames_apart [of _ _ "[]"] by force
qed

lemma node_frame_in: "node_frame t \<in> node_frames t"
  by (cases t) simp_all

lemma tree_hash: "tree_ok C n t \<Longrightarrow> t_hash t = sha256 C (node_frame t)"
  by (cases t) simp_all

lemma tree_binds:
  assumes "sha_width C"
  shows "tree_ok C n t \<Longrightarrow> tree_ok C m u \<Longrightarrow> 0 \<le> n \<Longrightarrow> 0 \<le> m \<Longrightarrow> t_hash t = t_hash u \<Longrightarrow>
    inj_on (sha256 C) (node_frames t \<union> node_frames u) \<Longrightarrow> t = u"
proof (induction t arbitrary: n m u)
  case (Leaf k h)
  have f: "node_frame (Leaf k h) = node_frame u"
    using inj_onD [OF Leaf.prems(6)] tree_hash [OF Leaf.prems(1)] tree_hash [OF Leaf.prems(2)] Leaf.prems(5) node_frame_in by simp
  show ?case
  proof (cases u)
    case u: (Leaf k' h')
    have "k = k'" by (rule be_bytes_inj [of 32]) (use f u Leaf.prems(1,2) in \<open>simp_all add: key_range_def\<close>)
    then show ?thesis using u Leaf.prems(5) by simp
  qed (use f spent_contexts(1) in auto)
next
  case (Branch k b l r h)
  have f: "node_frame (Branch k b l r h) = node_frame u"
    using inj_onD [OF Branch.prems(6)] tree_hash [OF Branch.prems(1)] tree_hash [OF Branch.prems(2)] Branch.prems(5) node_frame_in by simp
  show ?case
  proof (cases u)
    case (Leaf k' h')
    then show ?thesis using f spent_contexts(1) by (metis node_frame.simps)
  next
    case u: (Branch k' b' l' r' h')
    note t = Branch.prems(1) [unfolded tree_ok.simps] and t' = Branch.prems(2) [unfolded u tree_ok.simps]
    have w: "length (t_hash v) = 32" if "tree_ok C i v" for i v using tree_hash [OF that] assms by (simp add: sha_width_def)
    have p: "be_bytes 2 b = be_bytes 2 b'" "t_hash l = t_hash l'" "t_hash r = t_hash r'"
      using f u t t' w by (auto simp: append_eq_append_conv)
    have b: "b = b'" by (rule be_bytes_inj [OF p(1)]) (use t t' Branch.prems(3,4) in simp_all)
    have z: "0 \<le> b + 1" using t Branch.prems(3) by simp
    have sub: "node_frames l \<union> node_frames l' \<subseteq> node_frames (Branch k b l r h) \<union> node_frames u"
      "node_frames r \<union> node_frames r' \<subseteq> node_frames (Branch k b l r h) \<union> node_frames u" using u by auto
    have "l = l'" by (rule Branch.IH(1) [of "b + 1" "b + 1"]) (use t t' b p z inj_on_subset [OF Branch.prems(6) sub(1)] in auto)
    moreover have "r = r'" by (rule Branch.IH(2) [of "b + 1" "b + 1"]) (use t t' b p z inj_on_subset [OF Branch.prems(6) sub(2)] in auto)
    ultimately show ?thesis using t t' b u Branch.prems(5) by simp
  qed
qed

subsection \<open>The interface of a spent set\<close>

text \<open>
  What the pool's state relies on in a spent set: a key goes in once, a key that is in is found, and
  nothing else is.  The lemmas follow for any sequence of insertions.
\<close>

locale insert_once_set =
  fixes inv :: "'s \<Rightarrow> bool" and contents :: "'s \<Rightarrow> 'k set" and new :: 's
    and ins :: "'s \<Rightarrow> 'k \<Rightarrow> 's result" and has :: "'k \<Rightarrow> 's \<Rightarrow> bool result" and ok :: "'k \<Rightarrow> bool"
  assumes new_inv: "inv new" and new_contents: "contents new = {}"
    and ins_defined: "inv s \<Longrightarrow> isOk (ins s k) \<longleftrightarrow> ok k \<and> k \<notin> contents s"
    and ins_result: "inv s \<Longrightarrow> ins s k = Inr s' \<Longrightarrow> inv s' \<and> contents s' = insert k (contents s)"
    and has_result: "inv s \<Longrightarrow> has k s = Inr b \<longleftrightarrow> ok k \<and> b = (k \<in> contents s)"
begin

lemma fold_result: "inv s \<Longrightarrow> foldR ins s ks = Inr s' \<Longrightarrow> inv s' \<and> contents s' = contents s \<union> set ks"
proof (induction ks arbitrary: s)
  case (Cons k ks)
  from Cons.prems(2) obtain u where u: "ins s k = Inr u" "foldR ins u ks = Inr s'" by (auto simp: bindR_Inr_conv)
  from ins_result [OF Cons.prems(1) u(1)] have i: "inv u" "contents u = insert k (contents s)" by simp_all
  from Cons.IH [OF i(1) u(2)] i(2) show ?case by simp
qed simp

lemma fold_defined: "inv s \<Longrightarrow> isOk (foldR ins s ks) \<longleftrightarrow> distinct ks \<and> list_all ok ks \<and> set ks \<inter> contents s = {}"
proof (induction ks arbitrary: s)
  case (Cons k ks)
  show ?case
  proof (cases "ins s k")
    case (Inl e)
    then have "\<not> (ok k \<and> k \<notin> contents s)" using ins_defined [OF Cons.prems, of k] by simp
    then show ?thesis using Inl by auto
  next
    case (Inr u)
    then have k: "ok k" "k \<notin> contents s" using ins_defined [OF Cons.prems, of k] by simp_all
    from ins_result [OF Cons.prems Inr] have i: "inv u" "contents u = insert k (contents s)" by simp_all
    from Cons.IH [OF i(1)] show ?thesis using Inr k i(2) by auto
  qed
qed simp

lemma built: "foldR ins new ks = Inr s \<Longrightarrow> inv s \<and> contents s = set ks"
  using fold_result [OF new_inv] new_contents by fastforce

lemma built_defined: "isOk (foldR ins new ks) \<longleftrightarrow> distinct ks \<and> list_all ok ks"
  using fold_defined [OF new_inv] new_contents by simp

lemma built_has: "foldR ins new ks = Inr s \<Longrightarrow> has k s = Inr b \<longleftrightarrow> ok k \<and> b = (k \<in> set ks)"
  using built has_result by blast

end

subsection \<open>The set's operations\<close>

definition ss_keys :: "spent_set \<Rightarrow> int set" where
  "ss_keys s = (case ss_tree s of None \<Rightarrow> {} | Some t \<Rightarrow> tree_keys t)"

definition ss_contents :: "spent_set \<Rightarrow> bytes set" where
  "ss_contents s = be_bytes 32 ` ss_keys s"

definition ss_inv :: "crypto \<Rightarrow> spent_set \<Rightarrow> bool" where
  "ss_inv C s \<longleftrightarrow> (\<forall>t. ss_tree s = Some t \<longrightarrow> tree_ok C 0 t) \<and> ss_size s = int (card (ss_keys s)) \<and>
     ss_size s \<le> ss_hashes s \<and> ss_hashes s \<le> 257 * ss_size s"

lemma keyOf_conv: "keyOf bs = Inr x \<longleftrightarrow> length bs = 32 \<and> x = (be_int bs, bs)"
  by (auto simp: keyOf_def be_int_def push_bit_8_or_byte)

lemma key_range_bytes: "length bs = 32 \<Longrightarrow> key_range (be_int bs)"
  using be_int_bound [of bs] by (simp add: key_range_def)

lemma ss_keys_range: "ss_inv C s \<Longrightarrow> k \<in> ss_keys s \<Longrightarrow> key_range k"
  by (auto simp: ss_inv_def ss_keys_def split: option.splits dest: tree_keys_range)

lemma ss_contents_key: "ss_inv C s \<Longrightarrow> length bs = 32 \<Longrightarrow> bs \<in> ss_contents s \<longleftrightarrow> be_int bs \<in> ss_keys s"
proof -
  assume s: "ss_inv C s" and l: "length bs = 32"
  have k: "be_bytes 32 (be_int bs) = bs" using be_bytes_be_int [of bs] l by simp
  show ?thesis
  proof
    assume "bs \<in> ss_contents s"
    then obtain x where x: "x \<in> ss_keys s" "bs = be_bytes 32 x" by (auto simp: ss_contents_def)
    from ss_keys_range [OF s x(1)] have "be_int bs = x" by (simp add: x(2) key_range_def)
    with x(1) show "be_int bs \<in> ss_keys s" by simp
  next
    assume "be_int bs \<in> ss_keys s"
    then show "bs \<in> ss_contents s" unfolding ss_contents_def by (intro image_eqI [of _ _ "be_int bs"]) (simp_all add: k)
  qed
qed

lemma ss_has_conv: "ss_inv C s \<Longrightarrow> ss_has bs s = Inr b \<longleftrightarrow> length bs = 32 \<and> b = (bs \<in> ss_contents s)"
proof -
  assume s: "ss_inv C s"
  have "(case ss_tree s of None \<Rightarrow> False | Some t \<Rightarrow> t_key (terminal key t) = key) \<longleftrightarrow> key \<in> ss_keys s" for key
    using s terminal_key by (auto simp: ss_inv_def ss_keys_def split: option.splits)
  then show ?thesis using ss_contents_key [OF s] by (auto simp: ss_has_def bindR_Inr_conv keyOf_conv)
qed

lemma spent_leaf_ok: "length bs = 32 \<Longrightarrow> m \<le> 256 \<Longrightarrow> tree_ok C m (spent_leaf C (be_int bs) bs)"
  using be_bytes_be_int [of bs] by (simp add: spent_leaf_def key_range_bytes)

lemma ss_insert_defined: "ss_inv C s \<Longrightarrow> isOk (ss_insert C bs s) \<longleftrightarrow> length bs = 32 \<and> bs \<notin> ss_contents s"
proof -
  assume s: "ss_inv C s"
  have "(case ss_tree s of None \<Rightarrow> True | Some t \<Rightarrow> t_key (terminal key t) \<noteq> key) \<longleftrightarrow> key \<notin> ss_keys s" for key
    using s terminal_key by (auto simp: ss_inv_def ss_keys_def split: option.splits)
  then show ?thesis using ss_contents_key [OF s]
    by (auto simp: ss_insert_def isOk_conv bindR_Inr_conv keyOf_conv Let_def case_prod_unfold)
qed

lemma ss_insert_result:
  assumes "ss_inv C s" and "ss_insert C bs s = Inr s'"
  shows "ss_inv C s' \<and> ss_contents s' = insert bs (ss_contents s)"
proof -
  let ?k = "be_int bs" and ?leaf = "spent_leaf C (be_int bs) bs"
  have l: "length bs = 32" and new: "bs \<notin> ss_contents s"
    using ss_insert_defined [OF assms(1), of bs] assms(2) by simp_all
  have nk: "?k \<notin> ss_keys s" using new ss_contents_key [OF assms(1) l] by simp
  have leaf: "tree_keys ?leaf = {?k}" by (simp add: spent_leaf_def)
  let ?p = "case ss_tree s of None \<Rightarrow> (?leaf, 0) | Some t \<Rightarrow> insert_node C ?k ?leaf t"
  obtain t n where tn: "?p = (t, n)" by fastforce
  have s': "s' = \<lparr>ss_tree = Some t, ss_size = ss_size s + 1, ss_hashes = ss_hashes s + (1 + n)\<rparr>"
    using assms(2) tn by (auto simp: ss_insert_def bindR_Inr_conv keyOf_conv Let_def)
  have t: "tree_ok C 0 t \<and> tree_keys t = insert ?k (ss_keys s) \<and> 0 \<le> n \<and> n \<le> 256"
  proof (cases "ss_tree s")
    case None
    then have "t = ?leaf" "n = 0" using tn by simp_all
    then show ?thesis using None leaf spent_leaf_ok [OF l, of 0] by (auto simp: ss_keys_def)
  next
    case (Some u)
    have "tree_ok C 0 t \<and> tree_keys t = insert ?k (tree_keys u) \<and> 1 \<le> n \<and> n \<le> 256 - 0"
    proof (rule insert_node_ok)
      show "tree_ok C 0 u" using assms(1) Some by (simp add: ss_inv_def)
      show "insert_node C ?k ?leaf u = (t, n)" using tn Some by simp
      show "?k \<notin> tree_keys u" using nk Some by (simp add: ss_keys_def)
      show "tree_ok C m ?leaf" if "m \<le> 256" for m using spent_leaf_ok [OF l that] .
    qed (use leaf key_range_bytes [OF l] in simp_all)
    then show ?thesis using Some by (simp add: ss_keys_def)
  qed
  have keys: "ss_keys s' = insert ?k (ss_keys s)" using t by (simp add: s' ss_keys_def)
  have "finite (ss_keys s)" by (simp add: ss_keys_def split: option.splits)
  then have "card (ss_keys s') = Suc (card (ss_keys s))" using keys nk by simp
  then have "ss_inv C s'" using assms(1) t by (simp add: ss_inv_def s')
  moreover have "ss_contents s' = insert bs (ss_contents s)"
    using be_bytes_be_int [of bs] l by (simp add: ss_contents_def keys)
  ultimately show ?thesis by simp
qed

interpretation radix: insert_once_set "ss_inv C" ss_contents newSpentSet "\<lambda>s k. ss_insert C k s" ss_has "\<lambda>k. length k = 32" for C
proof unfold_locales
  show "ss_inv C newSpentSet" by (simp add: ss_inv_def newSpentSet_def ss_keys_def)
  show "ss_contents newSpentSet = {}" by (simp add: ss_contents_def newSpentSet_def ss_keys_def)
qed (use ss_insert_defined ss_insert_result ss_has_conv in blast)+

definition spent_frames :: "spent_set \<Rightarrow> bytes set" where
  "spent_frames s = (case ss_tree s of None \<Rightarrow> {V3_SPENT_EMPTY_CONTEXT} | Some t \<Rightarrow> node_frames t)"

lemma ss_same_keys:
  assumes "ss_inv C s" and "ss_inv C t" and "ss_contents s = ss_contents t"
  shows "ss_tree s = ss_tree t"
proof -
  have "ss_keys s = be_int ` ss_contents s" if "ss_inv C s" for s
    using ss_keys_range [OF that] by (force simp: ss_contents_def key_range_def image_image)
  then have k: "ss_keys s = ss_keys t" using assms by metis
  show ?thesis
  proof (cases "ss_tree s"; cases "ss_tree t")
    fix a b
    assume a: "ss_tree s = Some a" "ss_tree t = Some b"
    then have "a = b" using tree_unique [of C 0 a 0 b] assms(1,2) k by (simp add: ss_inv_def ss_keys_def)
    then show ?thesis using a by simp
  next
    fix b assume "ss_tree s = None" "ss_tree t = Some b"
    then show ?thesis using k tree_key_in [of C 0 b] assms(2) by (auto simp: ss_keys_def ss_inv_def)
  next
    fix a assume "ss_tree s = Some a" "ss_tree t = None"
    then show ?thesis using k tree_key_in [of C 0 a] assms(1) by (auto simp: ss_keys_def ss_inv_def)
  qed simp
qed

lemma ss_root_binds:
  assumes "sha_width C" and "ss_inv C s" and "ss_inv C t" and "ss_root C s = ss_root C t"
    and "inj_on (sha256 C) (spent_frames s \<union> spent_frames t)"
  shows "ss_tree s = ss_tree t"
proof -
  have empty: "node_frame a \<noteq> V3_SPENT_EMPTY_CONTEXT" for a using spent_contexts(2,3) by (cases a) (simp, metis node_frame.simps)+
  have apart: "False" if "tree_ok C 0 a" "t_hash a = EMPTY C" "inj_on (sha256 C) (node_frames a \<union> {V3_SPENT_EMPTY_CONTEXT})" for a
    using inj_onD [OF that(3), of "node_frame a" V3_SPENT_EMPTY_CONTEXT] that(2) tree_hash [OF that(1)] node_frame_in [of a] empty [of a]
    by (simp add: EMPTY_def)
  show ?thesis
  proof (cases "ss_tree s"; cases "ss_tree t")
    fix a b assume a: "ss_tree s = Some a" "ss_tree t = Some b"
    then have "a = b" using tree_binds [OF assms(1), of 0 a 0 b] assms(2-5) by (simp add: ss_inv_def ss_root_def spent_frames_def)
    then show ?thesis using a by simp
  next
    fix b assume b: "ss_tree s = None" "ss_tree t = Some b"
    then show ?thesis using apart [of b] assms(3,4,5) by (simp add: ss_inv_def ss_root_def spent_frames_def Un_commute)
  next
    fix a assume a: "ss_tree s = Some a" "ss_tree t = None"
    then show ?thesis using apart [of a] assms(2,4,5) by (simp add: ss_inv_def ss_root_def spent_frames_def Un_commute)
  qed simp
qed

subsection \<open>Properties\<close>

text \<open>the spent set is a set of nullifiers. A sequence of insertions succeeds exactly where every key is 32 bytes and none
  occurs twice, and the set then has exactly those keys, refuses a lookup of any other width, counts them, and has hashed
  at most 257 frames for each.\<close>

theorem spent_set_answers:
  assumes "foldR (\<lambda>s k. ss_insert C k s) newSpentSet ks = Inr s"
  shows "(\<forall>b. ss_has k s = Inr b \<longleftrightarrow> length k = 32 \<and> b = (k \<in> set ks)) \<and>
    (isOk (ss_insert C k s) \<longleftrightarrow> length k = 32 \<and> k \<notin> set ks) \<and> distinct ks \<and> ss_size s = int (length ks) \<and>
    ss_hashes s \<le> 257 * int (length ks)"
proof -
  from radix.built [OF assms] have i: "ss_inv C s" "ss_contents s = set ks" by simp_all
  have d: "distinct ks" using radix.built_defined [of C ks] assms by simp
  have "inj_on (be_bytes 32) (ss_keys s)"
    using ss_keys_range [OF i(1)] by (auto intro!: inj_onI simp: key_range_def elim!: be_bytes_inj)
  then have "card (ss_keys s) = card (set ks)" using i(2) by (simp add: ss_contents_def card_image [symmetric])
  then have "ss_size s = int (length ks)" using i(1) d by (simp add: ss_inv_def distinct_card)
  moreover have "ss_hashes s \<le> 257 * ss_size s" using i(1) by (simp add: ss_inv_def)
  ultimately show ?thesis using d radix.built_has [OF assms] radix.ins_defined [OF i(1), of k] i(2) by simp
qed

lemma example_spent_keys: "replicate 32 (1 :: byte) \<noteq> 2 # replicate 31 0" "replicate 32 (3 :: byte) \<noteq> 2 # replicate 31 0"
  "replicate 32 (3 :: byte) \<noteq> replicate 32 1"
  by code_simp+

lemma example_spent: "isOk (foldR (\<lambda>s k. ss_insert C k s) newSpentSet [replicate 32 1, 2 # replicate 31 0])"
  "isOk (foldR (\<lambda>s k. ss_insert C k s) newSpentSet [2 # replicate 31 0, replicate 32 1])"
  unfolding radix.built_defined using example_spent_keys by simp_all

lemma spent_set_answers_witness:
  "\<exists>s. foldR (\<lambda>s k. ss_insert toy_crypto k s) newSpentSet [replicate 32 1, 2 # replicate 31 0] = Inr s \<and>
     ss_has (2 # replicate 31 0) s = Inr True \<and> ss_has (replicate 32 3) s = Inr False \<and> ss_size s = 2"
proof -
  obtain s where s: "foldR (\<lambda>s k. ss_insert toy_crypto k s) newSpentSet [replicate 32 1, 2 # replicate 31 0] = Inr s"
    using example_spent(1) by (auto simp: isOk_conv)
  show ?thesis using spent_set_answers [OF s, of "2 # replicate 31 0"] spent_set_answers [OF s, of "replicate 32 3"] s example_spent_keys by simp
qed

text \<open>C35: one set has one tree, in any order of insertion, and one root has one set. Two sequences of insertions with the same
  keys build the same tree, hashes included, and so the same root; and conversely two sets with one root have the same keys, where
  SHA-256 has its 32 bytes and does not collide on the frames their roots hash.\<close>

theorem spent_root_canonical:
  assumes "foldR (\<lambda>s k. ss_insert C k s) newSpentSet ks = Inr s" and "foldR (\<lambda>s k. ss_insert C k s) newSpentSet js = Inr t"
  shows "(set ks = set js \<longrightarrow> ss_tree s = ss_tree t \<and> ss_root C s = ss_root C t) \<and>
    (sha_width C \<longrightarrow> inj_on (sha256 C) (spent_frames s \<union> spent_frames t) \<longrightarrow> ss_root C s = ss_root C t \<longrightarrow> set ks = set js)"
proof (intro conjI impI)
  from radix.built [OF assms(1)] have i: "ss_inv C s" "ss_contents s = set ks" by simp_all
  from radix.built [OF assms(2)] have j: "ss_inv C t" "ss_contents t = set js" by simp_all
  show "ss_tree s = ss_tree t" "ss_root C s = ss_root C t" if "set ks = set js"
    using ss_same_keys [OF i(1) j(1)] i(2) j(2) that by (simp_all add: ss_root_def)
  show "set ks = set js" if "sha_width C" "inj_on (sha256 C) (spent_frames s \<union> spent_frames t)" "ss_root C s = ss_root C t"
    using ss_root_binds [OF that(1) i(1) j(1) that(3,2)] i(2) j(2) by (metis ss_contents_def ss_keys_def)
qed

lemma spent_root_canonical_witness:
  "\<exists>s t. foldR (\<lambda>s k. ss_insert toy_crypto k s) newSpentSet [replicate 32 1, 2 # replicate 31 0] = Inr s \<and>
     foldR (\<lambda>s k. ss_insert toy_crypto k s) newSpentSet [2 # replicate 31 0, replicate 32 1] = Inr t \<and>
     ss_tree s = ss_tree t \<and> inj_on (sha256 toy_crypto) (spent_frames s \<union> spent_frames t)"
proof -
  let ?f = "\<lambda>s k. ss_insert toy_crypto k s"
  obtain s t where s: "foldR ?f newSpentSet [replicate 32 1, 2 # replicate 31 0] = Inr s"
    and t: "foldR ?f newSpentSet [2 # replicate 31 0, replicate 32 1] = Inr t"
    using example_spent [of toy_crypto] by (auto simp: isOk_conv)
  have "ss_tree s = ss_tree t"
  proof (rule ss_same_keys)
    show "ss_inv toy_crypto s" "ss_inv toy_crypto t" using radix.built [OF s] radix.built [OF t] by blast+
    have "ss_contents s = set [replicate 32 1, 2 # replicate 31 0]" "ss_contents t = set [2 # replicate 31 0, replicate 32 1]"
      using radix.built [OF s] radix.built [OF t] by blast+
    then show "ss_contents s = ss_contents t" by (simp add: insert_commute)
  qed
  moreover have "distinct (map (sha256 toy_crypto) [V3_SPENT_LEAF_CONTEXT @ replicate 32 1, V3_SPENT_LEAF_CONTEXT @ (2 # replicate 31 0)])"
    by code_simp
  moreover have "case foldR ?f newSpentSet [replicate 32 1, 2 # replicate 31 0] of Inr s \<Rightarrow> (case ss_tree s of Some (Branch k b l r h) \<Rightarrow>
      l = Leaf (be_int (replicate 32 1)) (sha256 toy_crypto (V3_SPENT_LEAF_CONTEXT @ replicate 32 1)) \<and>
      r = Leaf (be_int (2 # replicate 31 0)) (sha256 toy_crypto (V3_SPENT_LEAF_CONTEXT @ (2 # replicate 31 0))) \<and>
      distinct (map (sha256 toy_crypto) [node_frame l, node_frame r, node_frame (Branch k b l r h)]) | _ \<Rightarrow> False) | _ \<Rightarrow> False"
    by code_simp
  then have "inj_on (sha256 toy_crypto) (spent_frames s)"
    unfolding s by (auto simp: spent_frames_def inj_on_def split: option.splits spent_tree.splits)
  ultimately have "inj_on (sha256 toy_crypto) (spent_frames s \<union> spent_frames t)" by (simp add: spent_frames_def)
  then show ?thesis using spent_root_canonical [OF s t] s t by auto
qed

end
