(* ===== verification/StoredSpent.thy ===== *)
theory StoredSpent
  imports SpentSet
begin

section \<open>The spent set's stored nodes (src/pool/v3/replay-store.ts)\<close>

text \<open>
  The replay store keeps a namespace's spent set as rows, one per node, each naming its children by
  row number, and updates them in place along the path of an insert.  The rows are a map from row
  numbers; the descent is a loop that may meet no end in damaged rows, so it is a partial function.
  The stored insert is shown to refine the insert of SpentSet on every sound set of rows.
\<close>

record spent_node =
  nd_key :: bytes
  nd_bit :: "int option"
  nd_l :: "int option"
  nd_r :: "int option"
  nd_hash :: bytes

record stored_spent =
  sp_top :: "int option"
  sp_next :: int
  sp_rows :: "int \<Rightarrow> spent_node option"

definition node_rightAt :: "bytes \<Rightarrow> int \<Rightarrow> bool" where
  "node_rightAt key b \<longleftrightarrow> drop_bit (nat (7 - (b AND 7))) (uint (key ! nat (drop_bit 3 b))) AND 1 = 1"

definition clz32 :: "int \<Rightarrow> int" where
  "clz32 x = (if x = 0 then 32 else 32 - int (binary_length x))"

fun split_loop :: "int \<Rightarrow> bytes \<Rightarrow> bytes \<Rightarrow> int" where
  "split_loop i (a # as) (b # bs) = (let x = uint a XOR uint b in
     if x \<noteq> 0 then i * 8 + clz32 x - 24 else split_loop (i + 1) as bs)"
| "split_loop i _ _ = 256"

definition node_splitAt :: "bytes \<Rightarrow> bytes \<Rightarrow> int" where
  "node_splitAt a b = split_loop 0 a b"

definition leafHash :: "crypto \<Rightarrow> bytes \<Rightarrow> bytes" where
  "leafHash C key = sha256 C (V3_SPENT_LEAF_CONTEXT @ key)"

definition branchHash :: "crypto \<Rightarrow> int \<Rightarrow> bytes \<Rightarrow> bytes \<Rightarrow> bytes" where
  "branchHash C b l r = sha256 C (V3_SPENT_NODE_CONTEXT @ [word_of_int (drop_bit 8 b), word_of_int (b AND 255)] @ l @ r)"

text \<open>Reading a row; the source's use of a missing row is a \<open>TypeError\<close>.\<close>

definition spentNode :: "(int \<Rightarrow> spent_node option) \<Rightarrow> int option \<Rightarrow> spent_node result" where
  "spentNode rows i = (case i of None \<Rightarrow> Inl (TypeError ''missing row'')
     | Some k \<Rightarrow> (case rows k of None \<Rightarrow> Inl (TypeError ''missing row'') | Some n \<Rightarrow> Inr n))"

type_synonym spent_step = "int \<times> spent_node \<times> bool"

text \<open>The descent to the node the new key splits from, with the path above it, nearest first.\<close>

partial_function (option) descend ::
    "(int \<Rightarrow> spent_node option) \<Rightarrow> bytes \<Rightarrow> int option \<Rightarrow> spent_step list \<Rightarrow> (int \<times> spent_node \<times> int \<times> spent_step list) result option" where
  "descend rows key i path = (case spentNode rows i of Inl e \<Rightarrow> Some (Inl e) | Inr node \<Rightarrow>
     let b = node_splitAt (nd_key node) key in
     case nd_bit node of None \<Rightarrow> Some (Inr (the i, node, b, path))
     | Some nb \<Rightarrow> if b < nb then Some (Inr (the i, node, b, path))
       else let rgt = node_rightAt key nb in
         descend rows key (if rgt then nd_r node else nd_l node) ((the i, node, rgt) # path))"

text \<open>The rows above are written again, each with its new child and hash.\<close>

fun climb :: "crypto \<Rightarrow> (int \<Rightarrow> spent_node option) \<Rightarrow> int \<Rightarrow> bytes \<Rightarrow> spent_step list \<Rightarrow> (int \<Rightarrow> spent_node option) result" where
  "climb C rows child h [] = Inr rows"
| "climb C rows child h ((pid, parent, isRight) # path) =
     bindR (spentNode rows (if isRight then nd_l parent else nd_r parent)) (\<lambda>other.
     let b = (case nd_bit parent of None \<Rightarrow> 0 | Some v \<Rightarrow> v);
         h' = (if isRight then branchHash C b (nd_hash other) h else branchHash C b h (nd_hash other));
         node = parent\<lparr>nd_l := (if isRight then nd_l parent else Some child),
                       nd_r := (if isRight then Some child else nd_r parent), nd_hash := h'\<rparr> in
     climb C (rows(pid \<mapsto> node)) pid h' path)"

definition sp_root :: "crypto \<Rightarrow> stored_spent \<Rightarrow> bytes result" where
  "sp_root C s = (case sp_top s of None \<Rightarrow> Inr (EMPTY C) | Some i \<Rightarrow> mapR nd_hash (spentNode (sp_rows s) (Some i)))"

definition sp_insert :: "crypto \<Rightarrow> stored_spent \<Rightarrow> bytes \<Rightarrow> stored_spent result option" where
  "sp_insert C s key =
     (let leafId = sp_next s; h = leafHash C key;
          rows = (sp_rows s)(leafId \<mapsto> \<lparr>nd_key = key, nd_bit = None, nd_l = None, nd_r = None, nd_hash = h\<rparr>) in
      case sp_top s of
        None \<Rightarrow> Some (Inr \<lparr>sp_top = Some leafId, sp_next = leafId + 1, sp_rows = rows\<rparr>)
      | Some tp \<Rightarrow> (case descend rows key (Some tp) [] of
          None \<Rightarrow> None
        | Some (Inl e) \<Rightarrow> Some (Inl e)
        | Some (Inr (i, node, b, path)) \<Rightarrow>
            if b = 256 then Some (Inl (PlainError ''nullifier already in the spent set''))
            else let branchId = leafId + 1; rgt = node_rightAt key b;
                h' = (if rgt then branchHash C b (nd_hash node) h else branchHash C b h (nd_hash node));
                rows' = rows(branchId \<mapsto> \<lparr>nd_key = nd_key node, nd_bit = Some b, nd_l = Some (if rgt then i else leafId),
                  nd_r = Some (if rgt then leafId else i), nd_hash = h'\<rparr>) in
              Some (mapR (\<lambda>final. \<lparr>sp_top = (if path = [] then Some branchId else Some tp), sp_next = branchId + 1, sp_rows = final\<rparr>)
                (climb C rows' branchId h' path))))"

definition newStoredSpent :: stored_spent where
  "newStoredSpent = \<lparr>sp_top = None, sp_next = 1, sp_rows = (\<lambda>_. None)\<rparr>"

subsection \<open>The bits of a stored key\<close>

lemma byte_bit_bound: "bit (uint (b :: byte)) n \<Longrightarrow> n < 8"
  by (auto simp: bit_simps dest: bit_imp_le_length)

lemma octet: "r < 8 \<Longrightarrow> (8 * k + r) div 8 = k" "r < 8 \<Longrightarrow> (8 * k + r) mod 8 = (r :: nat)"
  by simp_all

lemma octet_split: "\<exists>q r. n = 8 * q + r \<and> r < (8 :: nat)"
  by (intro exI [of _ "n div 8"] exI [of _ "n mod 8"]) simp

lemma be_int_bit: "n < 8 * length bs \<Longrightarrow> bit (be_int bs) n \<longleftrightarrow> bit (uint (bs ! (length bs - 1 - n div 8))) (n mod 8)"
proof (induction bs arbitrary: n rule: rev_induct)
  case (snoc b bs)
  have e: "be_int (bs @ [b]) = push_bit 8 (be_int bs) OR uint b" by (simp add: push_bit_8_or_byte)
  show ?case
  proof (cases "n < 8")
    case True
    then show ?thesis unfolding e by (simp add: bit_simps nth_append)
  next
    case False
    have "\<not> bit (uint b) n" using False byte_bit_bound by blast
    then have "bit (be_int (bs @ [b])) n \<longleftrightarrow> bit (be_int bs) (n - 8)" using False unfolding e by (simp add: bit_simps)
    also have "\<dots> \<longleftrightarrow> bit (uint (bs ! (length bs - 1 - (n - 8) div 8))) ((n - 8) mod 8)"
      by (rule snoc.IH) (use snoc.prems False in simp)
    also have "(n - 8) mod 8 = n mod 8" using False by (simp add: le_mod_geq)
    also have "bs ! (length bs - 1 - (n - 8) div 8) = (bs @ [b]) ! (length (bs @ [b]) - 1 - n div 8)"
    proof -
      have "n div 8 = Suc ((n - 8) div 8)" using False by (simp add: le_div_geq)
      moreover have "(n - 8) div 8 < length bs" using snoc.prems False by (intro less_mult_imp_div_less) simp
      moreover from this have "length bs - Suc ((n - 8) div 8) < length bs" by (intro diff_less) auto
      ultimately show ?thesis by (simp add: nth_append)
    qed
    finally show ?thesis .
  qed
qed simp

text \<open>Bit \<open>b\<close> of a 32-byte key from the top is a bit of byte \<open>b div 8\<close>.\<close>

lemma kbit_byte:
  assumes "length bs = 32" and "0 \<le> b" and "b \<le> 255"
  shows "kbit (be_int bs) b \<longleftrightarrow> bit (uint (bs ! nat (b div 8))) (nat (7 - b mod 8))"
proof -
  obtain n where b: "b = int n" using assms(2) zero_le_imp_eq_int by blast
  have n: "n \<le> 255" using assms(3) b by simp
  have i: "nat (255 - int n) = 255 - n" by simp
  obtain q r where qr: "n = 8 * q + r" "r < 8" using octet_split by blast
  then have "255 - n = 8 * (31 - q) + (7 - r)" "q \<le> 31" using n by simp_all
  then have "31 - (255 - n) div 8 = n div 8" "(255 - n) mod 8 = 7 - n mod 8" using qr octet [of "7 - r" "31 - q"] by simp_all
  moreover have "nat (7 - int n mod 8) = 7 - n mod 8" "nat (int n div 8) = n div 8" by (simp_all add: nat_diff_distrib nat_mod_distrib nat_div_distrib)
  moreover have "255 - n < 8 * length bs" unfolding assms(1) by (rule le_less_trans [OF diff_le_self]) simp
  ultimately show ?thesis using be_int_bit [of "255 - n" bs] assms(1) by (simp add: kbit_def b i)
qed

lemma node_rightAt_conv:
  assumes "length bs = 32" and "0 \<le> b" and "b \<le> 255"
  shows "node_rightAt bs b \<longleftrightarrow> kbit (be_int bs) b"
proof -
  have "b AND 7 = b mod 8" using take_bit_eq_mask [of 3 b] by (simp add: mask_eq_exp_minus_1 take_bit_eq_mod)
  then show ?thesis
    unfolding node_rightAt_def kbit_byte [OF assms]
    by (simp add: drop_bit_eq_div and_one_eq bit_iff_odd odd_iff_mod_2_eq_one)
qed

lemma byte_xor_nonzero: "(a :: byte) \<noteq> b \<Longrightarrow> uint a XOR uint b \<noteq> 0"
proof
  assume ne: "a \<noteq> b" and z: "uint a XOR uint b = 0"
  have "uint a = (uint a XOR uint b) XOR uint b" by (simp add: xor.assoc)
  also have "\<dots> = uint b" using z by simp
  finally show False using ne by (simp add: word_uint_eq_iff)
qed

lemma split_loop_same: "length as = length bs \<Longrightarrow> as = bs \<Longrightarrow> split_loop i as bs = 256"
  by (induction i as bs rule: split_loop.induct) (simp_all add: Let_def)

lemma split_loop_diff: "length as = length bs \<Longrightarrow> as \<noteq> bs \<Longrightarrow>
    \<exists>j < length as. take j as = take j bs \<and> as ! j \<noteq> bs ! j \<and>
      split_loop i as bs = (i + int j) * 8 + clz32 (uint (as ! j) XOR uint (bs ! j)) - 24"
proof (induction i as bs rule: split_loop.induct)
  case (1 i a as b bs)
  show ?case
  proof (cases "a = b")
    case True
    then obtain j where j: "j < length as" "take j as = take j bs" "as ! j \<noteq> bs ! j"
      "split_loop (i + 1) as bs = (i + 1 + int j) * 8 + clz32 (uint (as ! j) XOR uint (bs ! j)) - 24"
      using 1 by auto
    then show ?thesis using True by (intro exI [of _ "Suc j"]) (simp add: algebra_simps Let_def)
  next
    case False
    then have "uint a XOR uint b \<noteq> 0" by (rule byte_xor_nonzero)
    then show ?thesis using False by (intro exI [of _ 0]) (simp add: Let_def)
  qed
qed auto

lemma byte_xor_bits:
  assumes "(a :: byte) \<noteq> b"
  shows "\<exists>l. binary_length (uint a XOR uint b) = l \<and> 1 \<le> l \<and> l \<le> 8 \<and> bit (uint a) (l - 1) \<noteq> bit (uint b) (l - 1) \<and>
    (\<forall>n \<ge> l. bit (uint a) n = bit (uint b) n)"
proof -
  let ?x = "uint a XOR uint b" and ?l = "binary_length (uint a XOR uint b)"
  have x0: "0 \<le> ?x" by simp
  have x8: "?x < 2 ^ 8" by (rule XOR_upper) (use uint_bounded [of a] uint_bounded [of b] in simp_all)
  have "?x \<noteq> 0" using assms by (rule byte_xor_nonzero)
  then have pos: "0 < ?x" using x0 by linarith
  from binary_length_bounds [OF pos] have l: "2 ^ (?l - 1) \<le> ?x" "?x < 2 ^ ?l" "0 < ?l" by blast+
  have e: "2 ^ ?l = 2 * (2 :: int) ^ (?l - 1)" using l(3) by (metis Suc_pred' power_Suc)
  have "(2 :: int) ^ (?l - 1) < 2 ^ 8" using l(1) x8 by linarith
  then have "?l - 1 < 8" by (rule power_less_imp_less_exp [rotated]) simp
  have "?x div 2 ^ (?l - 1) = 1" by (rule int_div_pos_eq [where r = "?x - 2 ^ (?l - 1)"]) (use l e in simp_all)
  then have "bit ?x (?l - 1)" by (simp add: bit_iff_odd)
  then have top: "bit (uint a) (?l - 1) \<noteq> bit (uint b) (?l - 1)" by (simp add: bit_simps)
  have "bit (uint a) n = bit (uint b) n" if n: "?l \<le> n" for n
  proof -
    have "(2 :: int) ^ ?l \<le> 2 ^ n" using n by (intro power_increasing) simp_all
    with l(2) have "?x < 2 ^ n" by (rule less_le_trans)
    then have "?x div 2 ^ n = 0" using x0 by (simp add: div_pos_pos_trivial)
    then have "\<not> bit ?x n" by (simp add: bit_iff_odd)
    then show ?thesis by (simp add: bit_simps)
  qed
  then show ?thesis using l(3) \<open>?l - 1 < 8\<close> top by (intro exI [of _ ?l]) (auto simp: Suc_le_eq simp del: binary_length_pos)
qed

lemma first_difference:
  assumes "0 \<le> s" "kbit x s \<noteq> kbit y s" "\<And>i. 0 \<le> i \<Longrightarrow> i < s \<Longrightarrow> kbit x i = kbit y i"
    and "0 \<le> t" "kbit x t \<noteq> kbit y t" "\<And>i. 0 \<le> i \<Longrightarrow> i < t \<Longrightarrow> kbit x i = kbit y i"
  shows "s = t"
  using assms by (metis linorder_neqE)

lemma node_splitAt_conv:
  assumes "length as = 32" and "length bs = 32"
  shows "node_splitAt as bs = (if as = bs then 256 else splitAt (be_int as) (be_int bs))"
proof (cases "as = bs")
  case True
  then show ?thesis using split_loop_same [of as bs 0] by (simp add: node_splitAt_def)
next
  case False
  obtain j where j: "j < 32" "take j as = take j bs" "as ! j \<noteq> bs ! j"
    "node_splitAt as bs = int j * 8 + clz32 (uint (as ! j) XOR uint (bs ! j)) - 24"
    using split_loop_diff [of as bs 0] False assms by (auto simp: node_splitAt_def)
  obtain l where l: "binary_length (uint (as ! j) XOR uint (bs ! j)) = l" "1 \<le> l" "l \<le> 8"
    "bit (uint (as ! j)) (l - 1) \<noteq> bit (uint (bs ! j)) (l - 1)" "\<And>n. l \<le> n \<Longrightarrow> bit (uint (as ! j)) n = bit (uint (bs ! j)) n"
    using byte_xor_bits [OF j(3)] by blast
  have "uint (as ! j) XOR uint (bs ! j) \<noteq> 0" using l(4) by (metis bit_xor_iff bit_0_eq bot_apply bot_bool_def)
  then have s: "node_splitAt as bs = int (8 * j + (8 - l))" using j(4) l(1,3) by (simp add: clz32_def of_nat_diff)
  let ?s = "8 * j + (8 - l)"
  have at: "kbit (be_int xs) (int n) \<longleftrightarrow> bit (uint (xs ! (n div 8))) (7 - n mod 8)" if "length xs = 32" "n \<le> 255" for xs n
  proof -
    have "nat (7 - int n mod 8) = 7 - n mod 8" "nat (int n div 8) = n div 8" by (simp_all add: nat_diff_distrib nat_mod_distrib nat_div_distrib)
    then show ?thesis using kbit_byte [OF that(1), of "int n"] that(2) by simp
  qed
  have sb: "?s \<le> 255" "?s div 8 = j" "7 - ?s mod 8 = l - 1" using j(1) l(2,3) octet [of "8 - l" j] by simp_all
  have diff: "kbit (be_int as) (int ?s) \<noteq> kbit (be_int bs) (int ?s)"
    using l(4) at [OF assms(1) sb(1)] at [OF assms(2) sb(1)] by (simp only: sb) simp
  have agree: "kbit (be_int as) i = kbit (be_int bs) i" if "0 \<le> i" "i < int ?s" for i
  proof -
    obtain n where "i = int n" using zero_le_imp_eq_int [OF \<open>0 \<le> i\<close>] by blast
    then have n: "i = int n" "n < ?s" using \<open>i < int ?s\<close> by simp_all
    have nb: "n \<le> 255" using n(2) sb(1) by simp
    have "bit (uint (as ! (n div 8))) (7 - n mod 8) = bit (uint (bs ! (n div 8))) (7 - n mod 8)"
    proof (cases "n div 8 < j")
      case True
      then have "as ! (n div 8) = bs ! (n div 8)" using j(2) by (metis nth_take)
      then show ?thesis by simp
    next
      case False
      obtain q r where qr: "n = 8 * q + r" "r < 8" using octet_split by blast
      then have "q = j" using False n(2) l(2) by simp
      then have "n div 8 = j" "l \<le> 7 - n mod 8" using qr n(2) l(2,3) by simp_all
      then show ?thesis using l(5) by simp
    qed
    then show ?thesis using at [OF assms(1) nb] at [OF assms(2) nb] n(1) by simp
  qed
  have ne: "be_int as \<noteq> be_int bs" using False be_int_inj [of as bs] assms by simp
  have k: "key_range (be_int as)" "key_range (be_int bs)" using key_range_bytes assms by blast+
  have "int ?s = splitAt (be_int as) (be_int bs)"
    by (rule first_difference [OF _ diff agree _ splitAt_bits(1) [OF k ne] splitAt_bits(2) [OF k ne]])
       (use splitAt_range [OF k] in simp_all)
  then show ?thesis using s False by simp
qed

subsection \<open>Sound rows\<close>

text \<open>The tree a set of rows holds, with the number and the key each row keeps.\<close>

datatype row_tree =
    RLeaf (r_id: int) (r_key: int) bytes
  | RBranch (r_id: int) (r_key: int) int row_tree row_tree bytes

fun erase :: "row_tree \<Rightarrow> spent_tree" where
  "erase (RLeaf i k h) = Leaf k h"
| "erase (RBranch i k b l r h) = Branch (t_key (erase l)) b (erase l) (erase r) h"

fun row_ids :: "row_tree \<Rightarrow> int list" where
  "row_ids (RLeaf i k h) = [i]"
| "row_ids (RBranch i k b l r h) = i # row_ids l @ row_ids r"

text \<open>A branch's row keeps some key of its subtree.\<close>

fun rows_hold :: "(int \<Rightarrow> spent_node option) \<Rightarrow> row_tree \<Rightarrow> bool" where
  "rows_hold rows (RLeaf i k h) \<longleftrightarrow> rows i = Some \<lparr>nd_key = be_bytes 32 k, nd_bit = None, nd_l = None, nd_r = None, nd_hash = h\<rparr>"
| "rows_hold rows (RBranch i k b l r h) \<longleftrightarrow>
     rows i = Some \<lparr>nd_key = be_bytes 32 k, nd_bit = Some b, nd_l = Some (r_id l), nd_r = Some (r_id r), nd_hash = h\<rparr> \<and>
     k \<in> tree_keys (erase l) \<union> tree_keys (erase r) \<and> rows_hold rows l \<and> rows_hold rows r"

lemma r_id_in [simp]: "r_id t \<in> set (row_ids t)"
  by (cases t) simp_all

lemma rows_hold_cong: "(\<And>i. i \<in> set (row_ids t) \<Longrightarrow> rows i = rows' i) \<Longrightarrow> rows_hold rows t = rows_hold rows' t"
  by (induction t) simp_all

lemma rows_hold_update: "i \<notin> set (row_ids t) \<Longrightarrow> rows_hold (rows(i \<mapsto> v)) t = rows_hold rows t"
  by (rule rows_hold_cong) auto

lemma rows_hold_hash: "rows_hold rows t \<Longrightarrow> mapR nd_hash (spentNode rows (Some (r_id t))) = Inr (t_hash (erase t))"
  by (cases t) (simp_all add: spentNode_def)

lemma r_key_in: "rows_hold rows t \<Longrightarrow> r_key t \<in> tree_keys (erase t)"
  by (cases t) auto

lemma branchHash_branch: "branch C b l r = Branch (t_key l) b l r (branchHash C b (t_hash l) (t_hash r))"
  by (simp add: branch_def branchHash_def)

lemma key_bytes: "key_range k \<Longrightarrow> be_int (be_bytes 32 k) = k"
  by (simp add: key_range_def)

lemma split_keys: "key_range a \<Longrightarrow> key_range b \<Longrightarrow> a \<noteq> b \<Longrightarrow> node_splitAt (be_bytes 32 a) (be_bytes 32 b) = splitAt a b"
  using key_bytes [of a] key_bytes [of b] by (auto simp: node_splitAt_conv)

text \<open>Any key of a branch decides the same way whether, and where, a new key splits above it.\<close>

lemma split_any:
  assumes "agree nb x y" and "key_range x" "key_range y" "key_range key" "x \<noteq> key" "y \<noteq> key" and "splitAt x key < nb"
  shows "splitAt y key = splitAt x key"
proof (rule first_difference)
  note X = splitAt_range [OF assms(2,4)] splitAt_bits [OF assms(2,4,5)]
  show "kbit y (splitAt x key) \<noteq> kbit key (splitAt x key)" using X assms(1,7) by (simp add: agree_def)
  show "kbit y i = kbit key i" if "0 \<le> i" "i < splitAt x key" for i using X(3) [OF that] assms(1,7) that by (simp add: agree_def)
qed (use splitAt_range [OF assms(2,4)] splitAt_range [OF assms(3,4)] splitAt_bits [OF assms(3,4,6)] in auto)

text \<open>The new branch, over the rows with the new leaf.\<close>

definition place :: "crypto \<Rightarrow> (int \<Rightarrow> spent_node option) \<Rightarrow> int \<Rightarrow> int \<Rightarrow> bytes \<Rightarrow> bytes \<Rightarrow> int \<times> spent_node \<times> int \<Rightarrow> (int \<Rightarrow> spent_node option) \<times> bytes" where
  "place C rows leafId branchId key h = (\<lambda>(i, node, b). let rgt = node_rightAt key b;
     h' = (if rgt then branchHash C b (nd_hash node) h else branchHash C b h (nd_hash node)) in
     (rows(branchId \<mapsto> \<lparr>nd_key = nd_key node, nd_bit = Some b, nd_l = Some (if rgt then i else leafId),
                  nd_r = Some (if rgt then leafId else i), nd_hash = h'\<rparr>), h'))"

text \<open>What the insert leaves where the subtree \<open>t\<close> was.\<close>

definition inserted :: "crypto \<Rightarrow> (int \<Rightarrow> spent_node option) \<Rightarrow> int \<Rightarrow> int \<Rightarrow> spent_tree \<Rightarrow> row_tree \<Rightarrow> (int \<Rightarrow> spent_node option) \<Rightarrow> row_tree \<Rightarrow> bool" where
  "inserted C rows leafId branchId u t rows' t' \<longleftrightarrow> rows_hold rows' t' \<and> erase t' = u \<and>
     distinct (row_ids t') \<and> set (row_ids t') = set (row_ids t) \<union> {leafId, branchId} \<and>
     (\<forall>i. i \<notin> set (row_ids t) \<union> {branchId} \<longrightarrow> rows' i = rows i)"

lemma place_inserted:
  assumes hold: "rows_hold rows t" "distinct (row_ids t)" and ids: "leafId \<notin> set (row_ids t)" "branchId \<notin> set (row_ids t)" "branchId \<noteq> leafId"
    and leaf: "rows leafId = Some \<lparr>nd_key = be_bytes 32 key, nd_bit = None, nd_l = None, nd_r = None, nd_hash = h\<rparr>"
    and node: "rows (r_id t) = Some node" "nd_key node = be_bytes 32 (r_key t)" "nd_hash node = t_hash (erase t)"
    and b: "0 \<le> b" "b \<le> 255" and key: "key_range key"
  shows "inserted C rows leafId branchId (if rightAt key b then branch C b (erase t) (Leaf key h) else branch C b (Leaf key h) (erase t)) t
      (fst (place C rows leafId branchId (be_bytes 32 key) h (r_id t, node, b)))
      (if rightAt key b then RBranch branchId (r_key t) b t (RLeaf leafId key h) (snd (place C rows leafId branchId (be_bytes 32 key) h (r_id t, node, b)))
       else RBranch branchId (r_key t) b (RLeaf leafId key h) t (snd (place C rows leafId branchId (be_bytes 32 key) h (r_id t, node, b))))"
proof -
  have rgt: "node_rightAt (be_bytes 32 key) b = rightAt key b"
    using node_rightAt_conv [of "be_bytes 32 key" b] b key rightAt_kbit [of b key] by (simp add: key_bytes)
  let ?rows = "fst (place C rows leafId branchId (be_bytes 32 key) h (r_id t, node, b))"
  have same: "?rows i = rows i" if "i \<noteq> branchId" for i using that by (simp add: place_def Let_def)
  have "rows_hold ?rows t" using rows_hold_cong [of t ?rows rows] same ids(2) hold(1) by metis
  then show ?thesis using hold(2) ids leaf node same r_key_in [OF hold(1)]
    by (auto simp: inserted_def branchHash_branch place_def Let_def rgt)
qed

lemma insert_node_keys: "tree_keys leaf = {key} \<Longrightarrow> tree_keys (fst (insert_node C key leaf t)) = insert key (tree_keys t)"
  by (induction C key leaf t rule: insert_node.induct) (auto simp: Let_def branch_def case_prod_unfold)

lemma descend_insert:
  assumes leaf: "rows leafId = Some \<lparr>nd_key = be_bytes 32 key, nd_bit = None, nd_l = None, nd_r = None, nd_hash = h\<rparr>"
    and key: "key_range key"
  shows "rows_hold rows t \<Longrightarrow> distinct (row_ids t) \<Longrightarrow> leafId \<notin> set (row_ids t) \<Longrightarrow> branchId \<notin> set (row_ids t) \<Longrightarrow> branchId \<noteq> leafId \<Longrightarrow>
    tree_ok C n (erase t) \<Longrightarrow> 0 \<le> n \<Longrightarrow> key \<notin> tree_keys (erase t) \<Longrightarrow> (\<And>x. x \<in> tree_keys (erase t) \<Longrightarrow> agree n x key) \<Longrightarrow>
    \<exists>i node b p rows' t'. descend rows (be_bytes 32 key) (Some (r_id t)) path = Some (Inr (i, node, b, p @ path)) \<and> b \<noteq> 256 \<and>
      (\<forall>q. climb C (fst (place C rows leafId branchId (be_bytes 32 key) h (i, node, b))) branchId
          (snd (place C rows leafId branchId (be_bytes 32 key) h (i, node, b))) (p @ q) = climb C rows' (r_id t') (t_hash (erase t')) q) \<and>
      inserted C rows leafId branchId (fst (insert_node C key (Leaf key h) (erase t))) t rows' t' \<and>
      r_id t' = (if p = [] then branchId else r_id t)"
proof (induction t arbitrary: n path)
  case (RLeaf i k0 h0)
  have k: "key_range k0" "k0 \<noteq> key" "agree n k0 key" "n \<le> 256" using RLeaf.prems(6,8) RLeaf.prems(9) [of k0] by auto
  note b = split_bounds [OF k(1) key k(2,3,4)]
  let ?b = "splitAt k0 key" and ?node = "\<lparr>nd_key = be_bytes 32 k0, nd_bit = None, nd_l = None, nd_r = None, nd_hash = h0\<rparr>"
  have d: "descend rows (be_bytes 32 key) (Some i) path = Some (Inr (i, ?node, ?b, path))"
    using RLeaf.prems(1) by (simp add: descend.simps spentNode_def split_keys [OF k(1) key k(2)])
  let ?pl = "place C rows leafId branchId (be_bytes 32 key) h (i, ?node, ?b)"
  note ins = place_inserted [OF RLeaf.prems(1-5) leaf _ _ _ b(4,5) key, of ?node, simplified]
  show ?case
  proof (intro exI conjI)
    show "descend rows (be_bytes 32 key) (Some (r_id (RLeaf i k0 h0))) path = Some (Inr (i, ?node, ?b, [] @ path))" using d by simp
    show "inserted C rows leafId branchId (fst (insert_node C key (Leaf key h) (erase (RLeaf i k0 h0)))) (RLeaf i k0 h0) (fst ?pl)
      (if rightAt key ?b then RBranch branchId k0 ?b (RLeaf i k0 h0) (RLeaf leafId key h) (snd ?pl)
       else RBranch branchId k0 ?b (RLeaf leafId key h) (RLeaf i k0 h0) (snd ?pl))"
      using ins RLeaf.prems(1) k(2) by (simp add: Let_def if_distrib [of fst] cong: if_cong)
  qed (use b in \<open>auto\<close>)
next
  case (RBranch i k0 nb l r h0)
  let ?t = "RBranch i k0 nb l r h0" and ?kk = "t_key (erase l)"
  note ok = RBranch.prems(6) [unfolded erase.simps tree_ok.simps]
  have kin: "k0 \<in> tree_keys (erase ?t)" "?kk \<in> tree_keys (erase ?t)" using r_key_in [OF RBranch.prems(1)] tree_key_in [of C "nb + 1" "erase l"] ok by auto
  have k: "key_range k0" "k0 \<noteq> key" "agree n k0 key" "n \<le> 256" and kk: "key_range ?kk" "?kk \<noteq> key" "agree n ?kk key"
    using kin tree_keys_range [OF RBranch.prems(6)] RBranch.prems(8) RBranch.prems(9) ok by auto
  note b = split_bounds [OF k(1) key k(2,3,4)] and bb = split_bounds [OF kk(1) key kk(2,3) k(4)]
  have ag: "agree nb k0 ?kk" "agree nb ?kk k0" using ok kin(1) agree_sym by auto
  let ?node = "\<lparr>nd_key = be_bytes 32 k0, nd_bit = Some nb, nd_l = Some (r_id l), nd_r = Some (r_id r), nd_hash = h0\<rparr>"
  have row: "rows i = Some ?node" using RBranch.prems(1) by simp
  show ?case
  proof (cases "splitAt k0 key < nb")
    case True
    have eq: "splitAt ?kk key = splitAt k0 key" by (rule split_any [OF ag(1) k(1) kk(1) key k(2) kk(2) True])
    have d: "descend rows (be_bytes 32 key) (Some i) path = Some (Inr (i, ?node, splitAt k0 key, path))"
      using row True by (simp add: descend.simps [of _ _ "Some i"] spentNode_def split_keys [OF k(1) key k(2)])
    let ?pl = "place C rows leafId branchId (be_bytes 32 key) h (i, ?node, splitAt k0 key)"
    note ins = place_inserted [OF RBranch.prems(1-5) leaf _ _ _ b(4,5) key, of ?node]
    show ?thesis
    proof (intro exI conjI)
      show "descend rows (be_bytes 32 key) (Some (r_id ?t)) path = Some (Inr (i, ?node, splitAt k0 key, [] @ path))" using d by simp
      show "inserted C rows leafId branchId (fst (insert_node C key (Leaf key h) (erase ?t))) ?t (fst ?pl)
        (if rightAt key (splitAt k0 key) then RBranch branchId k0 (splitAt k0 key) ?t (RLeaf leafId key h) (snd ?pl)
         else RBranch branchId k0 (splitAt k0 key) (RLeaf leafId key h) ?t (snd ?pl))"
        using ins row True eq kk(2) by (simp add: Let_def if_distrib [of fst] cong: if_cong)
    qed (use b in \<open>auto\<close>)
  next
    case False
    have nlt: "\<not> splitAt ?kk key < nb"
      using split_any [OF ag(2) kk(1) k(1) key kk(2) k(2)] False by metis
    have nb: "0 \<le> nb" "nb \<le> 255" using ok RBranch.prems(7) by auto
    have rgt: "node_rightAt (be_bytes 32 key) nb = kbit key nb" "rightAt key nb = kbit key nb"
      using node_rightAt_conv [of "be_bytes 32 key" nb] nb key rightAt_kbit [of nb key] by (simp_all add: key_bytes)
    have agk: "agree nb x key" if "x \<in> tree_keys (erase l) \<union> tree_keys (erase r)" for x
      using ok that agree_trans [OF _ agree_less [OF bb(2)], of nb x] nlt by auto
    have up: "agree (nb + 1) x key" if "x \<in> tree_keys (erase c)" "c = (if kbit key nb then r else l)" for x c
      using agree_Suc [OF agk, of x] that ok by (cases "kbit key nb") auto
    let ?c = "if kbit key nb then r else l" and ?o = "if kbit key nb then l else r"
    have dis: "set (row_ids l) \<inter> set (row_ids r) = {}" "i \<notin> set (row_ids l)" "i \<notin> set (row_ids r)" using RBranch.prems(2) by auto
    have "\<exists>j node b p rows' t'. descend rows (be_bytes 32 key) (Some (r_id ?c)) ((i, ?node, kbit key nb) # path) =
        Some (Inr (j, node, b, p @ (i, ?node, kbit key nb) # path)) \<and> b \<noteq> 256 \<and>
      (\<forall>q. climb C (fst (place C rows leafId branchId (be_bytes 32 key) h (j, node, b))) branchId
          (snd (place C rows leafId branchId (be_bytes 32 key) h (j, node, b))) (p @ q) = climb C rows' (r_id t') (t_hash (erase t')) q) \<and>
      inserted C rows leafId branchId (fst (insert_node C key (Leaf key h) (erase ?c))) ?c rows' t' \<and>
      r_id t' = (if p = [] then branchId else r_id ?c)"
    proof (cases "kbit key nb")
      case True
      then show ?thesis unfolding if_P [OF True]
        by (intro RBranch.IH(2) [of "nb + 1"]) (use RBranch.prems ok nb up in auto)
    next
      case kf: False
      then show ?thesis unfolding if_not_P [OF kf]
        by (intro RBranch.IH(1) [of "nb + 1"]) (use RBranch.prems ok nb up in auto)
    qed
    then obtain j node b1 p rows1 t1 where
      d: "descend rows (be_bytes 32 key) (Some (r_id ?c)) ((i, ?node, kbit key nb) # path) = Some (Inr (j, node, b1, p @ (i, ?node, kbit key nb) # path))"
      and b1: "b1 \<noteq> 256"
      and cl: "\<And>q. climb C (fst (place C rows leafId branchId (be_bytes 32 key) h (j, node, b1))) branchId
          (snd (place C rows leafId branchId (be_bytes 32 key) h (j, node, b1))) (p @ q) = climb C rows1 (r_id t1) (t_hash (erase t1)) q"
      and ins: "inserted C rows leafId branchId (fst (insert_node C key (Leaf key h) (erase ?c))) ?c rows1 t1" by blast
    have down: "descend rows (be_bytes 32 key) (Some i) path = Some (Inr (j, node, b1, (p @ [(i, ?node, kbit key nb)]) @ path))"
      using row False d by (simp add: descend.simps [of _ _ "Some i"] spentNode_def split_keys [OF k(1) key k(2)] Let_def rgt if_distrib [of Some] if_distrib [of r_id] cong: if_cong)
    have sib: "rows_hold rows1 ?o"
    proof -
      have "rows1 m = rows m" if "m \<in> set (row_ids ?o)" for m
        using that ins dis RBranch.prems(4) by (auto simp: inserted_def split: if_splits)
      then show ?thesis using rows_hold_cong [of ?o rows1 rows] RBranch.prems(1) by auto
    qed
    let ?h = "if kbit key nb then branchHash C nb (t_hash (erase l)) (t_hash (erase t1)) else branchHash C nb (t_hash (erase t1)) (t_hash (erase r))"
    let ?t2 = "if kbit key nb then RBranch i k0 nb l t1 ?h else RBranch i k0 nb t1 r ?h"
    let ?row2 = "?node\<lparr>nd_l := Some (r_id (if kbit key nb then l else t1)), nd_r := Some (r_id (if kbit key nb then t1 else r)), nd_hash := ?h\<rparr>"
    let ?rows2 = "rows1(i \<mapsto> ?row2)"
    have step: "climb C rows1 (r_id t1) (t_hash (erase t1)) ((i, ?node, kbit key nb) # q) = climb C ?rows2 i ?h q" for q
      using rows_hold_hash [OF sib] by (cases "kbit key nb") (auto simp: mapR_Inr_conv Let_def)
    have keys1: "tree_keys (erase t1) = insert key (tree_keys (erase ?c))"
      using ins insert_node_keys [of "Leaf key h" key C "erase ?c"] by (simp add: inserted_def)
    have i1: "i \<notin> set (row_ids t1)" "i \<noteq> leafId" "i \<noteq> branchId" using ins dis RBranch.prems(3,4) by (auto simp: inserted_def split: if_splits)
    have hold1: "rows_hold ?rows2 t1" "rows_hold ?rows2 ?o"
      using rows_hold_update [OF i1(1)] rows_hold_update [of i ?o] ins sib dis by (simp_all add: inserted_def del: fun_upd_apply)
    have final: "inserted C rows leafId branchId (fst (insert_node C key (Leaf key h) (erase ?t))) ?t ?rows2 ?t2"
      using ins hold1 i1 dis keys1 RBranch.prems(1-5) kk(2) nlt rgt
      by (auto simp: inserted_def Let_def branchHash_branch case_prod_unfold)
    have climbs: "climb C (fst (place C rows leafId branchId (be_bytes 32 key) h (j, node, b1))) branchId
          (snd (place C rows leafId branchId (be_bytes 32 key) h (j, node, b1))) ((p @ [(i, ?node, kbit key nb)]) @ q) =
        climb C ?rows2 (r_id ?t2) (t_hash (erase ?t2)) q" for q
      using cl [of "(i, ?node, kbit key nb) # q"] step by simp
    show ?thesis
    proof (intro exI conjI allI)
      show "descend rows (be_bytes 32 key) (Some (r_id ?t)) path = Some (Inr (j, node, b1, (p @ [(i, ?node, kbit key nb)]) @ path))"
        using down by simp
      show "r_id ?t2 = (if p @ [(i, ?node, kbit key nb)] = [] then branchId else r_id ?t)" by simp
    qed (rule b1 climbs final)+
  qed
qed

lemma descend_found:
  assumes key: "key_range key"
  shows "rows_hold rows t \<Longrightarrow> tree_ok C n (erase t) \<Longrightarrow> 0 \<le> n \<Longrightarrow> key \<in> tree_keys (erase t) \<Longrightarrow>
    \<exists>i node p. descend rows (be_bytes 32 key) (Some (r_id t)) path = Some (Inr (i, node, 256, p))"
proof (induction t arbitrary: n path)
  case (RLeaf i k0 h0)
  then show ?case by (simp add: descend.simps spentNode_def node_splitAt_conv)
next
  case (RBranch i k0 nb l r h0)
  note ok = RBranch.prems(2) [unfolded erase.simps tree_ok.simps]
  let ?node = "\<lparr>nd_key = be_bytes 32 k0, nd_bit = Some nb, nd_l = Some (r_id l), nd_r = Some (r_id r), nd_hash = h0\<rparr>"
  have k0: "k0 \<in> tree_keys (erase (RBranch i k0 nb l r h0))" "key_range k0"
    using r_key_in [OF RBranch.prems(1)] tree_keys_range [OF RBranch.prems(2)] by auto
  have nb: "0 \<le> nb" "nb \<le> 255" using ok RBranch.prems(3) by auto
  have "agree nb k0 key" using ok k0(1) RBranch.prems(4) agree_trans agree_sym
    by (metis erase.simps(2) tree_keys.simps(2))
  then have "k0 \<noteq> key \<Longrightarrow> nb \<le> splitAt k0 key" using split_bounds(1) [OF k0(2) key] nb by simp
  then have "\<not> node_splitAt (be_bytes 32 k0) (be_bytes 32 key) < nb"
    using split_keys [OF k0(2) key] nb by (cases "k0 = key") (simp_all add: node_splitAt_conv)
  moreover have rgt: "node_rightAt (be_bytes 32 key) nb = kbit key nb"
    using node_rightAt_conv [of "be_bytes 32 key" nb] nb key by (simp add: key_bytes)
  moreover have "key \<in> tree_keys (erase (if kbit key nb then r else l))" using RBranch.prems(4) ok by auto
  ultimately show ?case using RBranch.prems(1) RBranch.IH(1) [of "nb + 1" "(i, ?node, False) # path"]
      RBranch.IH(2) [of "nb + 1" "(i, ?node, True) # path"] ok nb
    by (cases "kbit key nb") (simp_all add: descend.simps [of _ _ "Some i"] spentNode_def Let_def)
qed

subsection \<open>The stored insert refines the set's insert\<close>

definition sp_rel :: "stored_spent \<Rightarrow> spent_set \<Rightarrow> bool" where
  "sp_rel s ss \<longleftrightarrow> (case ss_tree ss of None \<Rightarrow> sp_top s = None
     | Some u \<Rightarrow> \<exists>t. sp_top s = Some (r_id t) \<and> rows_hold (sp_rows s) t \<and> distinct (row_ids t) \<and>
         (\<forall>i \<in> set (row_ids t). i < sp_next s) \<and> erase t = u)"

lemma sp_rel_new: "sp_rel newStoredSpent newSpentSet"
  by (simp add: sp_rel_def newStoredSpent_def newSpentSet_def)

lemma sp_root_refines: "sp_rel s ss \<Longrightarrow> sp_root C s = Inr (ss_root C ss)"
  using rows_hold_hash by (auto simp: sp_rel_def sp_root_def ss_root_def split: option.splits)

lemma sp_insert_new:
  assumes inv: "ss_inv C ss" and rel: "sp_rel s ss" and key: "length key = 32" and new: "key \<notin> ss_contents ss"
  shows "\<exists>s' ss'. sp_insert C s key = Some (Inr s') \<and> ss_insert C key ss = Inr ss' \<and> sp_rel s' ss'"
proof -
  let ?k = "be_int key"
  have kr: "key_range ?k" and kb: "be_bytes 32 ?k = key" using key_range_bytes [OF key] be_bytes_be_int [of key] key by simp_all
  have nk: "?k \<notin> ss_keys ss" using new ss_contents_key [OF inv key] by simp
  have lf: "spent_leaf C ?k key = Leaf ?k (leafHash C key)" by (simp add: spent_leaf_def leafHash_def)
  obtain ss' where ss': "ss_insert C key ss = Inr ss'" using ss_insert_defined [OF inv, of key] key new by (auto simp: isOk_conv)
  let ?leafId = "sp_next s" and ?h = "leafHash C key"
  let ?rows = "(sp_rows s)(?leafId \<mapsto> \<lparr>nd_key = key, nd_bit = None, nd_l = None, nd_r = None, nd_hash = ?h\<rparr>)"
  show ?thesis
  proof (cases "ss_tree ss")
    case None
    then have "ss_tree ss' = Some (Leaf ?k ?h)" using ss' by (auto simp: ss_insert_def bindR_Inr_conv keyOf_conv lf)
    then have fresh: "sp_rel \<lparr>sp_top = Some ?leafId, sp_next = ?leafId + 1, sp_rows = ?rows\<rparr> ss'"
      by (auto simp: sp_rel_def kb intro!: exI [of _ "RLeaf ?leafId ?k ?h"])
    have "sp_top s = None" using rel None by (simp add: sp_rel_def)
    then have "sp_insert C s key = Some (Inr \<lparr>sp_top = Some ?leafId, sp_next = ?leafId + 1, sp_rows = ?rows\<rparr>)"
      by (simp add: sp_insert_def Let_def)
    then show ?thesis using ss' fresh by blast
  next
    case (Some u)
    obtain t where t: "sp_top s = Some (r_id t)" "rows_hold (sp_rows s) t" "distinct (row_ids t)"
      "\<forall>i \<in> set (row_ids t). i < ?leafId" "erase t = u" using rel Some by (auto simp: sp_rel_def)
    have ids: "?leafId \<notin> set (row_ids t)" "?leafId + 1 \<notin> set (row_ids t)" "?leafId + 1 \<noteq> ?leafId" using t(4) by force+
    have hold: "rows_hold ?rows t" using rows_hold_update [OF ids(1)] t(2) by blast
    have ok: "tree_ok C 0 (erase t)" using inv Some t(5) by (simp add: ss_inv_def)
    have "?rows ?leafId = Some \<lparr>nd_key = be_bytes 32 ?k, nd_bit = None, nd_l = None, nd_r = None, nd_hash = ?h\<rparr>" by (simp add: kb)
    from descend_insert [OF this kr hold t(3) ids ok _ _, of "[]"] nk Some t(5)
    obtain i node b p rows' t' where d: "descend ?rows key (Some (r_id t)) [] = Some (Inr (i, node, b, p))" "b \<noteq> 256"
      and cl: "\<And>q. climb C (fst (place C ?rows ?leafId (?leafId + 1) key ?h (i, node, b))) (?leafId + 1)
          (snd (place C ?rows ?leafId (?leafId + 1) key ?h (i, node, b))) (p @ q) = climb C rows' (r_id t') (t_hash (erase t')) q"
      and ins: "inserted C ?rows ?leafId (?leafId + 1) (fst (insert_node C ?k (Leaf ?k ?h) u)) t rows' t'"
      and id: "r_id t' = (if p = [] then ?leafId + 1 else r_id t)"
      by (auto simp: ss_keys_def kb)
    have "sp_insert C s key = Some (Inr \<lparr>sp_top = Some (r_id t'), sp_next = ?leafId + 1 + 1, sp_rows = rows'\<rparr>)"
      using t(1) d cl [of "[]"] id by (simp add: sp_insert_def Let_def place_def)
    moreover have "ss_tree ss' = Some (fst (insert_node C ?k (Leaf ?k ?h) u))"
      using ss' Some by (auto simp: ss_insert_def bindR_Inr_conv keyOf_conv lf case_prod_unfold Let_def)
    moreover have "sp_rel \<lparr>sp_top = Some (r_id t'), sp_next = ?leafId + 1 + 1, sp_rows = rows'\<rparr> ss'"
    proof -
      have "i < ?leafId + 1 + 1" if "i \<in> set (row_ids t')" for i
      proof -
        have "i = ?leafId \<or> i = ?leafId + 1 \<or> i \<in> set (row_ids t)" using that ins by (auto simp: inserted_def)
        moreover have "i \<in> set (row_ids t) \<Longrightarrow> i < ?leafId" using t(4) by blast
        ultimately show ?thesis by linarith
      qed
      then show ?thesis using ins calculation(2) by (auto simp: sp_rel_def inserted_def intro!: exI [of _ t'])
    qed
    ultimately show ?thesis using ss' by blast
  qed
qed

lemma sp_insert_old:
  assumes inv: "ss_inv C ss" and rel: "sp_rel s ss" and key: "length key = 32" and old: "key \<in> ss_contents ss"
  shows "sp_insert C s key = Some (Inl (PlainError ''nullifier already in the spent set''))"
proof -
  let ?k = "be_int key"
  have kr: "key_range ?k" and kb: "be_bytes 32 ?k = key" using key_range_bytes [OF key] be_bytes_be_int [of key] key by simp_all
  have k: "?k \<in> ss_keys ss" using old ss_contents_key [OF inv key] by simp
  then obtain u where u: "ss_tree ss = Some u" by (auto simp: ss_keys_def split: option.splits)
  obtain t where t: "sp_top s = Some (r_id t)" "rows_hold (sp_rows s) t" "\<forall>i \<in> set (row_ids t). i < sp_next s" "erase t = u"
    using rel u by (auto simp: sp_rel_def)
  have "sp_next s \<notin> set (row_ids t)" using t(3) by force
  then have hold: "rows_hold ((sp_rows s)(sp_next s \<mapsto> v)) t" for v using rows_hold_update t(2) by blast
  have ok: "tree_ok C 0 (erase t)" using inv u t(4) by (simp add: ss_inv_def)
  obtain i node p where "descend ((sp_rows s)(sp_next s \<mapsto> \<lparr>nd_key = key, nd_bit = None, nd_l = None, nd_r = None, nd_hash = leafHash C key\<rparr>))
      key (Some (r_id t)) [] = Some (Inr (i, node, 256, p))"
    using descend_found [OF kr hold ok, of "\<lparr>nd_key = key, nd_bit = None, nd_l = None, nd_r = None, nd_hash = leafHash C key\<rparr>" "[]"] k u t(4)
    unfolding ss_keys_def kb by auto
  then show ?thesis using t(1) by (simp add: sp_insert_def Let_def)
qed

fun stored_inserts :: "crypto \<Rightarrow> stored_spent \<Rightarrow> bytes list \<Rightarrow> stored_spent result option" where
  "stored_inserts C s [] = Some (Inr s)"
| "stored_inserts C s (k # ks) = (case sp_insert C s k of None \<Rightarrow> None | Some (Inl e) \<Rightarrow> Some (Inl e)
     | Some (Inr s') \<Rightarrow> stored_inserts C s' ks)"

lemma stored_inserts_run:
  "ss_inv C ss \<Longrightarrow> sp_rel s ss \<Longrightarrow> list_all (\<lambda>k. length k = 32) ks \<Longrightarrow>
    (case foldR (\<lambda>s k. ss_insert C k s) ss ks of Inr ss' \<Rightarrow> \<exists>s'. stored_inserts C s ks = Some (Inr s') \<and> sp_rel s' ss'
     | Inl e \<Rightarrow> stored_inserts C s ks = Some (Inl e))"
proof (induction ks arbitrary: s ss)
  case (Cons k ks)
  have l: "length k = 32" using Cons.prems(3) by simp
  show ?case
  proof (cases "k \<in> ss_contents ss")
    case True
    have "\<not> isOk (ss_insert C k ss)" using ss_insert_defined [OF Cons.prems(1), of k] True l by blast
    then have "ss_insert C k ss = Inl (PlainError ''nullifier already in the spent set'')"
      unfolding ss_insert_def bindR_def keyOf_def requireR_def using l
      by (auto simp: isOk_def Let_def split: sum.splits if_splits prod.splits)
    then show ?thesis using sp_insert_old [OF Cons.prems(1,2) l True] by simp
  next
    case False
    obtain s' ss' where n: "sp_insert C s k = Some (Inr s')" "ss_insert C k ss = Inr ss'" "sp_rel s' ss'"
      using sp_insert_new [OF Cons.prems(1,2) l False] by blast
    have "ss_inv C ss'" using ss_insert_result [OF Cons.prems(1) n(2)] by simp
    from Cons.IH [OF this n(3)] Cons.prems(3) show ?thesis by (auto simp: n split: sum.split)
  qed
qed simp

subsection \<open>Properties\<close>

text \<open>C14: the stored spent set refines the radix tree. Whatever sequence of 32-byte keys is inserted, the stored inserts end,
  succeed exactly where the tree's do and refuse with the same error, and the root read from the rows is the tree's root;
  in particular the descent through the rows never fails to return.\<close>

theorem stored_spent_refines:
  assumes "list_all (\<lambda>k. length k = 32) ks"
  shows "case foldR (\<lambda>s k. ss_insert C k s) newSpentSet ks of
      Inr ss \<Rightarrow> \<exists>s. stored_inserts C newStoredSpent ks = Some (Inr s) \<and> sp_root C s = Inr (ss_root C ss)
    | Inl e \<Rightarrow> stored_inserts C newStoredSpent ks = Some (Inl e)"
  using stored_inserts_run [OF radix.new_inv sp_rel_new assms, of C] sp_root_refines by (auto split: sum.splits)

lemma stored_spent_refines_witness:
  "\<exists>s. stored_inserts toy_crypto newStoredSpent [replicate 32 1, 2 # replicate 31 0] = Some (Inr s)"
proof -
  obtain ss where "foldR (\<lambda>s k. ss_insert toy_crypto k s) newSpentSet [replicate 32 1, 2 # replicate 31 0] = Inr ss"
    using example_spent(1) by (auto simp: isOk_conv)
  then show ?thesis using stored_spent_refines [of "[replicate 32 1, 2 # replicate 31 0]" toy_crypto] by auto
qed

end
