(* ===== verification/ReplayStore.thy ===== *)
theory ReplayStore
  imports Construction Frontier StoredSpent
begin

section \<open>The replay store's tables and reads (src/pool/v3/replay-store.ts)\<close>

text \<open>
  The store keeps every replayed segment's facts as rows of one database, a namespace per replay.  A
  namespace reads its own rows through a position and the rows of the segments it imports through
  their imported positions, so nothing is copied and no earlier position ever changes.  The database
  is a record of tables, a table a list of rows in the order of insertion, and a statement of the
  source's prepared SQL the filter it names; \<open>INSERT\<close> under a primary key refuses a second row.  A
  transaction that throws leaves the database as it was, so a failing operation returns no database.
  A row's note roots, leaf siblings and frontier are held decoded; keys of notes and tags are the bytes stored.
\<close>

record namespace_row =
  n_segment :: bytes
  n_identity :: bytes
  n_position :: int
  n_history :: bytes
  n_evidence :: bytes
  n_leaves :: nat
  n_noteRoot :: int
  n_ommers :: ommers
  n_spentTop :: "int option"
  n_spentNext :: int
  n_baseSpent :: bytes

record import_row =
  im_ns :: int
  im_segment :: bytes
  im_source :: int
  im_upto :: int

record event_row =
  ev_ns :: int
  ev_position :: int
  ev_identity :: bytes
  ev_kind :: int
  ev_idx :: "int option"
  ev_proofHash :: bytes
  ev_signatureHash :: bytes
  ev_settlement :: "bytes option"
  ev_history :: bytes
  ev_evidence :: bytes
  ev_noteRoot :: int
  ev_spentRoot :: bytes
  ev_supply :: "(bytes \<times> int \<times> int) option"

record event_key_row =
  ek_key :: string
  ek_ns :: int
  ek_position :: int

record nullifier_row =
  nl_nf :: bytes
  nl_ns :: int
  nl_position :: int
  nl_tag :: bytes

record output_row =
  ot_cm :: bytes
  ot_ns :: int
  ot_position :: int
  ot_leaf :: nat
  ot_capsule :: "bytes option"
  ot_settlement :: bool

record anchor_row =
  ac_root :: bytes
  ac_ns :: int
  ac_position :: int

record demand_row =
  dr_id :: string
  dr_ns :: int
  dr_position :: int
  dr_backing :: bytes
  dr_quantity :: int
  dr_tag0 :: bytes
  dr_tag1 :: bytes
  dr_presenter :: bytes
  dr_instant :: int
  dr_deadline :: int

record demand_tag_row =
  dt_tag :: bytes
  dt_id :: string
  dt_ns :: int

record demand_end_row =
  de_id :: string
  de_ns :: int
  de_position :: int

record demand_nullifier_row =
  dn_id :: string
  dn_ns :: int
  dn_i :: nat
  dn_nf :: bytes

record total_row =
  tt_ns :: int
  tt_backing :: bytes
  tt_position :: int
  tt_issued :: int
  tt_burned :: int

record witness_row =
  wt_ns :: int
  wt_leaf :: nat
  wt_cm :: bytes
  wt_nf :: bytes
  wt_note :: bytes
  wt_siblings :: "int list"

record database =
  db_next :: int
  db_namespace :: "int \<Rightarrow> namespace_row option"
  db_construction :: "int \<Rightarrow> namespace_construction option"
  db_import :: "import_row list"
  db_event :: "event_row list"
  db_event_key :: "event_key_row list"
  db_nullifier :: "nullifier_row list"
  db_output :: "output_row list"
  db_anchor :: "anchor_row list"
  db_demand :: "demand_row list"
  db_demand_tag :: "demand_tag_row list"
  db_demand_end :: "demand_end_row list"
  db_demand_nullifier :: "demand_nullifier_row list"
  db_total :: "total_row list"
  db_spent :: "int \<Rightarrow> int \<Rightarrow> spent_node option"
  db_witness :: "witness_row list"

definition newDatabase :: database where
  "newDatabase = \<lparr>db_next = 1, db_namespace = (\<lambda>_. None), db_construction = (\<lambda>_. None), db_import = [], db_event = [],
     db_event_key = [], db_nullifier = [], db_output = [], db_anchor = [], db_demand = [], db_demand_tag = [],
     db_demand_end = [], db_demand_nullifier = [], db_total = [], db_spent = (\<lambda>_ _. None), db_witness = []\<rparr>"

subsection \<open>Keys\<close>

text \<open>A nullifier, commitment or tag key is 32 big-endian bytes of a 256-bit value.\<close>

definition U256 :: int where "U256 = push_bit 256 1"

definition keyBytes :: "int \<Rightarrow> bytes result" where
  "keyBytes value = (if value < 0 \<or> value \<ge> U256 then Inl (TypeError ''a stored key is a 256-bit value'')
     else Inr (be_bytes 32 value))"

definition key_value :: "bytes \<Rightarrow> int result" where
  "key_value value = (if length value \<noteq> 32 then Inl (KeptStateMismatch ''a stored key is 32 bytes'') else Inr (be_int value))"

text \<open>\<open>Buffer.from(text, "hex")\<close>: pairs of digits up to the first that is none.\<close>

definition hex_nibble :: "char \<Rightarrow> int option" where
  "hex_nibble c = (let n = of_char c :: int in
     if 48 \<le> n \<and> n \<le> 57 then Some (n - 48) else if 97 \<le> n \<and> n \<le> 102 then Some (n - 87)
     else if 65 \<le> n \<and> n \<le> 70 then Some (n - 55) else None)"

fun unhex :: "string \<Rightarrow> bytes" where
  "unhex (a # b # rest) = (case (hex_nibble a, hex_nibble b) of
     (Some x, Some y) \<Rightarrow> word_of_int (x * 16 + y) # unhex rest | _ \<Rightarrow> [])"
| "unhex _ = []"

text \<open>A row visible from a namespace at a position: its own through the position, or an imported one's through its own.\<close>

definition visible :: "database \<Rightarrow> int \<Rightarrow> int \<Rightarrow> int \<Rightarrow> int \<Rightarrow> bool" where
  "visible db ns p row_ns row_position \<longleftrightarrow> row_ns = ns \<and> row_position \<le> p \<or>
     list_ex (\<lambda>i. im_ns i = ns \<and> im_source i = row_ns \<and> row_position \<le> im_upto i) (db_import db)"

subsection \<open>Reads\<close>

record tip =
  tip_segment :: bytes
  tip_position :: int
  tip_history :: bytes
  tip_evidence :: bytes
  tip_leaves :: nat
  tip_noteRoot :: int
  tip_spentRoot :: bytes

definition namespace_of :: "database \<Rightarrow> int \<Rightarrow> namespace_row result" where
  "namespace_of db ns = (case db_namespace db ns of None \<Rightarrow> Inl (PlainError ''unknown replay namespace'') | Some r \<Rightarrow> Inr r)"

definition hasNamespace :: "database \<Rightarrow> int \<Rightarrow> bool" where
  "hasNamespace db ns \<longleftrightarrow> db_namespace db ns \<noteq> None"

definition construction_of :: "database \<Rightarrow> int \<Rightarrow> namespace_construction result" where
  "construction_of db ns = (case db_construction db ns of None \<Rightarrow> Inl (PlainError ''unknown replay namespace'') | Some c \<Rightarrow> Inr c)"

definition spent_of :: "database \<Rightarrow> int \<Rightarrow> namespace_row \<Rightarrow> stored_spent" where
  "spent_of db ns row = \<lparr>sp_top = n_spentTop row, sp_next = n_spentNext row, sp_rows = db_spent db ns\<rparr>"

definition store_tip :: "crypto \<Rightarrow> database \<Rightarrow> int \<Rightarrow> tip result" where
  "store_tip C db ns = bindR (namespace_of db ns) (\<lambda>row. bindR (sp_root C (spent_of db ns row)) (\<lambda>spentRoot.
     Inr \<lparr>tip_segment = n_segment row, tip_position = n_position row, tip_history = n_history row, tip_evidence = n_evidence row,
       tip_leaves = n_leaves row, tip_noteRoot = n_noteRoot row, tip_spentRoot = spentRoot\<rparr>))"

definition baseSpentRoot :: "database \<Rightarrow> int \<Rightarrow> bytes result" where
  "baseSpentRoot db ns = mapR n_baseSpent (namespace_of db ns)"

definition store_imports :: "database \<Rightarrow> int \<Rightarrow> (string \<times> int \<times> int) list" where
  "store_imports db ns = map (\<lambda>i. (hex (im_segment i), im_source i, im_upto i))
     (sort_key im_source (filter (\<lambda>i. im_ns i = ns) (db_import db)))"

definition hasNullifier :: "database \<Rightarrow> int \<Rightarrow> int \<Rightarrow> int \<Rightarrow> bool result" where
  "hasNullifier db ns p nf = mapR (\<lambda>k. list_ex (\<lambda>x. nl_nf x = k \<and> visible db ns p (nl_ns x) (nl_position x)) (db_nullifier db)) (keyBytes nf)"

definition hasOutput :: "database \<Rightarrow> int \<Rightarrow> int \<Rightarrow> int \<Rightarrow> bool result" where
  "hasOutput db ns p cm = mapR (\<lambda>k. list_ex (\<lambda>x. ot_cm x = k \<and> visible db ns p (ot_ns x) (ot_position x)) (db_output db)) (keyBytes cm)"

definition hasAnchor :: "database \<Rightarrow> int \<Rightarrow> int \<Rightarrow> int \<Rightarrow> bool result" where
  "hasAnchor db ns p root = mapR (\<lambda>k. list_ex (\<lambda>x. ac_root x = k \<and> visible db ns p (ac_ns x) (ac_position x)) (db_anchor db)) (fieldToBytes root)"

definition hasSpentTag :: "database \<Rightarrow> int \<Rightarrow> int \<Rightarrow> int \<Rightarrow> bool result" where
  "hasSpentTag db ns p t = mapR (\<lambda>k. list_ex (\<lambda>x. nl_tag x = k \<and> visible db ns p (nl_ns x) (nl_position x)) (db_nullifier db)) (keyBytes t)"

definition isEffective :: "database \<Rightarrow> int \<Rightarrow> int \<Rightarrow> string \<Rightarrow> bool result" where
  "isEffective db ns p name = Inr (list_ex (\<lambda>x. ev_identity x = unhex name \<and> ev_kind x \<ge> 4 \<and> visible db ns p (ev_ns x) (ev_position x)) (db_event db))"

definition hasEvent :: "database \<Rightarrow> int \<Rightarrow> int \<Rightarrow> bytes \<Rightarrow> bool" where
  "hasEvent db ns p identity \<longleftrightarrow> list_ex (\<lambda>x. ev_identity x = identity \<and> visible db ns p (ev_ns x) (ev_position x)) (db_event db)"

definition hasStatement :: "database \<Rightarrow> int \<Rightarrow> int \<Rightarrow> bytes \<Rightarrow> bool" where
  "hasStatement db ns p identity \<longleftrightarrow> list_ex (\<lambda>x. ev_identity x = identity \<and> ev_ns x = ns \<and> ev_position x \<le> p) (db_event db)"

definition hasIssuance :: "database \<Rightarrow> int \<Rightarrow> int \<Rightarrow> int \<Rightarrow> string \<Rightarrow> bool" where
  "hasIssuance db ns p after backing \<longleftrightarrow> list_ex (\<lambda>x. ev_ns x = ns \<and> ev_position x > after \<and> ev_position x \<le> p \<and> ev_kind x = 1 \<and>
     (case ev_supply x of None \<Rightarrow> False | Some (b, _) \<Rightarrow> b = unhex backing)) (db_event db)"

text \<open>A demand from its row and its nullifiers' rows.\<close>

definition demand_of_row :: "database \<Rightarrow> demand_row \<Rightarrow> (string \<times> demand) result" where
  "demand_of_row db r =
     bindR (traverseR (\<lambda>n. key_value (dn_nf n)) (sort_key dn_i (filter (\<lambda>n. dn_id n = dr_id r \<and> dn_ns n = dr_ns r) (db_demand_nullifier db)))) (\<lambda>nfs.
     bindR (key_value (dr_tag0 r)) (\<lambda>t0. bindR (key_value (dr_tag1 r)) (\<lambda>t1.
     Inr (dr_id r, \<lparr>dm_backing = dr_backing r, dm_quantity = dr_quantity r, dm_tags = [t0, t1], dm_presenter = dr_presenter r,
       dm_instant = dr_instant r, dm_deadline = dr_deadline r, dm_nullifiers = (if nfs = [] then None else Some nfs)\<rparr>))))"

definition ended_at :: "database \<Rightarrow> int \<Rightarrow> int \<Rightarrow> string \<Rightarrow> bool" where
  "ended_at db ns p name \<longleftrightarrow> list_ex (\<lambda>y. de_id y = name \<and> visible db ns p (de_ns y) (de_position y)) (db_demand_end db)"

definition visible_demands :: "database \<Rightarrow> int \<Rightarrow> int \<Rightarrow> demand_row list" where
  "visible_demands db ns p = filter (\<lambda>x. visible db ns p (dr_ns x) (dr_position x)) (db_demand db)"

definition standing_demands :: "database \<Rightarrow> int \<Rightarrow> int \<Rightarrow> demand_row list" where
  "standing_demands db ns p = filter (\<lambda>x. \<not> ended_at db ns p (dr_id x)) (visible_demands db ns p)"

definition store_demand :: "database \<Rightarrow> int \<Rightarrow> int \<Rightarrow> string \<Rightarrow> demand option result" where
  "store_demand db ns p name = (case find (\<lambda>x. dr_id x = name) (standing_demands db ns p) of None \<Rightarrow> Inr None
     | Some r \<Rightarrow> mapR (\<lambda>(_, d). Some d) (demand_of_row db r))"

text \<open>The rows of a table of demands a tag row names.\<close>

definition tagged :: "database \<Rightarrow> bytes \<Rightarrow> demand_row list \<Rightarrow> demand_row list" where
  "tagged db k rows = concat (map (\<lambda>t. filter (\<lambda>x. dr_id x = dt_id t \<and> dr_ns x = dt_ns t) rows)
     (filter (\<lambda>t. dt_tag t = k) (db_demand_tag db)))"

definition demandsWithTag :: "database \<Rightarrow> int \<Rightarrow> int \<Rightarrow> int \<Rightarrow> (string \<times> demand) list result" where
  "demandsWithTag db ns p t = bindR (keyBytes t) (\<lambda>k. traverseR (demand_of_row db) (tagged db k (standing_demands db ns p)))"

definition presentedWithTag :: "database \<Rightarrow> int \<Rightarrow> int \<Rightarrow> int \<Rightarrow> (string \<times> demand) list result" where
  "presentedWithTag db ns p t = bindR (keyBytes t) (\<lambda>k. traverseR (demand_of_row db) (tagged db k (visible_demands db ns p)))"

definition store_demands :: "database \<Rightarrow> int \<Rightarrow> int \<Rightarrow> (string \<times> demand) list result" where
  "store_demands db ns p = traverseR (demand_of_row db) (sort_key dr_ns (sort_key dr_position (standing_demands db ns p)))"

definition event_at :: "database \<Rightarrow> int \<Rightarrow> int \<Rightarrow> event_row option" where
  "event_at db ns position = find (\<lambda>e. ev_ns e = ns \<and> ev_position e = position) (db_event db)"

definition store_events :: "database \<Rightarrow> int \<Rightarrow> int \<Rightarrow> event_row list" where
  "store_events db ns p = sort_key ev_ns (sort_key ev_position (filter (\<lambda>x. visible db ns p (ev_ns x) (ev_position x)) (db_event db)))"

definition eventCount :: "database \<Rightarrow> int \<Rightarrow> int \<Rightarrow> nat" where
  "eventCount db ns p = length (filter (\<lambda>x. visible db ns p (ev_ns x) (ev_position x)) (db_event db))"

definition provedCount :: "database \<Rightarrow> int \<Rightarrow> int \<Rightarrow> nat" where
  "provedCount db ns p = length (filter (\<lambda>x. ev_ns x = ns \<and> ev_position x \<le> p \<and> ev_kind x \<in> {1, 2, 3, 4, 6}) (db_event db))"

definition judgedIndices :: "database \<Rightarrow> int \<Rightarrow> int \<Rightarrow> int option list" where
  "judgedIndices db ns p = map ev_idx (sort_key ev_position (filter (\<lambda>x. ev_ns x = ns \<and> ev_position x \<le> p) (db_event db)))"

definition store_presented :: "database \<Rightarrow> int \<Rightarrow> int \<Rightarrow> string \<Rightarrow> (demand \<times> event_row option \<times> event_row option) option result" where
  "store_presented db ns p name = (case find (\<lambda>x. dr_id x = name) (visible_demands db ns p) of None \<Rightarrow> Inr None
     | Some r \<Rightarrow> mapR (\<lambda>(_, d). Some (d, event_at db (dr_ns r) (dr_position r),
         (case find (\<lambda>y. de_id y = name \<and> visible db ns p (de_ns y) (de_position y)) (db_demand_end db) of None \<Rightarrow> None
          | Some e \<Rightarrow> event_at db (de_ns e) (de_position e)))) (demand_of_row db r))"

definition tagSpends :: "database \<Rightarrow> int \<Rightarrow> int \<Rightarrow> int \<Rightarrow> event_row option list result" where
  "tagSpends db ns p t = mapR (\<lambda>k. map (\<lambda>x. event_at db (nl_ns x) (nl_position x)) (sort_key nl_ns (sort_key nl_position
     (filter (\<lambda>x. nl_tag x = k \<and> visible db ns p (nl_ns x) (nl_position x)) (db_nullifier db))))) (keyBytes t)"

text \<open>The latest total of a backing at or below a position.\<close>

definition latest_total :: "total_row list \<Rightarrow> total_row option" where
  "latest_total rows = foldl (\<lambda>best r. case best of None \<Rightarrow> Some r
     | Some b \<Rightarrow> if tt_position r > tt_position b then Some r else Some b) None rows"

definition store_total :: "database \<Rightarrow> int \<Rightarrow> int \<Rightarrow> bytes \<Rightarrow> int \<times> int" where
  "store_total db ns p backing =
     (case latest_total (filter (\<lambda>r. tt_ns r = ns \<and> tt_backing r = backing \<and> tt_position r \<le> p) (db_total db)) of
        None \<Rightarrow> (0, 0) | Some r \<Rightarrow> (tt_issued r, tt_burned r))"

definition store_totals :: "database \<Rightarrow> int \<Rightarrow> int \<Rightarrow> (bytes \<times> int \<times> int) list" where
  "store_totals db ns p = map (\<lambda>b. (b, store_total db ns p b))
     (remdups (map tt_backing (filter (\<lambda>r. tt_ns r = ns \<and> tt_position r \<le> p) (db_total db))))"

record stored_output =
  sto_cm :: int
  sto_ns :: int
  sto_position :: int
  sto_leaf :: nat
  sto_capsule :: "bytes option"
  sto_settlement :: bool

definition output_of_row :: "output_row \<Rightarrow> stored_output result" where
  "output_of_row r = mapR (\<lambda>cm. \<lparr>sto_cm = cm, sto_ns = ot_ns r, sto_position = ot_position r, sto_leaf = ot_leaf r,
     sto_capsule = ot_capsule r, sto_settlement = ot_settlement r\<rparr>) (key_value (ot_cm r))"

definition store_output :: "database \<Rightarrow> int \<Rightarrow> int \<Rightarrow> int \<Rightarrow> stored_output option result" where
  "store_output db ns p cm = bindR (keyBytes cm) (\<lambda>k.
     case find (\<lambda>x. ot_cm x = k \<and> visible db ns p (ot_ns x) (ot_position x)) (db_output db) of None \<Rightarrow> Inr None
     | Some r \<Rightarrow> mapR Some (output_of_row r))"

definition store_outputs :: "database \<Rightarrow> int \<Rightarrow> int \<Rightarrow> stored_output list result" where
  "store_outputs db ns p = traverseR output_of_row (sort_key ot_ns (sort_key ot_leaf
     (filter (\<lambda>x. visible db ns p (ot_ns x) (ot_position x)) (db_output db))))"

definition store_nullifiers :: "database \<Rightarrow> int \<Rightarrow> int \<Rightarrow> int list result" where
  "store_nullifiers db ns p = traverseR (\<lambda>x. key_value (nl_nf x)) (sort_key nl_ns (sort_key nl_position
     (filter (\<lambda>x. visible db ns p (nl_ns x) (nl_position x)) (db_nullifier db))))"

definition consumedAt :: "database \<Rightarrow> int \<Rightarrow> int \<Rightarrow> int list result" where
  "consumedAt db ns position = mapR sort (traverseR (\<lambda>x. key_value (nl_nf x))
     (filter (\<lambda>x. nl_ns x = ns \<and> nl_position x = position) (db_nullifier db)))"

definition holdsRows :: "database \<Rightarrow> int \<Rightarrow> bool" where
  "holdsRows db ns \<longleftrightarrow> list_ex (\<lambda>x. ot_ns x = ns) (db_output db) \<or> list_ex (\<lambda>x. dr_ns x = ns) (db_demand db)"

definition heldDemandRows :: "database \<Rightarrow> string \<Rightarrow> int \<Rightarrow> bool" where
  "heldDemandRows db name ns \<longleftrightarrow> list_ex (\<lambda>x. dn_id x = name \<and> dn_ns x = ns) (db_demand_nullifier db) \<or>
     list_ex (\<lambda>x. de_id x = name \<and> de_ns x = ns) (db_demand_end db)"

end
