(* ===== verification/ReplayAppend.thy ===== *)
theory ReplayAppend
  imports ReplayStore
begin

section \<open>The replay store's writes (src/pool/v3/replay-store.ts)\<close>

text \<open>
  Opening a namespace over an imported frontier and appending one judged record at a namespace's
  tip, each a transaction of the database of ReplayStore.  A stored spent set whose descent would not
  return is an error of its own here, which the invariant of the store excludes.  The lemmas say
  what each table holds after an append and that every read bounded by an earlier position is unchanged.
\<close>

definition insert_row :: "('a \<Rightarrow> 'k) \<Rightarrow> string \<Rightarrow> 'a \<Rightarrow> 'a list \<Rightarrow> 'a list result" where
  "insert_row key table r rows = (if list_ex (\<lambda>x. key x = key r) rows then Inl (SqliteError (''UNIQUE constraint failed: '' @ table))
     else Inr (rows @ [r]))"

text \<open>\<open>INSERT OR IGNORE\<close> and \<open>INSERT OR REPLACE\<close>.\<close>

definition ignore_row :: "('a \<Rightarrow> 'k) \<Rightarrow> 'a \<Rightarrow> 'a list \<Rightarrow> 'a list" where
  "ignore_row key r rows = (if list_ex (\<lambda>x. key x = key r) rows then rows else rows @ [r])"

definition replace_row :: "('a \<Rightarrow> 'k) \<Rightarrow> 'a \<Rightarrow> 'a list \<Rightarrow> 'a list" where
  "replace_row key r rows = filter (\<lambda>x. key x \<noteq> key r) rows @ [r]"

text \<open>SQLite integers are 64-bit; a larger value is not bound.\<close>

definition sqlite_int :: "int \<Rightarrow> unit result" where
  "sqlite_int v = requireR (- (2 ^ 63) \<le> v \<and> v < 2 ^ 63) (TypeError ''BigInt value is too large to bind'')"

definition returned :: "'a result option \<Rightarrow> 'a result" where
  "returned r = (case r of None \<Rightarrow> Inl (PlainError ''the descent does not return'') | Some x \<Rightarrow> x)"

definition spent_key :: "crypto \<Rightarrow> stored_spent \<Rightarrow> bytes \<Rightarrow> stored_spent result" where
  "spent_key C s k = returned (sp_insert C s k)"

text \<open>A spent set's rows and its namespace's columns.\<close>

definition save_spent :: "int \<Rightarrow> stored_spent \<Rightarrow> database \<Rightarrow> database" where
  "save_spent ns s db = db\<lparr>db_spent := (db_spent db)(ns := sp_rows s),
     db_namespace := (db_namespace db)(ns := map_option (\<lambda>r. r\<lparr>n_spentTop := sp_top s, n_spentNext := sp_next s\<rparr>) (db_namespace db ns))\<rparr>"

subsection \<open>Opening a namespace\<close>

record frontier_imports =
  mi_segments :: "(string \<times> int \<times> int) list"
  mi_totals :: "(string \<times> int \<times> int) list"

definition insert_import :: "int \<Rightarrow> database \<Rightarrow> string \<times> int \<times> int \<Rightarrow> database result" where
  "insert_import ns db = (\<lambda>(name, source, upto). let r = \<lparr>im_ns = ns, im_segment = unhex name, im_source = source, im_upto = upto\<rparr> in
     if list_ex (\<lambda>x. im_ns x = ns \<and> (im_segment x = im_segment r \<or> im_source x = source)) (db_import db)
     then Inl (SqliteError ''UNIQUE constraint failed: import'') else Inr (db\<lparr>db_import := db_import db @ [r]\<rparr>))"

definition insert_total :: "int \<Rightarrow> bytes \<Rightarrow> int \<Rightarrow> int \<Rightarrow> int \<Rightarrow> database \<Rightarrow> database" where
  "insert_total ns backing position issued burned db = db\<lparr>db_total := replace_row (\<lambda>r. (tt_ns r, tt_backing r, tt_position r))
     \<lparr>tt_ns = ns, tt_backing = backing, tt_position = position, tt_issued = issued, tt_burned = burned\<rparr> (db_total db)\<rparr>"

definition imported_nullifiers :: "database \<Rightarrow> int \<times> int \<Rightarrow> bytes list" where
  "imported_nullifiers db = (\<lambda>(source, upto). map nl_nf (filter (\<lambda>x. nl_ns x = source \<and> nl_position x \<le> upto) (db_nullifier db)))"

definition store_open :: "crypto \<Rightarrow> database \<Rightarrow> bytes \<Rightarrow> bytes \<Rightarrow> frontier_imports option \<Rightarrow> bytes \<Rightarrow> bytes \<Rightarrow> namespace_construction \<Rightarrow> (int \<times> database) result" where
  "store_open C db segment identity imported genesisHistory genesisEvidence construction =
     (let segments = (case imported of None \<Rightarrow> [] | Some i \<Rightarrow> mi_segments i);
          totals = (case imported of None \<Rightarrow> [] | Some i \<Rightarrow> mi_totals i) in
     bindR (foldR (\<lambda>_ (_, source, _). bindR (construction_of db source) (\<lambda>c.
       requireR (c = construction) (TypeError ''an import is of another construction''))) () segments) (\<lambda>_.
     let ns = db_next db;
         row = \<lparr>n_segment = segment, n_identity = identity, n_position = 0, n_history = genesisHistory, n_evidence = genesisEvidence,
           n_leaves = 0, n_noteRoot = EMPTY_NOTE_ROOT C, n_ommers = EMPTY_OMMERS, n_spentTop = None, n_spentNext = 1, n_baseSpent = EMPTY C\<rparr>;
         db1 = db\<lparr>db_next := ns + 1, db_namespace := (db_namespace db)(ns \<mapsto> row)\<rparr> in
     bindR (requireR (\<not> holdsRows db1 ns) (KeptStateMismatch ''a new namespace's number holds rows'')) (\<lambda>_.
     bindR (requireR (db_construction db1 ns = None) (SqliteError ''UNIQUE constraint failed: namespace_construction'')) (\<lambda>_.
     let db2 = db1\<lparr>db_construction := (db_construction db1)(ns \<mapsto> construction)\<rparr> in
     bindR (foldR (insert_import ns) db2 segments) (\<lambda>db3.
     bindR (fieldToBytes (EMPTY_NOTE_ROOT C)) (\<lambda>root.
     let db4 = (if nc_tree construction then db3\<lparr>db_anchor := ignore_row (\<lambda>r. (ac_root r, ac_ns r))
           \<lparr>ac_root = root, ac_ns = ns, ac_position = 0\<rparr> (db_anchor db3)\<rparr> else db3);
         db5 = foldl (\<lambda>d (backing, issued, burned). insert_total ns (unhex backing) 0 issued burned d) db4 totals in
     bindR (foldR (spent_key C) (spent_of db5 ns row)
       (concat (map (\<lambda>(_, source, upto). imported_nullifiers db5 (source, upto)) segments))) (\<lambda>spent.
     let db6 = save_spent ns spent db5 in
     bindR (sp_root C spent) (\<lambda>base.
     Inr (ns, db6\<lparr>db_namespace := (db_namespace db6)(ns := map_option (\<lambda>r. r\<lparr>n_baseSpent := base\<rparr>) (db_namespace db6 ns))\<rparr>)))))))))"

subsection \<open>Appending a record\<close>

record witness_mark =
  wm_nf :: int
  wm_note :: bytes

record append_output =
  ao_cm :: int
  ao_capsule :: "bytes option"
  ao_settlement :: bool
  ao_witness :: "witness_mark option"

record append =
  ap_identity :: bytes
  ap_kind :: int
  ap_index :: "int option"
  ap_record :: bytes
  ap_proofHash :: bytes
  ap_signatureHash :: bytes
  ap_evidence :: bytes
  ap_supply :: "(string \<times> int \<times> int) option"
  ap_nullifiers :: "(int \<times> int) list"
  ap_outputs :: "append_output list"
  ap_demand :: "(string \<times> demand) option"
  ap_ended :: "string option"
  ap_keys :: "string list"
  ap_history :: "int \<Rightarrow> bytes \<Rightarrow> bytes result"

definition insert_output :: "int \<Rightarrow> int \<Rightarrow> nat \<Rightarrow> bytes \<Rightarrow> append_output \<Rightarrow> database \<Rightarrow> database result" where
  "insert_output ns position leaf cm output db = mapR (\<lambda>rows. db\<lparr>db_output := rows\<rparr>)
     (insert_row (\<lambda>r. (ot_cm r, ot_ns r)) ''output''
       \<lparr>ot_cm = cm, ot_ns = ns, ot_position = position, ot_leaf = leaf, ot_capsule = ao_capsule output,
        ot_settlement = ao_settlement output\<rparr> (db_output db))"

definition put_witness :: "int \<Rightarrow> nat \<Rightarrow> bytes \<Rightarrow> bytes \<Rightarrow> bytes \<Rightarrow> int list \<Rightarrow> database \<Rightarrow> database result" where
  "put_witness ns leaf cm nf note sib db = mapR (\<lambda>rows. db\<lparr>db_witness := rows\<rparr>)
     (insert_row (\<lambda>r. (wt_ns r, wt_leaf r)) ''witness''
       \<lparr>wt_ns = ns, wt_leaf = leaf, wt_cm = cm, wt_nf = nf, wt_note = note, wt_siblings = sib\<rparr> (db_witness db))"

text \<open>A construction without a note tree numbers its outputs in scan order and keeps a mark with no path.\<close>

definition plain_output :: "int \<Rightarrow> int \<Rightarrow> nat \<times> database \<Rightarrow> append_output \<Rightarrow> (nat \<times> database) result" where
  "plain_output ns position = (\<lambda>(leaf, db) output.
     bindR (keyBytes (ao_cm output)) (\<lambda>cm.
     bindR (insert_output ns position leaf cm output db) (\<lambda>db1.
     bindR (case ao_witness output of None \<Rightarrow> Inr db1 | Some m \<Rightarrow>
       bindR (keyBytes (wm_nf m)) (\<lambda>nf. put_witness ns leaf cm nf (wm_note m) [] db1)) (\<lambda>db2.
     Inr (Suc leaf, db2)))))"

text \<open>With a note tree, each output extends the frontier; then the witnesses born are stored and those beside a completed block moved.\<close>

definition tree_output :: "crypto \<Rightarrow> int \<Rightarrow> int \<Rightarrow> frontier_run \<times> database \<Rightarrow> append_output \<Rightarrow> (frontier_run \<times> database) result" where
  "tree_output C ns position = (\<lambda>(r, db) output.
     bindR (frontier_output C r (ao_cm output, ao_witness output \<noteq> None)) (\<lambda>r'.
     bindR (fieldToBytes (ao_cm output)) (\<lambda>cm.
     bindR (insert_output ns position (fr_leaves r) cm output db) (\<lambda>db'. Inr (r', db')))))"

definition store_born :: "nat \<Rightarrow> append_output list \<Rightarrow> int \<Rightarrow> database \<Rightarrow> nat \<times> int list \<Rightarrow> database result" where
  "store_born first outputs ns db = (\<lambda>(leaf, sib). let output = outputs ! (leaf - first) in
     case ao_witness output of None \<Rightarrow> Inl (TypeError ''witness'') | Some m \<Rightarrow>
       bindR (fieldToBytes (ao_cm output)) (\<lambda>cm. bindR (fieldToBytes (wm_nf m)) (\<lambda>nf. put_witness ns leaf cm nf (wm_note m) sib db)))"

definition move_witnesses :: "int \<Rightarrow> completed \<Rightarrow> database \<Rightarrow> database" where
  "move_witnesses ns completed db = db\<lparr>db_witness := map (\<lambda>r. if wt_ns r = ns
     then r\<lparr>wt_siblings := move_witness completed (wt_leaf r) (wt_siblings r)\<rparr> else r) (db_witness db)\<rparr>"

definition append_outputs ::
    "crypto \<Rightarrow> int \<Rightarrow> int \<Rightarrow> bool \<Rightarrow> append_output list \<Rightarrow> namespace_row \<Rightarrow> database \<Rightarrow> (namespace_row \<times> database) result" where
  "append_outputs C ns position tree outputs row db =
     (if \<not> tree then mapR (\<lambda>(leaves, db'). (row\<lparr>n_leaves := leaves\<rparr>, db')) (foldR (plain_output ns position) (n_leaves row, db) outputs)
      else if outputs = [] then Inr (row, db)
      else bindR (foldR (tree_output C ns position) (\<lparr>fr_leaves = n_leaves row, fr_ommers = n_ommers row, fr_before = n_ommers row,
          fr_completed = [], fr_born = []\<rparr>, db) outputs) (\<lambda>(r, db1).
        bindR (rightmost_root C (fr_leaves r - 1) (fr_before r) (ao_cm (last outputs))) (\<lambda>root.
        bindR (foldR (store_born (n_leaves row) outputs ns) db1 (fr_born r)) (\<lambda>db2.
        Inr (row\<lparr>n_leaves := fr_leaves r, n_ommers := fr_ommers r, n_noteRoot := root\<rparr>, move_witnesses ns (fr_completed r) db2)))))"

definition append_nullifier :: "crypto \<Rightarrow> int \<Rightarrow> int \<Rightarrow> bool \<Rightarrow> stored_spent \<times> database \<Rightarrow> int \<times> int \<Rightarrow> (stored_spent \<times> database) result" where
  "append_nullifier C ns position tree = (\<lambda>(spent, db) (nf, t).
     bindR (keyBytes nf) (\<lambda>k. bindR (spent_key C spent k) (\<lambda>spent'.
     bindR (keyBytes t) (\<lambda>tk.
     bindR (insert_row (\<lambda>r. (nl_nf r, nl_ns r)) ''nullifier'' \<lparr>nl_nf = k, nl_ns = ns, nl_position = position, nl_tag = tk\<rparr> (db_nullifier db)) (\<lambda>rows.
     Inr (spent', db\<lparr>db_nullifier := rows,
       db_witness := (if tree then filter (\<lambda>w. \<not> (wt_ns w = ns \<and> wt_nf w = k)) (db_witness db) else db_witness db)\<rparr>))))))"

definition insert_demand :: "int \<Rightarrow> int \<Rightarrow> database \<Rightarrow> string \<times> demand \<Rightarrow> database result" where
  "insert_demand ns position db = (\<lambda>(name, d).
     bindR (requireR (\<not> heldDemandRows db name ns) (KeptStateMismatch ''a demand's rows before it stands'')) (\<lambda>_.
     bindR (requireR (2 \<le> length (dm_tags d)) (TypeError ''a stored key is a 256-bit value'')) (\<lambda>_.
     bindR (keyBytes (dm_tags d ! 0)) (\<lambda>t0. bindR (keyBytes (dm_tags d ! 1)) (\<lambda>t1.
     bindR (insert_row (\<lambda>r. (dr_id r, dr_ns r)) ''demand'' \<lparr>dr_id = name, dr_ns = ns, dr_position = position, dr_backing = dm_backing d,
       dr_quantity = dm_quantity d, dr_tag0 = t0, dr_tag1 = t1, dr_presenter = dm_presenter d, dr_instant = dm_instant d,
       dr_deadline = dm_deadline d\<rparr> (db_demand db)) (\<lambda>rows.
     bindR (traverseR keyBytes (dm_tags d)) (\<lambda>ks.
     bindR (traverseR keyBytes (case dm_nullifiers d of None \<Rightarrow> [] | Some nfs \<Rightarrow> nfs)) (\<lambda>nks.
     bindR (foldR (\<lambda>ns_rows (i, k). insert_row (\<lambda>r. (dn_id r, dn_ns r, dn_i r)) ''demand_nullifier''
         \<lparr>dn_id = name, dn_ns = ns, dn_i = i, dn_nf = k\<rparr> ns_rows) (db_demand_nullifier db) (enumerate 0 nks)) (\<lambda>nrows.
     Inr (db\<lparr>db_demand := rows,
       db_demand_tag := foldl (\<lambda>rs k. ignore_row (\<lambda>r. (dt_tag r, dt_id r, dt_ns r)) \<lparr>dt_tag = k, dt_id = name, dt_ns = ns\<rparr> rs) (db_demand_tag db) ks,
       db_demand_nullifier := nrows\<rparr>))))))))))"

definition insert_end :: "int \<Rightarrow> int \<Rightarrow> database \<Rightarrow> string \<Rightarrow> database result" where
  "insert_end ns position db name = mapR (\<lambda>rows. db\<lparr>db_demand_end := rows\<rparr>)
     (insert_row (\<lambda>r. (de_id r, de_ns r)) ''demand_end'' \<lparr>de_id = name, de_ns = ns, de_position = position\<rparr> (db_demand_end db))"

definition insert_event :: "event_row \<Rightarrow> database \<Rightarrow> database result" where
  "insert_event e db = mapR (\<lambda>rows. db\<lparr>db_event := rows\<rparr>) (insert_row (\<lambda>r. (ev_ns r, ev_position r)) ''event'' e (db_event db))"

definition insert_keys :: "int \<Rightarrow> int \<Rightarrow> string list \<Rightarrow> database \<Rightarrow> database result" where
  "insert_keys ns position keys db = mapR (\<lambda>rows. db\<lparr>db_event_key := rows\<rparr>)
     (foldR (\<lambda>rows k. insert_row (\<lambda>r. (ek_key r, ek_ns r, ek_position r)) ''event_key''
       \<lparr>ek_key = k, ek_ns = ns, ek_position = position\<rparr> rows) (db_event_key db) (rev (remdups (rev keys))))"

definition optionally :: "('a \<Rightarrow> 'b \<Rightarrow> 'a result) \<Rightarrow> 'a \<Rightarrow> 'b option \<Rightarrow> 'a result" where
  "optionally f x o' = (case o' of None \<Rightarrow> Inr x | Some y \<Rightarrow> f x y)"

text \<open>The parts of an append: the note tree's outputs and the spent set; demands, their ends and the totals; the event.\<close>

definition append_notes :: "crypto \<Rightarrow> int \<Rightarrow> int \<Rightarrow> bool \<Rightarrow> append \<Rightarrow> namespace_row \<Rightarrow> database \<Rightarrow> (namespace_row \<times> stored_spent \<times> database) result" where
  "append_notes C ns position tree record row0 db =
     bindR (append_outputs C ns position tree (ap_outputs record) row0 db) (\<lambda>(row1, db1).
     bindR (foldR (append_nullifier C ns position tree) (spent_of db1 ns row1, db1) (ap_nullifiers record)) (\<lambda>(spent, db2).
     Inr (row1, spent, save_spent ns spent db2)))"

definition append_anchor :: "int \<Rightarrow> int \<Rightarrow> bool \<Rightarrow> bytes \<Rightarrow> database \<Rightarrow> database" where
  "append_anchor ns position tree root db = (if tree then db\<lparr>db_anchor := ignore_row (\<lambda>r. (ac_root r, ac_ns r))
     \<lparr>ac_root = root, ac_ns = ns, ac_position = position\<rparr> (db_anchor db)\<rparr> else db)"

definition append_supply :: "int \<Rightarrow> int \<Rightarrow> (string \<times> int \<times> int) option \<Rightarrow> database \<Rightarrow> database" where
  "append_supply ns position supply db = (case supply of None \<Rightarrow> db | Some (backing, issued, burned) \<Rightarrow>
     (let (i, b) = store_total db ns (position - 1) (unhex backing) in
      insert_total ns (unhex backing) position (i + issued) (b + burned) db))"

definition append_event :: "int \<Rightarrow> int \<Rightarrow> append \<Rightarrow> namespace_row \<Rightarrow> stored_spent \<Rightarrow> bytes \<Rightarrow> database \<Rightarrow> database result" where
  "append_event ns position record row1 spent spentRoot db =
     bindR (ap_history record (n_noteRoot row1) spentRoot) (\<lambda>history.
     bindR (sqlite_int position) (\<lambda>_.
     bindR (insert_event \<lparr>ev_ns = ns, ev_position = position, ev_identity = ap_identity record, ev_kind = ap_kind record,
       ev_idx = ap_index record, ev_proofHash = ap_proofHash record, ev_signatureHash = ap_signatureHash record,
       ev_settlement = (if ap_kind record = 6 then Some (ap_record record) else None), ev_history = history,
       ev_evidence = ap_evidence record, ev_noteRoot = n_noteRoot row1, ev_spentRoot = spentRoot,
       ev_supply = map_option (\<lambda>(b, i, u). (unhex b, i, u)) (ap_supply record)\<rparr> db) (\<lambda>db1.
     bindR (insert_keys ns position (ap_keys record) db1) (\<lambda>db2.
     Inr (db2\<lparr>db_namespace := (db_namespace db2)(ns \<mapsto> row1\<lparr>n_position := position, n_history := history,
       n_evidence := ap_evidence record, n_spentTop := sp_top spent, n_spentNext := sp_next spent\<rparr>)\<rparr>)))))"

definition store_append :: "crypto \<Rightarrow> int \<Rightarrow> append \<Rightarrow> database \<Rightarrow> (tip \<times> database) result" where
  "store_append C ns record db =
     bindR (case db_namespace db ns of None \<Rightarrow> Inl (TypeError ''row'') | Some r \<Rightarrow> Inr r) (\<lambda>row0.
     bindR (construction_of db ns) (\<lambda>construction.
     let position = n_position row0 + 1; tree = nc_tree construction in
     bindR (append_notes C ns position tree record row0 db) (\<lambda>(row1, spent, db3).
     bindR (sp_root C spent) (\<lambda>spentRoot.
     bindR (fieldToBytes (n_noteRoot row1)) (\<lambda>root.
     bindR (optionally (insert_demand ns position) (append_anchor ns position tree root db3) (ap_demand record)) (\<lambda>db5.
     bindR (optionally (insert_end ns position) db5 (ap_ended record)) (\<lambda>db6.
     bindR (append_event ns position record row1 spent spentRoot (append_supply ns position (ap_supply record) db6)) (\<lambda>db'.
     mapR (\<lambda>t. (t, db')) (store_tip C db' ns)))))))))"

end
