(* ===== verification/State.thy ===== *)
theory State
  imports ReplayAppend
begin

section \<open>The state machine (src/pool/v3/state.ts)\<close>

text \<open>
  One record judged against a segment's replayed state and its effects written: in an operator's
  admission, a reader's replay, a segment's adopted block, and in memory where a publication is
  forced over a fixed snapshot.  A state handle is a namespace with the position it reads at; its
  reads are those of ReplayStore at that position.  A judgment is modelled in its two halves, the
  checks before the statement check and those after it, as the source splits them around the proof's
  verification; the second half reads the database as it then is.
\<close>

datatype step_mode = Admission | Replay | Adoption | Force

record state_view = recovery_view +
  sv_hasNullifier :: "int \<Rightarrow> bool result"
  sv_hasOutput :: "int \<Rightarrow> bool result"
  sv_hasAnchor :: "int \<Rightarrow> bool result"
  sv_isInput :: "int \<Rightarrow> bool result"
  sv_settledFor :: "int \<Rightarrow> string option result"
  sv_presentedWithTag :: "int \<Rightarrow> (string \<times> demand) list result"

subsection \<open>State handles\<close>

record state_handle =
  sh_ns :: int
  sh_at :: "int option"

definition newStateHandle :: "database \<Rightarrow> int \<Rightarrow> int option \<Rightarrow> 'r construction \<Rightarrow> state_handle result" where
  "newStateHandle db ns at c = bindR (construction_of db ns) (\<lambda>n.
     if nc_name n \<noteq> nc_name (c_namespace c) then Inl (TypeError ''the namespace replays another construction'')
     else Inr \<lparr>sh_ns = ns, sh_at = at\<rparr>)"

definition state_position :: "crypto \<Rightarrow> database \<Rightarrow> state_handle \<Rightarrow> int result" where
  "state_position C db h = (case sh_at h of Some p \<Rightarrow> Inr p | None \<Rightarrow> mapR tip_position (store_tip C db (sh_ns h)))"

definition state_segment :: "crypto \<Rightarrow> database \<Rightarrow> state_handle \<Rightarrow> bytes result" where
  "state_segment C db h = mapR tip_segment (store_tip C db (sh_ns h))"

definition state_at :: "crypto \<Rightarrow> database \<Rightarrow> 'r construction \<Rightarrow> state_handle \<Rightarrow> int \<Rightarrow> state_handle result" where
  "state_at C db c h position = bindR (store_tip C db (sh_ns h)) (\<lambda>t.
     if position < 0 \<or> position > tip_position t then Inl (RangeError ''a state is read at or below its tip'')
     else newStateHandle db (sh_ns h) (Some position) c)"

definition state_event :: "database \<Rightarrow> int \<Rightarrow> int \<Rightarrow> event_row option" where
  "state_event db ns p = (if p = 0 then None else event_at db ns p)"

definition state_history :: "crypto \<Rightarrow> database \<Rightarrow> 'r construction \<Rightarrow> state_handle \<Rightarrow> bytes result" where
  "state_history C db c h = (case sh_at h of
     None \<Rightarrow> mapR tip_history (store_tip C db (sh_ns h))
   | Some p \<Rightarrow> (case state_event db (sh_ns h) p of Some e \<Rightarrow> Inr (ev_history e)
       | None \<Rightarrow> bindR (state_segment C db h) (c_genesisHistory c)))"

definition state_evidence :: "crypto \<Rightarrow> database \<Rightarrow> 'r construction \<Rightarrow> state_handle \<Rightarrow> bytes result" where
  "state_evidence C db c h = (case sh_at h of
     None \<Rightarrow> mapR tip_evidence (store_tip C db (sh_ns h))
   | Some p \<Rightarrow> (case state_event db (sh_ns h) p of Some e \<Rightarrow> Inr (ev_evidence e)
       | None \<Rightarrow> bindR (state_segment C db h) (c_genesisEvidence c)))"

definition state_noteRoot :: "crypto \<Rightarrow> database \<Rightarrow> state_handle \<Rightarrow> int result" where
  "state_noteRoot C db h = (case sh_at h of
     None \<Rightarrow> mapR tip_noteRoot (store_tip C db (sh_ns h))
   | Some p \<Rightarrow> Inr (case state_event db (sh_ns h) p of Some e \<Rightarrow> ev_noteRoot e | None \<Rightarrow> EMPTY_NOTE_ROOT C))"

definition state_spentRoot :: "crypto \<Rightarrow> database \<Rightarrow> state_handle \<Rightarrow> bytes result" where
  "state_spentRoot C db h = (case sh_at h of
     None \<Rightarrow> mapR tip_spentRoot (store_tip C db (sh_ns h))
   | Some p \<Rightarrow> (case state_event db (sh_ns h) p of Some e \<Rightarrow> Inr (ev_spentRoot e) | None \<Rightarrow> baseSpentRoot db (sh_ns h)))"

definition state_leaves :: "crypto \<Rightarrow> database \<Rightarrow> state_handle \<Rightarrow> nat result" where
  "state_leaves C db h = mapR tip_leaves (store_tip C db (sh_ns h))"

definition state_settledFor :: "database \<Rightarrow> 'r construction \<Rightarrow> int \<Rightarrow> int \<Rightarrow> int \<Rightarrow> string option result" where
  "state_settledFor db c ns p cm = bindR (store_output db ns p cm) (\<lambda>stored. case stored of None \<Rightarrow> Inr None
     | Some s \<Rightarrow> if \<not> sto_settlement s then Inr None
         else (case event_at db (sto_ns s) (sto_position s) of None \<Rightarrow> Inl (TypeError ''event'')
           | Some e \<Rightarrow> (case ev_settlement e of None \<Rightarrow> Inl (TypeError ''settlement'') | Some bs \<Rightarrow> c_settledDemand c bs)))"

text \<open>A handle's reads, each at its position.\<close>

definition handle_view :: "crypto \<Rightarrow> 'r construction \<Rightarrow> database \<Rightarrow> state_handle \<Rightarrow> state_view" where
  "handle_view C c db h = (let ns = sh_ns h in
     \<lparr>rv_demand = (\<lambda>name. bindR (state_position C db h) (\<lambda>p. store_demand db ns p name)),
      rv_demandsWithTag = (\<lambda>t. bindR (state_position C db h) (\<lambda>p. demandsWithTag db ns p t)),
      rv_isEffective = (\<lambda>name. bindR (state_position C db h) (\<lambda>p. isEffective db ns p name)),
      rv_hasSpentTag = (\<lambda>t. bindR (state_position C db h) (\<lambda>p. hasSpentTag db ns p t)),
      sv_hasNullifier = (\<lambda>nf. bindR (state_position C db h) (\<lambda>p. hasNullifier db ns p nf)),
      sv_hasOutput = (\<lambda>cm. bindR (state_position C db h) (\<lambda>p. hasOutput db ns p cm)),
      sv_hasAnchor = (\<lambda>root. bindR (state_position C db h) (\<lambda>p. hasAnchor db ns p root)),
      sv_isInput = (\<lambda>cm. bindR (state_position C db h) (\<lambda>p. hasOutput db ns p cm)),
      sv_settledFor = (\<lambda>cm. bindR (state_position C db h) (\<lambda>p. state_settledFor db c ns p cm)),
      sv_presentedWithTag = (\<lambda>t. bindR (state_position C db h) (\<lambda>p. presentedWithTag db ns p t))\<rparr>)"

definition state_hasStatement :: "crypto \<Rightarrow> database \<Rightarrow> state_handle \<Rightarrow> bytes \<Rightarrow> bool result" where
  "state_hasStatement C db h identity = mapR (\<lambda>p. hasStatement db (sh_ns h) p identity) (state_position C db h)"

definition state_total :: "crypto \<Rightarrow> database \<Rightarrow> state_handle \<Rightarrow> string \<Rightarrow> (int \<times> int) result" where
  "state_total C db h backing = mapR (\<lambda>p. store_total db (sh_ns h) p (unhex backing)) (state_position C db h)"

definition state_judgedIndex :: "crypto \<Rightarrow> database \<Rightarrow> state_handle \<Rightarrow> int \<Rightarrow> int option result" where
  "state_judgedIndex C db h position = mapR (\<lambda>p. if position < 1 \<or> position > p then None
     else (case event_at db (sh_ns h) position of None \<Rightarrow> None | Some e \<Rightarrow> ev_idx e)) (state_position C db h)"

definition map_set :: "'k \<Rightarrow> 'v \<Rightarrow> ('k \<times> 'v) list \<Rightarrow> ('k \<times> 'v) list" where
  "map_set k v m = (if list_ex (\<lambda>(k', _). k' = k) m then map (\<lambda>(k', v'). if k' = k then (k', v) else (k', v')) m else m @ [(k, v)])"

definition state_frontier :: "crypto \<Rightarrow> database \<Rightarrow> state_handle \<Rightarrow> frontier_imports result" where
  "state_frontier C db h = bindR (state_segment C db h) (\<lambda>segment. bindR (state_position C db h) (\<lambda>p.
     Inr \<lparr>mi_segments = map_set (hex segment) (sh_ns h, p) (store_imports db (sh_ns h)),
       mi_totals = map (\<lambda>(b, i, u). (hex b, i, u)) (store_totals db (sh_ns h) p)\<rparr>))"

definition state_receiptEvent :: "crypto \<Rightarrow> database \<Rightarrow> state_handle \<Rightarrow> int \<Rightarrow> inclusion_event option result" where
  "state_receiptEvent C db h position = bindR (state_position C db h) (\<lambda>p.
     if position < 1 \<or> position > p then Inr None
     else (case event_at db (sh_ns h) position of None \<Rightarrow> Inl (TypeError ''event'')
       | Some e \<Rightarrow> Inr (Some \<lparr>e_statementHash = ev_identity e, e_proofHash = ev_proofHash e, e_signatureHash = ev_signatureHash e,
           ie_position = position, ie_historyHash = ev_history e\<rparr>)))"

subsection \<open>Forced effects over a snapshot\<close>

record force_state =
  fs_base :: state_view
  fs_nullifiers :: "int set"
  fs_outputs :: "int set"
  fs_added :: "(string \<times> demand) list"
  fs_forced :: "(string \<times> demand) list"
  fs_ended :: "string set"
  fs_effective :: "string set"
  fs_spentTags :: "int set"
  fs_settled :: "(int \<times> string) list"

definition openForceState :: "state_view \<Rightarrow> force_state" where
  "openForceState source = \<lparr>fs_base = source, fs_nullifiers = {}, fs_outputs = {}, fs_added = [], fs_forced = [], fs_ended = {},
     fs_effective = {}, fs_spentTags = {}, fs_settled = []\<rparr>"

definition with_tag :: "int \<Rightarrow> (string \<times> demand) list \<Rightarrow> (string \<times> demand) list" where
  "with_tag t ds = filter (\<lambda>(_, d). t \<in> set (dm_tags d)) ds"

definition force_view :: "force_state \<Rightarrow> state_view" where
  "force_view s = (let base = fs_base s in
     \<lparr>rv_demand = (\<lambda>name. if name \<in> fs_ended s then Inr None
        else (case map_of (fs_added s) name of Some d \<Rightarrow> Inr (Some d) | None \<Rightarrow> rv_demand base name)),
      rv_demandsWithTag = (\<lambda>t. mapR (\<lambda>ds. filter (\<lambda>(name, _). name \<notin> fs_ended s) (ds @ with_tag t (fs_added s))) (rv_demandsWithTag base t)),
      rv_isEffective = (\<lambda>name. if name \<in> fs_effective s then Inr True else rv_isEffective base name),
      rv_hasSpentTag = (\<lambda>t. if t \<in> fs_spentTags s then Inr True else rv_hasSpentTag base t),
      sv_hasNullifier = (\<lambda>nf. if nf \<in> fs_nullifiers s then Inr True else sv_hasNullifier base nf),
      sv_hasOutput = (\<lambda>cm. if cm \<in> fs_outputs s then Inr True else sv_hasOutput base cm),
      sv_hasAnchor = sv_hasAnchor base,
      sv_isInput = sv_isInput base,
      sv_settledFor = (\<lambda>cm. case map_of (fs_settled s) cm of Some d \<Rightarrow> Inr (Some d) | None \<Rightarrow> sv_settledFor base cm),
      sv_presentedWithTag = (\<lambda>t. mapR (\<lambda>ds. ds @ with_tag t (fs_forced s)) (sv_presentedWithTag base t))\<rparr>)"

record force_context =
  fc_force :: bool
  fc_domain :: bytes
  fc_backing :: bytes
  fc_segment :: bytes
  fc_scope :: "int option"
  fc_issuer :: bytes
  fc_index :: int
  fc_lag :: int
  fc_verifier :: verifier

definition checkUniqueEffects :: "int list \<Rightarrow> int list \<Rightarrow> 'a state_view_scheme \<Rightarrow> unit result" where
  "checkUniqueEffects nfs outputs state =
     bindR (if card (set nfs) = length nfs
       then everyR (\<lambda>nf. if nf \<noteq> 0 then mapR Not (sv_hasNullifier state nf) else Inr False) nfs else Inr False) (\<lambda>fresh.
     bindR (requireReplay fresh ''SPENT'') (\<lambda>_.
     bindR (if card (set outputs) = length outputs
       then everyR (\<lambda>cm. if cm \<noteq> 0 then mapR Not (sv_hasOutput state cm) else Inr False) outputs else Inr False) (\<lambda>new.
     requireReplay new ''OUTPUT'')))"

definition checkInputs :: "statement_view \<Rightarrow> 'a state_view_scheme \<Rightarrow> unit result" where
  "checkInputs view state =
     bindR (everyR (sv_hasAnchor state) (v_roots view)) (\<lambda>anchored.
     bindR (requireReplay anchored ''ANCHOR'') (\<lambda>_.
     bindR (everyR (sv_isInput state) (v_inputs view)) (\<lambda>live. requireReplay live ''INPUT'')))"

definition checkTaken :: "statement_view \<Rightarrow> force_state \<Rightarrow> unit result" where
  "checkTaken view s = bindR (if v_kind view = 6
       then (case v_outputs view of [] \<Rightarrow> Inl (TypeError ''output'') | cm # _ \<Rightarrow> sv_settledFor (force_view s) cm) else Inr None) (\<lambda>by'.
     requireReplay (by' = None \<or> by' = v_ended view) ''TAKEN'')"

definition applyForceView :: "force_state \<Rightarrow> statement_view \<Rightarrow> force_state result" where
  "applyForceView s view =
     (let s1 = (case v_demand view of None \<Rightarrow> s | Some (name, d) \<Rightarrow>
            s\<lparr>fs_added := map_set name d (fs_added s), fs_forced := map_set name d (fs_forced s)\<rparr>);
          s2 = (case v_ended view of None \<Rightarrow> s1 | Some name \<Rightarrow>
            s1\<lparr>fs_ended := insert name (fs_ended s1), fs_added := filter (\<lambda>(n, _). n \<noteq> name) (fs_added s1)\<rparr>);
          s3 = s2\<lparr>fs_effective := insert (hex (v_identity view)) (fs_effective s2),
            fs_nullifiers := fs_nullifiers s2 \<union> set (v_nfs view), fs_spentTags := fs_spentTags s2 \<union> set (take (length (v_nfs view)) (v_tags view)),
            fs_outputs := fs_outputs s2 \<union> set (v_outputs view)\<rparr> in
      if v_kind view = 6 then (case (v_outputs view, v_ended view) of
          (cm # _, Some name) \<Rightarrow> Inr (s3\<lparr>fs_settled := map_set cm name (fs_settled s3)\<rparr>)
        | _ \<Rightarrow> Inl (TypeError ''settlement''))
      else Inr s3)"

definition applyForceEffects :: "'r construction \<Rightarrow> force_state \<Rightarrow> 'r \<Rightarrow> force_state result" where
  "applyForceEffects c s r = (if c_kind c r \<notin> {4, 5, 6} then Inl (EvidenceRefusal ''unsupported-scope'')
     else bindR (c_view c r (rv_demand (force_view s))) (applyForceView s))"

definition applyForceRecord :: "'r construction \<Rightarrow> force_state \<Rightarrow> bytes \<Rightarrow> force_context \<Rightarrow> force_state result" where
  "applyForceRecord c s bs k =
     bindR (c_decode c bs) (\<lambda>r. let kind = c_kind c r in
     bindR (requireR (fc_force k \<and> kind \<in> {4, 5, 6}) (EvidenceRefusal ''unsupported-scope'')) (\<lambda>_.
     bindR (c_view c r (rv_demand (force_view s))) (\<lambda>view.
     bindR (requireReplay (sameBytes (v_domain view) (fc_domain k) \<and> sameBytes (v_segment view) (fc_segment k) \<and> v_scope view = fc_scope k) ''CONTEXT'') (\<lambda>_.
     bindR (if kind \<noteq> 5 then requireReplay (list_all (\<lambda>b. sameBytes b (fc_backing k)) (v_backings view)) ''BACKING'' else Inr ()) (\<lambda>_.
     bindR (v_check view (fc_verifier k)) (\<lambda>_.
     bindR (checkInputs view (force_view s)) (\<lambda>_.
     bindR (checkRecovery view (force_view s) \<lparr>rk_check = requireReplay, rk_backing = fc_backing k, rk_issuer = fc_issuer k,
       rk_at = fc_index k, rk_lag = Some (fc_lag k), rk_door = True\<rparr>) (\<lambda>_.
     bindR (checkUniqueEffects (v_nfs view) [] (force_view s)) (\<lambda>_.
     bindR (checkTaken view s) (\<lambda>_.
     bindR (checkUniqueEffects [] (v_outputs view) (force_view s)) (\<lambda>_.
     applyForceView s view)))))))))))"

subsection \<open>Opening a segment's state\<close>

definition openSegmentState :: "crypto \<Rightarrow> database \<Rightarrow> bytes \<Rightarrow> bytes \<Rightarrow> frontier_imports option \<Rightarrow> 'r construction \<Rightarrow> (state_handle \<times> database) result" where
  "openSegmentState C db segment identity imported c =
     bindR (c_genesisHistory c segment) (\<lambda>gh. bindR (c_genesisEvidence c segment) (\<lambda>ge.
     bindR (store_open C db segment identity imported gh ge (c_namespace c)) (\<lambda>(ns, db').
     mapR (\<lambda>h. (h, db')) (newStateHandle db' ns None c))))"

subsection \<open>Judging a record\<close>

record last_valid =
  lv_position :: int
  lv_historyHash :: bytes
  lv_evidenceHash :: bytes
  lv_judgedIndex :: "(int \<Rightarrow> int option) option"

text \<open>What stays fixed while a segment's trail replays; of a backing's terms the judgment reads the obligor.\<close>

record segment_replay =
  sr_domain :: bytes
  sr_backing :: bytes
  sr_segment :: bytes
  sr_scope :: "int option"
  sr_obligor :: bytes
  sr_scopedTerms :: "(string \<Rightarrow> bytes option) option"
  sr_verifier :: verifier
  sr_index :: int
  sr_admission :: bool
  sr_lag :: "int option"
  sr_revokedAt :: "int option"
  sr_revocations :: "(string \<Rightarrow> int option) option"
  sr_lastValid :: "last_valid option"
  sr_block :: "(bytes \<times> int) list"
  sr_witness :: "(scan_output \<Rightarrow> witness_mark option) option"

definition adopted_at :: "segment_replay \<Rightarrow> int \<Rightarrow> (bytes \<times> int) option" where
  "adopted_at replay position = (if position < 0 then None else at_index (sr_block replay) (nat position))"

definition modeAt :: "segment_replay \<Rightarrow> int \<Rightarrow> step_mode" where
  "modeAt replay position = (if adopted_at replay position \<noteq> None then Adoption else if sr_admission replay then Admission else Replay)"

record 'r judged =
  jd_bytes :: bytes
  jd_record :: 'r
  jd_view :: statement_view
  jd_identity :: bytes
  jd_at :: int
  jd_evidence :: bytes
  jd_digests :: evidence_digests
  jd_backing :: string
  jd_demand :: "demand option"
  jd_demandId :: "string option"
  jd_position :: int

text \<open>What the checks before the statement check settle.\<close>

record 'r pending =
  jg_mode :: step_mode
  jg_judged :: "'r judged"
  jg_backing :: bytes
  jg_issuerKey :: bytes
  jg_total :: "int \<times> int"

definition termsOf :: "segment_replay \<Rightarrow> bytes \<Rightarrow> bytes option" where
  "termsOf replay name = (case sr_scopedTerms replay of None \<Rightarrow> Some (sr_obligor replay) | Some m \<Rightarrow> m (hex name))"

definition judged_index :: "segment_replay \<Rightarrow> int \<Rightarrow> int" where
  "judged_index replay position = (case adopted_at replay position of Some (_, i) \<Rightarrow> i
     | None \<Rightarrow> (case sr_lastValid replay of None \<Rightarrow> sr_index replay
       | Some lv \<Rightarrow> if position < lv_position lv
           then (case lv_judgedIndex lv of None \<Rightarrow> sr_index replay | Some f \<Rightarrow>
             (case f (position + 1) of None \<Rightarrow> sr_index replay | Some i \<Rightarrow> i))
           else sr_index replay))"

definition decode_or_malformed :: "'r construction \<Rightarrow> bytes \<Rightarrow> 'r result" where
  "decode_or_malformed c bs = (case c_decode c bs of Inl (EncodingError _) \<Rightarrow> Inl (ReplayRefusal ''MALFORMED'') | r \<Rightarrow> r)"

text \<open>The context checks of a mode, then those of scope, demand, identity, chain and revocation.\<close>

definition context_checks :: "segment_replay \<Rightarrow> int \<Rightarrow> bytes \<Rightarrow> statement_view \<Rightarrow> unit result" where
  "context_checks replay position bs view = (case adopted_at replay position of
     Some (exact, _) \<Rightarrow> requireReplay (sameBytes bs exact) ''ADOPTION''
   | None \<Rightarrow> bindR (requireReplay (sameBytes (v_domain view) (sr_domain replay) \<and> sameBytes (v_segment view) (sr_segment replay)) ''CONTEXT'') (\<lambda>_.
       requireReplay (v_scope view = sr_scope replay) ''SCOPE''))"

definition revocation_check :: "segment_replay \<Rightarrow> int \<Rightarrow> int \<Rightarrow> string \<Rightarrow> unit result" where
  "revocation_check replay position kind key =
     (if kind = 1 \<and> (case sr_lastValid replay of None \<Rightarrow> True | Some lv \<Rightarrow> position + 1 > lv_position lv)
      then requireReplay (case (case sr_revocations replay of None \<Rightarrow> sr_revokedAt replay | Some m \<Rightarrow> m key) of
        None \<Rightarrow> True | Some cutoff \<Rightarrow> cutoff > sr_index replay) ''REVOKED'' else Inr ())"

definition judgmentOf :: "crypto \<Rightarrow> 'r construction \<Rightarrow> database \<Rightarrow> state_handle \<Rightarrow> bytes \<Rightarrow> segment_replay \<Rightarrow> 'r pending result" where
  "judgmentOf C c db h bs replay =
     bindR (state_position C db h) (\<lambda>position. let mode = modeAt replay position; state = handle_view C c db h in
     bindR (decode_or_malformed c bs) (\<lambda>r. let kind = c_kind c r in
     bindR (requireReplay (kind \<in> {1, 2, 3, 4, 5, 6}) ''KIND'') (\<lambda>_.
     bindR (requireReplay (position + 1 < VALUE_BOUND) ''CAPACITY'') (\<lambda>_.
     bindR (requireR (\<not> (mode = Admission \<and> kind \<ge> 4 \<and> sr_lag replay = None)) (TypeError ''recovery admission needs the venue's lag'')) (\<lambda>_.
     bindR (c_view c r (rv_demand state)) (\<lambda>view.
     bindR (case v_ended view of None \<Rightarrow> Inr None | Some name \<Rightarrow> rv_demand state name) (\<lambda>d.
     let backing = (if v_needsDemand view then (case d of Some x \<Rightarrow> dm_backing x | None \<Rightarrow> sr_backing replay)
           else (case v_backings view of b # _ \<Rightarrow> b | [] \<Rightarrow> sr_backing replay));
         issuerKey = (case termsOf replay backing of Some k \<Rightarrow> k | None \<Rightarrow> sr_obligor replay); key = hex backing in
     bindR (state_total C db h key) (\<lambda>tot.
     bindR (context_checks replay position bs view) (\<lambda>_.
     bindR (requireReplay (list_all (\<lambda>b. termsOf replay b \<noteq> None) (if v_needsDemand view then [backing] else v_backings view)) ''BACKING'') (\<lambda>_.
     bindR (if v_needsDemand view then requireReplay (d \<noteq> None \<and> (sr_scopedTerms replay \<noteq> None \<or> sameBytes backing (sr_backing replay))) ''DEMAND''
       else Inr ()) (\<lambda>_.
     bindR (state_hasStatement C db h (v_identity view)) (\<lambda>repeated.
     bindR (requireReplay (\<not> repeated) ''REPEATED_STATEMENT'') (\<lambda>_.
     bindR (state_evidence C db c h) (\<lambda>previous.
     bindR (c_nextEvidence c previous (v_digests view) (position + 1)) (\<lambda>evidence.
     bindR (case sr_lastValid replay of None \<Rightarrow> Inr () | Some lv \<Rightarrow>
       if position + 1 = lv_position lv then requireReplay (sameBytes evidence (lv_evidenceHash lv)) ''CONTINUITY'' else Inr ()) (\<lambda>_.
     bindR (revocation_check replay position kind key) (\<lambda>_.
     Inr \<lparr>jg_mode = mode, jg_judged = \<lparr>jd_bytes = bs, jd_record = r, jd_view = view, jd_identity = v_identity view,
         jd_at = judged_index replay position, jd_evidence = evidence, jd_digests = v_digests view, jd_backing = key, jd_demand = d,
         jd_demandId = v_ended view, jd_position = position\<rparr>,
       jg_backing = backing, jg_issuerKey = issuerKey, jg_total = tot\<rparr>)))))))))))))))))"

definition supply_check :: "statement_view \<Rightarrow> bytes \<Rightarrow> int \<times> int \<Rightarrow> unit result" where
  "supply_check view issuerKey = (\<lambda>(issued, burned).
     if v_kind view = 1 then bindR (v_issuerSigned view issuerKey) (\<lambda>s. bindR (requireReplay s ''SIGNATURE'') (\<lambda>_.
       case v_quantity view of None \<Rightarrow> Inl (TypeError ''quantity'') | Some q \<Rightarrow> requireReplay (issued + q < VALUE_BOUND) ''SUPPLY''))
     else if v_kind view = 3 then requireReplay (case v_quantity view of None \<Rightarrow> False | Some q \<Rightarrow> q \<le> issued - burned) ''SUPPLY''
     else Inr ())"

definition finish_judgment :: "crypto \<Rightarrow> 'r construction \<Rightarrow> database \<Rightarrow> state_handle \<Rightarrow> segment_replay \<Rightarrow> 'r pending \<Rightarrow> 'r judged result" where
  "finish_judgment C c db h replay j = (let judged = jg_judged j; view = jd_view judged; state = handle_view C c db h in
     bindR (requireReplay (list_all (\<lambda>b. sr_scopedTerms replay \<noteq> None \<or> sameBytes b (sr_backing replay)) (v_backings view)) ''BACKING'') (\<lambda>_.
     bindR (supply_check view (jg_issuerKey j) (jg_total j)) (\<lambda>_.
     bindR (if jg_mode j \<noteq> Adoption then bindR (checkInputs view state) (\<lambda>_.
         checkRecovery view state \<lparr>rk_check = requireReplay, rk_backing = jg_backing j, rk_issuer = jg_issuerKey j, rk_at = jd_at judged,
           rk_lag = sr_lag replay, rk_door = (jg_mode j = Admission \<and> v_kind view \<ge> 4)\<rparr>) else Inr ()) (\<lambda>_.
     bindR (checkUniqueEffects (v_nfs view) (v_outputs view) state) (\<lambda>_.
     bindR (if nc_tree (c_namespace c) then bindR (state_leaves C db h) (\<lambda>leaves.
         requireReplay (int leaves + int (length (v_outputs view)) \<le> NOTE_TREE_CAPACITY) ''CAPACITY'') else Inr ()) (\<lambda>_.
     Inr judged))))))"

text \<open>The judgment of a record, its statement check between the halves; \<open>db'\<close> is the database when that check returns.\<close>

definition judgeRecord :: "crypto \<Rightarrow> 'r construction \<Rightarrow> database \<Rightarrow> database \<Rightarrow> state_handle \<Rightarrow> bytes \<Rightarrow> segment_replay \<Rightarrow> 'r judged result" where
  "judgeRecord C c db db' h bs replay =
     bindR (judgmentOf C c db h bs replay) (\<lambda>j.
     bindR (if jg_mode j \<noteq> Adoption then v_check (jd_view (jg_judged j)) (sr_verifier replay) else Inr ()) (\<lambda>_.
     finish_judgment C c db' h replay j))"

definition judgeAdopted :: "crypto \<Rightarrow> 'r construction \<Rightarrow> database \<Rightarrow> state_handle \<Rightarrow> bytes \<Rightarrow> segment_replay \<Rightarrow> 'r judged result" where
  "judgeAdopted C c db h bs replay =
     bindR (state_position C db h) (\<lambda>position.
     if modeAt replay position \<noteq> Adoption then Inl (TypeError ''the position is outside the adopted block'')
     else bindR (judgmentOf C c db h bs replay) (finish_judgment C c db h replay))"

subsection \<open>Applying a judged record\<close>

function decimal :: "int \<Rightarrow> string" where
  "decimal n = (if n < 0 then ''-'' @ decimal (- n) else if n < 10 then [char_of (nat (48 + n))]
     else decimal (n div 10) @ [char_of (nat (48 + n mod 10))])"
  by pat_completeness auto
termination by (relation "measure (\<lambda>n. nat (if n < 0 then 1 - n else n))") auto

declare decimal.simps [simp del]

definition mark_of :: "bool \<Rightarrow> segment_replay \<Rightarrow> scan_output \<Rightarrow> witness_mark option result" where
  "mark_of tree replay output = (case sr_witness replay of None \<Rightarrow> Inr None | Some f \<Rightarrow>
     (case f output of None \<Rightarrow> Inr None | Some m \<Rightarrow>
        if (if tree then isField (wm_nf m) else 0 \<le> wm_nf m \<and> wm_nf m < push_bit 256 1) then Inr (Some m)
        else Inl (TypeError ''a witness predicate returns a mark { nf, note } or undefined'')))"

definition touched_tags :: "'r judged \<Rightarrow> int list result" where
  "touched_tags j = (let view = jd_view j; kind = v_kind view in
     if kind = 4 then (case v_demand view of None \<Rightarrow> Inl (TypeError ''demand'') | Some (_, d) \<Rightarrow> Inr (filter (\<lambda>t. t \<noteq> 0) (dm_tags d)))
     else if kind = 5 then Inr (case jd_demand j of None \<Rightarrow> [] | Some d \<Rightarrow> filter (\<lambda>t. t \<noteq> 0) (dm_tags d))
     else Inr (v_tags view))"

definition effect_supply :: "'r judged \<Rightarrow> (string \<times> int \<times> int) option result" where
  "effect_supply j = (let view = jd_view j in
     if v_kind view = 1 then (case v_quantity view of None \<Rightarrow> Inl (TypeError ''quantity'') | Some q \<Rightarrow> Inr (Some (jd_backing j, q, 0)))
     else if v_kind view = 3 then (case v_quantity view of None \<Rightarrow> Inl (TypeError ''quantity'') | Some q \<Rightarrow> Inr (Some (jd_backing j, 0, q)))
     else Inr None)"

definition effect_outputs :: "'r construction \<Rightarrow> 'r judged \<Rightarrow> segment_replay \<Rightarrow> append_output list result" where
  "effect_outputs c j replay = (let view = jd_view j in
     traverseR (\<lambda>(i, cm). mapR (\<lambda>m. \<lparr>ao_cm = cm, ao_capsule = (case at_index (v_capsules view) i of None \<Rightarrow> None | Some x \<Rightarrow> x),
         ao_settlement = (v_kind view = 6), ao_witness = m\<rparr>)
       (if sr_witness replay = None then Inr None
          else bindR (c_scanOutput c (jd_record j) view cm i (jd_demand j)) (mark_of (nc_tree (c_namespace c)) replay))) (enumerate 0 (v_outputs view)))"

definition effect_of :: "'r construction \<Rightarrow> bytes \<Rightarrow> 'r judged \<Rightarrow> segment_replay \<Rightarrow> append result" where
  "effect_of c previous j replay = (let view = jd_view j; kind = v_kind view; position = jd_position j + 1;
       touched = (if kind = 4 then Some (hex (jd_identity j)) else jd_demandId j) in
     bindR (touched_tags j) (\<lambda>tags. bindR (effect_supply j) (\<lambda>supply. bindR (effect_outputs c j replay) (\<lambda>outs.
     Inr \<lparr>ap_identity = jd_identity j, ap_kind = kind, ap_index = Some (jd_at j), ap_record = jd_bytes j,
       ap_proofHash = e_proofHash (jd_digests j), ap_signatureHash = e_signatureHash (jd_digests j), ap_evidence = jd_evidence j,
       ap_supply = supply,
       ap_nullifiers = map (\<lambda>(i, nf). (nf, case at_index (v_tags view) i of None \<Rightarrow> - 1 | Some t \<Rightarrow> t)) (enumerate 0 (v_nfs view)),
       ap_outputs = outs, ap_demand = v_demand view, ap_ended = v_ended view,
       ap_keys = map (\<lambda>t. ''tag:'' @ decimal t) tags @ (case touched of None \<Rightarrow> [] | Some d \<Rightarrow> [''demand:'' @ d]),
       ap_history = (\<lambda>noteRoot spentRoot. c_nextHistory c previous (jd_identity j) noteRoot spentRoot position)\<rparr>))))"

definition applyJudged :: "crypto \<Rightarrow> 'r construction \<Rightarrow> database \<Rightarrow> state_handle \<Rightarrow> 'r judged \<Rightarrow> segment_replay \<Rightarrow> database result" where
  "applyJudged C c db h j replay =
     bindR (state_position C db h) (\<lambda>position.
     bindR (requireR (position = jd_position j) (PlainError ''the state moved since the record was judged'')) (\<lambda>_.
     bindR (state_history C db c h) (\<lambda>previous.
     bindR (effect_of c previous j replay) (\<lambda>ap.
     bindR (store_append C (sh_ns h) ap db) (\<lambda>(t, db').
     bindR (case sr_lastValid replay of None \<Rightarrow> Inr () | Some lv \<Rightarrow>
       if jd_position j + 1 = lv_position lv then requireReplay (sameBytes (tip_history t) (lv_historyHash lv)) ''CONTINUITY'' else Inr ()) (\<lambda>_.
     Inr db'))))))"

definition applyRecord :: "crypto \<Rightarrow> 'r construction \<Rightarrow> database \<Rightarrow> state_handle \<Rightarrow> bytes \<Rightarrow> segment_replay \<Rightarrow> database result" where
  "applyRecord C c db h bs replay = bindR (judgeRecord C c db db h bs replay) (\<lambda>j. applyJudged C c db h j replay)"

end
