(* ===== verification/ReplayFrame.thy ===== *)
theory ReplayFrame
  imports State
begin

section \<open>What an append writes, and that earlier positions do not change\<close>

text \<open>
  Every table after an append is the table before it with rows of the appended namespace and position
  at its end.  A position below the appended one therefore reads what it read before, in this
  namespace and in every namespace that imports it no further than its tip.
\<close>

lemma insert_row_Inr [result_simps]: "insert_row key t r rows = Inr rows' \<longleftrightarrow> (\<forall>x \<in> set rows. key x \<noteq> key r) \<and> rows' = rows @ [r]"
  by (auto simp: insert_row_def list_ex_iff)

lemma keyBytes_Inr [result_simps]: "keyBytes v = Inr k \<longleftrightarrow> stored_key v \<and> k = be_bytes 32 v"
  by (auto simp: keyBytes_def stored_key_def U256_def push_bit_eq_mult)

lemma stored_key_bound: "stored_key v \<Longrightarrow> 0 \<le> v \<and> v < 256 ^ 32"
  by (simp add: stored_key_def)

lemma key_bytes_inj: "stored_key a \<Longrightarrow> stored_key b \<Longrightarrow> be_bytes 32 a = be_bytes 32 b \<longleftrightarrow> a = b"
  using be_bytes_inj stored_key_bound by blast

lemma key_value_bytes [simp]: "stored_key v \<Longrightarrow> key_value (be_bytes 32 v) = Inr v"
  using stored_key_bound by (simp add: key_value_def)

lemma key_value_Inr: "key_value b = Inr v \<longleftrightarrow> length b = 32 \<and> v = be_int b"
  by (auto simp: key_value_def)

lemma sqlite_int_Inr [result_simps]: "sqlite_int v = Inr u \<longleftrightarrow> - (2 ^ 63) \<le> v \<and> v < 2 ^ 63"
  by (simp add: sqlite_int_def)

lemma optionally_simps [simp]: "optionally f x None = Inr x" "optionally f x (Some y) = f x y"
  by (simp_all add: optionally_def)

subsection \<open>Outputs\<close>

definition output_rows :: "int \<Rightarrow> int \<Rightarrow> nat \<Rightarrow> append_output list \<Rightarrow> output_row list" where
  "output_rows ns q leaf outs = map (\<lambda>(i, output). \<lparr>ot_cm = be_bytes 32 (ao_cm output), ot_ns = ns, ot_position = q, ot_leaf = i,
     ot_capsule = ao_capsule output, ot_settlement = ao_settlement output\<rparr>) (enumerate leaf outs)"

lemma output_rows_simps [simp]:
  "output_rows ns q leaf [] = []"
  "output_rows ns q leaf (x # xs) = \<lparr>ot_cm = be_bytes 32 (ao_cm x), ot_ns = ns, ot_position = q, ot_leaf = leaf,
     ot_capsule = ao_capsule x, ot_settlement = ao_settlement x\<rparr> # output_rows ns q (Suc leaf) xs"
  by (simp_all add: output_rows_def)

lemma output_rows_at: "r \<in> set (output_rows ns q leaf outs) \<Longrightarrow> ot_ns r = ns \<and> ot_position r = q"
  by (auto simp: output_rows_def)

lemma plain_outputs_rows:
  "foldR (plain_output ns q) (leaf, db) outs = Inr (leaf', db') \<Longrightarrow>
     leaf' = leaf + length outs \<and> list_all (\<lambda>x. stored_key (ao_cm x)) outs \<and>
     (\<exists>w. db' = db\<lparr>db_output := db_output db @ output_rows ns q leaf outs, db_witness := w\<rparr>)"
proof (induction outs arbitrary: leaf db)
  case Nil
  then show ?case by (auto intro: exI [of _ "db_witness db"])
next
  case (Cons x xs)
  from Cons.prems obtain leaf1 db1 where s: "plain_output ns q (leaf, db) x = Inr (leaf1, db1)"
    and rest: "foldR (plain_output ns q) (leaf1, db1) xs = Inr (leaf', db')" by (auto simp: bindR_Inr_conv)
  obtain w1 where one: "leaf1 = Suc leaf" "stored_key (ao_cm x)"
    "db1 = db\<lparr>db_output := db_output db @ output_rows ns q leaf [x], db_witness := w1\<rparr>"
  proof (cases "ao_witness x")
    case None
    with s have "leaf1 = Suc leaf" "stored_key (ao_cm x)" "db1 = db\<lparr>db_output := db_output db @ output_rows ns q leaf [x]\<rparr>"
      by (auto simp: plain_output_def insert_output_def result_simps)
    then show ?thesis using that [of "db_witness db"] by simp
  next
    case (Some m)
    with s obtain w where "leaf1 = Suc leaf" "stored_key (ao_cm x)"
      "db1 = db\<lparr>db_output := db_output db @ output_rows ns q leaf [x], db_witness := w\<rparr>"
      by (auto simp: plain_output_def insert_output_def put_witness_def result_simps)
    then show ?thesis by (rule that)
  qed
  from Cons.IH [OF rest] one show ?case by auto
qed

lemma tree_outputs_rows:
  "foldR (tree_output C ns q) (r, db) outs = Inr (r', db') \<Longrightarrow>
     foldR (frontier_output C) r (map (\<lambda>x. (ao_cm x, ao_witness x \<noteq> None)) outs) = Inr r' \<and> fr_leaves r' = fr_leaves r + length outs \<and>
     list_all (\<lambda>x. isField (ao_cm x)) outs \<and> db' = db\<lparr>db_output := db_output db @ output_rows ns q (fr_leaves r) outs\<rparr>"
proof (induction outs arbitrary: r db)
  case (Cons x xs)
  from Cons.prems obtain r1 db1 where s: "tree_output C ns q (r, db) x = Inr (r1, db1)"
    and rest: "foldR (tree_output C ns q) (r1, db1) xs = Inr (r', db')" by (auto simp: bindR_Inr_conv)
  have one: "frontier_output C r (ao_cm x, ao_witness x \<noteq> None) = Inr r1" "isField (ao_cm x)"
    "db1 = db\<lparr>db_output := db_output db @ output_rows ns q (fr_leaves r) [x]\<rparr>"
    using s by (auto simp: tree_output_def insert_output_def result_simps fieldToBytes_conv)
  have "fr_leaves r1 = Suc (fr_leaves r)" using one(1) by (auto simp: frontier_output_def Let_def result_simps split: if_splits)
  with Cons.IH [OF rest] one show ?case by (auto simp: bindR_Inr_conv)
qed simp

lemma put_witness_only: "put_witness ns leaf cm nf note sib db = Inr db' \<Longrightarrow> \<exists>w. db' = db\<lparr>db_witness := w\<rparr>"
  by (auto simp: put_witness_def result_simps)

lemma store_born_only: "foldR (store_born first outs ns) db born = Inr db' \<Longrightarrow> \<exists>w. db' = db\<lparr>db_witness := w\<rparr>"
proof (induction born arbitrary: db)
  case Nil
  then show ?case by (auto intro: exI [of _ "db_witness db"])
next
  case (Cons b bs)
  from Cons.prems obtain db1 where s: "store_born first outs ns db b = Inr db1" and rest: "foldR (store_born first outs ns) db1 bs = Inr db'"
    by (auto simp: bindR_Inr_conv)
  obtain w where "db1 = db\<lparr>db_witness := w\<rparr>"
    using s by (auto simp: store_born_def Let_def bindR_Inr_conv dest!: put_witness_only split: option.splits prod.splits)
  with Cons.IH [OF rest] show ?case by auto
qed

lemma append_outputs_rows:
  assumes "append_outputs C ns q tree outs row db = Inr (row', db')"
  obtains w os root where "db' = db\<lparr>db_output := db_output db @ output_rows ns q (n_leaves row) outs, db_witness := w\<rparr>"
    and "row' = row\<lparr>n_leaves := n_leaves row + length outs, n_ommers := os, n_noteRoot := root\<rparr>"
    and "list_all (\<lambda>x. if tree then isField (ao_cm x) else stored_key (ao_cm x)) outs"
    and "if tree then \<exists>r. frontier_append C (n_leaves row) (n_ommers row) (n_noteRoot row) (map (\<lambda>x. (ao_cm x, ao_witness x \<noteq> None)) outs) =
        Inr (r, root) \<and> fr_ommers r = os else os = n_ommers row \<and> root = n_noteRoot row"
proof (cases "tree \<and> outs \<noteq> []")
  case False
  show ?thesis
  proof (cases tree)
    case True
    with False assms have "outs = []" "row' = row" "db' = db" by (auto simp: append_outputs_def)
    then show ?thesis using that [where w = "db_witness db" and os = "n_ommers row" and root = "n_noteRoot row"] by (simp add: frontier_append_def)
  next
    case plain: False
    from assms obtain leaves where "foldR (plain_output ns q) (n_leaves row, db) outs = Inr (leaves, db')" "row' = row\<lparr>n_leaves := leaves\<rparr>"
      using plain by (auto simp: append_outputs_def mapR_Inr_conv)
    with plain_outputs_rows [OF this(1)] show ?thesis using that [where os = "n_ommers row" and root = "n_noteRoot row"] plain by auto
  qed
next
  case True
  let ?start = "\<lparr>fr_leaves = n_leaves row, fr_ommers = n_ommers row, fr_before = n_ommers row, fr_completed = [], fr_born = []\<rparr>"
  obtain r db1 root db2 where f: "foldR (tree_output C ns q) (?start, db) outs = Inr (r, db1)"
    and root: "rightmost_root C (fr_leaves r - 1) (fr_before r) (ao_cm (last outs)) = Inr root"
    and born: "foldR (store_born (n_leaves row) outs ns) db1 (fr_born r) = Inr db2"
    and out: "row' = row\<lparr>n_leaves := fr_leaves r, n_ommers := fr_ommers r, n_noteRoot := root\<rparr>" "db' = move_witnesses ns (fr_completed r) db2"
    using assms True by (auto simp: append_outputs_def bindR_Inr_conv)
  note t = tree_outputs_rows [OF f]
  obtain w where w: "db2 = db1\<lparr>db_witness := w\<rparr>" using store_born_only [OF born] by blast
  have "frontier_append C (n_leaves row) (n_ommers row) (n_noteRoot row) (map (\<lambda>x. (ao_cm x, ao_witness x \<noteq> None)) outs) = Inr (r, root)"
    using t root True by (simp add: frontier_append_def last_map)
  then show ?thesis using that [where w = "db_witness db'" and os = "fr_ommers r" and root = root] t w out True by (auto simp: move_witnesses_def)
qed

subsection \<open>Nullifiers\<close>

definition nullifier_rows :: "int \<Rightarrow> int \<Rightarrow> (int \<times> int) list \<Rightarrow> nullifier_row list" where
  "nullifier_rows ns q nfs = map (\<lambda>(nf, t). \<lparr>nl_nf = be_bytes 32 nf, nl_ns = ns, nl_position = q, nl_tag = be_bytes 32 t\<rparr>) nfs"

lemma nullifier_rows_simps [simp]:
  "nullifier_rows ns q [] = []"
  "nullifier_rows ns q ((nf, t) # xs) = \<lparr>nl_nf = be_bytes 32 nf, nl_ns = ns, nl_position = q, nl_tag = be_bytes 32 t\<rparr> # nullifier_rows ns q xs"
  by (simp_all add: nullifier_rows_def)

lemma nullifier_rows_at: "r \<in> set (nullifier_rows ns q nfs) \<Longrightarrow> nl_ns r = ns \<and> nl_position r = q"
  by (auto simp: nullifier_rows_def)

lemma append_nullifiers_rows:
  "foldR (append_nullifier C ns q tree) (spent, db) nfs = Inr (spent', db') \<Longrightarrow>
     foldR (spent_key C) spent (map (\<lambda>(nf, _). be_bytes 32 nf) nfs) = Inr spent' \<and>
     list_all (\<lambda>(nf, t). stored_key nf \<and> stored_key t) nfs \<and>
     (\<exists>w. db' = db\<lparr>db_nullifier := db_nullifier db @ nullifier_rows ns q nfs, db_witness := w\<rparr>)"
proof (induction nfs arbitrary: spent db)
  case Nil
  then show ?case by (auto intro: exI [of _ "db_witness db"])
next
  case (Cons x xs)
  obtain nf t where x: "x = (nf, t)" by fastforce
  from Cons.prems obtain spent1 db1 where s: "append_nullifier C ns q tree (spent, db) x = Inr (spent1, db1)"
    and rest: "foldR (append_nullifier C ns q tree) (spent1, db1) xs = Inr (spent', db')" by (auto simp: bindR_Inr_conv)
  have one: "spent_key C spent (be_bytes 32 nf) = Inr spent1" "stored_key nf" "stored_key t"
    "\<exists>w. db1 = db\<lparr>db_nullifier := db_nullifier db @ nullifier_rows ns q [x], db_witness := w\<rparr>"
    using s unfolding x by (auto simp: append_nullifier_def bindR_Inr_conv keyBytes_Inr insert_row_Inr)
  with Cons.IH [OF rest] show ?case unfolding x by (auto simp: bindR_Inr_conv)
qed

subsection \<open>Demands\<close>

definition demand_row_of :: "int \<Rightarrow> int \<Rightarrow> string \<Rightarrow> demand \<Rightarrow> demand_row" where
  "demand_row_of ns q name d = \<lparr>dr_id = name, dr_ns = ns, dr_position = q, dr_backing = dm_backing d, dr_quantity = dm_quantity d,
     dr_tag0 = be_bytes 32 (dm_tags d ! 0), dr_tag1 = be_bytes 32 (dm_tags d ! 1), dr_presenter = dm_presenter d,
     dr_instant = dm_instant d, dr_deadline = dm_deadline d\<rparr>"

definition demand_nullifier_rows :: "int \<Rightarrow> string \<Rightarrow> demand \<Rightarrow> demand_nullifier_row list" where
  "demand_nullifier_rows ns name d = map (\<lambda>(i, nf). \<lparr>dn_id = name, dn_ns = ns, dn_i = i, dn_nf = be_bytes 32 nf\<rparr>)
     (enumerate 0 (case dm_nullifiers d of None \<Rightarrow> [] | Some nfs \<Rightarrow> nfs))"

definition tag_row :: "int \<Rightarrow> string \<Rightarrow> int \<Rightarrow> demand_tag_row" where
  "tag_row ns name t = \<lparr>dt_tag = be_bytes 32 t, dt_id = name, dt_ns = ns\<rparr>"

lemma ignore_rows:
  "\<exists>new. foldl (\<lambda>rs k. ignore_row key (f k) rs) rows ks = rows @ new \<and> set new \<subseteq> f ` set ks \<and>
     (\<forall>k \<in> set ks. \<exists>r \<in> set (rows @ new). key r = key (f k))"
proof (induction ks arbitrary: rows)
  case (Cons k ks)
  obtain one where one: "ignore_row key (f k) rows = rows @ one" "set one \<subseteq> {f k}" "\<exists>r \<in> set (rows @ one). key r = key (f k)"
    by (fastforce simp: ignore_row_def list_ex_iff split: if_splits)
  obtain new where "foldl (\<lambda>rs k. ignore_row key (f k) rs) (rows @ one) ks = rows @ one @ new" "set new \<subseteq> f ` set ks"
    "\<forall>k \<in> set ks. \<exists>r \<in> set (rows @ one @ new). key r = key (f k)" using Cons.IH [of "rows @ one"] by auto
  with one show ?case by (intro exI [of _ "one @ new"]) auto
qed simp

lemma traverse_keys: "traverseR keyBytes vs = Inr ks \<longleftrightarrow> list_all stored_key vs \<and> ks = map (be_bytes 32) vs"
proof (induction vs arbitrary: ks)
  case (Cons v vs)
  then show ?case by (auto simp: bindR_Inr_conv keyBytes_Inr)
qed auto

lemma insert_rows_unique:
  "foldR (\<lambda>rows x. insert_row key table (f x) rows) rows xs = Inr rows' \<Longrightarrow> rows' = rows @ map f xs"
proof (induction xs arbitrary: rows)
  case (Cons x xs)
  then show ?case using Cons.IH [of "rows @ [f x]"] by (auto simp: bindR_Inr_conv insert_row_Inr)
qed simp

lemma insert_demand_rows:
  assumes "insert_demand ns q db (name, d) = Inr db'"
  obtains ts where "db' = db\<lparr>db_demand := db_demand db @ [demand_row_of ns q name d], db_demand_tag := db_demand_tag db @ ts,
      db_demand_nullifier := db_demand_nullifier db @ demand_nullifier_rows ns name d\<rparr>"
    and "set ts \<subseteq> tag_row ns name ` set (dm_tags d)"
    and "\<And>t. t \<in> set (dm_tags d) \<Longrightarrow> tag_row ns name t \<in> set (db_demand_tag db @ ts)"
    and "list_all stored_key (dm_tags d)" and "list_all stored_key (case dm_nullifiers d of None \<Rightarrow> [] | Some nfs \<Rightarrow> nfs)"
    and "2 \<le> length (dm_tags d)"
    and "\<And>x. x \<in> set (db_demand db) \<Longrightarrow> (dr_id x, dr_ns x) \<noteq> (name, ns)" and "\<not> heldDemandRows db name ns"
proof -
  let ?nfs = "case dm_nullifiers d of None \<Rightarrow> [] | Some nfs \<Rightarrow> nfs"
  let ?key = "\<lambda>r. (dt_tag r, dt_id r, dt_ns r)"
  let ?mk = "\<lambda>k. \<lparr>dt_tag = k, dt_id = name, dt_ns = ns\<rparr>"
  have step: "(\<lambda>rows (i, k). insert_row (\<lambda>r. (dn_id r, dn_ns r, dn_i r)) ''demand_nullifier'' \<lparr>dn_id = name, dn_ns = ns, dn_i = i, dn_nf = k\<rparr> rows) =
    (\<lambda>rows x. insert_row (\<lambda>r. (dn_id r, dn_ns r, dn_i r)) ''demand_nullifier'' ((\<lambda>(i, k). \<lparr>dn_id = name, dn_ns = ns, dn_i = i, dn_nf = k\<rparr>) x) rows)"
    by (intro ext) (simp split: prod.split)
  obtain nrows where held: "\<not> heldDemandRows db name ns" and len: "2 \<le> length (dm_tags d)"
    and keys: "list_all stored_key (dm_tags d)" "list_all stored_key ?nfs"
    and new: "\<forall>x \<in> set (db_demand db). (dr_id x, dr_ns x) \<noteq> (name, ns)"
    and nrows: "foldR (\<lambda>rows (i, k). insert_row (\<lambda>r. (dn_id r, dn_ns r, dn_i r)) ''demand_nullifier'' \<lparr>dn_id = name, dn_ns = ns, dn_i = i, dn_nf = k\<rparr> rows)
      (db_demand_nullifier db) (enumerate 0 (map (be_bytes 32) ?nfs)) = Inr nrows"
    and out: "db' = db\<lparr>db_demand := db_demand db @ [demand_row_of ns q name d],
      db_demand_tag := foldl (\<lambda>rs k. ignore_row ?key (?mk k) rs) (db_demand_tag db) (map (be_bytes 32) (dm_tags d)), db_demand_nullifier := nrows\<rparr>"
    using assms unfolding insert_demand_def by (auto simp: bindR_Inr_conv keyBytes_Inr insert_row_Inr traverse_keys demand_row_of_def)
  have "nrows = db_demand_nullifier db @ demand_nullifier_rows ns name d"
    using insert_rows_unique [OF nrows [unfolded step]] by (simp add: demand_nullifier_rows_def enumerate_map_upt enumerate_eq_zip zip_map2 split_def)
  moreover obtain ts where ts: "foldl (\<lambda>rs k. ignore_row ?key (?mk k) rs) (db_demand_tag db) (map (be_bytes 32) (dm_tags d)) = db_demand_tag db @ ts"
    "set ts \<subseteq> ?mk ` set (map (be_bytes 32) (dm_tags d))" "\<forall>k \<in> set (map (be_bytes 32) (dm_tags d)). \<exists>r \<in> set (db_demand_tag db @ ts). ?key r = ?key (?mk k)"
    using ignore_rows [of ?key ?mk "db_demand_tag db" "map (be_bytes 32) (dm_tags d)"] by blast
  moreover have "tag_row ns name t \<in> set (db_demand_tag db @ ts)" if "t \<in> set (dm_tags d)" for t
  proof -
    have "be_bytes 32 t \<in> set (map (be_bytes 32) (dm_tags d))" using that by simp
    then obtain r where r: "r \<in> set (db_demand_tag db @ ts)" "?key r = ?key (?mk (be_bytes 32 t))" using ts(3) by blast
    from r(2) have "r = tag_row ns name t" by (cases r) (simp add: tag_row_def)
    then show ?thesis using r(1) by simp
  qed
  ultimately show ?thesis using held len keys new out by (intro that [of ts]) (auto simp: tag_row_def)
qed

subsection \<open>The whole append\<close>

definition event_row_of :: "int \<Rightarrow> int \<Rightarrow> append \<Rightarrow> bytes \<Rightarrow> int \<Rightarrow> bytes \<Rightarrow> event_row" where
  "event_row_of ns q record history noteRoot spentRoot = \<lparr>ev_ns = ns, ev_position = q, ev_identity = ap_identity record,
     ev_kind = ap_kind record, ev_idx = ap_index record, ev_proofHash = ap_proofHash record, ev_signatureHash = ap_signatureHash record,
     ev_settlement = (if ap_kind record = 6 then Some (ap_record record) else None), ev_history = history,
     ev_evidence = ap_evidence record, ev_noteRoot = noteRoot, ev_spentRoot = spentRoot,
     ev_supply = map_option (\<lambda>(b, i, u). (unhex b, i, u)) (ap_supply record)\<rparr>"

text \<open>The demand tables after an append.\<close>

definition demand_written :: "int \<Rightarrow> int \<Rightarrow> (string \<times> demand) option \<Rightarrow> database \<Rightarrow> database \<Rightarrow> bool" where
  "demand_written ns q od db db' \<longleftrightarrow> (case od of
     None \<Rightarrow> db_demand db' = db_demand db \<and> db_demand_tag db' = db_demand_tag db \<and> db_demand_nullifier db' = db_demand_nullifier db
   | Some (name, d) \<Rightarrow> db_demand db' = db_demand db @ [demand_row_of ns q name d] \<and>
       db_demand_nullifier db' = db_demand_nullifier db @ demand_nullifier_rows ns name d \<and>
       (\<exists>ts. db_demand_tag db' = db_demand_tag db @ ts \<and> set ts \<subseteq> tag_row ns name ` set (dm_tags d) \<and>
         (\<forall>t \<in> set (dm_tags d). tag_row ns name t \<in> set (db_demand_tag db @ ts))) \<and>
       list_all stored_key (dm_tags d) \<and> list_all stored_key (case dm_nullifiers d of None \<Rightarrow> [] | Some nfs \<Rightarrow> nfs) \<and>
       2 \<le> length (dm_tags d) \<and> (\<forall>x \<in> set (db_demand db). (dr_id x, dr_ns x) \<noteq> (name, ns)) \<and> \<not> heldDemandRows db name ns)"

definition supply_rows :: "int \<Rightarrow> int \<Rightarrow> (string \<times> int \<times> int) option \<Rightarrow> database \<Rightarrow> total_row list" where
  "supply_rows ns q supply db = (case supply of None \<Rightarrow> db_total db | Some (backing, issued, burned) \<Rightarrow>
     (let (i, b) = store_total db ns (q - 1) (unhex backing) in
      replace_row (\<lambda>r. (tt_ns r, tt_backing r, tt_position r))
        \<lparr>tt_ns = ns, tt_backing = unhex backing, tt_position = q, tt_issued = i + issued, tt_burned = b + burned\<rparr> (db_total db)))"

definition anchor_rows :: "int \<Rightarrow> int \<Rightarrow> bool \<Rightarrow> int \<Rightarrow> anchor_row list \<Rightarrow> anchor_row list" where
  "anchor_rows ns q tree root rows = (if tree then ignore_row (\<lambda>r. (ac_root r, ac_ns r))
     \<lparr>ac_root = be_bytes 32 root, ac_ns = ns, ac_position = q\<rparr> rows else rows)"

definition end_rows :: "int \<Rightarrow> int \<Rightarrow> string option \<Rightarrow> demand_end_row list" where
  "end_rows ns q ended = (case ended of None \<Rightarrow> [] | Some name \<Rightarrow> [\<lparr>de_id = name, de_ns = ns, de_position = q\<rparr>])"

lemma store_total_cong: "db_total a = db_total b \<Longrightarrow> store_total a = store_total b"
  by (intro ext) (simp add: store_total_def)

lemma heldDemandRows_cong:
  "db_demand_nullifier a = db_demand_nullifier b \<Longrightarrow> db_demand_end a = db_demand_end b \<Longrightarrow> heldDemandRows a = heldDemandRows b"
  by (intro ext) (simp add: heldDemandRows_def)

lemma demand_written_cong:
  assumes "db_demand a = db_demand b" and "db_demand_tag a = db_demand_tag b" and "db_demand_nullifier a = db_demand_nullifier b"
    and "db_demand_end a = db_demand_end b"
    and "db_demand a' = db_demand b'" and "db_demand_tag a' = db_demand_tag b'" and "db_demand_nullifier a' = db_demand_nullifier b'"
  shows "demand_written ns q od a a' = demand_written ns q od b b'"
  unfolding demand_written_def heldDemandRows_cong [OF assms(3,4)] assms ..

lemma insert_keys_only: "insert_keys ns q ks db = Inr db' \<Longrightarrow>
    \<exists>new. db' = db\<lparr>db_event_key := db_event_key db @ new\<rparr> \<and> (\<forall>k \<in> set new. ek_ns k = ns \<and> ek_position k = q)"
proof -
  assume "insert_keys ns q ks db = Inr db'"
  then obtain rows where "foldR (\<lambda>rows k. insert_row (\<lambda>r. (ek_key r, ek_ns r, ek_position r)) ''event_key''
      \<lparr>ek_key = k, ek_ns = ns, ek_position = q\<rparr> rows) (db_event_key db) (rev (remdups (rev ks))) = Inr rows" "db' = db\<lparr>db_event_key := rows\<rparr>"
    by (auto simp: insert_keys_def mapR_Inr_conv)
  with insert_rows_unique [OF this(1)] have "db' = db\<lparr>db_event_key := db_event_key db @
      map (\<lambda>k. \<lparr>ek_key = k, ek_ns = ns, ek_position = q\<rparr>) (rev (remdups (rev ks)))\<rparr>" by simp
  then show ?thesis by (intro exI conjI) auto
qed

record appended =
  apd_row :: namespace_row
  apd_construction :: namespace_construction
  apd_root :: int
  apd_ommers :: ommers
  apd_spent :: stored_spent
  apd_spentRoot :: bytes
  apd_history :: bytes

text \<open>What an append of \<open>record\<close> to namespace \<open>ns\<close> of \<open>db\<close> leaves in \<open>db'\<close>, with the values it computes in \<open>a\<close>.\<close>

definition append_effect :: "crypto \<Rightarrow> int \<Rightarrow> append \<Rightarrow> database \<Rightarrow> appended \<Rightarrow> database \<Rightarrow> bool" where
  "append_effect C ns record db a db' \<longleftrightarrow> (let q = n_position (apd_row a) + 1; tree = nc_tree (apd_construction a) in
     db_namespace db ns = Some (apd_row a) \<and> db_construction db ns = Some (apd_construction a) \<and>
     list_all (\<lambda>x. if tree then isField (ao_cm x) else stored_key (ao_cm x)) (ap_outputs record) \<and>
     (if tree then \<exists>r. frontier_append C (n_leaves (apd_row a)) (n_ommers (apd_row a)) (n_noteRoot (apd_row a))
          (map (\<lambda>x. (ao_cm x, ao_witness x \<noteq> None)) (ap_outputs record)) = Inr (r, apd_root a) \<and> fr_ommers r = apd_ommers a
      else apd_ommers a = n_ommers (apd_row a) \<and> apd_root a = n_noteRoot (apd_row a)) \<and>
     foldR (spent_key C) (spent_of db ns (apd_row a)) (map (\<lambda>(nf, _). be_bytes 32 nf) (ap_nullifiers record)) = Inr (apd_spent a) \<and>
     sp_root C (apd_spent a) = Inr (apd_spentRoot a) \<and> list_all (\<lambda>(nf, t). stored_key nf \<and> stored_key t) (ap_nullifiers record) \<and>
     isField (apd_root a) \<and> ap_history record (apd_root a) (apd_spentRoot a) = Inr (apd_history a) \<and> q < 2 ^ 63 \<and>
     (\<forall>e \<in> set (db_event db). (ev_ns e, ev_position e) \<noteq> (ns, q)) \<and>
     (\<forall>name. ap_ended record = Some name \<longrightarrow> (\<forall>e \<in> set (db_demand_end db). (de_id e, de_ns e) \<noteq> (name, ns))) \<and>
     db_next db' = db_next db \<and> db_construction db' = db_construction db \<and> db_import db' = db_import db \<and>
     db_namespace db' = (db_namespace db)(ns \<mapsto> (apd_row a)\<lparr>n_leaves := n_leaves (apd_row a) + length (ap_outputs record),
       n_ommers := apd_ommers a, n_noteRoot := apd_root a, n_position := q, n_history := apd_history a, n_evidence := ap_evidence record,
       n_spentTop := sp_top (apd_spent a), n_spentNext := sp_next (apd_spent a)\<rparr>) \<and>
     db_spent db' = (db_spent db)(ns := sp_rows (apd_spent a)) \<and>
     db_nullifier db' = db_nullifier db @ nullifier_rows ns q (ap_nullifiers record) \<and>
     db_output db' = db_output db @ output_rows ns q (n_leaves (apd_row a)) (ap_outputs record) \<and>
     db_anchor db' = anchor_rows ns q tree (apd_root a) (db_anchor db) \<and>
     demand_written ns q (ap_demand record) db db' \<and>
     db_demand_end db' = db_demand_end db @ end_rows ns q (ap_ended record) \<and>
     db_total db' = supply_rows ns q (ap_supply record) db \<and>
     db_event db' = db_event db @ [event_row_of ns q record (apd_history a) (apd_root a) (apd_spentRoot a)] \<and>
     (\<exists>ks. db_event_key db' = db_event_key db @ ks \<and> (\<forall>k \<in> set ks. ek_ns k = ns \<and> ek_position k = q)))"

lemma append_notes_rows:
  assumes "append_notes C ns q tree record row0 db = Inr (row1, spent, db3)"
  obtains os root w where
    "row1 = row0\<lparr>n_leaves := n_leaves row0 + length (ap_outputs record), n_ommers := os, n_noteRoot := root\<rparr>"
    and "db3 = save_spent ns spent (db\<lparr>db_output := db_output db @ output_rows ns q (n_leaves row0) (ap_outputs record),
       db_nullifier := db_nullifier db @ nullifier_rows ns q (ap_nullifiers record), db_witness := w\<rparr>)"
    and "list_all (\<lambda>x. if tree then isField (ao_cm x) else stored_key (ao_cm x)) (ap_outputs record)"
    and "if tree then \<exists>r. frontier_append C (n_leaves row0) (n_ommers row0) (n_noteRoot row0)
          (map (\<lambda>x. (ao_cm x, ao_witness x \<noteq> None)) (ap_outputs record)) = Inr (r, root) \<and> fr_ommers r = os
      else os = n_ommers row0 \<and> root = n_noteRoot row0"
    and "foldR (spent_key C) (spent_of db ns row0) (map (\<lambda>(nf, _). be_bytes 32 nf) (ap_nullifiers record)) = Inr spent"
    and "list_all (\<lambda>(nf, t). stored_key nf \<and> stored_key t) (ap_nullifiers record)"
proof -
  obtain db1 db2 where o: "append_outputs C ns q tree (ap_outputs record) row0 db = Inr (row1, db1)"
    and n: "foldR (append_nullifier C ns q tree) (spent_of db1 ns row1, db1) (ap_nullifiers record) = Inr (spent, db2)"
    and db3: "db3 = save_spent ns spent db2"
    using assms by (auto simp: append_notes_def bindR_Inr_conv)
  obtain w os rt where db1: "db1 = db\<lparr>db_output := db_output db @ output_rows ns q (n_leaves row0) (ap_outputs record), db_witness := w\<rparr>"
    and row1: "row1 = row0\<lparr>n_leaves := n_leaves row0 + length (ap_outputs record), n_ommers := os, n_noteRoot := rt\<rparr>"
    and keys: "list_all (\<lambda>x. if tree then isField (ao_cm x) else stored_key (ao_cm x)) (ap_outputs record)"
    and tree: "if tree then \<exists>r. frontier_append C (n_leaves row0) (n_ommers row0) (n_noteRoot row0)
      (map (\<lambda>x. (ao_cm x, ao_witness x \<noteq> None)) (ap_outputs record)) = Inr (r, rt) \<and> fr_ommers r = os
      else os = n_ommers row0 \<and> rt = n_noteRoot row0" by (rule append_outputs_rows [OF o])
  have sp: "spent_of db1 ns row1 = spent_of db ns row0" by (simp add: spent_of_def db1 row1)
  note nk = append_nullifiers_rows [OF n, unfolded sp]
  then obtain w2 where db2: "db2 = db1\<lparr>db_nullifier := db_nullifier db1 @ nullifier_rows ns q (ap_nullifiers record), db_witness := w2\<rparr>" by blast
  show ?thesis
  proof (rule that [OF row1, of w2])
    show "db3 = save_spent ns spent (db\<lparr>db_output := db_output db @ output_rows ns q (n_leaves row0) (ap_outputs record),
       db_nullifier := db_nullifier db @ nullifier_rows ns q (ap_nullifiers record), db_witness := w2\<rparr>)" by (simp add: db3 db2 db1)
  qed (use keys tree nk in auto)
qed

lemma store_append_stages:
  assumes "store_append C ns record db = Inr (t, db')"
  obtains row0 con row1 spent db3 spentRoot db5 db6 where "db_namespace db ns = Some row0" and "db_construction db ns = Some con"
    and "append_notes C ns (n_position row0 + 1) (nc_tree con) record row0 db = Inr (row1, spent, db3)"
    and "sp_root C spent = Inr spentRoot" and "isField (n_noteRoot row1)"
    and "optionally (insert_demand ns (n_position row0 + 1)) (append_anchor ns (n_position row0 + 1) (nc_tree con) (be_bytes 32 (n_noteRoot row1)) db3)
       (ap_demand record) = Inr db5"
    and "optionally (insert_end ns (n_position row0 + 1)) db5 (ap_ended record) = Inr db6"
    and "append_event ns (n_position row0 + 1) record row1 spent spentRoot
       (append_supply ns (n_position row0 + 1) (ap_supply record) db6) = Inr db'"
    and "store_tip C db' ns = Inr t"
proof -
  obtain row0 con where r: "db_namespace db ns = Some row0" "db_construction db ns = Some con"
    using assms by (auto simp: store_append_def construction_of_def bindR_Inr_conv split: option.splits)
  obtain row1 spent db3 where n: "append_notes C ns (n_position row0 + 1) (nc_tree con) record row0 db = Inr (row1, spent, db3)"
    and rest: "bindR (sp_root C spent) (\<lambda>spentRoot. bindR (fieldToBytes (n_noteRoot row1)) (\<lambda>root.
     bindR (optionally (insert_demand ns (n_position row0 + 1)) (append_anchor ns (n_position row0 + 1) (nc_tree con) root db3) (ap_demand record)) (\<lambda>db5.
     bindR (optionally (insert_end ns (n_position row0 + 1)) db5 (ap_ended record)) (\<lambda>db6.
     bindR (append_event ns (n_position row0 + 1) record row1 spent spentRoot (append_supply ns (n_position row0 + 1) (ap_supply record) db6)) (\<lambda>db'.
     mapR (\<lambda>t. (t, db')) (store_tip C db' ns)))))) = Inr (t, db')"
    using assms by (auto simp: store_append_def construction_of_def r Let_def bindR_Inr_conv [of "append_notes C ns (n_position row0 + 1) (nc_tree con) record row0 db"])
  from rest show ?thesis using that [OF r n] unfolding bindR_Inr_conv mapR_Inr_conv fieldToBytes_conv by blast
qed

lemma insert_end_rows: "optionally (insert_end ns q) db ended = Inr db' \<Longrightarrow>
    db' = db\<lparr>db_demand_end := db_demand_end db @ end_rows ns q ended\<rparr> \<and>
    (\<forall>name. ended = Some name \<longrightarrow> (\<forall>e \<in> set (db_demand_end db). (de_id e, de_ns e) \<noteq> (name, ns)))"
  by (cases ended) (auto simp: insert_end_def mapR_Inr_conv insert_row_Inr end_rows_def)

lemma demand_stage:
  assumes "optionally (insert_demand ns q) db od = Inr db'"
  shows "\<exists>ds ts nls. db' = db\<lparr>db_demand := ds, db_demand_tag := ts, db_demand_nullifier := nls\<rparr> \<and> demand_written ns q od db db'"
proof (cases od)
  case None
  then show ?thesis using assms
    by (intro exI [of _ "db_demand db"] exI [of _ "db_demand_tag db"] exI [of _ "db_demand_nullifier db"]) (simp add: demand_written_def)
next
  case (Some x)
  obtain name d where x: "x = (name, d)" by fastforce
  have "insert_demand ns q db (name, d) = Inr db'" using assms Some x by simp
  then obtain ts where ts: "db' = db\<lparr>db_demand := db_demand db @ [demand_row_of ns q name d], db_demand_tag := db_demand_tag db @ ts,
      db_demand_nullifier := db_demand_nullifier db @ demand_nullifier_rows ns name d\<rparr>"
    "set ts \<subseteq> tag_row ns name ` set (dm_tags d)" "\<And>t. t \<in> set (dm_tags d) \<Longrightarrow> tag_row ns name t \<in> set (db_demand_tag db @ ts)"
    "list_all stored_key (dm_tags d)" "list_all stored_key (case dm_nullifiers d of None \<Rightarrow> [] | Some nfs \<Rightarrow> nfs)"
    "2 \<le> length (dm_tags d)" "\<And>x. x \<in> set (db_demand db) \<Longrightarrow> (dr_id x, dr_ns x) \<noteq> (name, ns)" "\<not> heldDemandRows db name ns"
    by (rule insert_demand_rows) blast
  then have "demand_written ns q od db db'" unfolding demand_written_def Some x by simp
  with ts(1) show ?thesis by blast
qed

lemma append_supply_only: "append_supply ns q supply db = db\<lparr>db_total := supply_rows ns q supply db\<rparr>"
  by (simp add: append_supply_def supply_rows_def insert_total_def Let_def split: option.split prod.split)

lemma append_anchor_only: "append_anchor ns q tree (be_bytes 32 root) db = db\<lparr>db_anchor := anchor_rows ns q tree root (db_anchor db)\<rparr>"
  by (simp add: append_anchor_def anchor_rows_def)

lemma append_event_rows:
  assumes "append_event ns q record row1 spent spentRoot db = Inr db'"
  obtains history ks where "ap_history record (n_noteRoot row1) spentRoot = Inr history" and "q < 2 ^ 63"
    and "\<forall>e \<in> set (db_event db). (ev_ns e, ev_position e) \<noteq> (ns, q)" and "\<forall>k \<in> set ks. ek_ns k = ns \<and> ek_position k = q"
    and "db' = db\<lparr>db_event := db_event db @ [event_row_of ns q record history (n_noteRoot row1) spentRoot],
      db_event_key := db_event_key db @ ks, db_namespace := (db_namespace db)(ns \<mapsto> row1\<lparr>n_position := q, n_history := history,
        n_evidence := ap_evidence record, n_spentTop := sp_top spent, n_spentNext := sp_next spent\<rparr>)\<rparr>"
proof -
  obtain history db1 db2 where h: "ap_history record (n_noteRoot row1) spentRoot = Inr history" "sqlite_int q = Inr ()"
    and e: "insert_event (event_row_of ns q record history (n_noteRoot row1) spentRoot) db = Inr db1"
    and k: "insert_keys ns q (ap_keys record) db1 = Inr db2"
    and out: "db' = db2\<lparr>db_namespace := (db_namespace db2)(ns \<mapsto> row1\<lparr>n_position := q, n_history := history,
       n_evidence := ap_evidence record, n_spentTop := sp_top spent, n_spentNext := sp_next spent\<rparr>)\<rparr>"
    using assms unfolding append_event_def event_row_of_def by (auto simp: bindR_Inr_conv)
  from e have one: "db1 = db\<lparr>db_event := db_event db @ [event_row_of ns q record history (n_noteRoot row1) spentRoot]\<rparr>"
    "\<forall>e \<in> set (db_event db). (ev_ns e, ev_position e) \<noteq> (ns, q)"
    by (auto simp: insert_event_def mapR_Inr_conv insert_row_Inr event_row_of_def)
  obtain ks where two: "db2 = db1\<lparr>db_event_key := db_event_key db1 @ ks\<rparr>" "\<forall>k \<in> set ks. ek_ns k = ns \<and> ek_position k = q"
    using insert_keys_only [OF k] by blast
  show ?thesis by (rule that [OF h(1) _ one(2) two(2)]) (use h(2) in \<open>simp_all add: sqlite_int_Inr out two(1) one(1)\<close>)
qed

lemma store_append_effect:
  assumes "store_append C ns record db = Inr (t, db')"
  obtains a where "append_effect C ns record db a db'" and "store_tip C db' ns = Inr t"
proof -
  from assms obtain row0 con row1 spent db3 spentRoot db5 db6 where row0: "db_namespace db ns = Some row0" and con: "db_construction db ns = Some con"
    and n: "append_notes C ns (n_position row0 + 1) (nc_tree con) record row0 db = Inr (row1, spent, db3)"
    and sr: "sp_root C spent = Inr spentRoot" and f: "isField (n_noteRoot row1)"
    and d: "optionally (insert_demand ns (n_position row0 + 1)) (append_anchor ns (n_position row0 + 1) (nc_tree con) (be_bytes 32 (n_noteRoot row1)) db3)
       (ap_demand record) = Inr db5"
    and e: "optionally (insert_end ns (n_position row0 + 1)) db5 (ap_ended record) = Inr db6"
    and ev: "append_event ns (n_position row0 + 1) record row1 spent spentRoot
       (append_supply ns (n_position row0 + 1) (ap_supply record) db6) = Inr db'"
    and tip: "store_tip C db' ns = Inr t" by (rule store_append_stages)
  let ?q = "n_position row0 + 1"
  from n obtain os root w where row1: "row1 = row0\<lparr>n_leaves := n_leaves row0 + length (ap_outputs record), n_ommers := os, n_noteRoot := root\<rparr>"
    and db3: "db3 = save_spent ns spent (db\<lparr>db_output := db_output db @ output_rows ns ?q (n_leaves row0) (ap_outputs record),
       db_nullifier := db_nullifier db @ nullifier_rows ns ?q (ap_nullifiers record), db_witness := w\<rparr>)"
    and nts: "list_all (\<lambda>x. if nc_tree con then isField (ao_cm x) else stored_key (ao_cm x)) (ap_outputs record)"
      "if nc_tree con then \<exists>r. frontier_append C (n_leaves row0) (n_ommers row0) (n_noteRoot row0)
          (map (\<lambda>x. (ao_cm x, ao_witness x \<noteq> None)) (ap_outputs record)) = Inr (r, root) \<and> fr_ommers r = os
      else os = n_ommers row0 \<and> root = n_noteRoot row0"
      "foldR (spent_key C) (spent_of db ns row0) (map (\<lambda>(nf, _). be_bytes 32 nf) (ap_nullifiers record)) = Inr spent"
      "list_all (\<lambda>(nf, t). stored_key nf \<and> stored_key t) (ap_nullifiers record)" by (rule append_notes_rows)
  obtain ds ts nls where db5: "db5 = (append_anchor ns ?q (nc_tree con) (be_bytes 32 (n_noteRoot row1)) db3)\<lparr>db_demand := ds, db_demand_tag := ts, db_demand_nullifier := nls\<rparr>"
    and dw: "demand_written ns ?q (ap_demand record) (append_anchor ns ?q (nc_tree con) (be_bytes 32 (n_noteRoot row1)) db3) db5"
    using demand_stage [OF d] by blast
  note db6 = insert_end_rows [OF e]
  from ev obtain history ks where h: "ap_history record (n_noteRoot row1) spentRoot = Inr history" "?q < 2 ^ 63"
    and fresh: "\<forall>e \<in> set (db_event (append_supply ns ?q (ap_supply record) db6)). (ev_ns e, ev_position e) \<noteq> (ns, ?q)"
    and ks: "\<forall>k \<in> set ks. ek_ns k = ns \<and> ek_position k = ?q"
    and out: "db' = (append_supply ns ?q (ap_supply record) db6)\<lparr>
      db_event := db_event (append_supply ns ?q (ap_supply record) db6) @ [event_row_of ns ?q record history (n_noteRoot row1) spentRoot],
      db_event_key := db_event_key (append_supply ns ?q (ap_supply record) db6) @ ks,
      db_namespace := (db_namespace (append_supply ns ?q (ap_supply record) db6))(ns \<mapsto> row1\<lparr>n_position := ?q, n_history := history,
        n_evidence := ap_evidence record, n_spentTop := sp_top spent, n_spentNext := sp_next spent\<rparr>)\<rparr>" by (rule append_event_rows)
  let ?a = "\<lparr>apd_row = row0, apd_construction = con, apd_root = root, apd_ommers = os, apd_spent = spent, apd_spentRoot = spentRoot, apd_history = history\<rparr>"
  have base: "db_total db6 = db_total db" "db_demand_end db5 = db_demand_end db" "db_event db6 = db_event db" "db_event_key db6 = db_event_key db"
    "db_demand_nullifier (append_anchor ns ?q (nc_tree con) (be_bytes 32 (n_noteRoot row1)) db3) = db_demand_nullifier db"
    "db_demand_tag (append_anchor ns ?q (nc_tree con) (be_bytes 32 (n_noteRoot row1)) db3) = db_demand_tag db"
    "db_demand (append_anchor ns ?q (nc_tree con) (be_bytes 32 (n_noteRoot row1)) db3) = db_demand db"
    "db_demand_end (append_anchor ns ?q (nc_tree con) (be_bytes 32 (n_noteRoot row1)) db3) = db_demand_end db"
    by (simp_all add: db6 db5 db3 append_anchor_only save_spent_def)
  have dw': "demand_written ns ?q (ap_demand record) db db'"
    using dw demand_written_cong [OF base(7,6,5,8), of db5 db'] by (simp add: out append_supply_only db6)
  have sup: "supply_rows ns ?q (ap_supply record) db6 = supply_rows ns ?q (ap_supply record) db"
    unfolding supply_rows_def store_total_cong [OF base(1)] base(1) ..
  note steps = out append_supply_only conjunct1 [OF db6] db5 db3 append_anchor_only save_spent_def row1
  have tables: "db_next db' = db_next db" "db_construction db' = db_construction db" "db_import db' = db_import db"
    "db_spent db' = (db_spent db)(ns := sp_rows spent)"
    "db_nullifier db' = db_nullifier db @ nullifier_rows ns ?q (ap_nullifiers record)"
    "db_output db' = db_output db @ output_rows ns ?q (n_leaves row0) (ap_outputs record)"
    "db_anchor db' = anchor_rows ns ?q (nc_tree con) root (db_anchor db)"
    "db_demand_end db' = db_demand_end db @ end_rows ns ?q (ap_ended record)"
    "db_event db' = db_event db @ [event_row_of ns ?q record history root spentRoot]"
    "db_event_key db' = db_event_key db @ ks"
    by (simp_all add: steps)
  have nsp: "db_namespace db' = (db_namespace db)(ns \<mapsto> row0\<lparr>n_leaves := n_leaves row0 + length (ap_outputs record), n_ommers := os, n_noteRoot := root,
      n_position := ?q, n_history := history, n_evidence := ap_evidence record, n_spentTop := sp_top spent, n_spentNext := sp_next spent\<rparr>)"
    by (simp add: steps)
  have tot: "db_total db' = supply_rows ns ?q (ap_supply record) db" by (simp add: out append_supply_only sup)
  have ends: "\<forall>name. ap_ended record = Some name \<longrightarrow> (\<forall>e \<in> set (db_demand_end db). (de_id e, de_ns e) \<noteq> (name, ns))"
    using conjunct2 [OF db6] unfolding base .
  have fresh': "\<forall>e \<in> set (db_event db). (ev_ns e, ev_position e) \<noteq> (ns, ?q)"
    using fresh by (simp add: append_supply_only base)
  have froot: "isField root" "ap_history record root spentRoot = Inr history" using f h(1) by (simp_all add: row1)
  have keyed: "\<exists>ks. db_event_key db' = db_event_key db @ ks \<and> (\<forall>k \<in> set ks. ek_ns k = ns \<and> ek_position k = ?q)"
    using tables(10) ks by blast
  have "append_effect C ns record db ?a db'"
    unfolding append_effect_def Let_def appended.simps
    by (intro conjI; (rule row0 con nts sr froot h(2) fresh' ends tables nsp dw' tot keyed)?)
  then show ?thesis using tip by (rule that)
qed

end
