(* ===== verification/ReplayStable.thy ===== *)
theory ReplayStable
  imports ReplayFrame
begin

section \<open>Reads at an earlier position do not change\<close>

text \<open>
  An append adds rows at one namespace and position.  A reader at a position below it in that
  namespace, or in another namespace whose imports end at or below the appended namespace's tip,
  reads exactly what it read before; the stable part of every read is proved here.
\<close>

definition imports_bounded :: "database \<Rightarrow> bool" where
  "imports_bounded db \<longleftrightarrow> (\<forall>i \<in> set (db_import db). \<exists>row. db_namespace db (im_source i) = Some row \<and> im_upto i \<le> n_position row)"

text \<open>Position \<open>p\<close> of namespace \<open>m\<close> reads nothing of namespace \<open>ns\<close> at position \<open>q\<close>.\<close>

definition unseen :: "database \<Rightarrow> int \<Rightarrow> int \<Rightarrow> int \<Rightarrow> int \<Rightarrow> bool" where
  "unseen db m p ns q \<longleftrightarrow> \<not> visible db m p ns q \<and> (m = ns \<longrightarrow> p < q)"

lemma unseen_above:
  assumes "imports_bounded db" and "db_namespace db ns = Some row" and "m = ns \<Longrightarrow> p \<le> n_position row"
  shows "unseen db m p ns (n_position row + 1)"
  using assms by (fastforce simp: unseen_def visible_def imports_bounded_def list_ex_iff)

lemma list_ex_more: "(\<And>x. x \<in> set new \<Longrightarrow> \<not> P x) \<Longrightarrow> list_ex P (rows @ new) = list_ex P rows"
  by (auto simp: list_ex_iff)

lemma filter_more: "(\<And>x. x \<in> set new \<Longrightarrow> \<not> P x) \<Longrightarrow> filter P (rows @ new) = filter P rows"
  by (simp add: filter_empty_conv)

lemma find_more: "(\<And>x. x \<in> set new \<Longrightarrow> \<not> P x) \<Longrightarrow> find P (rows @ new) = find P rows"
proof (induction rows)
  case Nil
  then have "find P new = None" by (simp add: find_None_iff)
  then show ?case by simp
qed simp

lemma find_cong_on: "(\<And>x. x \<in> set rows \<Longrightarrow> P x = Q x) \<Longrightarrow> find P rows = find Q rows"
  by (induction rows) auto

lemma traverseR_cong: "(\<And>x. x \<in> set xs \<Longrightarrow> f x = g x) \<Longrightarrow> traverseR f xs = traverseR g xs"
  by (induction xs) simp_all

lemma anchor_rows_more: "\<exists>new. anchor_rows ns q tree root rows = rows @ new \<and> (\<forall>x \<in> set new. ac_ns x = ns \<and> ac_position x = q)"
  by (auto simp: anchor_rows_def ignore_row_def)

lemma end_rows_at: "x \<in> set (end_rows ns q ended) \<Longrightarrow> de_ns x = ns \<and> de_position x = q"
  by (auto simp: end_rows_def split: option.splits)

text \<open>What each table of \<open>db'\<close> adds to \<open>db\<close>, unseen from \<open>(m, p)\<close>.\<close>

definition unseen_growth :: "database \<Rightarrow> database \<Rightarrow> int \<Rightarrow> int \<Rightarrow> int \<Rightarrow> int \<Rightarrow> bool" where
  "unseen_growth db db' m p ns q \<longleftrightarrow> unseen db m p ns q \<and> db_import db' = db_import db \<and>
     (\<exists>new. db_nullifier db' = db_nullifier db @ new \<and> (\<forall>x \<in> set new. nl_ns x = ns \<and> nl_position x = q)) \<and>
     (\<exists>new. db_output db' = db_output db @ new \<and> (\<forall>x \<in> set new. ot_ns x = ns \<and> ot_position x = q)) \<and>
     (\<exists>new. db_anchor db' = db_anchor db @ new \<and> (\<forall>x \<in> set new. ac_ns x = ns \<and> ac_position x = q)) \<and>
     (\<exists>new. db_event db' = db_event db @ new \<and> (\<forall>x \<in> set new. ev_ns x = ns \<and> ev_position x = q)) \<and>
     (\<exists>new. db_demand db' = db_demand db @ new \<and> (\<forall>x \<in> set new. dr_ns x = ns \<and> dr_position x = q)) \<and>
     (\<exists>new. db_demand_end db' = db_demand_end db @ new \<and> (\<forall>x \<in> set new. de_ns x = ns \<and> de_position x = q)) \<and>
     (\<exists>new. db_demand_tag db' = db_demand_tag db @ new \<and> (\<forall>t \<in> set new. \<forall>x \<in> set (db_demand db). (dr_id x, dr_ns x) \<noteq> (dt_id t, dt_ns t))) \<and>
     (\<exists>new. db_demand_nullifier db' = db_demand_nullifier db @ new \<and>
        (\<forall>t \<in> set new. \<forall>x \<in> set (db_demand db). (dr_id x, dr_ns x) \<noteq> (dn_id t, dn_ns t))) \<and>
     (\<forall>b. filter (\<lambda>r. tt_ns r = m \<and> tt_backing r = b \<and> tt_position r \<le> p) (db_total db') =
        filter (\<lambda>r. tt_ns r = m \<and> tt_backing r = b \<and> tt_position r \<le> p) (db_total db)) \<and>
     map tt_backing (filter (\<lambda>r. tt_ns r = m \<and> tt_position r \<le> p) (db_total db')) =
       map tt_backing (filter (\<lambda>r. tt_ns r = m \<and> tt_position r \<le> p) (db_total db))"

lemma filter_replace_row:
  "(\<And>x. key x = key r \<Longrightarrow> \<not> P x) \<Longrightarrow> filter P (replace_row key r rows) = filter P rows"
  by (auto simp: replace_row_def intro!: filter_cong)

lemma supply_rows_unseen:
  assumes "m = ns \<longrightarrow> p < q" and "\<And>r. P r \<Longrightarrow> tt_ns r = m \<and> tt_position r \<le> p"
  shows "filter P (supply_rows ns q supply db) = filter P (db_total db)"
proof -
  have "\<not> P x" if "(tt_ns x, tt_backing x, tt_position x) = (ns, b, q)" for x b using that assms by fastforce
  then have "filter P (replace_row (\<lambda>r. (tt_ns r, tt_backing r, tt_position r)) \<lparr>tt_ns = ns, tt_backing = b, tt_position = q, tt_issued = i,
      tt_burned = u\<rparr> rows) = filter P rows" for b i u rows by (intro filter_replace_row) simp
  then show ?thesis by (simp add: supply_rows_def Let_def split: option.split prod.split)
qed

lemma append_unseen_growth:
  assumes "append_effect C ns record db a db'" and "unseen db m p ns (n_position (apd_row a) + 1)"
  shows "unseen_growth db db' m p ns (n_position (apd_row a) + 1)"
proof -
  let ?q = "n_position (apd_row a) + 1"
  have mp: "m = ns \<longrightarrow> p < ?q" using assms(2) by (simp add: unseen_def)
  have base: "db_import db' = db_import db" "db_nullifier db' = db_nullifier db @ nullifier_rows ns ?q (ap_nullifiers record)"
    "db_output db' = db_output db @ output_rows ns ?q (n_leaves (apd_row a)) (ap_outputs record)"
    "db_anchor db' = anchor_rows ns ?q (nc_tree (apd_construction a)) (apd_root a) (db_anchor db)"
    "db_event db' = db_event db @ [event_row_of ns ?q record (apd_history a) (apd_root a) (apd_spentRoot a)]"
    "db_demand_end db' = db_demand_end db @ end_rows ns ?q (ap_ended record)"
    "db_total db' = supply_rows ns ?q (ap_supply record) db" and dw: "demand_written ns ?q (ap_demand record) db db'"
    using assms(1) unfolding append_effect_def Let_def by blast+
  have demands: "(\<exists>new. db_demand db' = db_demand db @ new \<and> (\<forall>x \<in> set new. dr_ns x = ns \<and> dr_position x = ?q)) \<and>
     (\<exists>new. db_demand_tag db' = db_demand_tag db @ new \<and> (\<forall>t \<in> set new. \<forall>x \<in> set (db_demand db). (dr_id x, dr_ns x) \<noteq> (dt_id t, dt_ns t))) \<and>
     (\<exists>new. db_demand_nullifier db' = db_demand_nullifier db @ new \<and>
        (\<forall>t \<in> set new. \<forall>x \<in> set (db_demand db). (dr_id x, dr_ns x) \<noteq> (dn_id t, dn_ns t)))"
  proof (cases "ap_demand record")
    case None
    then show ?thesis using dw by (simp add: demand_written_def)
  next
    case (Some x)
    obtain name d where x: "x = (name, d)" by fastforce
    obtain ts where ts: "db_demand db' = db_demand db @ [demand_row_of ns ?q name d]"
      "db_demand_nullifier db' = db_demand_nullifier db @ demand_nullifier_rows ns name d"
      "db_demand_tag db' = db_demand_tag db @ ts" "set ts \<subseteq> tag_row ns name ` set (dm_tags d)"
      "\<forall>x \<in> set (db_demand db). (dr_id x, dr_ns x) \<noteq> (name, ns)"
      using dw unfolding demand_written_def Some x by auto
    have n: "dn_id t = name \<and> dn_ns t = ns" if "t \<in> set (demand_nullifier_rows ns name d)" for t
      using that by (auto simp: demand_nullifier_rows_def)
    have t: "dt_id t = name \<and> dt_ns t = ns" if "t \<in> set ts" for t using that ts(4) by (auto simp: tag_row_def)
    show ?thesis using ts(1,2,3,5) n t by (auto simp: demand_row_of_def)
  qed
  have tot: "filter (\<lambda>r. tt_ns r = m \<and> tt_backing r = b \<and> tt_position r \<le> p) (db_total db') =
      filter (\<lambda>r. tt_ns r = m \<and> tt_backing r = b \<and> tt_position r \<le> p) (db_total db)" for b
    unfolding base(7) by (rule supply_rows_unseen [OF mp]) simp
  have tots: "filter (\<lambda>r. tt_ns r = m \<and> tt_position r \<le> p) (db_total db') = filter (\<lambda>r. tt_ns r = m \<and> tt_position r \<le> p) (db_total db)"
    unfolding base(7) by (rule supply_rows_unseen [OF mp]) simp
  have events: "\<exists>new. db_event db' = db_event db @ new \<and> (\<forall>x \<in> set new. ev_ns x = ns \<and> ev_position x = ?q)"
    unfolding base(5) by (auto simp: event_row_of_def)
  have rows: "\<exists>new. db_nullifier db' = db_nullifier db @ new \<and> (\<forall>x \<in> set new. nl_ns x = ns \<and> nl_position x = ?q)"
    "\<exists>new. db_output db' = db_output db @ new \<and> (\<forall>x \<in> set new. ot_ns x = ns \<and> ot_position x = ?q)"
    "\<exists>new. db_demand_end db' = db_demand_end db @ new \<and> (\<forall>x \<in> set new. de_ns x = ns \<and> de_position x = ?q)"
    "\<exists>new. db_anchor db' = db_anchor db @ new \<and> (\<forall>x \<in> set new. ac_ns x = ns \<and> ac_position x = ?q)"
    using base(2,3,6) nullifier_rows_at output_rows_at end_rows_at anchor_rows_more unfolding base(4) by blast+
  show ?thesis unfolding unseen_growth_def
    using assms(2) base(1) rows events demands tot tots by simp
qed

subsection \<open>Every bounded read\<close>

lemma growth_visible:
  assumes "unseen_growth db db' m p ns q"
  shows "visible db' = visible db" and "\<not> visible db m p ns q"
proof -
  show "visible db' = visible db" using assms by (intro ext) (simp add: visible_def unseen_growth_def)
  show "\<not> visible db m p ns q" using assms by (simp add: unseen_growth_def unseen_def)
qed

lemma growth_event_at:
  assumes "unseen_growth db db' m p ns q" and "visible db m p ns' q'"
  shows "event_at db' ns' q' = event_at db ns' q'"
proof -
  obtain new where n: "db_event db' = db_event db @ new" "\<forall>x \<in> set new. ev_ns x = ns \<and> ev_position x = q"
    using assms(1) by (auto simp: unseen_growth_def)
  have "(ns', q') \<noteq> (ns, q)" using growth_visible(2) [OF assms(1)] assms(2) by auto
  then show ?thesis unfolding event_at_def n(1) using n(2) by (intro find_more) auto
qed

lemma growth_flags:
  assumes g: "unseen_growth db db' m p ns q"
  shows "hasNullifier db' m p = hasNullifier db m p" and "hasOutput db' m p = hasOutput db m p"
    and "hasAnchor db' m p = hasAnchor db m p" and "hasSpentTag db' m p = hasSpentTag db m p"
    and "isEffective db' m p = isEffective db m p" and "hasEvent db' m p = hasEvent db m p"
    and "hasStatement db' m p = hasStatement db m p" and "ended_at db' m p = ended_at db m p"
proof -
  note v = growth_visible [OF g]
  obtain nls ots acs evs des where n: "db_nullifier db' = db_nullifier db @ nls" "\<forall>x \<in> set nls. nl_ns x = ns \<and> nl_position x = q"
    and o: "db_output db' = db_output db @ ots" "\<forall>x \<in> set ots. ot_ns x = ns \<and> ot_position x = q"
    and c: "db_anchor db' = db_anchor db @ acs" "\<forall>x \<in> set acs. ac_ns x = ns \<and> ac_position x = q"
    and e: "db_event db' = db_event db @ evs" "\<forall>x \<in> set evs. ev_ns x = ns \<and> ev_position x = q"
    and d: "db_demand_end db' = db_demand_end db @ des" "\<forall>x \<in> set des. de_ns x = ns \<and> de_position x = q"
    using g unfolding unseen_growth_def by blast
  have mp: "m = ns \<longrightarrow> p < q" using g by (simp add: unseen_growth_def unseen_def)
  show "hasNullifier db' m p = hasNullifier db m p" "hasSpentTag db' m p = hasSpentTag db m p"
    unfolding hasNullifier_def hasSpentTag_def n(1) v(1) using n(2) v(2) by (intro ext arg_cong2 [where f = mapR] list_ex_more refl; auto)+
  show "hasOutput db' m p = hasOutput db m p"
    unfolding hasOutput_def o(1) v(1) using o(2) v(2) by (intro ext arg_cong2 [where f = mapR] list_ex_more refl; auto)
  show "hasAnchor db' m p = hasAnchor db m p"
    unfolding hasAnchor_def c(1) v(1) using c(2) v(2) by (intro ext arg_cong2 [where f = mapR] list_ex_more refl; auto)
  show "isEffective db' m p = isEffective db m p"
    unfolding isEffective_def e(1) v(1) using e(2) v(2) by (intro ext arg_cong [where f = Inr] list_ex_more; auto)
  show "hasEvent db' m p = hasEvent db m p"
    unfolding hasEvent_def e(1) v(1) using e(2) v(2) by (intro ext list_ex_more; auto)
  show "hasStatement db' m p = hasStatement db m p"
    unfolding hasStatement_def e(1) using e(2) mp by (intro ext list_ex_more; auto)
  show "ended_at db' m p = ended_at db m p"
    unfolding ended_at_def d(1) v(1) using d(2) v(2) by (intro ext list_ex_more; auto)
qed

lemma growth_demands:
  assumes g: "unseen_growth db db' m p ns q"
  shows "visible_demands db' m p = visible_demands db m p" and "standing_demands db' m p = standing_demands db m p"
    and "r \<in> set (db_demand db) \<Longrightarrow> demand_of_row db' r = demand_of_row db r"
    and "set rows \<subseteq> set (db_demand db) \<Longrightarrow> tagged db' k rows = tagged db k rows"
proof -
  note v = growth_visible [OF g]
  obtain drs where d: "db_demand db' = db_demand db @ drs" "\<forall>x \<in> set drs. dr_ns x = ns \<and> dr_position x = q"
    using g unfolding unseen_growth_def by blast
  obtain nrs where n: "db_demand_nullifier db' = db_demand_nullifier db @ nrs"
    "\<forall>t \<in> set nrs. \<forall>x \<in> set (db_demand db). (dr_id x, dr_ns x) \<noteq> (dn_id t, dn_ns t)"
    using g unfolding unseen_growth_def by blast
  obtain trs where t: "db_demand_tag db' = db_demand_tag db @ trs"
    "\<forall>t \<in> set trs. \<forall>x \<in> set (db_demand db). (dr_id x, dr_ns x) \<noteq> (dt_id t, dt_ns t)"
    using g unfolding unseen_growth_def by blast
  show vd: "visible_demands db' m p = visible_demands db m p"
    unfolding visible_demands_def d(1) v(1) using d(2) v(2) by (intro filter_more) auto
  show "standing_demands db' m p = standing_demands db m p"
    unfolding standing_demands_def vd growth_flags(8) [OF g] ..
  show "demand_of_row db' r = demand_of_row db r" if "r \<in> set (db_demand db)"
  proof -
    have "filter (\<lambda>n. dn_id n = dr_id r \<and> dn_ns n = dr_ns r) (db_demand_nullifier db') =
        filter (\<lambda>n. dn_id n = dr_id r \<and> dn_ns n = dr_ns r) (db_demand_nullifier db)"
      unfolding n(1) using n(2) that by (intro filter_more) metis
    then show ?thesis by (simp add: demand_of_row_def)
  qed
  show "tagged db' k rows = tagged db k rows" if "set rows \<subseteq> set (db_demand db)"
  proof -
    have "concat (map (\<lambda>t. filter (\<lambda>x. dr_id x = dt_id t \<and> dr_ns x = dt_ns t) rows) (filter (\<lambda>t. dt_tag t = k) trs)) = []"
      using t(2) that by (auto simp: filter_empty_conv)
    then show ?thesis by (simp add: tagged_def t(1))
  qed
qed

lemma visible_demands_sub: "set (visible_demands db m p) \<subseteq> set (db_demand db)" "set (standing_demands db m p) \<subseteq> set (db_demand db)"
  by (auto simp: standing_demands_def visible_demands_def)

lemma find_in: "find P xs = Some x \<Longrightarrow> x \<in> set xs \<and> P x"
  by (auto simp: find_Some_iff)

lemma growth_demand_reads:
  assumes g: "unseen_growth db db' m p ns q"
  shows "store_demand db' m p = store_demand db m p" and "demandsWithTag db' m p = demandsWithTag db m p"
    and "presentedWithTag db' m p = presentedWithTag db m p" and "store_demands db' m p = store_demands db m p"
proof -
  note d = growth_demands [OF g]
  show "store_demand db' m p = store_demand db m p"
  proof
    fix name
    show "store_demand db' m p name = store_demand db m p name"
      unfolding store_demand_def d(2) using visible_demands_sub(2) d(3) by (auto split: option.split dest!: find_in simp: subsetD [OF visible_demands_sub(2)])
  qed
  have tg: "set (tagged db k rows) \<subseteq> set rows" for k rows by (auto simp: tagged_def)
  have tr: "traverseR (demand_of_row db') (tagged db' k rows) = traverseR (demand_of_row db) (tagged db k rows)"
    if "set rows \<subseteq> set (db_demand db)" for k rows
    unfolding d(4) [OF that] using tg that d(3) by (intro traverseR_cong) blast
  show "demandsWithTag db' m p = demandsWithTag db m p"
    unfolding demandsWithTag_def d(2) tr [OF visible_demands_sub(2)] ..
  show "presentedWithTag db' m p = presentedWithTag db m p"
    unfolding presentedWithTag_def d(1) tr [OF visible_demands_sub(1)] ..
  show "store_demands db' m p = store_demands db m p"
    unfolding store_demands_def d(2) using visible_demands_sub(2) d(3) by (intro traverseR_cong) (auto simp: subset_iff)
qed

lemma growth_rows:
  assumes g: "unseen_growth db db' m p ns q"
  shows "store_total db' m p = store_total db m p" and "store_totals db' m p = store_totals db m p"
    and "store_events db' m p = store_events db m p" and "eventCount db' m p = eventCount db m p"
    and "store_outputs db' m p = store_outputs db m p" and "store_nullifiers db' m p = store_nullifiers db m p"
    and "store_output db' m p = store_output db m p" and "judgedIndices db' m p = judgedIndices db m p"
    and "provedCount db' m p = provedCount db m p" and "store_imports db' m = store_imports db m"
proof -
  note v = growth_visible [OF g]
  obtain nls ots evs where n: "db_nullifier db' = db_nullifier db @ nls" "\<forall>x \<in> set nls. nl_ns x = ns \<and> nl_position x = q"
    and o: "db_output db' = db_output db @ ots" "\<forall>x \<in> set ots. ot_ns x = ns \<and> ot_position x = q"
    and e: "db_event db' = db_event db @ evs" "\<forall>x \<in> set evs. ev_ns x = ns \<and> ev_position x = q"
    using g unfolding unseen_growth_def by blast
  have mp: "m = ns \<longrightarrow> p < q" using g by (simp add: unseen_growth_def unseen_def)
  show t: "store_total db' m p = store_total db m p" using g by (intro ext) (simp add: store_total_def unseen_growth_def)
  show "store_totals db' m p = store_totals db m p" unfolding store_totals_def t using g by (simp add: unseen_growth_def)
  have ve: "filter (\<lambda>x. visible db' m p (ev_ns x) (ev_position x)) (db_event db') = filter (\<lambda>x. visible db m p (ev_ns x) (ev_position x)) (db_event db)"
    unfolding e(1) v(1) using e(2) v(2) by (intro filter_more) auto
  show "store_events db' m p = store_events db m p" "eventCount db' m p = eventCount db m p"
    by (simp_all add: store_events_def eventCount_def ve)
  have vo: "filter (\<lambda>x. visible db' m p (ot_ns x) (ot_position x)) (db_output db') = filter (\<lambda>x. visible db m p (ot_ns x) (ot_position x)) (db_output db)"
    unfolding o(1) v(1) using o(2) v(2) by (intro filter_more) auto
  show "store_outputs db' m p = store_outputs db m p" by (simp add: store_outputs_def vo)
  have vn: "filter (\<lambda>x. visible db' m p (nl_ns x) (nl_position x)) (db_nullifier db') = filter (\<lambda>x. visible db m p (nl_ns x) (nl_position x)) (db_nullifier db)"
    unfolding n(1) v(1) using n(2) v(2) by (intro filter_more) auto
  show "store_nullifiers db' m p = store_nullifiers db m p" by (simp add: store_nullifiers_def vn)
  show "store_output db' m p = store_output db m p"
    unfolding store_output_def o(1) v(1) using o(2) v(2) by (subst find_more) auto
  show "judgedIndices db' m p = judgedIndices db m p"
    unfolding judgedIndices_def e(1) using e(2) mp by (subst filter_more) auto
  show "provedCount db' m p = provedCount db m p"
    unfolding provedCount_def e(1) using e(2) mp by (subst filter_more) auto
  show "store_imports db' m = store_imports db m" using g by (simp add: store_imports_def unseen_growth_def)
qed

lemma growth_settled:
  assumes g: "unseen_growth db db' m p ns q"
  shows "state_settledFor db' c m p = state_settledFor db c m p"
proof
  fix cm
  have "event_at db' (sto_ns s) (sto_position s) = event_at db (sto_ns s) (sto_position s)"
    if "store_output db m p cm = Inr (Some s)" for s
  proof -
    obtain k r where r: "find (\<lambda>x. ot_cm x = k \<and> visible db m p (ot_ns x) (ot_position x)) (db_output db) = Some r" "output_of_row r = Inr s"
      using \<open>store_output db m p cm = Inr (Some s)\<close> by (auto simp: store_output_def bindR_Inr_conv mapR_Inr_conv split: option.splits)
    have "visible db m p (ot_ns r) (ot_position r)" using find_in [OF r(1)] by simp
    moreover have "sto_ns s = ot_ns r" "sto_position s = ot_position r" using r(2) by (auto simp: output_of_row_def mapR_Inr_conv)
    ultimately show ?thesis using growth_event_at [OF g] by simp
  qed
  then show "state_settledFor db' c m p cm = state_settledFor db c m p cm" unfolding state_settledFor_def growth_rows(7) [OF g]
    by (cases "store_output db m p cm") (auto split: option.split)
qed

lemma growth_view:
  assumes g: "unseen_growth db db' m p ns q"
  shows "handle_view C c db' \<lparr>sh_ns = m, sh_at = Some p\<rparr> = handle_view C c db \<lparr>sh_ns = m, sh_at = Some p\<rparr>"
  by (simp add: handle_view_def state_position_def growth_flags [OF g] growth_demand_reads [OF g] growth_settled [OF g])

lemma append_growth:
  assumes "imports_bounded db" and "store_append C ns record db = Inr (t, db')"
    and "\<And>row. db_namespace db ns = Some row \<Longrightarrow> m = ns \<Longrightarrow> p \<le> n_position row"
  shows "\<exists>q. unseen_growth db db' m p ns q"
proof -
  from assms(2) obtain a where a: "append_effect C ns record db a db'" by (rule store_append_effect)
  have row: "db_namespace db ns = Some (apd_row a)" using a by (simp add: append_effect_def Let_def)
  show ?thesis using append_unseen_growth [OF a unseen_above [OF assms(1) row]] assms(3) row by blast
qed

subsection \<open>Property\<close>

text \<open>C7: a state read at a position is fixed. Appending any record to a namespace leaves unchanged everything a state handle
  at or below its tip reads, and everything the states of other namespaces read at any position: every guard's read (note
  membership, anchors, spent tags, demands by name and tag, effective and settled statements), the events and their chain
  values, the outputs and nullifiers in order, and the totals, provided imports end at or below their source's tip.\<close>

theorem earlier_reads_stable:
  assumes "imports_bounded db" and "store_append C ns record db = Inr (t, db')"
    and "\<And>row. db_namespace db ns = Some row \<Longrightarrow> m = ns \<Longrightarrow> p \<le> n_position row"
  shows "handle_view C c db' \<lparr>sh_ns = m, sh_at = Some p\<rparr> = handle_view C c db \<lparr>sh_ns = m, sh_at = Some p\<rparr> \<and>
    store_events db' m p = store_events db m p \<and> store_outputs db' m p = store_outputs db m p \<and>
    store_nullifiers db' m p = store_nullifiers db m p \<and> store_totals db' m p = store_totals db m p \<and>
    store_demands db' m p = store_demands db m p \<and> hasStatement db' m p = hasStatement db m p \<and>
    (\<forall>n r. visible db m p n r \<longrightarrow> event_at db' n r = event_at db n r)"
proof -
  obtain q where g: "unseen_growth db db' m p ns q" using append_growth [OF assms] by blast
  show ?thesis using growth_view [OF g] growth_rows [OF g] growth_demand_reads [OF g] growth_flags [OF g] growth_event_at [OF g] by blast
qed

definition example_database :: database where
  "example_database = newDatabase\<lparr>db_next := 2, db_namespace := (\<lambda>_. None)(1 \<mapsto> \<lparr>n_segment = replicate 32 7, n_identity = [1],
     n_position = 0, n_history = replicate 32 1, n_evidence = replicate 32 2, n_leaves = 0, n_noteRoot = 0, n_ommers = EMPTY_OMMERS,
     n_spentTop = None, n_spentNext = 1, n_baseSpent = []\<rparr>), db_construction := (\<lambda>_. None)(1 \<mapsto> POOL_V3_NAMESPACE)\<rparr>"

definition example_append :: append where
  "example_append = \<lparr>ap_identity = replicate 32 3, ap_kind = 1, ap_index = Some 9, ap_record = [], ap_proofHash = [], ap_signatureHash = [],
     ap_evidence = replicate 32 4, ap_supply = Some (''0a'', 5, 0), ap_nullifiers = [(6, 7)], ap_outputs = [], ap_demand = None, ap_ended = None,
     ap_keys = [], ap_history = (\<lambda>_ _. Inr (replicate 32 5))\<rparr>"

lemma example_append_runs: "\<exists>t db'. store_append toy_crypto 1 example_append example_database = Inr (t, db')"
proof -
  have "isOk (store_append toy_crypto 1 example_append example_database)" by code_simp
  then show ?thesis by (auto simp: isOk_conv)
qed

lemma earlier_reads_stable_witness:
  "\<exists>t db'. store_append toy_crypto 1 example_append example_database = Inr (t, db') \<and>
     store_nullifiers db' 1 0 = store_nullifiers example_database 1 0"
proof -
  obtain t db' where r: "store_append toy_crypto 1 example_append example_database = Inr (t, db')" using example_append_runs by blast
  have "imports_bounded example_database" by (simp add: imports_bounded_def example_database_def newDatabase_def)
  from earlier_reads_stable [OF this r, of 1 0] r show ?thesis by (auto simp: example_database_def)
qed

end
