(* ===== verification/ReplayInvariant.thy ===== *)
theory ReplayInvariant
  imports ReplayStable "HOL-Library.Multiset"
begin

section \<open>The replay store's invariant: nothing is spent twice, and the roots stand for the rows\<close>

text \<open>
  The databases reached from the empty one by opening namespaces over frontiers at or below their
  sources' tips and by appending records keep one invariant: rows lie at or below their namespace's
  tip, a namespace's spent set holds exactly the nullifiers visible at its tip, and no nullifier is
  visible twice.  The spent root a namespace reports is then a function of that set alone, and the
  descent through stored rows always returns.
\<close>

definition visible_nfs :: "database \<Rightarrow> int \<Rightarrow> int \<Rightarrow> bytes list" where
  "visible_nfs db ns p = map nl_nf (filter (\<lambda>x. visible db ns p (nl_ns x) (nl_position x)) (db_nullifier db))"

definition spent_ok :: "crypto \<Rightarrow> stored_spent \<Rightarrow> bytes set \<Rightarrow> bool" where
  "spent_ok C s ks \<longleftrightarrow> (\<exists>ss. ss_inv C ss \<and> sp_rel s ss \<and> ss_contents ss = ks)"

lemma spent_ok_new: "spent_ok C newStoredSpent {}"
  using sp_rel_new radix.new_inv by (fastforce simp: spent_ok_def newSpentSet_def ss_contents_def ss_keys_def)

lemma spent_key_step:
  assumes "spent_ok C s ks" and "length k = 32"
  shows "k \<notin> ks \<Longrightarrow> \<exists>s'. spent_key C s k = Inr s' \<and> spent_ok C s' (insert k ks)"
    and "k \<in> ks \<Longrightarrow> spent_key C s k = Inl (PlainError ''nullifier already in the spent set'')"
proof -
  obtain ss where ss: "ss_inv C ss" "sp_rel s ss" "ss_contents ss = ks" using assms(1) by (auto simp: spent_ok_def)
  show "\<exists>s'. spent_key C s k = Inr s' \<and> spent_ok C s' (insert k ks)" if new: "k \<notin> ks"
  proof -
    obtain s' ss' where s': "sp_insert C s k = Some (Inr s')" "ss_insert C k ss = Inr ss'" "sp_rel s' ss'"
      using sp_insert_new [OF ss(1,2) assms(2)] ss(3) new by blast
    have "ss_inv C ss'" "ss_contents ss' = insert k ks" using ss_insert_result [OF ss(1) s'(2)] ss(3) by auto
    then show ?thesis using s' by (auto simp: spent_key_def returned_def spent_ok_def)
  qed
  show "spent_key C s k = Inl (PlainError ''nullifier already in the spent set'')" if "k \<in> ks"
    using sp_insert_old [OF ss(1,2) assms(2)] ss(3) that by (simp add: spent_key_def returned_def)
qed

lemma spent_keys_run:
  "spent_ok C s K \<Longrightarrow> list_all (\<lambda>k. length k = 32) ks \<Longrightarrow> foldR (spent_key C) s ks = Inr s' \<Longrightarrow>
     spent_ok C s' (K \<union> set ks) \<and> distinct ks \<and> set ks \<inter> K = {}"
proof (induction ks arbitrary: s K)
  case (Cons k ks)
  have k: "length k = 32" using Cons.prems(2) by simp
  obtain s1 where s1: "spent_key C s k = Inr s1" "foldR (spent_key C) s1 ks = Inr s'" using Cons.prems(3) by (auto simp: bindR_Inr_conv)
  have new: "k \<notin> K" using spent_key_step(2) [OF Cons.prems(1) k] s1(1) by auto
  have "spent_ok C s1 (insert k K)" using spent_key_step(1) [OF Cons.prems(1) k new] s1(1) by auto
  from Cons.IH [OF this _ s1(2)] Cons.prems(2) new show ?case by auto
qed simp

lemma spent_keys_defined:
  "spent_ok C s K \<Longrightarrow> list_all (\<lambda>k. length k = 32) ks \<Longrightarrow> distinct ks \<Longrightarrow> set ks \<inter> K = {} \<Longrightarrow> \<exists>s'. foldR (spent_key C) s ks = Inr s'"
proof (induction ks arbitrary: s K)
  case (Cons k ks)
  then obtain s1 where "spent_key C s k = Inr s1" "spent_ok C s1 (insert k K)" using spent_key_step(1) [of C s K k] by auto
  with Cons.IH [of s1 "insert k K"] Cons.prems show ?case by auto
qed simp

lemma spent_ok_root:
  assumes "spent_ok C s K" and "foldR (\<lambda>s k. ss_insert C k s) newSpentSet ks = Inr ss" and "set ks = K"
  shows "sp_root C s = Inr (ss_root C ss)"
proof -
  obtain tt where t: "ss_inv C tt" "sp_rel s tt" "ss_contents tt = K" using assms(1) by (auto simp: spent_ok_def)
  have "ss_inv C ss" "ss_contents ss = K" using radix.built [OF assms(2)] assms(3) by simp_all
  then have "ss_tree tt = ss_tree ss" using ss_same_keys [OF t(1)] t(3) by simp
  then show ?thesis using sp_root_refines [OF t(2)] by (simp add: ss_root_def)
qed

subsection \<open>The invariant\<close>

definition store_inv :: "crypto \<Rightarrow> database \<Rightarrow> bool" where
  "store_inv C db \<longleftrightarrow> imports_bounded db \<and>
     (\<forall>n row. db_namespace db n = Some row \<longrightarrow> n < db_next db \<and> 0 \<le> n_position row) \<and>
     (\<forall>i \<in> set (db_import db). im_ns i < db_next db) \<and>
     (\<forall>x \<in> set (db_nullifier db). length (nl_nf x) = 32 \<and>
        (\<exists>row. db_namespace db (nl_ns x) = Some row \<and> 0 < nl_position x \<and> nl_position x \<le> n_position row)) \<and>
     (\<forall>n row. db_namespace db n = Some row \<longrightarrow> distinct (visible_nfs db n (n_position row)) \<and>
        spent_ok C (spent_of db n row) (set (visible_nfs db n (n_position row)))) \<and>
     (\<forall>n. db_next db \<le> n \<longrightarrow> db_spent db n = (\<lambda>_. None))"

lemma nullifier_bounded:
  "store_inv C db \<Longrightarrow> x \<in> set (db_nullifier db) \<Longrightarrow> length (nl_nf x) = 32 \<and>
     (\<exists>row. db_namespace db (nl_ns x) = Some row \<and> 0 < nl_position x \<and> nl_position x \<le> n_position row)"
  by (simp add: store_inv_def)

lemma store_inv_new: "store_inv C newDatabase"
  by (simp add: store_inv_def newDatabase_def imports_bounded_def)

lemma visible_nfs_mono: "p \<le> p' \<Longrightarrow> distinct (visible_nfs db ns p') \<Longrightarrow> distinct (visible_nfs db ns p) \<and> set (visible_nfs db ns p) \<subseteq> set (visible_nfs db ns p')"
proof -
  assume le: "p \<le> p'" and d: "distinct (visible_nfs db ns p')"
  have v: "visible db ns p n q \<Longrightarrow> visible db ns p' n q" for n q using le by (auto simp: visible_def)
  have f: "filter (\<lambda>x. visible db ns p (nl_ns x) (nl_position x)) (db_nullifier db) =
      filter (\<lambda>x. visible db ns p (nl_ns x) (nl_position x)) (filter (\<lambda>x. visible db ns p' (nl_ns x) (nl_position x)) (db_nullifier db))"
    unfolding filter_filter using v by (intro filter_cong) auto
  show ?thesis using d unfolding visible_nfs_def f by (simp only: distinct_map_filter) auto
qed

text \<open>A namespace's visible nullifiers after an append: its own grow by the appended ones, another's stay.\<close>

lemma append_visible_nfs:
  assumes inv: "store_inv C db" and eff: "append_effect C ns record db a db'" and row: "db_namespace db n = Some row"
  shows "n \<noteq> ns \<Longrightarrow> visible_nfs db' n (n_position row) = visible_nfs db n (n_position row)"
    and "n = ns \<Longrightarrow> visible_nfs db' ns (n_position row + 1) = visible_nfs db ns (n_position row) @ map (\<lambda>(nf, _). be_bytes 32 nf) (ap_nullifiers record)"
proof -
  have arow: "db_namespace db ns = Some (apd_row a)" using eff by (simp add: append_effect_def Let_def)
  have ib: "imports_bounded db" using inv by (simp add: store_inv_def)
  let ?q = "n_position (apd_row a) + 1"
  have tab: "db_nullifier db' = db_nullifier db @ nullifier_rows ns ?q (ap_nullifiers record)" and imp: "db_import db' = db_import db"
    using eff by (simp_all add: append_effect_def Let_def)
  show "visible_nfs db' n (n_position row) = visible_nfs db n (n_position row)" if "n \<noteq> ns"
  proof -
    have g: "unseen_growth db db' n (n_position row) ns ?q"
      by (rule append_unseen_growth [OF eff unseen_above [OF ib arow]]) (use that in simp)
    show ?thesis unfolding visible_nfs_def tab growth_visible(1) [OF g]
      using growth_visible(2) [OF g] by (subst filter_more) (auto dest: nullifier_rows_at)
  qed
  show "visible_nfs db' ns (n_position row + 1) = visible_nfs db ns (n_position row) @ map (\<lambda>(nf, _). be_bytes 32 nf) (ap_nullifiers record)" if "n = ns"
  proof -
    have r: "row = apd_row a" using row arow that by simp
    have old: "visible db' ns ?q (nl_ns x) (nl_position x) = visible db ns (n_position row) (nl_ns x) (nl_position x)"
      if "x \<in> set (db_nullifier db)" for x
    proof -
      have "nl_ns x = ns \<Longrightarrow> nl_position x \<le> n_position row" using inv that arow r by (fastforce simp: store_inv_def)
      then show ?thesis using r by (auto simp: visible_def imp)
    qed
    have new: "visible db' ns ?q (nl_ns x) (nl_position x)" if "x \<in> set (nullifier_rows ns ?q (ap_nullifiers record))" for x
      using nullifier_rows_at [OF that] by (simp add: visible_def)
    have "filter (\<lambda>x. visible db' ns ?q (nl_ns x) (nl_position x)) (db_nullifier db) =
        filter (\<lambda>x. visible db ns (n_position row) (nl_ns x) (nl_position x)) (db_nullifier db)"
      using old by (rule filter_cong [OF refl])
    moreover have "filter (\<lambda>x. visible db' ns ?q (nl_ns x) (nl_position x)) (nullifier_rows ns ?q (ap_nullifiers record)) =
        nullifier_rows ns ?q (ap_nullifiers record)" using new by (intro filter_True) blast
    ultimately show ?thesis unfolding visible_nfs_def tab r by (simp add: nullifier_rows_def split_def o_def)
  qed
qed

lemma append_keeps_inv:
  assumes inv: "store_inv C db" and eff: "append_effect C ns record db a db'"
  shows "store_inv C db'"
proof -
  let ?row = "apd_row a" and ?q = "n_position (apd_row a) + 1" and ?nfs = "map (\<lambda>(nf, _). be_bytes 32 nf) (ap_nullifiers record)"
  have arow: "db_namespace db ns = Some ?row" using eff by (simp add: append_effect_def Let_def)
  have e: "db_next db' = db_next db" "db_import db' = db_import db"
    "db_nullifier db' = db_nullifier db @ nullifier_rows ns ?q (ap_nullifiers record)"
    "db_spent db' = (db_spent db)(ns := sp_rows (apd_spent a))"
    "foldR (spent_key C) (spent_of db ns ?row) ?nfs = Inr (apd_spent a)"
    using eff by (simp_all add: append_effect_def Let_def)
  obtain row' where nsp: "db_namespace db' = (db_namespace db)(ns \<mapsto> row')" and row': "n_position row' = ?q"
    "n_spentTop row' = sp_top (apd_spent a)" "n_spentNext row' = sp_next (apd_spent a)"
    using eff by (simp add: append_effect_def Let_def)
  have lens: "list_all (\<lambda>k. length k = 32) ?nfs" by (auto simp: list_all_iff)
  have old: "0 \<le> n_position ?row" "ns < db_next db" "distinct (visible_nfs db ns (n_position ?row))"
    "spent_ok C (spent_of db ns ?row) (set (visible_nfs db ns (n_position ?row)))" using inv arow by (auto simp: store_inv_def)
  note run = spent_keys_run [OF old(4) lens e(5)]
  have sp: "spent_of db' ns row' = apd_spent a" by (simp add: spent_of_def e(4) row')
  have tips: "distinct (visible_nfs db' n (n_position r)) \<and> spent_ok C (spent_of db' n r) (set (visible_nfs db' n (n_position r)))"
    if "db_namespace db' n = Some r" for n r
  proof (cases "n = ns")
    case True
    then have "r = row'" using that nsp by simp
    then show ?thesis using append_visible_nfs(2) [OF inv eff arow] run old(3) sp row' True by auto
  next
    case False
    then have r: "db_namespace db n = Some r" using that nsp by simp
    have "spent_of db' n r = spent_of db n r" using False by (simp add: spent_of_def e(4))
    then show ?thesis using append_visible_nfs(1) [OF inv eff r False] inv r by (simp add: store_inv_def)
  qed
  have rows: "length (nl_nf x) = 32 \<and> (\<exists>r. db_namespace db' (nl_ns x) = Some r \<and> 0 < nl_position x \<and> nl_position x \<le> n_position r)"
    if "x \<in> set (db_nullifier db')" for x
  proof (cases "x \<in> set (db_nullifier db)")
    case True
    then obtain r where "length (nl_nf x) = 32" "db_namespace db (nl_ns x) = Some r" "0 < nl_position x" "nl_position x \<le> n_position r"
      using inv by (auto simp: store_inv_def)
    then show ?thesis using nsp row' arow by (cases "nl_ns x = ns") auto
  next
    case False
    then have "x \<in> set (nullifier_rows ns ?q (ap_nullifiers record))" using that e(3) by auto
    then show ?thesis using nsp row' old(1) nullifier_rows_at by (fastforce simp: nullifier_rows_def)
  qed
  have ib: "imports_bounded db'"
  proof -
    have "\<exists>r. db_namespace db' (im_source i) = Some r \<and> im_upto i \<le> n_position r" if i: "i \<in> set (db_import db)" for i
    proof -
      obtain r where r: "db_namespace db (im_source i) = Some r" "im_upto i \<le> n_position r" using inv i by (auto simp: store_inv_def imports_bounded_def)
      then show ?thesis using nsp row' arow by (cases "im_source i = ns") auto
    qed
    then show ?thesis by (simp add: imports_bounded_def e(2))
  qed
  have empty: "db_spent db' n = (\<lambda>_. None)" if "db_next db \<le> n" for n
    using that old(2) inv by (simp add: e(4) store_inv_def)
  have range: "n < db_next db \<and> 0 \<le> n_position r" if "db_namespace db' n = Some r" for n r
    using that inv arow row' old(1,2) by (auto simp: nsp store_inv_def split: if_splits)
  show ?thesis unfolding store_inv_def
    using ib tips rows inv empty range by (auto simp: e(1,2) store_inv_def)
qed

subsection \<open>What opening a namespace writes\<close>

definition segments_of :: "frontier_imports option \<Rightarrow> (string \<times> int \<times> int) list" where
  "segments_of imported = (case imported of None \<Rightarrow> [] | Some i \<Rightarrow> mi_segments i)"

definition import_row_of :: "int \<Rightarrow> string \<times> int \<times> int \<Rightarrow> import_row" where
  "import_row_of ns = (\<lambda>(name, source, upto). \<lparr>im_ns = ns, im_segment = unhex name, im_source = source, im_upto = upto\<rparr>)"

lemma import_row_of_simps [simp]: "im_ns (import_row_of ns x) = ns" "im_source (import_row_of ns x) = fst (snd x)"
  "im_upto (import_row_of ns x) = snd (snd x)"
  by (simp_all add: import_row_of_def split_def)

lemma insert_imports_rows:
  "foldR (insert_import ns) db segments = Inr db' \<Longrightarrow>
     db' = db\<lparr>db_import := db_import db @ map (import_row_of ns) segments\<rparr> \<and> distinct (map (fst \<circ> snd) segments) \<and>
     (\<forall>i \<in> set (db_import db). im_ns i = ns \<longrightarrow> im_source i \<notin> fst ` snd ` set segments)"
proof (induction segments arbitrary: db)
  case (Cons x xs)
  obtain db1 where one: "insert_import ns db x = Inr db1" and rest: "foldR (insert_import ns) db1 xs = Inr db'"
    using Cons.prems by (auto simp: bindR_Inr_conv)
  have db1: "db1 = db\<lparr>db_import := db_import db @ [import_row_of ns x]\<rparr>"
    "\<forall>i \<in> set (db_import db). im_ns i = ns \<longrightarrow> im_source i \<noteq> fst (snd x)"
    using one by (auto simp: insert_import_def Let_def list_ex_iff import_row_of_def split_def split: if_splits)
  from Cons.IH [OF rest] db1 show ?case by auto
qed simp

definition open_totals :: "int \<Rightarrow> (string \<times> int \<times> int) list \<Rightarrow> total_row list \<Rightarrow> total_row list" where
  "open_totals ns tots rows = foldl (\<lambda>rows (backing, issued, burned). replace_row (\<lambda>r. (tt_ns r, tt_backing r, tt_position r))
     \<lparr>tt_ns = ns, tt_backing = unhex backing, tt_position = 0, tt_issued = issued, tt_burned = burned\<rparr> rows) rows tots"

lemma insert_totals_rows: "foldl (\<lambda>d (backing, issued, burned). insert_total ns (unhex backing) 0 issued burned d) db tots =
    db\<lparr>db_total := open_totals ns tots (db_total db)\<rparr>"
proof (induction tots arbitrary: db)
  case (Cons x xs)
  obtain b i u where x: "x = (b, i, u)" by (cases x)
  show ?case using Cons.IH [of "insert_total ns (unhex b) 0 i u db"] by (simp add: x open_totals_def insert_total_def)
qed (simp add: open_totals_def)

lemma constructions_checked:
  "foldR (\<lambda>_ (_, source, _). bindR (construction_of db source) (\<lambda>c. requireR (c = con) e)) () segs = Inr u \<longleftrightarrow>
     (\<forall>(name, source, upto) \<in> set segs. db_construction db source = Some con)"
proof (induction segs)
  case (Cons x xs)
  then show ?case by (auto simp: construction_of_def bindR_Inr_conv split_def split: option.splits)
qed simp

record opened =
  opd_row :: namespace_row
  opd_spent :: stored_spent
  opd_totals :: "total_row list"
  opd_anchors :: "anchor_row list"

definition open_effect ::
    "crypto \<Rightarrow> database \<Rightarrow> bytes \<Rightarrow> frontier_imports option \<Rightarrow> bytes \<Rightarrow> bytes \<Rightarrow> namespace_construction \<Rightarrow> opened \<Rightarrow> database \<Rightarrow> bool" where
  "open_effect C db segment imported gh ge con o' db' \<longleftrightarrow> (let ns = db_next db; segs = segments_of imported in
     distinct (map (fst \<circ> snd) segs) \<and> (\<forall>(name, source, upto) \<in> set segs. db_construction db source = Some con) \<and>
     db_construction db ns = None \<and> \<not> holdsRows db ns \<and>
     n_position (opd_row o') = 0 \<and> n_segment (opd_row o') = segment \<and> n_history (opd_row o') = gh \<and> n_evidence (opd_row o') = ge \<and>
     n_leaves (opd_row o') = 0 \<and> n_noteRoot (opd_row o') = EMPTY_NOTE_ROOT C \<and> n_ommers (opd_row o') = EMPTY_OMMERS \<and>
     n_spentTop (opd_row o') = sp_top (opd_spent o') \<and> n_spentNext (opd_row o') = sp_next (opd_spent o') \<and>
     sp_root C (opd_spent o') = Inr (n_baseSpent (opd_row o')) \<and> isField (EMPTY_NOTE_ROOT C) \<and>
     foldR (spent_key C) \<lparr>sp_top = None, sp_next = 1, sp_rows = db_spent db ns\<rparr>
       (concat (map (\<lambda>(_, source, upto). imported_nullifiers db (source, upto)) segs)) = Inr (opd_spent o') \<and>
     db' = db\<lparr>db_next := ns + 1, db_namespace := (db_namespace db)(ns \<mapsto> opd_row o'), db_construction := (db_construction db)(ns \<mapsto> con),
       db_import := db_import db @ map (import_row_of ns) segs, db_anchor := opd_anchors o', db_total := opd_totals o',
       db_spent := (db_spent db)(ns := sp_rows (opd_spent o'))\<rparr> \<and>
     (\<exists>new. opd_anchors o' = db_anchor db @ new \<and> (\<forall>x \<in> set new. ac_ns x = ns \<and> ac_position x = 0)) \<and>
     opd_totals o' = open_totals ns (case imported of None \<Rightarrow> [] | Some i \<Rightarrow> mi_totals i) (db_total db))"

lemma store_open_effect:
  assumes "store_open C db segment identity imported gh ge con = Inr (ns, db')"
  obtains o' where "open_effect C db segment imported gh ge con o' db'" and "ns = db_next db"
proof -
  let ?segs = "segments_of imported" and ?tots = "case imported of None \<Rightarrow> [] | Some i \<Rightarrow> mi_totals i" and ?ns = "db_next db"
  let ?row = "\<lparr>n_segment = segment, n_identity = identity, n_position = 0, n_history = gh, n_evidence = ge,
           n_leaves = 0, n_noteRoot = EMPTY_NOTE_ROOT C, n_ommers = EMPTY_OMMERS, n_spentTop = None, n_spentNext = 1, n_baseSpent = EMPTY C\<rparr>"
  let ?db1 = "db\<lparr>db_next := ?ns + 1, db_namespace := (db_namespace db)(?ns \<mapsto> ?row)\<rparr>"
  let ?db2 = "?db1\<lparr>db_construction := (db_construction ?db1)(?ns \<mapsto> con)\<rparr>"
  let ?anchor = "\<lambda>db root. if nc_tree con then db\<lparr>db_anchor := ignore_row (\<lambda>r. (ac_root r, ac_ns r))
           \<lparr>ac_root = root, ac_ns = ?ns, ac_position = 0\<rparr> (db_anchor db)\<rparr> else db"
  let ?totals = "\<lambda>db. db\<lparr>db_total := open_totals ?ns ?tots (db_total db)\<rparr>"
  from assms obtain db3 root spent base where
    con: "\<forall>(name, source, upto) \<in> set ?segs. db_construction db source = Some con"
    and held: "\<not> holdsRows ?db1 ?ns" and fresh: "db_construction db ?ns = None"
    and imp: "foldR (insert_import ?ns) ?db2 ?segs = Inr db3" and root: "fieldToBytes (EMPTY_NOTE_ROOT C) = Inr root"
    and sp: "foldR (spent_key C) (spent_of (?totals (?anchor db3 root)) ?ns ?row)
       (concat (map (\<lambda>(_, source, upto). imported_nullifiers (?totals (?anchor db3 root)) (source, upto)) ?segs)) = Inr spent"
    and base: "sp_root C spent = Inr base"
    and out: "ns = ?ns" "db' = (save_spent ?ns spent (?totals (?anchor db3 root)))\<lparr>db_namespace := (db_namespace (save_spent ?ns spent (?totals (?anchor db3 root))))
        (?ns := map_option (\<lambda>r. r\<lparr>n_baseSpent := base\<rparr>) (db_namespace (save_spent ?ns spent (?totals (?anchor db3 root))) ?ns))\<rparr>"
    unfolding store_open_def Let_def segments_of_def insert_totals_rows bindR_Inr_conv constructions_checked requireR_Inr
    by auto
  note d3 = insert_imports_rows [OF imp]
  have db3: "db3 = ?db2\<lparr>db_import := db_import db @ map (import_row_of ?ns) ?segs\<rparr>" using d3 by simp
  have root_bytes: "root = be_bytes 32 (EMPTY_NOTE_ROOT C)" "isField (EMPTY_NOTE_ROOT C)" using root by (simp_all add: fieldToBytes_conv)
  let ?base = "?totals (?anchor db3 root)"
  have same: "db_spent ?base = db_spent db" "db_nullifier ?base = db_nullifier db" by (simp_all add: db3)
  have nfs: "imported_nullifiers ?base = imported_nullifiers db" by (intro ext) (simp add: imported_nullifiers_def same)
  let ?row' = "?row\<lparr>n_spentTop := sp_top spent, n_spentNext := sp_next spent, n_baseSpent := base\<rparr>"
  let ?o = "\<lparr>opd_row = ?row', opd_spent = spent, opd_totals = open_totals ?ns ?tots (db_total db), opd_anchors = db_anchor ?base\<rparr>"
  have anchors: "\<exists>new. db_anchor ?base = db_anchor db @ new \<and> (\<forall>x \<in> set new. ac_ns x = ?ns \<and> ac_position x = 0)"
    by (auto simp: db3 ignore_row_def)
  have row0: "spent_of ?base ?ns ?row = \<lparr>sp_top = None, sp_next = 1, sp_rows = db_spent db ?ns\<rparr>" by (simp add: spent_of_def same)
  have held': "\<not> holdsRows db ?ns" using held by (simp add: holdsRows_def)
  have db': "db' = db\<lparr>db_next := ?ns + 1, db_namespace := (db_namespace db)(?ns \<mapsto> ?row'), db_construction := (db_construction db)(?ns \<mapsto> con),
       db_import := db_import db @ map (import_row_of ?ns) ?segs, db_anchor := db_anchor ?base, db_total := open_totals ?ns ?tots (db_total db),
       db_spent := (db_spent db)(?ns := sp_rows spent)\<rparr>"
    unfolding out(2) db3 save_spent_def by simp
  have "open_effect C db segment imported gh ge con ?o db'"
    unfolding open_effect_def Let_def opened.simps
    using d3 con fresh held' base root_bytes(2) sp anchors db' unfolding nfs row0 by (simp add: split_def)
  then show ?thesis using out(1) by (rule that)
qed

subsection \<open>Opening keeps the invariant\<close>

definition imports_within :: "database \<Rightarrow> frontier_imports option \<Rightarrow> bool" where
  "imports_within db imported \<longleftrightarrow> (\<forall>(name, source, upto) \<in> set (segments_of imported).
     \<exists>row. db_namespace db source = Some row \<and> upto \<le> n_position row)"

lemma mset_filter_or: "(\<And>x. \<not> (P x \<and> Q x)) \<Longrightarrow> mset (filter (\<lambda>x. P x \<or> Q x) xs) = mset (filter P xs) + mset (filter Q xs)"
  by (induction xs) auto

lemma imported_mset:
  "distinct (map (fst \<circ> snd) segs) \<Longrightarrow>
     mset (filter (\<lambda>x. \<exists>(name, source, upto) \<in> set segs. nl_ns x = source \<and> nl_position x \<le> upto) rows) =
     mset (concat (map (\<lambda>(_, source, upto). filter (\<lambda>x. nl_ns x = source \<and> nl_position x \<le> upto) rows) segs))"
proof (induction segs)
  case (Cons seg segs)
  obtain name source upto where seg: "seg = (name, source, upto)" by (cases seg)
  have "mset (filter (\<lambda>x. (nl_ns x = source \<and> nl_position x \<le> upto) \<or>
      (\<exists>(name, source, upto) \<in> set segs. nl_ns x = source \<and> nl_position x \<le> upto)) rows) =
    mset (filter (\<lambda>x. nl_ns x = source \<and> nl_position x \<le> upto) rows) +
    mset (filter (\<lambda>x. \<exists>(name, source, upto) \<in> set segs. nl_ns x = source \<and> nl_position x \<le> upto) rows)"
    using Cons.prems seg by (intro mset_filter_or) force
  then show ?case using Cons seg by simp
qed simp

lemma open_visible:
  assumes inv: "store_inv C db" and eff: "open_effect C db segment imported gh ge con o' db'"
  shows "n \<noteq> db_next db \<Longrightarrow> visible db' n = visible db n"
    and "x \<in> set (db_nullifier db) \<Longrightarrow> visible db' (db_next db) 0 (nl_ns x) (nl_position x) \<longleftrightarrow>
      (\<exists>(name, source, upto) \<in> set (segments_of imported). nl_ns x = source \<and> nl_position x \<le> upto)"
proof -
  have imp: "db_import db' = db_import db @ map (import_row_of (db_next db)) (segments_of imported)"
    using eff by (simp add: open_effect_def Let_def)
  show "visible db' n = visible db n" if "n \<noteq> db_next db"
    using that by (intro ext) (auto simp: visible_def imp list_ex_iff)
  show "visible db' (db_next db) 0 (nl_ns x) (nl_position x) \<longleftrightarrow>
      (\<exists>(name, source, upto) \<in> set (segments_of imported). nl_ns x = source \<and> nl_position x \<le> upto)" if "x \<in> set (db_nullifier db)"
  proof -
    have fresh: "nl_ns x \<noteq> db_next db" using inv that by (fastforce simp: store_inv_def)
    have none: "im_ns i \<noteq> db_next db" if "i \<in> set (db_import db)" for i using inv that by (auto simp: store_inv_def)
    have old: "\<not> list_ex (\<lambda>i. im_ns i = db_next db \<and> im_source i = nl_ns x \<and> nl_position x \<le> im_upto i) (db_import db)"
      using none by (auto simp: list_ex_iff)
    have added: "list_ex (\<lambda>i. im_ns i = db_next db \<and> im_source i = nl_ns x \<and> nl_position x \<le> im_upto i) (map (import_row_of (db_next db)) segs) \<longleftrightarrow>
        (\<exists>(name, source, upto) \<in> set segs. nl_ns x = source \<and> nl_position x \<le> upto)" for segs
      by (induction segs) auto
    show ?thesis unfolding visible_def imp list_ex_append added using fresh old by blast
  qed
qed

lemma open_visible_nfs:
  assumes inv: "store_inv C db" and eff: "open_effect C db segment imported gh ge con o' db'"
  shows "mset (visible_nfs db' (db_next db) 0) =
      mset (concat (map (\<lambda>(_, source, upto). imported_nullifiers db (source, upto)) (segments_of imported)))"
proof -
  have nl: "db_nullifier db' = db_nullifier db" and d: "distinct (map (fst \<circ> snd) (segments_of imported))"
    using eff by (simp_all add: open_effect_def Let_def)
  have "visible_nfs db' (db_next db) 0 = map nl_nf (filter (\<lambda>x. \<exists>(name, source, upto) \<in> set (segments_of imported).
      nl_ns x = source \<and> nl_position x \<le> upto) (db_nullifier db))"
    unfolding visible_nfs_def nl using open_visible(2) [OF inv eff] by (auto intro!: arg_cong [where f = "map nl_nf"] filter_cong)
  then have "mset (visible_nfs db' (db_next db) 0) = image_mset nl_nf (mset (concat (map (\<lambda>(_, source, upto).
      filter (\<lambda>x. nl_ns x = source \<and> nl_position x \<le> upto) (db_nullifier db)) (segments_of imported))))"
    using imported_mset [OF d, of "db_nullifier db"] by simp
  moreover have "map nl_nf (concat (map (\<lambda>(_, source, upto). filter (\<lambda>x. nl_ns x = source \<and> nl_position x \<le> upto) (db_nullifier db)) (segments_of imported))) =
      concat (map (\<lambda>(_, source, upto). imported_nullifiers db (source, upto)) (segments_of imported))"
    by (simp add: map_concat imported_nullifiers_def split_def o_def)
  ultimately show ?thesis using mset_map by (simp only: mset_map [symmetric])
qed

lemma open_keeps_inv:
  assumes inv: "store_inv C db" and eff: "open_effect C db segment imported gh ge con o' db'" and within: "imports_within db imported"
  shows "store_inv C db'"
proof -
  let ?ns = "db_next db" and ?ks = "concat (map (\<lambda>(_, source, upto). imported_nullifiers db (source, upto)) (segments_of imported))"
  have e: "db_next db' = ?ns + 1" "db_import db' = db_import db @ map (import_row_of ?ns) (segments_of imported)"
    "db_nullifier db' = db_nullifier db" "db_namespace db' = (db_namespace db)(?ns \<mapsto> opd_row o')"
    "db_spent db' = (db_spent db)(?ns := sp_rows (opd_spent o'))" "n_position (opd_row o') = 0"
    "n_spentTop (opd_row o') = sp_top (opd_spent o')" "n_spentNext (opd_row o') = sp_next (opd_spent o')"
    "foldR (spent_key C) \<lparr>sp_top = None, sp_next = 1, sp_rows = db_spent db ?ns\<rparr> ?ks = Inr (opd_spent o')"
    using eff by (simp_all add: open_effect_def Let_def)
  have start: "\<lparr>sp_top = None, sp_next = 1, sp_rows = db_spent db ?ns\<rparr> = newStoredSpent"
    using inv by (simp add: store_inv_def newStoredSpent_def)
  have lens: "list_all (\<lambda>k. length k = 32) ?ks"
    using inv by (auto simp: list_all_iff imported_nullifiers_def store_inv_def)
  note run = spent_keys_run [OF spent_ok_new lens e(9) [unfolded start]]
  have m: "mset (visible_nfs db' ?ns 0) = mset ?ks" by (rule open_visible_nfs [OF inv eff])
  have new: "distinct (visible_nfs db' ?ns 0)" "set (visible_nfs db' ?ns 0) = set ?ks"
    using run mset_eq_imp_distinct_iff [OF m] mset_eq_setD [OF m] by auto
  have sp: "spent_of db' ?ns (opd_row o') = opd_spent o'" by (simp add: spent_of_def e(5,7,8))
  have dom: "db_namespace db n = Some r \<Longrightarrow> n < ?ns \<and> 0 \<le> n_position r" for n r using inv by (simp add: store_inv_def)
  have tips: "distinct (visible_nfs db' n (n_position r)) \<and> spent_ok C (spent_of db' n r) (set (visible_nfs db' n (n_position r)))"
    if "db_namespace db' n = Some r" for n r
  proof (cases "n = ?ns")
    case True
    then show ?thesis using that e(4,6) new sp run by simp
  next
    case False
    then have r: "db_namespace db n = Some r" using that e(4) by simp
    have "visible_nfs db' n p = visible_nfs db n p" for p
      by (simp add: visible_nfs_def e(3) open_visible(1) [OF inv eff False])
    moreover have "spent_of db' n r = spent_of db n r" using False by (simp add: spent_of_def e(5))
    ultimately show ?thesis using inv r by (simp add: store_inv_def)
  qed
  have kept: "db_namespace db n = Some r \<Longrightarrow> db_namespace db' n = Some r" for n r using dom [of n r] e(4) by auto
  have ib: "imports_bounded db'"
  proof -
    have "\<exists>r. db_namespace db' (im_source i) = Some r \<and> im_upto i \<le> n_position r" if i: "i \<in> set (db_import db')" for i
    proof (cases "i \<in> set (db_import db)")
      case True
      then show ?thesis using inv kept by (fastforce simp: store_inv_def imports_bounded_def)
    next
      case False
      then obtain x where "x \<in> set (segments_of imported)" "i = import_row_of ?ns x" using i e(2) by auto
      then show ?thesis using within kept by (fastforce simp: imports_within_def)
    qed
    then show ?thesis by (simp add: imports_bounded_def)
  qed
  have rows: "length (nl_nf x) = 32 \<and> (\<exists>r. db_namespace db' (nl_ns x) = Some r \<and> 0 < nl_position x \<and> nl_position x \<le> n_position r)"
    if x: "x \<in> set (db_nullifier db')" for x
  proof -
    obtain r where "length (nl_nf x) = 32" "db_namespace db (nl_ns x) = Some r" "0 < nl_position x" "nl_position x \<le> n_position r"
      using nullifier_bounded [OF inv x [unfolded e(3)]] by blast
    then show ?thesis using kept by blast
  qed
  have range: "n < ?ns + 1 \<and> 0 \<le> n_position r" if "db_namespace db' n = Some r" for n r
    using that dom [of n r] e(4,6) by (cases "n = ?ns") auto
  have ns: "im_ns i < ?ns + 1" if "i \<in> set (db_import db')" for i
    using that inv e(2) by (fastforce simp: store_inv_def)
  have empty: "db_spent db' n = (\<lambda>_. None)" if "?ns + 1 \<le> n" for n
    using that inv by (simp add: e(5) store_inv_def)
  show ?thesis unfolding store_inv_def using ib tips rows range ns empty by (simp add: e(1))
qed

subsection \<open>Reachable stores\<close>

inductive reachable_store :: "crypto \<Rightarrow> database \<Rightarrow> bool" for C where
  empty: "reachable_store C newDatabase"
| opened: "reachable_store C db \<Longrightarrow> imports_within db imported \<Longrightarrow>
    store_open C db segment identity imported gh ge con = Inr (ns, db') \<Longrightarrow> reachable_store C db'"
| appended: "reachable_store C db \<Longrightarrow> store_append C ns record db = Inr (t, db') \<Longrightarrow> reachable_store C db'"

lemma reachable_inv: "reachable_store C db \<Longrightarrow> store_inv C db"
proof (induction rule: reachable_store.induct)
  case empty
  show ?case by (rule store_inv_new)
next
  case (opened db imported segment identity gh ge con ns db')
  then show ?case using store_open_effect [OF opened.hyps(3)] open_keeps_inv by metis
next
  case (appended db ns _ t db')
  then show ?case using store_append_effect [OF appended.hyps(2)] append_keeps_inv by metis
qed

subsection \<open>Properties\<close>

text \<open>A database reached by opening one namespace of pool v3, for witnesses.\<close>

definition example_opened :: database where
  "example_opened = newDatabase\<lparr>db_next := 2, db_namespace := (\<lambda>_. None)(1 \<mapsto> \<lparr>n_segment = replicate 32 7, n_identity = [1],
     n_position = 0, n_history = replicate 32 1, n_evidence = replicate 32 2, n_leaves = 0, n_noteRoot = 950741, n_ommers = EMPTY_OMMERS,
     n_spentTop = None, n_spentNext = 1, n_baseSpent = EMPTY toy_crypto\<rparr>), db_construction := (\<lambda>_. None)(1 \<mapsto> POOL_V3_NAMESPACE),
     db_anchor := [\<lparr>ac_root = be_bytes 32 950741, ac_ns = 1, ac_position = 0\<rparr>], db_spent := (\<lambda>_ _. None)\<rparr>"

definition example_spend :: append where
  "example_spend = example_append\<lparr>ap_nullifiers := [(6, 7)]\<rparr>"

definition example_spent :: database where
  "example_spent = (case store_append toy_crypto 1 example_spend example_opened of Inr (_, db) \<Rightarrow> db | Inl _ \<Rightarrow> newDatabase)"

lemma example_opened_run:
  "store_open toy_crypto newDatabase (replicate 32 7) [1] None (replicate 32 1) (replicate 32 2) POOL_V3_NAMESPACE = Inr (1, example_opened)"
proof -
  have r: "fieldToBytes 950741 = Inr (be_bytes 32 950741)" by (simp add: fieldToBytes_conv isField_def FIELD_MODULUS_def)
  show ?thesis
    by (simp add: store_open_def newDatabase_def example_opened_def holdsRows_def toy_note_root r Let_def
        POOL_V3_NAMESPACE_def ignore_row_def save_spent_def spent_of_def sp_root_def fun_eq_iff)
qed

lemma example_opened_reachable: "reachable_store toy_crypto example_opened"
  using example_opened_run reachable_store.opened [OF reachable_store.empty] by (fastforce simp: imports_within_def segments_of_def)

lemma example_spent_run: "\<exists>t. store_append toy_crypto 1 example_spend example_opened = Inr (t, example_spent)"
proof -
  have "isOk (store_append toy_crypto 1 example_spend example_opened)" by code_simp
  then show ?thesis by (auto simp: isOk_conv example_spent_def)
qed

lemma example_spent_reachable: "reachable_store toy_crypto example_spent"
  using example_spent_run reachable_store.appended [OF example_opened_reachable] by blast

lemma example_spent_row:
  obtains row where "db_namespace example_spent 1 = Some row" and "n_position row = 1"
    and "visible_nfs example_spent 1 1 = [be_bytes 32 6]" and "db_construction example_spent 1 \<noteq> None"
proof -
  obtain db o' where db: "db = example_opened" and o': "open_effect toy_crypto newDatabase (replicate 32 7) None (replicate 32 1) (replicate 32 2) POOL_V3_NAMESPACE o' db"
    using example_opened_run store_open_effect by metis
  obtain t where t: "store_append toy_crypto 1 example_spend example_opened = Inr (t, example_spent)" using example_spent_run by blast
  then obtain a where a: "append_effect toy_crypto 1 example_spend example_opened a example_spent" by (rule store_append_effect)
  have opened: "db_namespace db = (db_namespace newDatabase)(db_next newDatabase \<mapsto> opd_row o')"
    "n_position (opd_row o') = 0" "db_nullifier db = db_nullifier newDatabase"
    using o' by (simp_all add: open_effect_def Let_def)
  then have row: "db_namespace example_opened 1 = Some (opd_row o')" "n_position (opd_row o') = 0" and none: "db_nullifier example_opened = []"
    unfolding db by (simp_all add: newDatabase_def)
  have eff: "apd_row a = opd_row o'" "db_construction example_opened 1 = Some (apd_construction a)"
    "\<exists>r. db_namespace example_spent 1 = Some r \<and> n_position r = n_position (apd_row a) + 1"
    "db_nullifier example_spent = db_nullifier example_opened @ nullifier_rows 1 (n_position (apd_row a) + 1) (ap_nullifiers example_spend)"
    "db_construction example_spent = db_construction example_opened"
    using a row(1) by (simp_all add: append_effect_def Let_def)
  have nfs: "ap_nullifiers example_spend = [(6, 7)]" by (simp add: example_spend_def)
  have "visible_nfs example_spent 1 1 = [be_bytes 32 6]"
    unfolding visible_nfs_def eff(4) none nfs by (simp add: visible_def eff(1) row(2))
  then show ?thesis using that eff row(2) by auto
qed

text \<open>What a namespace's row says of its spent set, in a reachable store.\<close>

lemma reachable_tip:
  assumes "reachable_store C db" and "db_namespace db ns = Some row"
  shows "distinct (visible_nfs db ns (n_position row))" and "spent_ok C (spent_of db ns row) (set (visible_nfs db ns (n_position row)))"
  using reachable_inv [OF assms(1)] assms(2) by (simp_all add: store_inv_def)

text \<open>C6: nothing is spent twice. In every database reached from the empty one by opening namespaces over frontiers at or below
  their sources' tips and by appending records, at every position of every namespace, no two visible nullifier rows (its own, or
  those of any segment it imports) hold the same nullifier.\<close>

theorem nothing_spent_twice:
  assumes "reachable_store C db" and "db_namespace db ns = Some row" and "p \<le> n_position row"
  shows "distinct (map nl_nf (filter (\<lambda>x. visible db ns p (nl_ns x) (nl_position x)) (db_nullifier db)))"
  using visible_nfs_mono [OF assms(3) reachable_tip(1) [OF assms(1,2)]] by (simp add: visible_nfs_def)

lemma nothing_spent_twice_witness:
  "distinct (map nl_nf (filter (\<lambda>x. visible example_spent 1 1 (nl_ns x) (nl_position x)) (db_nullifier example_spent)))"
proof -
  obtain row where row: "db_namespace example_spent 1 = Some row" "n_position row = 1" and v: "visible_nfs example_spent 1 1 = [be_bytes 32 6]"
    and con: "db_construction example_spent 1 \<noteq> None" by (rule example_spent_row)
  show ?thesis by (rule nothing_spent_twice [OF example_spent_reachable row(1)]) (simp add: row(2))
qed

text \<open>C31: a spent note is refused. In a reachable database an append whose nullifiers include one already visible at the
  namespace's tip, or name one twice, returns an error and no database; where nothing before its spent set can refuse it, that is
  the error the source throws for a nullifier already in the set.\<close>

theorem repeated_nullifier_refused:
  assumes "reachable_store C db" and "db_namespace db ns = Some row"
    and "\<not> distinct (map fst (ap_nullifiers r)) \<or> (\<exists>nf \<in> fst ` set (ap_nullifiers r). be_bytes 32 nf \<in> set (visible_nfs db ns (n_position row)))"
  shows "(\<exists>e. store_append C ns r db = Inl e) \<and>
    (ap_outputs r = [] \<longrightarrow> db_construction db ns \<noteq> None \<longrightarrow>
     (\<exists>nf t rest. ap_nullifiers r = (nf, t) # rest \<and> 0 \<le> nf \<and> nf < 2 ^ 256 \<and> be_bytes 32 nf \<in> set (visible_nfs db ns (n_position row))) \<longrightarrow>
     store_append C ns r db = Inl (PlainError ''nullifier already in the spent set''))"
proof (intro conjI impI)
  note tip = reachable_tip(2) [OF assms(1,2)]
  show "\<exists>e. store_append C ns r db = Inl e"
  proof (rule ccontr)
    assume "\<nexists>e. store_append C ns r db = Inl e"
    then obtain t db' where "store_append C ns r db = Inr (t, db')" by (cases "store_append C ns r db") auto
    then obtain a where a: "append_effect C ns r db a db'" by (rule store_append_effect)
    let ?ks = "map (\<lambda>(nf, _). be_bytes 32 nf) (ap_nullifiers r)"
    have keys: "\<forall>(nf, t) \<in> set (ap_nullifiers r). stored_key nf"
      and run: "foldR (spent_key C) (spent_of db ns row) ?ks = Inr (apd_spent a)"
      using a assms(2) by (auto simp: append_effect_def Let_def list_all_iff)
    have "list_all (\<lambda>k. length k = 32) ?ks" by (auto simp: list_all_iff)
    from spent_keys_run [OF tip this run] have d: "distinct ?ks" "set ?ks \<inter> set (visible_nfs db ns (n_position row)) = {}" by auto
    have ks: "?ks = map (be_bytes 32) (map fst (ap_nullifiers r))" by (auto simp: split_def)
    have "distinct (map fst (ap_nullifiers r))" using d(1) unfolding ks by (simp only: distinct_map)
    moreover have "be_bytes 32 nf \<notin> set (visible_nfs db ns (n_position row))" if "nf \<in> fst ` set (ap_nullifiers r)" for nf
      using that d(2) unfolding ks by auto
    ultimately show False using assms(3) by blast
  qed
  assume empty: "ap_outputs r = []" and con: "db_construction db ns \<noteq> None"
    and first: "\<exists>nf t rest. ap_nullifiers r = (nf, t) # rest \<and> 0 \<le> nf \<and> nf < 2 ^ 256 \<and> be_bytes 32 nf \<in> set (visible_nfs db ns (n_position row))"
  then obtain nf t rest where nf: "ap_nullifiers r = (nf, t) # rest" "stored_key nf" "be_bytes 32 nf \<in> set (visible_nfs db ns (n_position row))"
    by (auto simp: stored_key_def)
  have k: "spent_key C (spent_of db ns row) (be_bytes 32 nf) = Inl (PlainError ''nullifier already in the spent set'')"
    by (rule spent_key_step(2) [OF tip]) (use nf in simp_all)
  have kb: "keyBytes nf = Inr (be_bytes 32 nf)" using nf(2) by (simp add: keyBytes_Inr)
  obtain c where c: "construction_of db ns = Inr c" using con by (auto simp: construction_of_def)
  show "store_append C ns r db = Inl (PlainError ''nullifier already in the spent set'')"
    by (simp add: store_append_def assms(2) c Let_def append_notes_def append_outputs_def empty nf(1) append_nullifier_def kb k)
qed

lemma repeated_nullifier_refused_witness:
  "store_append toy_crypto 1 (example_spend\<lparr>ap_nullifiers := [(6, 1)]\<rparr>) example_spent = Inl (PlainError ''nullifier already in the spent set'')"
proof -
  obtain row where row: "db_namespace example_spent 1 = Some row" "n_position row = 1" and v: "visible_nfs example_spent 1 1 = [be_bytes 32 6]"
    and con: "db_construction example_spent 1 \<noteq> None" by (rule example_spent_row)
  then show ?thesis
    using repeated_nullifier_refused [OF example_spent_reachable row(1), of "example_spend\<lparr>ap_nullifiers := [(6, 1)]\<rparr>"] v con row(2)
    by (simp add: example_spend_def example_append_def)
qed

text \<open>C32: the spent set's update always returns. In a reachable database the descent through a namespace's stored rows ends for
  every 32-byte key: it inserts a key not visible at the tip, and refuses one that is.\<close>

theorem spent_descent_returns:
  assumes "reachable_store C db" and "db_namespace db ns = Some row" and "length k = 32"
  shows "if k \<in> set (visible_nfs db ns (n_position row))
    then sp_insert C (spent_of db ns row) k = Some (Inl (PlainError ''nullifier already in the spent set''))
    else \<exists>s. sp_insert C (spent_of db ns row) k = Some (Inr s)"
proof -
  note tip = reachable_tip(2) [OF assms(1,2)]
  obtain ss where ss: "ss_inv C ss" "sp_rel (spent_of db ns row) ss" "ss_contents ss = set (visible_nfs db ns (n_position row))"
    using tip by (auto simp: spent_ok_def)
  show ?thesis using sp_insert_new [OF ss(1,2) assms(3)] sp_insert_old [OF ss(1,2) assms(3)] ss(3) by auto
qed

lemma spent_descent_returns_witness:
  "\<exists>row s. db_namespace example_spent 1 = Some row \<and> sp_insert toy_crypto (spent_of example_spent 1 row) (be_bytes 32 8) = Some (Inr s)"
proof -
  obtain row where row: "db_namespace example_spent 1 = Some row" "n_position row = 1" and v: "visible_nfs example_spent 1 1 = [be_bytes 32 6]"
    and con: "db_construction example_spent 1 \<noteq> None" by (rule example_spent_row)
  have n: "be_bytes 32 8 \<notin> set (visible_nfs example_spent 1 (n_position row))" unfolding row(2) v by code_simp
  show ?thesis using spent_descent_returns [OF example_spent_reachable row(1), of "be_bytes 32 8"] n row(1) by auto
qed

text \<open>C15: the spent root is a commitment to what is spent. In a reachable database the spent root a tip reports is the root of the
  in-memory radix tree built from the nullifiers visible there, in any order; two namespaces that see the same nullifiers, however
  they came to (their own records or imports), report the same root.\<close>

theorem tip_spent_root_of_visible:
  assumes "reachable_store C db" and "store_tip C db ns = Inr t"
    and "foldR (\<lambda>s k. ss_insert C k s) newSpentSet ks = Inr ss" and "set ks = set (visible_nfs db ns (tip_position t))"
  shows "tip_spentRoot t = ss_root C ss"
proof -
  obtain row where row: "db_namespace db ns = Some row" "tip_position t = n_position row" "sp_root C (spent_of db ns row) = Inr (tip_spentRoot t)"
    using assms(2) by (auto simp: store_tip_def namespace_of_def bindR_Inr_conv split: option.splits)
  show ?thesis using spent_ok_root [OF reachable_tip(2) [OF assms(1) row(1)] assms(3)] assms(4) row by simp
qed

lemma tip_spent_root_of_visible_witness:
  "\<exists>t ss. store_tip toy_crypto example_spent 1 = Inr t \<and>
     foldR (\<lambda>s k. ss_insert toy_crypto k s) newSpentSet [be_bytes 32 6] = Inr ss \<and> tip_spentRoot t = ss_root toy_crypto ss"
proof -
  obtain row where row: "db_namespace example_spent 1 = Some row" "n_position row = 1" and v: "visible_nfs example_spent 1 1 = [be_bytes 32 6]"
    and con: "db_construction example_spent 1 \<noteq> None" by (rule example_spent_row)
  obtain t where t: "store_tip toy_crypto example_spent 1 = Inr t"
    using store_append_effect example_spent_run by metis
  have p: "tip_position t = 1" using t row by (auto simp: store_tip_def namespace_of_def bindR_Inr_conv)
  have "isOk (foldR (\<lambda>s k. ss_insert toy_crypto k s) newSpentSet [be_bytes 32 6])" by code_simp
  then obtain ss where ss: "foldR (\<lambda>s k. ss_insert toy_crypto k s) newSpentSet [be_bytes 32 6] = Inr ss" by (auto simp: isOk_conv)
  have "tip_spentRoot t = ss_root toy_crypto ss"
    by (rule tip_spent_root_of_visible [OF example_spent_reachable t ss]) (unfold p v, auto)
  then show ?thesis using t ss by blast
qed

end
