(* ===== verification/RecoveryState.thy ===== *)
theory RecoveryState
  imports ReplayInvariant
begin

section \<open>Recovery over stored and forced states\<close>

text \<open>
  The abstract recovery state a database holds for a namespace at a position, and the one a forced
  overlay holds over its base.  Both kinds of state meet the contract of Recovery, so its guards decide
  exactly what the abstract state allows; and both apply a record by the same abstract step.
\<close>

subsection \<open>The recovery state of a namespace at a position\<close>

definition row_demand :: "database \<Rightarrow> demand_row \<Rightarrow> demand" where
  "row_demand db r = (let nfs = map (be_int \<circ> dn_nf) (sort_key dn_i (filter (\<lambda>n. dn_id n = dr_id r \<and> dn_ns n = dr_ns r) (db_demand_nullifier db))) in
     \<lparr>dm_backing = dr_backing r, dm_quantity = dr_quantity r, dm_tags = [be_int (dr_tag0 r), be_int (dr_tag1 r)],
      dm_presenter = dr_presenter r, dm_instant = dr_instant r, dm_deadline = dr_deadline r,
      dm_nullifiers = (if nfs = [] then None else Some nfs)\<rparr>)"

definition recovery_at :: "database \<Rightarrow> int \<Rightarrow> int \<Rightarrow> recovery_state" where
  "recovery_at db ns p = \<lparr>rs_standing = (\<lambda>name. map_option (row_demand db) (find (\<lambda>x. dr_id x = name) (standing_demands db ns p))),
     rs_effective = {h. \<exists>x \<in> set (db_event db). ev_identity x = h \<and> 4 \<le> ev_kind x \<and> visible db ns p (ev_ns x) (ev_position x)},
     rs_spent = {t. stored_key t \<and> (\<exists>x \<in> set (db_nullifier db). nl_tag x = be_bytes 32 t \<and> visible db ns p (nl_ns x) (nl_position x))}\<rparr>"

text \<open>The demand tables agree: a demand's tag rows are its tags, its event is the one at its position and names it.\<close>

definition demand_row_ok :: "database \<Rightarrow> demand_row \<Rightarrow> bool" where
  "demand_row_ok db r \<longleftrightarrow> length (dr_tag0 r) = 32 \<and> length (dr_tag1 r) = 32 \<and>
     (\<forall>k. (\<exists>t \<in> set (db_demand_tag db). dt_tag t = k \<and> dt_id t = dr_id r \<and> dt_ns t = dr_ns r) \<longleftrightarrow> k = dr_tag0 r \<or> k = dr_tag1 r) \<and>
     (\<exists>e \<in> set (db_event db). ev_ns e = dr_ns r \<and> ev_position e = dr_position r \<and> 4 \<le> ev_kind e \<and> dr_id r = hex (ev_identity e))"

definition demands_ok :: "database \<Rightarrow> bool" where
  "demands_ok db \<longleftrightarrow> (\<forall>r \<in> set (db_demand db). demand_row_ok db r) \<and> (\<forall>n \<in> set (db_demand_nullifier db). length (dn_nf n) = 32) \<and>
     (\<forall>t \<in> set (db_demand_tag db). \<exists>r \<in> set (db_demand db). dr_id r = dt_id t \<and> dr_ns r = dt_ns t)"

text \<open>A position good to read at: no two visible demands share a name, and an ended name is a visible demand's.\<close>

definition recovery_ok :: "database \<Rightarrow> int \<Rightarrow> int \<Rightarrow> bool" where
  "recovery_ok db ns p \<longleftrightarrow> demands_ok db \<and> distinct (map dr_id (visible_demands db ns p)) \<and>
     (\<forall>name. ended_at db ns p name \<longrightarrow> name \<in> dr_id ` set (visible_demands db ns p))"

definition handle_ok :: "crypto \<Rightarrow> database \<Rightarrow> state_handle \<Rightarrow> int \<Rightarrow> bool" where
  "handle_ok C db h p \<longleftrightarrow> recovery_ok db (sh_ns h) p \<and> state_position C db h = Inr p"

lemma hex_nibble_digit: "0 \<le> d \<Longrightarrow> d < 16 \<Longrightarrow> hex_nibble (hex_digit d) = Some d"
  using hex_value_digit [of d] by (auto simp: hex_nibble_def hex_value_def Let_def split: if_splits)

lemma high_nibble: "0 \<le> u \<Longrightarrow> u < 256 \<Longrightarrow> u div 16 mod 16 = u div 16" for u :: int
  using zdiv_mono1 [of u 255 16] by (intro mod_pos_pos_trivial) (simp_all add: pos_imp_zdiv_nonneg_iff)

lemma unhex_hex [simp]: "unhex (hex h) = h"
proof (induction h)
  case (Cons b h)
  have r: "0 \<le> uint b" "uint b < 256" using byte_range [of b] by simp_all
  have "hex_nibble (hex_digit (uint b div 16)) = Some (uint b div 16)" "hex_nibble (hex_digit (uint b mod 16)) = Some (uint b mod 16)"
    using r by (auto intro!: hex_nibble_digit simp: pos_imp_zdiv_nonneg_iff)
  moreover have "uint b div 16 * 16 + uint b mod 16 = uint b" by simp
  moreover have "hex_digits 2 (uint b) = [hex_digit (uint b div 16), hex_digit (uint b mod 16)]"
    by (simp only: numeral_2_eq_2 hex_digits.simps high_nibble [OF r] append_Nil append_Cons)
  ultimately show ?case using Cons by (simp add: hex_Cons)
qed (simp add: hex_Nil)

lemma find_distinct: "distinct (map f xs) \<Longrightarrow> find (\<lambda>x. f x = k) xs = Some r \<longleftrightarrow> r \<in> set xs \<and> f r = k"
  by (induction xs) (auto simp: rev_image_eqI)

lemma traverseR_total: "(\<And>x. x \<in> set xs \<Longrightarrow> f x = Inr (g x)) \<Longrightarrow> traverseR f xs = Inr (map g xs)"
  by (induction xs) simp_all

lemma demand_of_row_ok: "demands_ok db \<Longrightarrow> r \<in> set (db_demand db) \<Longrightarrow> demand_of_row db r = Inr (dr_id r, row_demand db r)"
proof -
  assume ok: "demands_ok db" and r: "r \<in> set (db_demand db)"
  let ?ns = "sort_key dn_i (filter (\<lambda>n. dn_id n = dr_id r \<and> dn_ns n = dr_ns r) (db_demand_nullifier db))"
  have "traverseR (\<lambda>n. key_value (dn_nf n)) ?ns = Inr (map (be_int \<circ> dn_nf) ?ns)"
    unfolding o_def by (rule traverseR_total) (use ok in \<open>auto simp: demands_ok_def key_value_def\<close>)
  moreover have "length (dr_tag0 r) = 32" "length (dr_tag1 r) = 32" using ok r by (auto simp: demands_ok_def demand_row_ok_def)
  ultimately show ?thesis by (simp add: demand_of_row_def row_demand_def key_value_def Let_def)
qed

lemma tagged_ok:
  assumes "demands_ok db" and "set rows \<subseteq> set (db_demand db)"
  shows "set (tagged db k rows) = {r \<in> set rows. dr_tag0 r = k \<or> dr_tag1 r = k}"
proof -
  have "(\<exists>t \<in> set (db_demand_tag db). dt_tag t = k \<and> dt_id t = dr_id r \<and> dt_ns t = dr_ns r) \<longleftrightarrow> k = dr_tag0 r \<or> k = dr_tag1 r"
    if "r \<in> set rows" for r using assms that by (auto simp: demands_ok_def demand_row_ok_def)
  then show ?thesis by (fastforce simp: tagged_def)
qed

lemma row_tags: "length (dr_tag0 r) = 32 \<Longrightarrow> length (dr_tag1 r) = 32 \<Longrightarrow> stored_key t \<Longrightarrow>
    t \<in> set (dm_tags (row_demand db r)) \<longleftrightarrow> dr_tag0 r = be_bytes 32 t \<or> dr_tag1 r = be_bytes 32 t"
proof -
  have k: "length b = 32 \<Longrightarrow> stored_key t \<Longrightarrow> t = be_int b \<longleftrightarrow> b = be_bytes 32 t" for b
    using stored_key_bound [of t] be_bytes_be_int [of b] by auto
  show "length (dr_tag0 r) = 32 \<Longrightarrow> length (dr_tag1 r) = 32 \<Longrightarrow> stored_key t \<Longrightarrow> ?thesis"
    using k [of "dr_tag0 r"] k [of "dr_tag1 r"] by (auto simp: row_demand_def Let_def)
qed

lemma stored_reads:
  assumes ok: "handle_ok C db h p"
  shows "reads_as (handle_view C c db h) (recovery_at db (sh_ns h) p)"
proof -
  have p: "state_position C db h = Inr p" and tab: "demands_ok db" and d: "distinct (map dr_id (visible_demands db (sh_ns h) p))"
    using ok by (simp_all add: handle_ok_def recovery_ok_def)
  let ?rows = "standing_demands db (sh_ns h) p"
  have sub: "set ?rows \<subseteq> set (db_demand db)" by (auto simp: standing_demands_def visible_demands_def)
  have dist: "distinct (map dr_id ?rows)" using d by (simp add: standing_demands_def distinct_map_filter)
  have read: "demand_of_row db r = Inr (dr_id r, row_demand db r)" if "r \<in> set ?rows" for r using demand_of_row_ok [OF tab] sub that by blast
  have demand: "rv_demand (handle_view C c db h) name = Inr (rs_standing (recovery_at db (sh_ns h) p) name)" for name
  proof (cases "find (\<lambda>x. dr_id x = name) ?rows")
    case (Some r)
    then have "demand_of_row db r = Inr (dr_id r, row_demand db r)" using find_in [OF Some] read by blast
    then show ?thesis using Some by (simp add: handle_view_def p store_demand_def recovery_at_def Let_def)
  qed (simp add: handle_view_def p store_demand_def recovery_at_def Let_def)
  have tagged: "\<exists>ds. rv_demandsWithTag (handle_view C c db h) t = Inr ds \<and>
      (\<forall>id d. (id, d) \<in> set ds \<longleftrightarrow> rs_standing (recovery_at db (sh_ns h) p) id = Some d \<and> t \<in> set (dm_tags d))" if t: "stored_key t" for t
  proof -
    let ?ts = "tagged db (be_bytes 32 t) ?rows"
    have set_ts: "set ?ts = {r \<in> set ?rows. dr_tag0 r = be_bytes 32 t \<or> dr_tag1 r = be_bytes 32 t}" by (rule tagged_ok [OF tab sub])
    have lens: "length (dr_tag0 r) = 32" "length (dr_tag1 r) = 32" if "r \<in> set ?rows" for r
      using tab sub that by (auto simp: demands_ok_def demand_row_ok_def)
    have trav: "traverseR (demand_of_row db) ?ts = Inr (map (\<lambda>r. (dr_id r, row_demand db r)) ?ts)"
      by (rule traverseR_total) (use read set_ts in auto)
    have in_map: "(name, dd) \<in> set (map (\<lambda>r. (dr_id r, row_demand db r)) ?ts) \<longleftrightarrow>
        (\<exists>r \<in> set ?rows. dr_id r = name \<and> row_demand db r = dd \<and> t \<in> set (dm_tags dd))" for name dd
      using set_ts row_tags [OF lens t] by auto
    moreover have "rs_standing (recovery_at db (sh_ns h) p) name = Some dd \<longleftrightarrow> (\<exists>r \<in> set ?rows. dr_id r = name \<and> row_demand db r = dd)" for name dd
      using find_distinct [OF dist, of name] by (auto simp: recovery_at_def)
    moreover have "rv_demandsWithTag (handle_view C c db h) t = Inr (map (\<lambda>r. (dr_id r, row_demand db r)) ?ts)"
      using t trav by (simp add: handle_view_def p demandsWithTag_def keyBytes_Inr [THEN iffD2] Let_def)
    ultimately show ?thesis by blast
  qed
  have kb: "keyBytes t = Inr (be_bytes 32 t)" if "stored_key t" for t using that by (simp add: keyBytes_Inr)
  show ?thesis unfolding reads_as_def
    using demand tagged by (auto simp: handle_view_def p kb isEffective_def hasSpentTag_def recovery_at_def list_ex_iff Let_def)
qed

interpretation stored: recovery_reads "\<lambda>(db, h, p). handle_view C c db h" "\<lambda>(db, h, p). recovery_at db (sh_ns h) p" "\<lambda>(db, h, p). handle_ok C db h p"
  for C :: crypto and c :: "'r construction"
  by unfold_locales (auto intro: stored_reads)

subsection \<open>A stored append is one abstract step\<close>

text \<open>Every row lies at or below its namespace's tip.\<close>

definition rows_bounded :: "database \<Rightarrow> bool" where
  "rows_bounded db \<longleftrightarrow>
     (\<forall>x \<in> set (db_event db). \<exists>r. db_namespace db (ev_ns x) = Some r \<and> ev_position x \<le> n_position r) \<and>
     (\<forall>x \<in> set (db_nullifier db). \<exists>r. db_namespace db (nl_ns x) = Some r \<and> nl_position x \<le> n_position r) \<and>
     (\<forall>x \<in> set (db_demand db). \<exists>r. db_namespace db (dr_ns x) = Some r \<and> dr_position x \<le> n_position r) \<and>
     (\<forall>x \<in> set (db_demand_end db). \<exists>r. db_namespace db (de_ns x) = Some r \<and> de_position x \<le> n_position r) \<and>
     (\<forall>x \<in> set (db_total db). \<exists>r. db_namespace db (tt_ns x) = Some r \<and> tt_position x \<le> n_position r)"

lemma supply_rows_in: "x \<in> set (supply_rows ns q minted db) \<Longrightarrow> x \<in> set (db_total db) \<or> tt_ns x = ns \<and> tt_position x = q"
  by (auto simp: supply_rows_def replace_row_def Let_def split: option.splits prod.splits)

lemma open_totals_in: "x \<in> set (open_totals ns tots rows) \<Longrightarrow> x \<in> set rows \<or> tt_ns x = ns \<and> tt_position x = 0"
  by (induction tots arbitrary: rows) (fastforce simp: open_totals_def replace_row_def split: prod.splits)+

lemma append_rows_bounded:
  assumes "rows_bounded db" and eff: "append_effect C ns record db a db'"
  shows "rows_bounded db'"
proof -
  let ?q = "n_position (apd_row a) + 1"
  have row: "db_namespace db ns = Some (apd_row a)" using eff by (simp add: append_effect_def Let_def)
  have tip: "\<exists>r. db_namespace db' ns = Some r \<and> n_position r = ?q" using eff by (simp add: append_effect_def Let_def)
  have other: "m \<noteq> ns \<Longrightarrow> db_namespace db' m = db_namespace db m" for m using eff by (simp add: append_effect_def Let_def)
  have keep: "\<exists>r. db_namespace db' m = Some r \<and> x \<le> n_position r" if "\<exists>r. db_namespace db m = Some r \<and> x \<le> n_position r" for m x
    using that tip other [of m] row by (cases "m = ns") force+
  have e: "db_event db' = db_event db @ [event_row_of ns ?q record (apd_history a) (apd_root a) (apd_spentRoot a)]"
    and n: "db_nullifier db' = db_nullifier db @ nullifier_rows ns ?q (ap_nullifiers record)"
    and d: "db_demand_end db' = db_demand_end db @ end_rows ns ?q (ap_ended record)"
    and w: "demand_written ns ?q (ap_demand record) db db'" and tt: "db_total db' = supply_rows ns ?q (ap_supply record) db"
    using eff unfolding append_effect_def Let_def by blast+
  have "\<exists>r. db_namespace db' (tt_ns x) = Some r \<and> tt_position x \<le> n_position r" if "x \<in> set (db_total db')" for x
    using supply_rows_in [OF that [unfolded tt]] assms(1) keep tip unfolding rows_bounded_def by force
  moreover have "\<exists>r. db_namespace db' (ev_ns x) = Some r \<and> ev_position x \<le> n_position r" if "x \<in> set (db_event db')" for x
    using that assms(1) keep tip unfolding e rows_bounded_def by (auto simp: event_row_of_def)
  moreover have "\<exists>r. db_namespace db' (nl_ns x) = Some r \<and> nl_position x \<le> n_position r" if "x \<in> set (db_nullifier db')" for x
    using that assms(1) keep tip nullifier_rows_at unfolding n rows_bounded_def by fastforce
  moreover have "\<exists>r. db_namespace db' (de_ns x) = Some r \<and> de_position x \<le> n_position r" if "x \<in> set (db_demand_end db')" for x
    using that assms(1) keep tip end_rows_at unfolding d rows_bounded_def by fastforce
  moreover have "\<exists>r. db_namespace db' (dr_ns x) = Some r \<and> dr_position x \<le> n_position r" if "x \<in> set (db_demand db')" for x
    using that assms(1) keep tip w unfolding rows_bounded_def
    by (auto simp: demand_written_def demand_row_of_def split: option.splits)
  ultimately show ?thesis unfolding rows_bounded_def by blast
qed

lemma open_rows_bounded:
  assumes inv: "store_inv C db" and "rows_bounded db" and eff: "open_effect C db segment imported gh ge con o' db'"
  shows "rows_bounded db'"
proof -
  have "db_namespace db' = (db_namespace db)(db_next db \<mapsto> opd_row o')" using eff by (simp add: open_effect_def Let_def)
  moreover have "db_namespace db (db_next db) = None" 
  proof (cases "db_namespace db (db_next db)")
    case (Some r)
    then have "db_next db < db_next db" using inv unfolding store_inv_def by blast
    then show ?thesis by simp
  qed
  ultimately have keep: "db_namespace db m = Some r \<Longrightarrow> db_namespace db' m = Some r" for m r by auto
  have tabs: "db_event db' = db_event db" "db_nullifier db' = db_nullifier db" "db_demand db' = db_demand db" "db_demand_end db' = db_demand_end db"
    and tots: "db_total db' = open_totals (db_next db) (case imported of None \<Rightarrow> [] | Some i \<Rightarrow> mi_totals i) (db_total db)"
    and new: "db_namespace db' (db_next db) = Some (opd_row o')" "n_position (opd_row o') = 0"
    using eff by (simp_all add: open_effect_def Let_def)
  have "\<exists>r. db_namespace db' (tt_ns x) = Some r \<and> tt_position x \<le> n_position r" if "x \<in> set (db_total db')" for x
    using open_totals_in [OF that [unfolded tots]] assms(2) keep new unfolding rows_bounded_def by force
  then show ?thesis using assms(2) keep unfolding rows_bounded_def tabs by blast
qed

lemma reachable_rows_bounded: "reachable_store C db \<Longrightarrow> rows_bounded db"
proof (induction rule: reachable_store.induct)
  case empty
  show ?case by (simp add: rows_bounded_def newDatabase_def)
next
  case (opened db imported segment identity gh ge con ns db')
  then show ?case using store_open_effect [OF opened.hyps(3)] open_rows_bounded [OF reachable_inv [OF opened.hyps(1)]] by metis
next
  case (appended db ns _ t db')
  then show ?case using store_append_effect [OF appended.hyps(2)] append_rows_bounded by metis
qed

lemma visible_next:
  assumes "db_import db' = db_import db" and "n = ns \<Longrightarrow> q \<le> p"
  shows "visible db' ns (p + 1) n q = visible db ns p n q"
  using assms by (auto simp: visible_def)

lemma new_visible: "visible db ns p ns p" by (simp add: visible_def)

text \<open>What the visible demands of the appended position are.\<close>

lemma append_visible:
  assumes bounded: "rows_bounded db" and eff: "append_effect C ns record db a db'" and p: "p = n_position (apd_row a)"
  shows "visible_demands db' ns (p + 1) = visible_demands db ns p @ (case ap_demand record of None \<Rightarrow> [] | Some (n, d) \<Rightarrow> [demand_row_of ns (p + 1) n d])"
    and "ended_at db' ns (p + 1) name \<longleftrightarrow> ended_at db ns p name \<or> ap_ended record = Some name"
    and "{h. \<exists>x \<in> set (db_event db'). ev_identity x = h \<and> 4 \<le> ev_kind x \<and> visible db' ns (p + 1) (ev_ns x) (ev_position x)} =
      {h. \<exists>x \<in> set (db_event db). ev_identity x = h \<and> 4 \<le> ev_kind x \<and> visible db ns p (ev_ns x) (ev_position x)} \<union>
      (if 4 \<le> ap_kind record then {ap_identity record} else {})"
    and "{t. stored_key t \<and> (\<exists>x \<in> set (db_nullifier db'). nl_tag x = be_bytes 32 t \<and> visible db' ns (p + 1) (nl_ns x) (nl_position x))} =
      {t. stored_key t \<and> (\<exists>x \<in> set (db_nullifier db). nl_tag x = be_bytes 32 t \<and> visible db ns p (nl_ns x) (nl_position x))} \<union>
      snd ` set (ap_nullifiers record)"
proof -
  let ?q = "p + 1"
  have row: "db_namespace db ns = Some (apd_row a)" and imp: "db_import db' = db_import db" using eff by (simp_all add: append_effect_def Let_def)
  have tabs: "db_event db' = db_event db @ [event_row_of ns ?q record (apd_history a) (apd_root a) (apd_spentRoot a)]"
    "db_nullifier db' = db_nullifier db @ nullifier_rows ns ?q (ap_nullifiers record)"
    "db_demand_end db' = db_demand_end db @ end_rows ns ?q (ap_ended record)" "demand_written ns ?q (ap_demand record) db db'"
    and keys: "\<forall>(nf, t) \<in> set (ap_nullifiers record). stored_key t"
    using eff unfolding append_effect_def Let_def p by (blast, blast, blast, blast, auto simp: list_all_iff)
  have dem: "db_demand db' = db_demand db @ (case ap_demand record of None \<Rightarrow> [] | Some (n, d) \<Rightarrow> [demand_row_of ns ?q n d])"
    using tabs(4) by (auto simp: demand_written_def split: option.splits)
  have old: "visible db' ns ?q (dr_ns x) (dr_position x) = visible db ns p (dr_ns x) (dr_position x)" if "x \<in> set (db_demand db)" for x
    by (rule visible_next [OF imp]) (use bounded row that p in \<open>force simp: rows_bounded_def\<close>)
  have olde: "visible db' ns ?q (de_ns x) (de_position x) = visible db ns p (de_ns x) (de_position x)" if "x \<in> set (db_demand_end db)" for x
    by (rule visible_next [OF imp]) (use bounded row that p in \<open>force simp: rows_bounded_def\<close>)
  have oldv: "visible db' ns ?q (ev_ns x) (ev_position x) = visible db ns p (ev_ns x) (ev_position x)" if "x \<in> set (db_event db)" for x
    by (rule visible_next [OF imp]) (use bounded row that p in \<open>force simp: rows_bounded_def\<close>)
  have oldn: "visible db' ns ?q (nl_ns x) (nl_position x) = visible db ns p (nl_ns x) (nl_position x)" if "x \<in> set (db_nullifier db)" for x
    by (rule visible_next [OF imp]) (use bounded row that p in \<open>force simp: rows_bounded_def\<close>)
  have "filter (\<lambda>x. visible db' ns ?q (dr_ns x) (dr_position x)) (db_demand db) = visible_demands db ns p"
    unfolding visible_demands_def using old by (rule filter_cong [OF refl])
  then show "visible_demands db' ns ?q = visible_demands db ns p @ (case ap_demand record of None \<Rightarrow> [] | Some (n, d) \<Rightarrow> [demand_row_of ns ?q n d])"
    by (simp add: visible_demands_def dem demand_row_of_def new_visible split: option.split)
  have "list_ex (\<lambda>y. de_id y = name \<and> visible db' ns ?q (de_ns y) (de_position y)) (db_demand_end db) = ended_at db ns p name"
    unfolding ended_at_def list_ex_iff using olde by blast
  moreover have "list_ex (\<lambda>y. de_id y = name \<and> visible db' ns ?q (de_ns y) (de_position y)) (end_rows ns ?q (ap_ended record)) \<longleftrightarrow> ap_ended record = Some name"
    by (auto simp: end_rows_def new_visible split: option.split)
  ultimately show "ended_at db' ns ?q name \<longleftrightarrow> ended_at db ns p name \<or> ap_ended record = Some name"
    unfolding ended_at_def [of db'] tabs(3) list_ex_append by simp
  show "{h. \<exists>x \<in> set (db_event db'). ev_identity x = h \<and> 4 \<le> ev_kind x \<and> visible db' ns ?q (ev_ns x) (ev_position x)} =
      {h. \<exists>x \<in> set (db_event db). ev_identity x = h \<and> 4 \<le> ev_kind x \<and> visible db ns p (ev_ns x) (ev_position x)} \<union>
      (if 4 \<le> ap_kind record then {ap_identity record} else {})"
    unfolding tabs(1) using oldv by (auto simp: event_row_of_def new_visible)
  have new: "(\<exists>x \<in> set (nullifier_rows ns ?q (ap_nullifiers record)). nl_tag x = be_bytes 32 t \<and> visible db' ns ?q (nl_ns x) (nl_position x)) \<longleftrightarrow>
      t \<in> snd ` set (ap_nullifiers record)" if t: "stored_key t" for t
    using keys key_bytes_inj [OF _ t] by (force simp: nullifier_rows_def new_visible)
  have both: "(\<exists>x \<in> set (db_nullifier db'). nl_tag x = be_bytes 32 t \<and> visible db' ns ?q (nl_ns x) (nl_position x)) \<longleftrightarrow>
      (\<exists>x \<in> set (db_nullifier db). nl_tag x = be_bytes 32 t \<and> visible db ns p (nl_ns x) (nl_position x)) \<or>
      (\<exists>x \<in> set (nullifier_rows ns ?q (ap_nullifiers record)). nl_tag x = be_bytes 32 t \<and> visible db' ns ?q (nl_ns x) (nl_position x))" for t
    unfolding tabs(2) set_append bex_Un using oldn by blast
  have stored: "stored_key t" if "t \<in> snd ` set (ap_nullifiers record)" for t using keys that by auto
  show "{t. stored_key t \<and> (\<exists>x \<in> set (db_nullifier db'). nl_tag x = be_bytes 32 t \<and> visible db' ns ?q (nl_ns x) (nl_position x))} =
      {t. stored_key t \<and> (\<exists>x \<in> set (db_nullifier db). nl_tag x = be_bytes 32 t \<and> visible db ns p (nl_ns x) (nl_position x))} \<union>
      snd ` set (ap_nullifiers record)"
    unfolding both using new stored by blast
qed

text \<open>A demand an append may write: named by its statement, with two tags, and new to the position.\<close>

definition new_demand :: "database \<Rightarrow> int \<Rightarrow> int \<Rightarrow> append \<Rightarrow> bool" where
  "new_demand db ns p record \<longleftrightarrow> (\<forall>n d. ap_demand record = Some (n, d) \<longrightarrow> n = hex (ap_identity record) \<and> 4 \<le> ap_kind record \<and>
     length (dm_tags d) = 2 \<and> dm_nullifiers d \<noteq> Some [] \<and> n \<notin> dr_id ` set (visible_demands db ns p))"

lemma map_enumerate_snd: "map (\<lambda>x. f (snd x)) (enumerate n xs) = map f xs"
  by (induction xs arbitrary: n) simp_all

lemma row_demand_new:
  assumes "length (dm_tags d) = 2" and "list_all stored_key (dm_tags d)" and "dm_nullifiers d \<noteq> Some []"
    and "list_all stored_key (case dm_nullifiers d of None \<Rightarrow> [] | Some nfs \<Rightarrow> nfs)"
    and rows: "filter (\<lambda>x. dn_id x = n \<and> dn_ns x = ns) (db_demand_nullifier db') = demand_nullifier_rows ns n d"
  shows "row_demand db' (demand_row_of ns q n d) = d"
proof -
  let ?nfs = "case dm_nullifiers d of None \<Rightarrow> [] | Some nfs \<Rightarrow> nfs"
  have sorted: "sort_key dn_i (demand_nullifier_rows ns n d) = demand_nullifier_rows ns n d"
    by (rule sort_key_id_if_sorted) (simp add: demand_nullifier_rows_def o_def split_def)
  have "map (be_int \<circ> dn_nf) (demand_nullifier_rows ns n d) = map (\<lambda>nf. be_int (be_bytes 32 nf)) ?nfs"
    by (simp add: demand_nullifier_rows_def o_def split_def map_enumerate_snd [of "\<lambda>nf. be_int (be_bytes 32 nf)"])
  also have "\<dots> = ?nfs" using assms(4) stored_key_bound by (intro map_idI) (simp add: list_all_iff)
  finally have nfs: "map (be_int \<circ> dn_nf) (demand_nullifier_rows ns n d) = ?nfs" .
  obtain t0 t1 where t: "dm_tags d = [t0, t1]" using assms(1) by (auto simp: numeral_2_eq_2 length_Suc_conv)
  have "be_int (be_bytes 32 t0) = t0" "be_int (be_bytes 32 t1) = t1" using assms(2) t stored_key_bound by auto
  then show ?thesis using t assms(3) unfolding row_demand_def Let_def
    by (simp add: demand_row_of_def rows sorted nfs split: option.splits)
qed

lemma append_demands_ok:
  assumes tab: "demands_ok db" and eff: "append_effect C ns record db a db'" and new: "new_demand db ns p record"
  shows "demands_ok db'"
    and "r \<in> set (db_demand db) \<Longrightarrow> row_demand db' r = row_demand db r"
    and "ap_demand record = Some (n, d) \<Longrightarrow> row_demand db' (demand_row_of ns (n_position (apd_row a) + 1) n d) = d"
proof -
  let ?q = "n_position (apd_row a) + 1"
  have ev: "db_event db' = db_event db @ [event_row_of ns ?q record (apd_history a) (apd_root a) (apd_spentRoot a)]"
    and w: "demand_written ns ?q (ap_demand record) db db'"
    using eff unfolding append_effect_def Let_def by blast+
  have all: "demands_ok db' \<and> (\<forall>r \<in> set (db_demand db). row_demand db' r = row_demand db r) \<and>
    (\<forall>n d. ap_demand record = Some (n, d) \<longrightarrow> row_demand db' (demand_row_of ns ?q n d) = d)"
  proof (cases "ap_demand record")
    case None
    then have same: "db_demand db' = db_demand db" "db_demand_tag db' = db_demand_tag db" "db_demand_nullifier db' = db_demand_nullifier db"
      using w by (simp_all add: demand_written_def)
    have "demands_ok db'" using tab unfolding demands_ok_def demand_row_ok_def same ev by auto
    then show ?thesis using None by (simp add: row_demand_def same)
  next
    case (Some nd)
    obtain n d where nd: "nd = (n, d)" by (cases nd)
    obtain ts where t: "db_demand db' = db_demand db @ [demand_row_of ns ?q n d]"
      "db_demand_nullifier db' = db_demand_nullifier db @ demand_nullifier_rows ns n d" "db_demand_tag db' = db_demand_tag db @ ts"
      "set ts \<subseteq> tag_row ns n ` set (dm_tags d)" "\<forall>x \<in> set (dm_tags d). tag_row ns n x \<in> set (db_demand_tag db @ ts)"
      "list_all stored_key (dm_tags d)" "list_all stored_key (case dm_nullifiers d of None \<Rightarrow> [] | Some nfs \<Rightarrow> nfs)"
      "\<forall>x \<in> set (db_demand db). (dr_id x, dr_ns x) \<noteq> (n, ns)" "\<not> heldDemandRows db n ns"
      using w unfolding Some nd demand_written_def by auto
    have nn: "n = hex (ap_identity record)" "4 \<le> ap_kind record" "length (dm_tags d) = 2" "dm_nullifiers d \<noteq> Some []"
      using new unfolding new_demand_def Some nd by simp_all
    obtain t0 t1 where tags: "dm_tags d = [t0, t1]" using nn(3) by (auto simp: numeral_2_eq_2 length_Suc_conv)
    have keys: "stored_key t0" "stored_key t1" using t(6) tags by auto
    have no_tag: "\<forall>x \<in> set (db_demand_tag db). (dt_id x, dt_ns x) \<noteq> (n, ns)"
      using tab t(8) unfolding demands_ok_def by (metis prod.inject)
    have no_nf: "\<forall>x \<in> set (db_demand_nullifier db). (dn_id x, dn_ns x) \<noteq> (n, ns)"
      using t(9) by (auto simp: heldDemandRows_def list_ex_iff)
    have nf_rows: "filter (\<lambda>x. dn_id x = dr_id r \<and> dn_ns x = dr_ns r) (db_demand_nullifier db') =
        filter (\<lambda>x. dn_id x = dr_id r \<and> dn_ns x = dr_ns r) (db_demand_nullifier db)" if "(dr_id r, dr_ns r) \<noteq> (n, ns)" for r
      unfolding t(2) by (rule filter_more) (use that in \<open>auto simp: demand_nullifier_rows_def\<close>)
    have kept: "\<forall>r \<in> set (db_demand db). row_demand db' r = row_demand db r"
    proof
      fix r assume "r \<in> set (db_demand db)"
      then have "(dr_id r, dr_ns r) \<noteq> (n, ns)" using t(8) by blast
      from nf_rows [OF this] show "row_demand db' r = row_demand db r" unfolding row_demand_def by simp
    qed
    have "filter (\<lambda>x. dn_id x = n \<and> dn_ns x = ns) (db_demand_nullifier db) = []" using no_nf by (auto simp: filter_empty_conv)
    moreover have "filter (\<lambda>x. dn_id x = n \<and> dn_ns x = ns) (demand_nullifier_rows ns n d) = demand_nullifier_rows ns n d"
      by (auto simp: demand_nullifier_rows_def filter_id_conv)
    ultimately have "row_demand db' (demand_row_of ns ?q n d) = d"
      by (intro row_demand_new nn t) (simp add: t(2))
    moreover have "demands_ok db'"
    proof -
      have tag_new: "(\<exists>x \<in> set (db_demand_tag db'). dt_tag x = k \<and> dt_id x = n \<and> dt_ns x = ns) \<longleftrightarrow> k = be_bytes 32 t0 \<or> k = be_bytes 32 t1" for k
      proof -
        have "tag_row ns n x \<notin> set (db_demand_tag db)" for x using no_tag by (auto simp: tag_row_def)
        then have "set ts = {tag_row ns n t0, tag_row ns n t1}" using t(4,5) unfolding tags by auto
        then have "(\<exists>x \<in> set ts. dt_tag x = k \<and> dt_id x = n \<and> dt_ns x = ns) \<longleftrightarrow> k = be_bytes 32 t0 \<or> k = be_bytes 32 t1"
          by (auto simp: tag_row_def)
        then show ?thesis using no_tag unfolding t(3) set_append bex_Un by blast
      qed
      have tag_old: "(\<exists>x \<in> set (db_demand_tag db'). dt_tag x = k \<and> dt_id x = dr_id r \<and> dt_ns x = dr_ns r) \<longleftrightarrow>
          (\<exists>x \<in> set (db_demand_tag db). dt_tag x = k \<and> dt_id x = dr_id r \<and> dt_ns x = dr_ns r)" if "r \<in> set (db_demand db)" for k r
      proof -
        have "(dr_id r, dr_ns r) \<noteq> (n, ns)" using t(8) that by blast
        moreover have "dt_id x = n \<and> dt_ns x = ns" if "x \<in> set ts" for x using t(4) that by (auto simp: tag_row_def)
        ultimately show ?thesis unfolding t(3) set_append bex_Un by auto
      qed
      have old: "demand_row_ok db' r" if "r \<in> set (db_demand db)" for r
        using tab that tag_old [OF that] unfolding demands_ok_def demand_row_ok_def ev by auto
      have new_row: "demand_row_ok db' (demand_row_of ns ?q n d)"
        using tag_new nn unfolding demand_row_ok_def ev by (auto simp: demand_row_of_def tags event_row_of_def)
      have nfs: "length (dn_nf x) = 32" if "x \<in> set (db_demand_nullifier db')" for x
        using tab that unfolding demands_ok_def t(2) by (auto simp: demand_nullifier_rows_def)
      have named: "\<exists>r \<in> set (db_demand db'). dr_id r = dt_id x \<and> dr_ns r = dt_ns x" if "x \<in> set (db_demand_tag db')" for x
        using tab that t(4) unfolding demands_ok_def t(1,3) by (auto simp: tag_row_def demand_row_of_def)
      show ?thesis unfolding demands_ok_def using old new_row nfs named t(1) by auto
    qed
    ultimately show ?thesis using kept Some nd by simp
  qed
  show "demands_ok db'" using all by blast
  show "r \<in> set (db_demand db) \<Longrightarrow> row_demand db' r = row_demand db r" using all by blast
  show "ap_demand record = Some (n, d) \<Longrightarrow> row_demand db' (demand_row_of ns ?q n d) = d" using all by blast
qed

theorem append_recovery_step:
  assumes bounded: "rows_bounded db" and eff: "append_effect C ns record db a db'" and ok: "recovery_ok db ns (n_position (apd_row a))"
    and new: "new_demand db ns (n_position (apd_row a)) record"
    and ends: "\<And>n. ap_ended record = Some n \<Longrightarrow> n \<in> dr_id ` set (visible_demands db ns (n_position (apd_row a)))"
  shows "recovery_ok db' ns (n_position (apd_row a) + 1)"
    and "recovery_at db' ns (n_position (apd_row a) + 1) =
      recovery_step (ap_demand record) (ap_ended record) (if 4 \<le> ap_kind record then {ap_identity record} else {}) (snd ` set (ap_nullifiers record))
        (recovery_at db ns (n_position (apd_row a)))"
proof -
  let ?p = "n_position (apd_row a)" and ?new = "case ap_demand record of None \<Rightarrow> [] | Some (n, d) \<Rightarrow> [demand_row_of ns (n_position (apd_row a) + 1) n d]"
  note vis = append_visible [OF bounded eff refl]
  have tab: "demands_ok db" and dist: "distinct (map dr_id (visible_demands db ns ?p))"
    and ended: "\<And>name. ended_at db ns ?p name \<Longrightarrow> name \<in> dr_id ` set (visible_demands db ns ?p)"
    using ok by (auto simp: recovery_ok_def)
  note rows = append_demands_ok [OF tab eff new]
  have fresh: "n \<notin> dr_id ` set (visible_demands db ns ?p)" if "ap_demand record = Some (n, d)" for n d
    using new that by (auto simp: new_demand_def)
  have new_ids: "map dr_id ?new = (case ap_demand record of None \<Rightarrow> [] | Some (n, _) \<Rightarrow> [n])"
    by (simp add: demand_row_of_def split: option.split)
  show "recovery_ok db' ns (?p + 1)" unfolding recovery_ok_def vis(1,2)
    using rows(1) dist ended ends fresh by (auto simp: demand_row_of_def split: option.splits)
  have sub: "set (visible_demands db ns ?p) \<subseteq> set (db_demand db)" by (auto simp: visible_demands_def)
  have standing: "standing_demands db' ns (?p + 1) = filter (\<lambda>x. ap_ended record \<noteq> Some (dr_id x)) (standing_demands db ns ?p) @
      filter (\<lambda>x. ap_ended record \<noteq> Some (dr_id x)) ?new"
  proof -
    have all: "filter (\<lambda>x. \<not> ended_at db ns ?p (dr_id x)) ?new = ?new"
      using fresh ended by (auto simp: demand_row_of_def split: option.split)
    have split: "filter (\<lambda>x. \<not> (ended_at db ns ?p (dr_id x) \<or> ap_ended record = Some (dr_id x))) xs =
        filter (\<lambda>x. ap_ended record \<noteq> Some (dr_id x)) (filter (\<lambda>x. \<not> ended_at db ns ?p (dr_id x)) xs)" for xs
      by (simp add: conj_commute)
    show ?thesis unfolding standing_demands_def vis(1,2) split unfolding filter_append all ..
  qed
  have "rs_standing (recovery_at db' ns (?p + 1)) name =
      rs_standing (recovery_step (ap_demand record) (ap_ended record) {} {} (recovery_at db ns ?p)) name" for name
  proof (cases "ap_ended record = Some name")
    case True
    then have "find (\<lambda>x. dr_id x = name) (standing_demands db' ns (?p + 1)) = None"
      unfolding standing find_None_iff by auto
    then show ?thesis using True by (simp add: recovery_at_def recovery_step_def Let_def)
  next
    case False
    have f1: "find (\<lambda>x. dr_id x = name) (filter (\<lambda>x. ap_ended record \<noteq> Some (dr_id x)) xs) = find (\<lambda>x. dr_id x = name) xs" for xs
      using False by (induction xs) auto
    have f2: "find P (xs @ ys) = (case find P xs of None \<Rightarrow> find P ys | Some x \<Rightarrow> Some x)" for P :: "demand_row \<Rightarrow> bool" and xs ys
      by (induction xs) auto
    have look: "find (\<lambda>x. dr_id x = name) (standing_demands db' ns (?p + 1)) =
        (case find (\<lambda>x. dr_id x = name) (standing_demands db ns ?p) of None \<Rightarrow> find (\<lambda>x. dr_id x = name) ?new | Some x \<Rightarrow> Some x)"
      unfolding standing f2 f1 ..
    have old: "row_demand db' r = row_demand db r" if "find (\<lambda>x. dr_id x = name) (standing_demands db ns ?p) = Some r" for r
      by (rule rows(2)) (use find_in [OF that] sub in \<open>auto simp: standing_demands_def\<close>)
    show ?thesis
    proof (cases "ap_demand record")
      case None
      then show ?thesis using False look old
        by (cases "find (\<lambda>x. dr_id x = name) (standing_demands db ns ?p)") (auto simp: recovery_at_def recovery_step_def Let_def split: option.splits)
    next
      case (Some nd)
      obtain n d where nd: "nd = (n, d)" by (cases nd)
      have rd: "row_demand db' (demand_row_of ns (?p + 1) n d) = d" by (rule rows(3)) (simp add: Some nd)
      have absent: "find (\<lambda>x. dr_id x = n) (standing_demands db ns ?p) = None"
        using fresh [of n d] Some nd by (auto simp: find_None_iff standing_demands_def)
      have "dr_id (demand_row_of ns (?p + 1) n d) = n" by (simp add: demand_row_of_def)
      then show ?thesis using False look old rd absent Some nd
        by (cases "find (\<lambda>x. dr_id x = name) (standing_demands db ns ?p)") (auto simp: recovery_at_def recovery_step_def Let_def split: option.splits)
    qed
  qed
  then show "recovery_at db' ns (?p + 1) = recovery_step (ap_demand record) (ap_ended record) (if 4 \<le> ap_kind record then {ap_identity record} else {})
      (snd ` set (ap_nullifiers record)) (recovery_at db ns ?p)"
    using vis(3,4) by (simp add: recovery_at_def recovery_step_def Let_def fun_eq_iff)
qed

end
