(* ===== verification/Judging.thy ===== *)
theory Judging
  imports State
begin

section \<open>What a judgment that succeeds has checked\<close>

text \<open>
  The judgment of a record and the application of its effects, taken apart: each lemma lists the
  checks that passed and the values they computed when the function returned a result.
\<close>

lemma bindR_InrE: "bindR m f = Inr y \<Longrightarrow> (\<And>x. m = Inr x \<Longrightarrow> f x = Inr y \<Longrightarrow> thesis) \<Longrightarrow> thesis"
  by (auto simp: bindR_Inr_conv)

lemma judgmentOf_InrE:
  assumes "judgmentOf C c db h bs replay = Inr j"
  obtains p r view d tot previous evidence where "state_position C db h = Inr p" and "decode_or_malformed c bs = Inr r"
    and "c_kind c r \<in> {1, 2, 3, 4, 5, 6}" and "p + 1 < VALUE_BOUND"
    and "\<not> (modeAt replay p = Admission \<and> c_kind c r \<ge> 4 \<and> sr_lag replay = None)"
    and "c_view c r (rv_demand (handle_view C c db h)) = Inr view"
    and "(case v_ended view of None \<Rightarrow> Inr None | Some name \<Rightarrow> rv_demand (handle_view C c db h) name) = Inr d"
    and "state_total C db h (jd_backing (jg_judged j)) = Inr tot"
    and "context_checks replay p bs view = Inr ()"
    and "v_needsDemand view \<Longrightarrow> d \<noteq> None"
    and "state_hasStatement C db h (v_identity view) = Inr False"
    and "state_evidence C db c h = Inr previous" and "c_nextEvidence c previous (v_digests view) (p + 1) = Inr evidence"
    and "revocation_check replay p (c_kind c r) (jd_backing (jg_judged j)) = Inr ()"
    and "jg_mode j = modeAt replay p" and "jg_total j = tot"
    and "jd_backing (jg_judged j) = hex (jg_backing j)"
    and "jg_backing j = (if v_needsDemand view then (case d of Some x \<Rightarrow> dm_backing x | None \<Rightarrow> sr_backing replay)
           else (case v_backings view of b # _ \<Rightarrow> b | [] \<Rightarrow> sr_backing replay))"
    and "jg_issuerKey j = (case termsOf replay (jg_backing j) of Some k \<Rightarrow> k | None \<Rightarrow> sr_obligor replay)"
    and "jg_judged j = \<lparr>jd_bytes = bs, jd_record = r, jd_view = view, jd_identity = v_identity view,
         jd_at = judged_index replay p, jd_evidence = evidence, jd_digests = v_digests view, jd_backing = jd_backing (jg_judged j), jd_demand = d,
         jd_demandId = v_ended view, jd_position = p\<rparr>"
proof -
  show thesis using assms unfolding judgmentOf_def Let_def
    by - (elim bindR_InrE, rule that, auto split: if_splits)
qed

lemma finish_judgment_InrE:
  assumes "finish_judgment C c db h replay j = Inr d"
  obtains "d = jg_judged j" and "supply_check (jd_view d) (jg_issuerKey j) (jg_total j) = Inr ()"
    and "jg_mode j \<noteq> Adoption \<Longrightarrow> checkInputs (jd_view d) (handle_view C c db h) = Inr ()"
    and "jg_mode j \<noteq> Adoption \<Longrightarrow> checkRecovery (jd_view d) (handle_view C c db h)
      \<lparr>rk_check = requireReplay, rk_backing = jg_backing j, rk_issuer = jg_issuerKey j, rk_at = jd_at d,
       rk_lag = sr_lag replay, rk_door = (jg_mode j = Admission \<and> v_kind (jd_view d) \<ge> 4)\<rparr> = Inr ()"
    and "checkUniqueEffects (v_nfs (jd_view d)) (v_outputs (jd_view d)) (handle_view C c db h) = Inr ()"
proof -
  show thesis using assms unfolding finish_judgment_def Let_def
    by - (elim bindR_InrE, rule that, auto elim!: bindR_InrE split: if_splits)
qed

lemma effect_of_InrE:
  assumes "effect_of c previous j replay = Inr ap"
  obtains tags minted outs where "touched_tags j = Inr tags" and "effect_supply j = Inr minted" and "effect_outputs c j replay = Inr outs"
    and "ap_identity ap = jd_identity j" and "ap_kind ap = v_kind (jd_view j)" and "ap_index ap = Some (jd_at j)" and "ap_record ap = jd_bytes j"
    and "ap_evidence ap = jd_evidence j" and "ap_supply ap = minted" and "ap_outputs ap = outs" and "ap_demand ap = v_demand (jd_view j)"
    and "ap_ended ap = v_ended (jd_view j)"
    and "ap_nullifiers ap = map (\<lambda>(i, nf). (nf, case at_index (v_tags (jd_view j)) i of None \<Rightarrow> - 1 | Some t \<Rightarrow> t)) (enumerate 0 (v_nfs (jd_view j)))"
    and "ap_history ap = (\<lambda>noteRoot spentRoot. c_nextHistory c previous (jd_identity j) noteRoot spentRoot (jd_position j + 1))"
proof -
  show thesis using assms unfolding effect_of_def Let_def
    by - (elim bindR_InrE, rule that, auto split: if_splits)
qed

lemma applyJudged_InrE:
  assumes "applyJudged C c db h j replay = Inr db'"
  obtains previous ap t where "state_position C db h = Inr (jd_position j)" and "state_history C db c h = Inr previous"
    and "effect_of c previous j replay = Inr ap" and "store_append C (sh_ns h) ap db = Inr (t, db')"
    and "\<And>lv. sr_lastValid replay = Some lv \<Longrightarrow> jd_position j + 1 = lv_position lv \<Longrightarrow> tip_history t = lv_historyHash lv"
proof -
  show thesis using assms unfolding applyJudged_def Let_def
    by - (elim bindR_InrE, clarsimp elim!: bindR_InrE, rule that, auto split: if_splits)
qed

lemma effect_nullifiers:
  assumes "length (v_tags view) = length (v_nfs view)"
  shows "map (\<lambda>(i, nf). (nf, case at_index (v_tags view) i of None \<Rightarrow> - 1 | Some t \<Rightarrow> t)) (enumerate 0 (v_nfs view)) = zip (v_nfs view) (v_tags view)"
  by (rule nth_equalityI) (use assms in \<open>auto simp: nth_enumerate_eq at_index_def\<close>)

lemma zip_second: "length ts = length xs \<Longrightarrow> snd ` set (zip xs ts) = set ts"
  by (metis list.set_map map_snd_zip)

end
