(* ===== verification/Application.thy ===== *)
theory Application
  imports RecoveryState Judging
begin

section \<open>A record applied: the state machine over the store\<close>

text \<open>
  What a successful application of a record at a segment's tip has checked and written, for any
  construction that keeps the contract of its views; pool v3 keeps it.  Applying a record is one step of
  the abstract recovery state, and over a whole run the stored chain values, identities and totals are
  those of the records applied.
\<close>

subsection \<open>What a tip handle reads\<close>

lemma tip_reads:
  assumes "state_position C db h = Inr p" and "sh_at h = None"
  obtains row where "db_namespace db (sh_ns h) = Some row" and "p = n_position row"
    and "\<And>c. state_history C db c h = Inr (n_history row)" and "\<And>c. state_evidence C db c h = Inr (n_evidence row)"
proof -
  obtain t where t: "store_tip C db (sh_ns h) = Inr t" "p = tip_position t" using assms by (auto simp: state_position_def mapR_Inr_conv)
  then obtain row where "db_namespace db (sh_ns h) = Some row" "tip_position t = n_position row" "tip_history t = n_history row" "tip_evidence t = n_evidence row"
    by (auto simp: store_tip_def namespace_of_def bindR_Inr_conv split: option.splits)
  then show thesis using t assms(2) that by (simp add: state_history_def state_evidence_def)
qed

lemma effect_digests:
  "effect_of c previous j replay = Inr ap \<Longrightarrow> ap_proofHash ap = e_proofHash (jd_digests j) \<and> ap_signatureHash ap = e_signatureHash (jd_digests j)"
  by (auto simp: effect_of_def Let_def bindR_Inr_conv)

text \<open>The backing a record is judged under and the key its issuer signs with, from the demand it names.\<close>

definition backing_under :: "segment_replay \<Rightarrow> statement_view \<Rightarrow> demand option \<Rightarrow> bytes" where
  "backing_under replay view d = (if v_needsDemand view then (case d of Some x \<Rightarrow> dm_backing x | None \<Rightarrow> sr_backing replay)
     else (case v_backings view of b # _ \<Rightarrow> b | [] \<Rightarrow> sr_backing replay))"

definition issuer_under :: "segment_replay \<Rightarrow> bytes \<Rightarrow> bytes" where
  "issuer_under replay backing = (case termsOf replay backing of Some k \<Rightarrow> k | None \<Rightarrow> sr_obligor replay)"

text \<open>The check a record is judged by at a position, over an abstract recovery state: the backing and issuer it is judged
  under, the index it is judged at, the venue's lag, and the door only where it is a recovery statement being admitted.\<close>

definition judged_check :: "segment_replay \<Rightarrow> int \<Rightarrow> recovery_state \<Rightarrow> statement_view \<Rightarrow> recovery_check" where
  "judged_check replay position rs view = (let backing = backing_under replay view (case v_ended view of None \<Rightarrow> None | Some name \<Rightarrow> rs_standing rs name) in
     \<lparr>rk_check = requireReplay, rk_backing = backing, rk_issuer = issuer_under replay backing, rk_at = judged_index replay position,
      rk_lag = sr_lag replay, rk_door = (modeAt replay position = Admission \<and> v_kind view \<ge> 4)\<rparr>)"

text \<open>What holds of an application that succeeded: the row it found, the record and view it read, the append it wrote.\<close>

definition application ::
    "crypto \<Rightarrow> 'r construction \<Rightarrow> database \<Rightarrow> int \<Rightarrow> state_view \<Rightarrow> bytes \<Rightarrow> segment_replay \<Rightarrow> database \<Rightarrow>
     namespace_row \<Rightarrow> 'r \<Rightarrow> statement_view \<Rightarrow> append \<Rightarrow> appended \<Rightarrow> string \<Rightarrow> bytes \<Rightarrow> bool" where
  "application C c db ns state bs replay db' row r view ap a key issuer \<longleftrightarrow> (let p = n_position row in
     db_namespace db ns = Some row \<and> p + 1 < VALUE_BOUND \<and> c_decode c bs = Inr r \<and> c_view c r (rv_demand state) = Inr view \<and>
     view_ok view \<and> v_identity view = e_statementHash (v_digests view) \<and> append_effect C ns ap db a db' \<and> apd_row a = row \<and>
     ap_identity ap = v_identity view \<and> ap_kind ap = v_kind view \<and> ap_demand ap = v_demand view \<and> ap_ended ap = v_ended view \<and>
     ap_nullifiers ap = zip (v_nfs view) (v_tags view) \<and> ap_record ap = bs \<and>
     ap_proofHash ap = e_proofHash (v_digests view) \<and> ap_signatureHash ap = e_signatureHash (v_digests view) \<and>
     ap_history ap = (\<lambda>noteRoot spentRoot. c_nextHistory c (n_history row) (v_identity view) noteRoot spentRoot (p + 1)) \<and>
     c_nextEvidence c (n_evidence row) (v_digests view) (p + 1) = Inr (ap_evidence ap) \<and>
     \<not> hasStatement db ns p (v_identity view) \<and> context_checks replay p bs view = Inr () \<and>
     (modeAt replay p \<noteq> Adoption \<longrightarrow> checkRecovery view state
       \<lparr>rk_check = requireReplay, rk_backing = unhex key, rk_issuer = issuer, rk_at = judged_index replay p,
        rk_lag = sr_lag replay, rk_door = (modeAt replay p = Admission \<and> v_kind view \<ge> 4)\<rparr> = Inr ()) \<and>
     (modeAt replay p = Admission \<longrightarrow> v_kind view \<ge> 4 \<longrightarrow> sr_lag replay \<noteq> None) \<and>
     (\<exists>d. (case v_ended view of None \<Rightarrow> Inr None | Some name \<Rightarrow> rv_demand state name) = Inr d \<and> unhex key = backing_under replay view d) \<and>
     issuer = issuer_under replay (unhex key) \<and>
     supply_check view issuer (store_total db ns p (unhex key)) = Inr () \<and>
     ap_supply ap = (if v_kind view = 1 then map_option (\<lambda>q. (key, q, 0)) (v_quantity view)
       else if v_kind view = 3 then map_option (\<lambda>q. (key, 0, q)) (v_quantity view) else None))"

lemma applicationD:
  assumes "application C c db ns state bs replay db' row r view ap a key issuer"
  shows "db_namespace db ns = Some row" and "n_position row + 1 < VALUE_BOUND" and "c_decode c bs = Inr r"
    and "c_view c r (rv_demand state) = Inr view" and "view_ok view" and "append_effect C ns ap db a db'" and "apd_row a = row"
    and "ap_identity ap = v_identity view" and "ap_kind ap = v_kind view" and "ap_demand ap = v_demand view" and "ap_ended ap = v_ended view"
    and "ap_nullifiers ap = zip (v_nfs view) (v_tags view)"
    and "ap_history ap = (\<lambda>noteRoot spentRoot. c_nextHistory c (n_history row) (v_identity view) noteRoot spentRoot (n_position row + 1))"
    and "c_nextEvidence c (n_evidence row) (v_digests view) (n_position row + 1) = Inr (ap_evidence ap)"
    and "\<not> hasStatement db ns (n_position row) (v_identity view)" and "context_checks replay (n_position row) bs view = Inr ()"
    and "modeAt replay (n_position row) \<noteq> Adoption \<Longrightarrow> checkRecovery view state
       \<lparr>rk_check = requireReplay, rk_backing = unhex key, rk_issuer = issuer, rk_at = judged_index replay (n_position row),
        rk_lag = sr_lag replay, rk_door = (modeAt replay (n_position row) = Admission \<and> v_kind view \<ge> 4)\<rparr> = Inr ()"
    and "modeAt replay (n_position row) = Admission \<Longrightarrow> v_kind view \<ge> 4 \<Longrightarrow> sr_lag replay \<noteq> None"
    and "supply_check view issuer (store_total db ns (n_position row) (unhex key)) = Inr ()"
    and "ap_supply ap = (if v_kind view = 1 then map_option (\<lambda>q. (key, q, 0)) (v_quantity view)
       else if v_kind view = 3 then map_option (\<lambda>q. (key, 0, q)) (v_quantity view) else None)"
    and "v_identity view = e_statementHash (v_digests view)" and "ap_proofHash ap = e_proofHash (v_digests view)"
    and "ap_signatureHash ap = e_signatureHash (v_digests view)" and "ap_record ap = bs"
    and "\<exists>d. (case v_ended view of None \<Rightarrow> Inr None | Some name \<Rightarrow> rv_demand state name) = Inr d \<and> unhex key = backing_under replay view d"
    and "issuer = issuer_under replay (unhex key)"
  using assms unfolding application_def Let_def by blast+

subsection \<open>Runs of a segment\<close>

text \<open>
  A segment opened over frontiers at or below their sources' tips and then advanced by applied records,
  while other namespaces of the same database grow in between.
\<close>

definition totals_ok :: "(string \<times> int \<times> int) list \<Rightarrow> bool" where
  "totals_ok tots \<longleftrightarrow> list_all (\<lambda>(_, issued, burned). 0 \<le> burned \<and> burned \<le> issued \<and> issued < VALUE_BOUND) tots"

inductive segment_run :: "crypto \<Rightarrow> 'r construction \<Rightarrow> bytes \<Rightarrow> state_handle \<Rightarrow> database \<Rightarrow> bool" for C c segment where
  opened: "reachable_store C db \<Longrightarrow> imports_within db imported \<Longrightarrow> totals_ok (case imported of None \<Rightarrow> [] | Some i \<Rightarrow> mi_totals i) \<Longrightarrow>
    openSegmentState C db segment identity imported c = Inr (h, db') \<Longrightarrow> segment_run C c segment h db'"
| applied: "segment_run C c segment h db \<Longrightarrow> applyRecord C c db h bs replay = Inr db' \<Longrightarrow> segment_run C c segment h db'"
| elsewhere: "segment_run C c segment h db \<Longrightarrow> ns \<noteq> sh_ns h \<Longrightarrow> store_append C ns record db = Inr (t, db') \<Longrightarrow> segment_run C c segment h db'"

definition own_events :: "database \<Rightarrow> int \<Rightarrow> event_row list" where
  "own_events db ns = filter (\<lambda>e. ev_ns e = ns) (db_event db)"

definition event_digests :: "event_row \<Rightarrow> evidence_digests" where
  "event_digests e = \<lparr>e_statementHash = ev_identity e, e_proofHash = ev_proofHash e, e_signatureHash = ev_signatureHash e\<rparr>"

definition stored_history :: "'r construction \<Rightarrow> bytes \<Rightarrow> event_row list \<Rightarrow> bytes result" where
  "stored_history c segment es = bindR (c_genesisHistory c segment) (\<lambda>g.
     foldR (\<lambda>h e. c_nextHistory c h (ev_identity e) (ev_noteRoot e) (ev_spentRoot e) (ev_position e)) g es)"

definition stored_evidence :: "'r construction \<Rightarrow> bytes \<Rightarrow> event_row list \<Rightarrow> bytes result" where
  "stored_evidence c segment es = bindR (c_genesisEvidence c segment) (\<lambda>g.
     foldR (\<lambda>h e. c_nextEvidence c h (event_digests e) (ev_position e)) g es)"

definition run_ok :: "'r construction \<Rightarrow> bytes \<Rightarrow> state_handle \<Rightarrow> database \<Rightarrow> bool" where
  "run_ok c segment h db \<longleftrightarrow> sh_at h = None \<and> (\<exists>row. db_namespace db (sh_ns h) = Some row \<and> n_segment row = segment \<and>
     map ev_position (own_events db (sh_ns h)) = map int [1..<length (own_events db (sh_ns h)) + 1] \<and>
     n_position row = int (length (own_events db (sh_ns h))) \<and>
     stored_history c segment (own_events db (sh_ns h)) = Inr (n_history row) \<and>
     stored_evidence c segment (own_events db (sh_ns h)) = Inr (n_evidence row) \<and>
     distinct (map ev_identity (own_events db (sh_ns h))) \<and>
     (\<forall>x \<in> set (db_total db). tt_ns x = sh_ns h \<longrightarrow> 0 \<le> tt_burned x \<and> tt_burned x \<le> tt_issued x \<and> tt_issued x < VALUE_BOUND))"

lemma bindR_unit: "bindR x Inr = x"
  by (cases x) simp_all

lemma foldR_snoc: "foldR f z (xs @ [x]) = bindR (foldR f z xs) (\<lambda>y. f y x)"
  by (induction xs arbitrary: z) (simp_all add: bindR_unit)

lemma latest_total_in: "latest_total rows = Some r \<Longrightarrow> r \<in> set rows"
proof -
  have "foldl (\<lambda>best r. case best of None \<Rightarrow> Some r | Some b \<Rightarrow> if tt_position r > tt_position b then Some r else Some b) start rows = Some r \<Longrightarrow>
      r \<in> set rows \<or> start = Some r" for start
    by (induction rows arbitrary: start) (fastforce split: option.splits if_splits)+
  then show "latest_total rows = Some r \<Longrightarrow> r \<in> set rows" unfolding latest_total_def by blast
qed

lemma store_total_bounds:
  assumes "\<forall>x \<in> set (db_total db). tt_ns x = ns \<longrightarrow> 0 \<le> tt_burned x \<and> tt_burned x \<le> tt_issued x \<and> tt_issued x < VALUE_BOUND"
    and "store_total db ns p b = (i, u)"
  shows "0 \<le> u \<and> u \<le> i \<and> i < VALUE_BOUND"
proof (cases "latest_total (filter (\<lambda>r. tt_ns r = ns \<and> tt_backing r = b \<and> tt_position r \<le> p) (db_total db))")
  case None
  then show ?thesis using assms(2) by (simp add: store_total_def VALUE_BOUND_def)
next
  case (Some r)
  from latest_total_in [OF Some] have "r \<in> set (db_total db)" "tt_ns r = ns" by simp_all
  then show ?thesis using assms Some by (auto simp: store_total_def)
qed

lemma applied_reachable:
  assumes "reachable_store C db" and "applyRecord C c db h bs replay = Inr db'"
  shows "reachable_store C db'"
proof -
  obtain d where "applyJudged C c db h d replay = Inr db'" using assms(2) by (auto simp: applyRecord_def bindR_Inr_conv)
  then obtain ap t where "store_append C (sh_ns h) ap db = Inr (t, db')" by (rule applyJudged_InrE)
  then show ?thesis by (rule reachable_store.appended [OF assms(1)])
qed

lemma run_reachable: "segment_run C c segment h db \<Longrightarrow> reachable_store C db"
proof (induction rule: segment_run.induct)
  case (opened db imported identity h db')
  then obtain ns gh ge where "store_open C db segment identity imported gh ge (c_namespace c) = Inr (ns, db')"
    by (auto simp: openSegmentState_def bindR_Inr_conv mapR_Inr_conv)
  then show ?case using reachable_store.opened [OF opened(1,2)] by blast
next
  case (applied h db bs replay db')
  then show ?case using applied_reachable by blast
next
  case (elsewhere h db ns _ t db')
  then show ?case using reachable_store.appended by blast
qed

lemma opened_run_ok:
  assumes "reachable_store C db" and "totals_ok (case imported of None \<Rightarrow> [] | Some i \<Rightarrow> mi_totals i)"
    and "openSegmentState C db segment identity imported c = Inr (h, db')"
  shows "run_ok c segment h db'"
proof -
  obtain gh ge ns where gh: "c_genesisHistory c segment = Inr gh" and ge: "c_genesisEvidence c segment = Inr ge"
    and op: "store_open C db segment identity imported gh ge (c_namespace c) = Inr (ns, db')" and h: "newStateHandle db' ns None c = Inr h"
    using assms(3) by (auto simp: openSegmentState_def bindR_Inr_conv mapR_Inr_conv)
  obtain o' where eff: "open_effect C db segment imported gh ge (c_namespace c) o' db'" and ns: "ns = db_next db"
    using op by (rule store_open_effect)
  have hh: "sh_ns h = ns" "sh_at h = None" using h by (auto simp: newStateHandle_def bindR_Inr_conv split: if_splits)
  have f: "db_namespace db' ns = Some (opd_row o')" "n_segment (opd_row o') = segment" "n_position (opd_row o') = 0" "n_history (opd_row o') = gh"
    "n_evidence (opd_row o') = ge" "db_event db' = db_event db"
    "db_total db' = open_totals ns (case imported of None \<Rightarrow> [] | Some i \<Rightarrow> mi_totals i) (db_total db)"
    using eff unfolding ns by (simp_all add: open_effect_def Let_def)
  have fresh: "db_namespace db ns = None"
  proof (cases "db_namespace db ns")
    case (Some r)
    then have "ns < db_next db" using reachable_inv [OF assms(1)] unfolding store_inv_def by blast
    then show ?thesis using ns by simp
  qed
  have none: "own_events db' ns = []"
    using reachable_rows_bounded [OF assms(1)] fresh by (fastforce simp: own_events_def f(6) rows_bounded_def filter_empty_conv)
  have no_total: "tt_ns x \<noteq> ns" if "x \<in> set (db_total db)" for x
    using reachable_rows_bounded [OF assms(1)] fresh that by (fastforce simp: rows_bounded_def)
  have tot: "0 \<le> tt_burned x \<and> tt_burned x \<le> tt_issued x \<and> tt_issued x < VALUE_BOUND"
    if "x \<in> set (open_totals ns tots rows)" "tt_ns x = ns" "totals_ok tots" "\<forall>x \<in> set rows. tt_ns x = ns \<longrightarrow> 0 \<le> tt_burned x \<and> tt_burned x \<le> tt_issued x \<and> tt_issued x < VALUE_BOUND"
    for x tots rows
    using that by (induction tots arbitrary: rows) (auto simp: open_totals_def replace_row_def totals_ok_def)
  show ?thesis unfolding run_ok_def hh using f none gh ge tot [of _ _ "db_total db"] no_total assms(2)
    by (auto simp: stored_history_def stored_evidence_def)
qed

lemma elsewhere_run_ok:
  assumes ok: "run_ok c segment h db" and ns: "ns \<noteq> sh_ns h" and st: "store_append C ns record db = Inr (t, db')"
  shows "run_ok c segment h db'"
proof -
  obtain a where a: "append_effect C ns record db a db'" using st by (rule store_append_effect)
  have f: "db_namespace db' (sh_ns h) = db_namespace db (sh_ns h)" "own_events db' (sh_ns h) = own_events db (sh_ns h)"
    "\<And>x. x \<in> set (db_total db') \<Longrightarrow> tt_ns x = sh_ns h \<Longrightarrow> x \<in> set (db_total db)"
    using a ns supply_rows_in by (fastforce simp: append_effect_def Let_def own_events_def event_row_of_def)+
  show ?thesis using ok f unfolding run_ok_def by (auto simp: f(1,2))
qed

subsection \<open>The contract of a construction's views\<close>

locale construction_views =
  fixes con :: "crypto \<Rightarrow> 'r construction"
    and good :: "crypto \<Rightarrow> bool"
  assumes views: "good C \<Longrightarrow> c_decode (con C) bs = Inr r \<Longrightarrow> c_kind (con C) r \<in> {1, 2, 3, 4, 5, 6} \<Longrightarrow>
    c_view (con C) r look = Inr v \<Longrightarrow> view_ok v \<and> v_kind v = c_kind (con C) r \<and> v_identity v = e_statementHash (v_digests v)"
begin

lemma applied:
  assumes good: "good C" and run: "applyRecord C (con C) db h bs replay = Inr db'" and tip: "sh_at h = None"
  obtains row r view ap a key issuer where
    "application C (con C) db (sh_ns h) (handle_view C (con C) db h) bs replay db' row r view ap a key issuer"
proof -
  from run obtain j0 d where j0: "judgmentOf C (con C) db h bs replay = Inr j0" and fin: "finish_judgment C (con C) db h replay j0 = Inr d"
    and app: "applyJudged C (con C) db h d replay = Inr db'"
    by (auto simp: applyRecord_def judgeRecord_def bindR_Inr_conv)
  from app obtain previous ap t where pos: "state_position C db h = Inr (jd_position d)" and hist: "state_history C db (con C) h = Inr previous"
    and eff: "effect_of (con C) previous d replay = Inr ap" and st: "store_append C (sh_ns h) ap db = Inr (t, db')"
    by (rule applyJudged_InrE)
  from pos tip obtain row where row: "db_namespace db (sh_ns h) = Some row" "jd_position d = n_position row"
    "state_history C db (con C) h = Inr (n_history row)" "state_evidence C db (con C) h = Inr (n_evidence row)"
    by (rule tip_reads) blast
  from j0 obtain p r view dem tot prev evidence where j: "state_position C db h = Inr p" "decode_or_malformed (con C) bs = Inr r"
    "c_kind (con C) r \<in> {1, 2, 3, 4, 5, 6}" "p + 1 < VALUE_BOUND"
    "\<not> (modeAt replay p = Admission \<and> c_kind (con C) r \<ge> 4 \<and> sr_lag replay = None)"
    "c_view (con C) r (rv_demand (handle_view C (con C) db h)) = Inr view"
    "(case v_ended view of None \<Rightarrow> Inr None | Some name \<Rightarrow> rv_demand (handle_view C (con C) db h) name) = Inr dem"
    "state_total C db h (jd_backing (jg_judged j0)) = Inr tot" "context_checks replay p bs view = Inr ()"
    "state_hasStatement C db h (v_identity view) = Inr False"
    "state_evidence C db (con C) h = Inr prev" "c_nextEvidence (con C) prev (v_digests view) (p + 1) = Inr evidence"
    "jg_mode j0 = modeAt replay p" "jg_total j0 = tot" "jd_backing (jg_judged j0) = hex (jg_backing j0)"
    "jg_judged j0 = \<lparr>jd_bytes = bs, jd_record = r, jd_view = view, jd_identity = v_identity view,
         jd_at = judged_index replay p, jd_evidence = evidence, jd_digests = v_digests view, jd_backing = jd_backing (jg_judged j0), jd_demand = dem,
         jd_demandId = v_ended view, jd_position = p\<rparr>"
    "jg_backing j0 = backing_under replay view dem" "jg_issuerKey j0 = issuer_under replay (jg_backing j0)"
    unfolding backing_under_def issuer_under_def by (rule judgmentOf_InrE) blast
  have p: "p = n_position row" using j(1) pos row(2) by simp
  from fin have f: "d = jg_judged j0" "supply_check (jd_view d) (jg_issuerKey j0) (jg_total j0) = Inr ()"
    "jg_mode j0 \<noteq> Adoption \<Longrightarrow> checkRecovery (jd_view d) (handle_view C (con C) db h)
      \<lparr>rk_check = requireReplay, rk_backing = jg_backing j0, rk_issuer = jg_issuerKey j0, rk_at = jd_at d,
       rk_lag = sr_lag replay, rk_door = (jg_mode j0 = Admission \<and> v_kind (jd_view d) \<ge> 4)\<rparr> = Inr ()"
    by (rule finish_judgment_InrE, simp)+
  have d: "jd_view d = view" "jd_identity d = v_identity view" "jd_at d = judged_index replay p" "jd_evidence d = evidence" "jd_bytes d = bs"
    "jd_digests d = v_digests view" "jd_backing d = hex (jg_backing j0)" "jd_position d = p"
    using f(1) j(15,16) by (metis judged.select_convs)+
  have decode: "c_decode (con C) bs = Inr r" using j(2) by (auto simp: decode_or_malformed_def split: sum.splits error.splits)
  note view = views [OF good decode j(3,6)]
  from eff obtain minted where ap: "effect_supply d = Inr minted" "ap_identity ap = jd_identity d" "ap_kind ap = v_kind view" "ap_record ap = bs"
    "ap_evidence ap = evidence" "ap_supply ap = minted" "ap_demand ap = v_demand view" "ap_ended ap = v_ended view"
    "ap_nullifiers ap = map (\<lambda>(i, nf). (nf, case at_index (v_tags view) i of None \<Rightarrow> - 1 | Some t \<Rightarrow> t)) (enumerate 0 (v_nfs view))"
    "ap_history ap = (\<lambda>noteRoot spentRoot. c_nextHistory (con C) previous (jd_identity d) noteRoot spentRoot (p + 1))"
    by (rule effect_of_InrE) (simp add: d)
  have digests: "ap_proofHash ap = e_proofHash (v_digests view)" "ap_signatureHash ap = e_signatureHash (v_digests view)"
    using effect_digests [OF eff] d by simp_all
  obtain a where a: "append_effect C (sh_ns h) ap db a db'" using st by (rule store_append_effect)
  have arow: "apd_row a = row" using a row(1) by (simp add: append_effect_def Let_def)
  have sup: "minted = (if v_kind view = 1 then map_option (\<lambda>q. (hex (jg_backing j0), q, 0)) (v_quantity view)
      else if v_kind view = 3 then map_option (\<lambda>q. (hex (jg_backing j0), 0, q)) (v_quantity view) else None)"
    using ap(1) by (auto simp: effect_supply_def Let_def d split: option.splits if_splits)
  have total: "jg_total j0 = store_total db (sh_ns h) (n_position row) (jg_backing j0)"
    using j(1,8,14,15) p by (simp add: state_total_def mapR_Inr_conv)
  have nfs: "ap_nullifiers ap = zip (v_nfs view) (v_tags view)" using ap(9) view by (simp add: effect_nullifiers view_ok_def)
  have unseen: "\<not> hasStatement db (sh_ns h) (n_position row) (v_identity view)" using j(1,10) p by (simp add: state_hasStatement_def mapR_Inr_conv)
  have prev: "previous = n_history row" "prev = n_evidence row" using hist row(3,4) j(11) by simp_all
  have checked: "checkRecovery view (handle_view C (con C) db h)
      \<lparr>rk_check = requireReplay, rk_backing = unhex (hex (jg_backing j0)), rk_issuer = jg_issuerKey j0, rk_at = judged_index replay (n_position row),
       rk_lag = sr_lag replay, rk_door = (modeAt replay (n_position row) = Admission \<and> v_kind view \<ge> 4)\<rparr> = Inr ()"
    if "modeAt replay (n_position row) \<noteq> Adoption"
    using f(3) that j(13) p unfolding d unhex_hex by simp
  have "application C (con C) db (sh_ns h) (handle_view C (con C) db h) bs replay db' row r view ap a (hex (jg_backing j0)) (jg_issuerKey j0)"
    unfolding application_def Let_def
  proof (intro conjI)
    show "ap_identity ap = v_identity view" using ap(2) d by simp
    show "ap_history ap = (\<lambda>noteRoot spentRoot. c_nextHistory (con C) (n_history row) (v_identity view) noteRoot spentRoot (n_position row + 1))"
      using ap(10) prev p d by simp
    show "c_nextEvidence (con C) (n_evidence row) (v_digests view) (n_position row + 1) = Inr (ap_evidence ap)" using j(12) ap(5) prev p by simp
    show "supply_check view (jg_issuerKey j0) (store_total db (sh_ns h) (n_position row) (unhex (hex (jg_backing j0)))) = Inr ()"
      using f(2) total d by simp
    show "ap_supply ap = (if v_kind view = 1 then map_option (\<lambda>q. (hex (jg_backing j0), q, 0)) (v_quantity view)
      else if v_kind view = 3 then map_option (\<lambda>q. (hex (jg_backing j0), 0, q)) (v_quantity view) else None)" using ap(6) sup by simp
    show "modeAt replay (n_position row) = Admission \<longrightarrow> v_kind view \<ge> 4 \<longrightarrow> sr_lag replay \<noteq> None" using j(5) view p by auto
    show "context_checks replay (n_position row) bs view = Inr ()" using j(9) p by simp
    show "n_position row + 1 < VALUE_BOUND" using j(4) p by simp
    show "\<exists>d. (case v_ended view of None \<Rightarrow> Inr None | Some name \<Rightarrow> rv_demand (handle_view C (con C) db h) name) = Inr d \<and>
      unhex (hex (jg_backing j0)) = backing_under replay view d" using j(7,17) by simp
    show "jg_issuerKey j0 = issuer_under replay (unhex (hex (jg_backing j0)))" using j(18) by simp
  qed (use row(1) decode j(6) view a arow ap digests nfs unseen checked in simp_all)
  then show thesis by (rule that)
qed

text \<open>An applied record whose statement is new where it is a recovery statement, and whose ended demand stands, makes one abstract step.\<close>

lemma applied_step:
  assumes app: "application C (con C) db (sh_ns h) (handle_view C (con C) db h) bs replay db' row r view ap a key issuer"
    and bounded: "rows_bounded db" and ok: "recovery_ok db (sh_ns h) (n_position row)"
    and fresh: "4 \<le> v_kind view \<Longrightarrow> v_identity view \<notin> rs_effective (recovery_at db (sh_ns h) (n_position row))"
    and stands: "\<And>n. v_ended view = Some n \<Longrightarrow> rs_standing (recovery_at db (sh_ns h) (n_position row)) n \<noteq> None"
  shows "recovery_ok db' (sh_ns h) (n_position row + 1) \<and>
    recovery_at db' (sh_ns h) (n_position row + 1) = recovery_step (v_demand view) (v_ended view)
      (if 4 \<le> v_kind view then {v_identity view} else {}) (set (v_tags view)) (recovery_at db (sh_ns h) (n_position row))"
proof -
  let ?ns = "sh_ns h" and ?p = "n_position row"
  let ?rs = "recovery_at db ?ns ?p"
  note x = applicationD(3-12) [OF app]
  have new: "new_demand db ?ns ?p ap"
  proof -
    have "n \<notin> dr_id ` set (visible_demands db ?ns ?p)" if d: "v_demand view = Some (n, d)" for n d
    proof
      assume "n \<in> dr_id ` set (visible_demands db ?ns ?p)"
      then obtain y where y: "y \<in> set (db_demand db)" "visible db ?ns ?p (dr_ns y) (dr_position y)" "n = dr_id y" by (auto simp: visible_demands_def)
      obtain e where e: "e \<in> set (db_event db)" "ev_ns e = dr_ns y" "ev_position e = dr_position y" "4 \<le> ev_kind e" "dr_id y = hex (ev_identity e)"
        using ok y(1) by (auto simp: recovery_ok_def demands_ok_def demand_row_ok_def)
      have "n = hex (v_identity view)" "v_kind view = 4" using x(3) d by (auto simp: view_ok_def)
      then have "ev_identity e = v_identity view" using y(3) e(5) hex_inj by metis
      then have "v_identity view \<in> rs_effective ?rs" using e y(2) by (auto simp: recovery_at_def)
      then show False using fresh \<open>v_kind view = 4\<close> by simp
    qed
    moreover have "n = hex (v_identity view) \<and> 4 \<le> v_kind view \<and> length (dm_tags d) = 2 \<and> dm_nullifiers d \<noteq> Some []"
      if d: "v_demand view = Some (n, d)" for n d
    proof -
      have "n = hex (v_identity view)" "demand_ok d" "v_kind view = 4" using x(3) d unfolding view_ok_def by blast+
      then show ?thesis by (simp add: demand_ok_def)
    qed
    ultimately show ?thesis unfolding new_demand_def x(6-8) by blast
  qed
  have ends: "n \<in> dr_id ` set (visible_demands db ?ns ?p)" if "v_ended view = Some n" for n
  proof -
    have "rs_standing ?rs n \<noteq> None" using that by (rule stands)
    then obtain y where "find (\<lambda>z. dr_id z = n) (standing_demands db ?ns ?p) = Some y" by (auto simp: recovery_at_def)
    from find_in [OF this] show ?thesis by (auto simp: standing_demands_def)
  qed
  have tags: "snd ` set (ap_nullifiers ap) = set (v_tags view)" using x(3,10) by (simp add: view_ok_def zip_second)
  note step = append_recovery_step [OF bounded x(4), unfolded x(5), OF ok new]
  show ?thesis using step ends x(6-9) tags by simp
qed

lemma applied_row:
  assumes "good C" and "applyRecord C (con C) db h bs replay = Inr db'" and "sh_at h = None" and "db_namespace db (sh_ns h) = Some row"
  shows "\<exists>row'. db_namespace db' (sh_ns h) = Some row' \<and> n_position row' = n_position row + 1"
proof -
  obtain row' r view ap a key issuer where app: "application C (con C) db (sh_ns h) (handle_view C (con C) db h) bs replay db' row' r view ap a key issuer"
    by (rule applied [OF assms(1-3)])
  then show ?thesis using applicationD(1,6,7) [OF app] assms(4) by (auto simp: append_effect_def Let_def)
qed

text \<open>Outside an adopted block, an applied record was allowed by the abstract state under the check it is judged by, and makes one abstract step.\<close>

lemma applied_recovery:
  assumes good: "good C" and reach: "reachable_store C db" and tip: "sh_at h = None"
    and row: "db_namespace db (sh_ns h) = Some row" and ok: "recovery_ok db (sh_ns h) (n_position row)"
    and run: "applyRecord C (con C) db h bs replay = Inr db'" and mode: "modeAt replay (n_position row) \<noteq> Adoption"
  shows "\<exists>r view. c_decode (con C) bs = Inr r \<and> c_view (con C) r (\<lambda>name. Inr (rs_standing (recovery_at db (sh_ns h) (n_position row)) name)) = Inr view \<and>
    recovery_allowed (recovery_at db (sh_ns h) (n_position row)) view
      (judged_check replay (n_position row) (recovery_at db (sh_ns h) (n_position row)) view) \<and>
    recovery_ok db' (sh_ns h) (n_position row + 1) \<and>
    recovery_at db' (sh_ns h) (n_position row + 1) = recovery_step (v_demand view) (v_ended view)
      (if 4 \<le> v_kind view then {v_identity view} else {}) (set (v_tags view)) (recovery_at db (sh_ns h) (n_position row))"
proof -
  let ?ns = "sh_ns h" and ?p = "n_position row"
  let ?rs = "recovery_at db ?ns ?p"
  obtain row' r view ap a key issuer where app: "application C (con C) db ?ns (handle_view C (con C) db h) bs replay db' row' r view ap a key issuer"
    by (rule applied [OF good run tip])
  then have "row' = row" using row applicationD(1) by fastforce
  note app = app [unfolded this]
  note x = applicationD(3-5) [OF app] and check = applicationD(17) [OF app mode] and lag = applicationD(18) [OF app]
  have pos: "state_position C db h = Inr ?p"
  proof -
    from run obtain q where "state_position C db h = Inr q" by (auto simp: applyRecord_def judgeRecord_def judgmentOf_def bindR_Inr_conv)
    with tip row show ?thesis by (metis tip_reads option.inject)
  qed
  have hok: "(\<lambda>(db, h, p). handle_ok C db h p) (db, h, ?p)" using ok pos by (simp add: handle_ok_def)
  have demand: "rv_demand (handle_view C (con C) db h) name = Inr (rs_standing ?rs name)" for name
    using stored.demand_read [where c = "con C", OF hok] by simp
  have "unhex key = backing_under replay view (case v_ended view of None \<Rightarrow> None | Some name \<Rightarrow> rs_standing ?rs name)"
    using applicationD(25) [OF app] by (auto simp: demand split: option.splits)
  then have k: "judged_check replay ?p ?rs view = \<lparr>rk_check = requireReplay, rk_backing = unhex key, rk_issuer = issuer,
      rk_at = judged_index replay ?p, rk_lag = sr_lag replay, rk_door = (modeAt replay ?p = Admission \<and> v_kind view \<ge> 4)\<rparr>"
    using applicationD(26) [OF app] by (simp add: judged_check_def Let_def)
  have allowed: "recovery_allowed ?rs view (judged_check replay ?p ?rs view)"
  proof -
    have tags: "\<forall>t \<in> set (v_tags view). stored_key t" using x(3) by (simp add: view_ok_def list_all_iff)
    have dem: "v_kind view = 4 \<longrightarrow> (\<exists>id d. v_demand view = Some (id, d) \<and> (\<forall>t \<in> set (dm_tags d). stored_key t))"
      using x(3) by (fastforce simp: view_ok_def demand_ok_def list_all_iff)
    show ?thesis unfolding k using stored.checkRecovery_exact [where c = "con C", OF hok _ _ tags dem] check lag by simp
  qed
  have fresh: "4 \<le> v_kind view \<Longrightarrow> v_identity view \<notin> rs_effective ?rs" using allowed by (simp add: recovery_allowed_def)
  have stands: "rs_standing ?rs n \<noteq> None" if "v_ended view = Some n" for n
  proof -
    have "v_kind view = 5 \<or> v_kind view = 6" using x(3) that by (auto simp: view_ok_def)
    then show ?thesis using allowed that by (auto simp: recovery_allowed_def)
  qed
  have look: "rv_demand (handle_view C (con C) db h) = (\<lambda>name. Inr (rs_standing ?rs name))" using demand by (intro ext)
  show ?thesis using applied_step [OF app reachable_rows_bounded [OF reach] ok fresh stands] allowed x(1,2) unfolding look by blast
qed

lemma applied_run_ok:
  assumes good: "good C" and ok: "run_ok (con C) segment h db" and run: "applyRecord C (con C) db h bs replay = Inr db'"
  shows "run_ok (con C) segment h db'"
proof -
  let ?ns = "sh_ns h" and ?c = "con C"
  have tip: "sh_at h = None" using ok by (simp add: run_ok_def)
  obtain row r view ap a key issuer where app: "application C ?c db ?ns (handle_view C ?c db h) bs replay db' row r view ap a key issuer"
    by (rule applied [OF good run tip])
  note x = applicationD [OF app]
  let ?es = "own_events db ?ns" and ?p = "n_position row"
  have row: "n_segment row = segment" "map ev_position ?es = map int [1..<length ?es + 1]" "?p = int (length ?es)"
    "stored_history ?c segment ?es = Inr (n_history row)" "stored_evidence ?c segment ?es = Inr (n_evidence row)" "distinct (map ev_identity ?es)"
    and tots: "\<forall>y \<in> set (db_total db). tt_ns y = ?ns \<longrightarrow> 0 \<le> tt_burned y \<and> tt_burned y \<le> tt_issued y \<and> tt_issued y < VALUE_BOUND"
    using ok x(1) by (auto simp: run_ok_def)
  let ?e = "event_row_of ?ns (?p + 1) ap (apd_history a) (apd_root a) (apd_spentRoot a)"
  have eff: "db_event db' = db_event db @ [?e]" "ap_history ap (apd_root a) (apd_spentRoot a) = Inr (apd_history a)"
    "db_total db' = supply_rows ?ns (?p + 1) (ap_supply ap) db"
    and row': "\<exists>row'. db_namespace db' ?ns = Some row' \<and> n_segment row' = segment \<and> n_position row' = ?p + 1 \<and>
      n_history row' = apd_history a \<and> n_evidence row' = ap_evidence ap"
    using x(6) row(1) unfolding append_effect_def Let_def x(7) by auto
  have es: "own_events db' ?ns = ?es @ [?e]" by (simp add: own_events_def eff(1) event_row_of_def)
  have e: "ev_position ?e = ?p + 1" "ev_identity ?e = v_identity view" "event_digests ?e = v_digests view"
    "ev_noteRoot ?e = apd_root a" "ev_spentRoot ?e = apd_spentRoot a"
    using x(8,21-23) by (simp_all add: event_row_of_def event_digests_def)
  have "stored_history ?c segment (own_events db' ?ns) = Inr (apd_history a)"
    using row(4) eff(2) x(13) unfolding es stored_history_def by (auto simp: bindR_Inr_conv foldR_snoc e)
  moreover have "stored_evidence ?c segment (own_events db' ?ns) = Inr (ap_evidence ap)"
    using row(5) x(14) unfolding es stored_evidence_def by (auto simp: bindR_Inr_conv foldR_snoc e)
  moreover have "v_identity view \<notin> ev_identity ` set ?es"
  proof
    assume "v_identity view \<in> ev_identity ` set ?es"
    then obtain y where y: "y \<in> set ?es" "ev_identity y = v_identity view" by auto
    have "ev_position y \<in> set (map ev_position ?es)" using y(1) by simp
    then have "ev_position y \<le> ?p" unfolding row(2,3) by auto
    moreover have "y \<in> set (db_event db)" "ev_ns y = ?ns" using y(1) by (auto simp: own_events_def)
    ultimately show False using x(15) y(2) by (auto simp: hasStatement_def list_ex_iff)
  qed
  moreover have "0 \<le> tt_burned y \<and> tt_burned y \<le> tt_issued y \<and> tt_issued y < VALUE_BOUND"
    if y: "y \<in> set (db_total db')" "tt_ns y = ?ns" for y
  proof (cases "y \<in> set (db_total db)")
    case True
    then show ?thesis using tots y(2) by blast
  next
    case False
    obtain i u where iu: "store_total db ?ns ?p (unhex key) = (i, u)" by (cases "store_total db ?ns ?p (unhex key)")
    note b = store_total_bounds [OF tots iu]
    have view_q: "\<And>q. v_quantity view = Some q \<Longrightarrow> 0 < q" using x(5) by (simp add: view_ok_def)
    consider q where "v_kind view = 1" "v_quantity view = Some q" "ap_supply ap = Some (key, q, 0)"
      | q where "v_kind view = 3" "v_quantity view = Some q" "ap_supply ap = Some (key, 0, q)" | "ap_supply ap = None"
      using x(20) by (cases "v_quantity view") (auto split: if_splits)
    then show ?thesis
    proof cases
      case 1
      then have "tt_issued y = i + q" "tt_burned y = u" "i + q < VALUE_BOUND"
        using False y(1) iu x(19) by (auto simp: eff(3) supply_rows_def replace_row_def supply_check_def bindR_Inr_conv)
      then show ?thesis using b view_q 1(2) by fastforce
    next
      case 2
      then have "tt_issued y = i" "tt_burned y = u + q" "q \<le> i - u"
        using False y(1) iu x(19) by (auto simp: eff(3) supply_rows_def replace_row_def supply_check_def bindR_Inr_conv)
      then show ?thesis using b view_q 2(2) by fastforce
    next
      case 3
      then show ?thesis using False y(1) by (simp add: eff(3) supply_rows_def)
    qed
  qed
  moreover have "map ev_position (own_events db' ?ns) = map int [1..<length (own_events db' ?ns) + 1]"
    using row(2,3) unfolding es by (simp add: event_row_of_def)
  moreover have "distinct (map ev_identity (own_events db' ?ns))"
    using row(6) calculation(3) unfolding es by (simp add: e(2))
  moreover obtain row' where "db_namespace db' ?ns = Some row'" "n_segment row' = segment" "n_position row' = ?p + 1"
      "n_history row' = apd_history a" "n_evidence row' = ap_evidence ap" using row' by blast
  moreover have "?p + 1 = int (length (own_events db' ?ns))" using row(3) unfolding es by simp
  ultimately show ?thesis unfolding run_ok_def using tip by (intro conjI exI [of _ row']) simp_all
qed

lemma run_ok_run: "segment_run C (con C) segment h db \<Longrightarrow> good C \<Longrightarrow> run_ok (con C) segment h db"
proof (induction rule: segment_run.induct)
  case (opened db imported identity h db')
  then show ?case using opened_run_ok by blast
next
  case (applied h db bs replay db')
  then show ?case using applied_run_ok by blast
next
  case (elsewhere h db ns _ t db')
  then show ?case using elsewhere_run_ok by blast
qed

end

interpretation pool: construction_views POOL_V3 "\<lambda>C. poseidon_ok C \<and> sha_width C"
proof unfold_locales
  fix C bs r look v
  assume a: "poseidon_ok C \<and> sha_width C" and d: "c_decode (POOL_V3 C) bs = Inr r"
    and k: "c_kind (POOL_V3 C) r \<in> {1, 2, 3, 4, 5, 6}" and v: "c_view (POOL_V3 C) r look = Inr v"
  have "decodeRecord C bs = Inr r" "s_kind r \<noteq> 7" using d k by (auto simp: POOL_V3_def)
  from pool_view_total [OF conjunct1 [OF a] conjunct2 [OF a] this, of look] v
  show "view_ok v \<and> v_kind v = c_kind (POOL_V3 C) r \<and> v_identity v = e_statementHash (v_digests v)"
    by (auto simp: POOL_V3_def)
qed

end
