(* ===== verification/ForcedState.thy ===== *)
theory ForcedState
  imports Application
begin

section \<open>Forced publications over a snapshot\<close>

text \<open>
  A publication forced against a snapshot takes effect in memory only.  The overlay reads as an
  abstract recovery state too, each forced record is the step an appended record is, and nothing
  the overlay does reaches its base.
\<close>

subsection \<open>The recovery state of an overlay\<close>

definition forced_recovery :: "recovery_state \<Rightarrow> force_state \<Rightarrow> recovery_state" where
  "forced_recovery r s = \<lparr>rs_standing = (\<lambda>name. if name \<in> fs_ended s then None
       else (case map_of (fs_added s) name of Some d \<Rightarrow> Some d | None \<Rightarrow> rs_standing r name)),
     rs_effective = {h. hex h \<in> fs_effective s} \<union> rs_effective r, rs_spent = fs_spentTags s \<union> rs_spent r\<rparr>"

text \<open>Every standing demand is an effective statement's, so a new statement never reuses a name.\<close>

definition named_ok :: "recovery_state \<Rightarrow> bool" where
  "named_ok r \<longleftrightarrow> (\<forall>name d. rs_standing r name = Some d \<longrightarrow> name \<in> hex ` rs_effective r)"

definition forced_ok :: "recovery_state \<Rightarrow> force_state \<Rightarrow> bool" where
  "forced_ok r s \<longleftrightarrow> reads_as (fs_base s) r \<and> named_ok r \<and> distinct (map fst (fs_added s)) \<and>
     (\<forall>name \<in> fst ` set (fs_added s). rs_standing r name = None) \<and>
     fst ` set (fs_added s) \<union> fs_ended s \<subseteq> hex ` rs_effective (forced_recovery r s)"

lemma forced_reads: "forced_ok r s \<Longrightarrow> reads_as (force_view s) (forced_recovery r s)"
proof -
  assume ok: "forced_ok r s"
  have base: "\<And>name. rv_demand (fs_base s) name = Inr (rs_standing r name)" "\<And>h. rv_isEffective (fs_base s) (hex h) = Inr (h \<in> rs_effective r)"
    "\<And>t. stored_key t \<Longrightarrow> rv_hasSpentTag (fs_base s) t = Inr (t \<in> rs_spent r)"
    and tagged: "\<And>t. stored_key t \<Longrightarrow> \<exists>ds. rv_demandsWithTag (fs_base s) t = Inr ds \<and>
        (\<forall>id d. (id, d) \<in> set ds \<longleftrightarrow> rs_standing r id = Some d \<and> t \<in> set (dm_tags d))"
    using ok by (auto simp: forced_ok_def reads_as_def)
  have dist: "distinct (map fst (fs_added s))" and new: "\<forall>name \<in> fst ` set (fs_added s). rs_standing r name = None"
    using ok by (simp_all add: forced_ok_def)
  have "\<exists>ds. rv_demandsWithTag (force_view s) t = Inr ds \<and>
      (\<forall>id d. (id, d) \<in> set ds \<longleftrightarrow> rs_standing (forced_recovery r s) id = Some d \<and> t \<in> set (dm_tags d))" if t: "stored_key t" for t
  proof -
    obtain ds where ds: "rv_demandsWithTag (fs_base s) t = Inr ds" "\<forall>id d. (id, d) \<in> set ds \<longleftrightarrow> rs_standing r id = Some d \<and> t \<in> set (dm_tags d)"
      using tagged [OF t] by blast
    let ?out = "filter (\<lambda>(name, _). name \<notin> fs_ended s) (ds @ with_tag t (fs_added s))"
    have "(id, d) \<in> set ?out \<longleftrightarrow> rs_standing (forced_recovery r s) id = Some d \<and> t \<in> set (dm_tags d)" for id d
    proof (cases "id \<in> fst ` set (fs_added s)")
      case True
      then obtain e where e: "map_of (fs_added s) id = Some e" by (metis map_of_eq_None_iff option.exhaust)
      have "(id, d) \<in> set (fs_added s) \<longleftrightarrow> d = e" using e dist map_of_is_SomeI [OF dist] map_of_SomeD [OF e] by fastforce
      then show ?thesis using ds(2) new True e by (auto simp: forced_recovery_def with_tag_def)
    next
      case False
      then have "map_of (fs_added s) id = None" by (simp add: map_of_eq_None_iff)
      then show ?thesis using ds(2) False by (force simp: forced_recovery_def with_tag_def)
    qed
    then show ?thesis using ds(1) by (simp add: force_view_def Let_def)
  qed
  then show ?thesis unfolding reads_as_def
    using base by (auto simp: force_view_def forced_recovery_def Let_def split: option.split)
qed

interpretation forced: recovery_reads "\<lambda>(r, s). force_view s" "\<lambda>(r, s). forced_recovery r s" "\<lambda>(r, s). forced_ok r s"
  by unfold_locales (auto intro: forced_reads)

lemma opened_forced: "reads_as base r \<Longrightarrow> named_ok r \<Longrightarrow> forced_ok r (openForceState base) \<and> forced_recovery r (openForceState base) = r"
  by (simp add: forced_ok_def openForceState_def forced_recovery_def)

subsection \<open>A forced record is one abstract step\<close>

lemma map_set_new: "k \<notin> fst ` set m \<Longrightarrow> map_set k v m = m @ [(k, v)]"
  by (force simp: map_set_def list_ex_iff)

lemma force_view_step:
  assumes ok: "forced_ok r s" and view: "view_ok v" and run: "applyForceView s v = Inr s'"
    and fresh: "v_identity v \<notin> rs_effective (forced_recovery r s)"
    and stands: "\<And>n. v_ended v = Some n \<Longrightarrow> rs_standing (forced_recovery r s) n \<noteq> None"
  shows "forced_ok r s'" and "fs_base s' = fs_base s"
    and "forced_recovery r s' = recovery_step (v_demand v) (v_ended v) {v_identity v} (set (v_tags v)) (forced_recovery r s)"
proof -
  have tags: "set (take (length (v_nfs v)) (v_tags v)) = set (v_tags v)" using view by (simp add: view_ok_def)
  have kinds: "v_demand v \<noteq> None \<longleftrightarrow> v_kind v = 4" "v_ended v \<noteq> None \<longleftrightarrow> v_kind v \<in> {5, 6}" using view by (auto simp: view_ok_def)
  let ?eff = "rs_effective (forced_recovery r s)"
  have inv: "reads_as (fs_base s) r" "named_ok r" "distinct (map fst (fs_added s))" "\<forall>name \<in> fst ` set (fs_added s). rs_standing r name = None"
    "fst ` set (fs_added s) \<union> fs_ended s \<subseteq> hex ` ?eff"
    using ok by (simp_all add: forced_ok_def)
  have hexes: "{h. hex h = hex i \<or> hex h \<in> E} = insert i {h. hex h \<in> E}" for i :: bytes and E using hex_inj by auto
  consider n d where "v_demand v = Some (n, d)" "v_ended v = None" "v_kind v = 4" | n where "v_demand v = None" "v_ended v = Some n" "v_kind v \<in> {5, 6}"
    | "v_demand v = None" "v_ended v = None" "v_kind v \<notin> {4, 5, 6}"
    using kinds by (cases "v_demand v"; cases "v_ended v") auto
  then have "forced_ok r s' \<and> fs_base s' = fs_base s \<and>
    forced_recovery r s' = recovery_step (v_demand v) (v_ended v) {v_identity v} (set (v_tags v)) (forced_recovery r s)"
  proof cases
    case 1
    then have n: "n = hex (v_identity v)" using view by (auto simp: view_ok_def)
    have "n \<notin> hex ` ?eff" using fresh n hex_inj by auto
    then have new: "n \<notin> fst ` set (fs_added s)" "n \<notin> fs_ended s" "rs_standing r n = None"
      using inv(2,5) by (auto simp: named_ok_def forced_recovery_def)
    have s': "s' = s\<lparr>fs_added := fs_added s @ [(n, d)], fs_forced := map_set n d (fs_forced s),
        fs_effective := insert (hex (v_identity v)) (fs_effective s), fs_nullifiers := fs_nullifiers s \<union> set (v_nfs v),
        fs_spentTags := fs_spentTags s \<union> set (v_tags v), fs_outputs := fs_outputs s \<union> set (v_outputs v)\<rparr>"
      using run 1 by (simp add: applyForceView_def tags map_set_new [OF new(1)] Let_def)
    have rec: "forced_recovery r s' = recovery_step (v_demand v) (v_ended v) {v_identity v} (set (v_tags v)) (forced_recovery r s)"
      using 1 new map_of_eq_None_iff [of "fs_added s" n] by (auto simp: forced_recovery_def recovery_step_def s' Let_def hexes map_add_def fun_eq_iff split: option.split)
    have "forced_ok r s'" using inv new n unfolding forced_ok_def rec
      by (auto simp: s' recovery_step_def Let_def)
    then show ?thesis using rec s' by simp
  next
    case 2
    have "\<exists>m. s' = s\<lparr>fs_ended := insert n (fs_ended s), fs_added := filter (\<lambda>(k, _). k \<noteq> n) (fs_added s),
        fs_effective := insert (hex (v_identity v)) (fs_effective s), fs_nullifiers := fs_nullifiers s \<union> set (v_nfs v),
        fs_spentTags := fs_spentTags s \<union> set (v_tags v), fs_outputs := fs_outputs s \<union> set (v_outputs v), fs_settled := m\<rparr>"
    proof (cases "v_kind v = 6")
      case True
      then show ?thesis using run 2 by (auto simp: applyForceView_def tags Let_def split: list.splits)
    next
      case False
      then have "s' = s\<lparr>fs_ended := insert n (fs_ended s), fs_added := filter (\<lambda>(k, _). k \<noteq> n) (fs_added s),
        fs_effective := insert (hex (v_identity v)) (fs_effective s), fs_nullifiers := fs_nullifiers s \<union> set (v_nfs v),
        fs_spentTags := fs_spentTags s \<union> set (v_tags v), fs_outputs := fs_outputs s \<union> set (v_outputs v)\<rparr>"
        using run 2 by (simp add: applyForceView_def tags Let_def)
      then show ?thesis by (intro exI [of _ "fs_settled s"]) (cases s, simp)
    qed
    then obtain m where s': "s' = s\<lparr>fs_ended := insert n (fs_ended s), fs_added := filter (\<lambda>(k, _). k \<noteq> n) (fs_added s),
        fs_effective := insert (hex (v_identity v)) (fs_effective s), fs_nullifiers := fs_nullifiers s \<union> set (v_nfs v),
        fs_spentTags := fs_spentTags s \<union> set (v_tags v), fs_outputs := fs_outputs s \<union> set (v_outputs v), fs_settled := m\<rparr>" ..
    have look: "map_of (filter (\<lambda>(k, _). k \<noteq> n) xs) k = (if k = n then None else map_of xs k)" for k and xs :: "(string \<times> demand) list"
      by (induction xs) auto
    have rec: "forced_recovery r s' = recovery_step (v_demand v) (v_ended v) {v_identity v} (set (v_tags v)) (forced_recovery r s)"
      using 2 by (auto simp: forced_recovery_def recovery_step_def s' Let_def hexes look fun_eq_iff split: option.split)
    have known: "n \<in> hex ` ?eff"
    proof (cases "map_of (fs_added s) n")
      case None
      then have "rs_standing r n \<noteq> None" using stands [OF 2(2)] by (auto simp: forced_recovery_def split: if_splits)
      then show ?thesis using inv(2) by (auto simp: named_ok_def forced_recovery_def)
    next
      case (Some e)
      then have "n \<in> fst ` set (fs_added s)" by (force dest: map_of_SomeD)
      then show ?thesis using inv(5) by blast
    qed
    have "distinct (map fst (filter (\<lambda>(k, _). k \<noteq> n) (fs_added s)))" using inv(3) by (rule distinct_map_filter)
    then have "forced_ok r s'" using inv known unfolding forced_ok_def rec
      by (auto simp: s' recovery_step_def Let_def)
    then show ?thesis using rec s' by simp
  next
    case 3
    then have s': "s' = s\<lparr>fs_effective := insert (hex (v_identity v)) (fs_effective s), fs_nullifiers := fs_nullifiers s \<union> set (v_nfs v),
        fs_spentTags := fs_spentTags s \<union> set (v_tags v), fs_outputs := fs_outputs s \<union> set (v_outputs v)\<rparr>"
      using run by (simp add: applyForceView_def tags Let_def)
    have rec: "forced_recovery r s' = recovery_step (v_demand v) (v_ended v) {v_identity v} (set (v_tags v)) (forced_recovery r s)"
      using 3 by (auto simp: forced_recovery_def recovery_step_def s' Let_def hexes)
    have "forced_ok r s'" using inv unfolding forced_ok_def rec by (auto simp: s' recovery_step_def Let_def)
    then show ?thesis using rec s' by simp
  qed
  then show "forced_ok r s'" "fs_base s' = fs_base s"
    "forced_recovery r s' = recovery_step (v_demand v) (v_ended v) {v_identity v} (set (v_tags v)) (forced_recovery r s)" by blast+
qed

lemma applyForceRecord_view:
  assumes "applyForceRecord c s bs k = Inr s'"
  obtains r view where "c_decode c bs = Inr r" and "c_kind c r \<in> {4, 5, 6}" and "c_view c r (rv_demand (force_view s)) = Inr view"
    and "checkRecovery view (force_view s) \<lparr>rk_check = requireReplay, rk_backing = fc_backing k, rk_issuer = fc_issuer k,
       rk_at = fc_index k, rk_lag = Some (fc_lag k), rk_door = True\<rparr> = Inr ()"
    and "v_check view (fc_verifier k) = Inr ()" and "applyForceView s view = Inr s'"
proof -
  show thesis using assms unfolding applyForceRecord_def Let_def
    by - (elim bindR_InrE, rule that, auto)
qed

definition force_check :: "force_context \<Rightarrow> recovery_check" where
  "force_check k = \<lparr>rk_check = requireReplay, rk_backing = fc_backing k, rk_issuer = fc_issuer k,
     rk_at = fc_index k, rk_lag = Some (fc_lag k), rk_door = True\<rparr>"

context construction_views
begin

lemma forced_step:
  assumes good: "good C" and ok: "forced_ok r s" and run: "applyForceRecord (con C) s bs k = Inr s'"
  shows "forced_ok r s' \<and> fs_base s' = fs_base s \<and> (\<exists>x view. c_decode (con C) bs = Inr x \<and>
    c_view (con C) x (\<lambda>name. Inr (rs_standing (forced_recovery r s) name)) = Inr view \<and> 4 \<le> v_kind view \<and>
    recovery_allowed (forced_recovery r s) view (force_check k) \<and>
    forced_recovery r s' = recovery_step (v_demand view) (v_ended view) {v_identity view} (set (v_tags view)) (forced_recovery r s))"
proof -
  obtain x view where x: "c_decode (con C) bs = Inr x" "c_kind (con C) x \<in> {4, 5, 6}" "c_view (con C) x (rv_demand (force_view s)) = Inr view"
    "checkRecovery view (force_view s) (force_check k) = Inr ()" "applyForceView s view = Inr s'"
    by (rule applyForceRecord_view [OF run, folded force_check_def])
  have v: "view_ok view" "v_kind view = c_kind (con C) x" using views [OF good x(1) _ x(3)] x(2) by auto
  have hok: "(\<lambda>(r, s). forced_ok r s) (r, s)" using ok by simp
  have look: "rv_demand (force_view s) = (\<lambda>name. Inr (rs_standing (forced_recovery r s) name))"
    using forced.demand_read [OF hok] by (intro ext) simp
  have tags: "\<forall>t \<in> set (v_tags view). stored_key t" using v(1) by (simp add: view_ok_def list_all_iff)
  have dem: "v_kind view = 4 \<longrightarrow> (\<exists>id d. v_demand view = Some (id, d) \<and> (\<forall>t \<in> set (dm_tags d). stored_key t))"
    using v(1) by (fastforce simp: view_ok_def demand_ok_def list_all_iff)
  have allowed: "recovery_allowed (forced_recovery r s) view (force_check k)"
    using forced.checkRecovery_exact [OF hok _ _ tags dem, of "force_check k"] x(4) by (simp add: force_check_def)
  have kind: "4 \<le> v_kind view" using v(2) x(2) by auto
  have fresh: "v_identity view \<notin> rs_effective (forced_recovery r s)" using allowed kind by (simp add: recovery_allowed_def)
  have stands: "rs_standing (forced_recovery r s) n \<noteq> None" if "v_ended view = Some n" for n
  proof -
    have "v_kind view = 5 \<or> v_kind view = 6" using v(1) that by (auto simp: view_ok_def)
    then show ?thesis using allowed that by (auto simp: recovery_allowed_def)
  qed
  note step = force_view_step [OF ok v(1) x(5) fresh stands]
  show ?thesis using step x(1,3) kind allowed unfolding look by blast
qed

text \<open>A record forced and applied, in whatever mode, is the same abstract step: in an adopted block what the force path allowed is
  what the segment needs.\<close>

lemma forced_as_applied:
  assumes good: "good C" and ok: "forced_ok r s" and run: "applyForceRecord (con C) s bs k = Inr s'"
    and reach: "reachable_store C db" and tip: "sh_at h = None"
    and row: "db_namespace db (sh_ns h) = Some row" and rok: "recovery_ok db (sh_ns h) (n_position row)"
    and app: "applyRecord C (con C) db h bs replay = Inr db'"
    and alike: "forced_recovery r s = recovery_at db (sh_ns h) (n_position row)"
  shows "forced_recovery r s' = recovery_at db' (sh_ns h) (n_position row + 1)" and "recovery_ok db' (sh_ns h) (n_position row + 1)"
    and "\<exists>row'. db_namespace db' (sh_ns h) = Some row' \<and> n_position row' = n_position row + 1"
proof -
  let ?ns = "sh_ns h" and ?p = "n_position row"
  let ?rs = "recovery_at db ?ns ?p"
  from forced_step [OF good ok run] obtain x view where v: "c_decode (con C) bs = Inr x"
    "c_view (con C) x (\<lambda>name. Inr (rs_standing ?rs name)) = Inr view" "4 \<le> v_kind view" "recovery_allowed ?rs view (force_check k)"
    "forced_recovery r s' = recovery_step (v_demand view) (v_ended view) {v_identity view} (set (v_tags view)) ?rs"
    unfolding alike by blast
  obtain row' x' view' ap a key issuer where w: "application C (con C) db ?ns (handle_view C (con C) db h) bs replay db' row' x' view' ap a key issuer"
    by (rule applied [OF good app tip])
  have "row' = row" using row applicationD(1) [OF w] by simp
  note w = w [unfolded this]
  have pos: "state_position C db h = Inr ?p"
  proof -
    from app obtain q where "state_position C db h = Inr q" by (auto simp: applyRecord_def judgeRecord_def judgmentOf_def bindR_Inr_conv)
    with tip row show ?thesis by (metis tip_reads option.inject)
  qed
  have hok: "(\<lambda>(db, h, p). handle_ok C db h p) (db, h, ?p)" using rok pos by (simp add: handle_ok_def)
  have "rv_demand (handle_view C (con C) db h) = (\<lambda>name. Inr (rs_standing ?rs name))"
    using stored.demand_read [where c = "con C", OF hok] by (intro ext) simp
  then have eq: "view' = view" using applicationD(3,4) [OF w] v(1,2) by simp
  note w = w [unfolded eq]
  have fresh: "v_identity view \<notin> rs_effective ?rs" using v(3,4) by (simp add: recovery_allowed_def)
  have stands: "rs_standing ?rs n \<noteq> None" if "v_ended view = Some n" for n
  proof -
    have "v_kind view = 5 \<or> v_kind view = 6" using applicationD(5) [OF w] that by (auto simp: view_ok_def)
    then show ?thesis using v(4) that by (auto simp: recovery_allowed_def)
  qed
  note step = applied_step [OF w reachable_rows_bounded [OF reach] rok fresh stands]
  show "forced_recovery r s' = recovery_at db' ?ns (?p + 1)" "recovery_ok db' ?ns (?p + 1)" using step v(3,5) by simp_all
  show "\<exists>row'. db_namespace db' ?ns = Some row' \<and> n_position row' = ?p + 1" by (rule applied_row [OF good app tip row])
qed

lemma forced_run_as_applied:
  assumes good: "good C" and "sh_at h = None"
  shows "forced_ok r s \<Longrightarrow> reachable_store C db \<Longrightarrow> db_namespace db (sh_ns h) = Some row \<Longrightarrow> recovery_ok db (sh_ns h) (n_position row) \<Longrightarrow>
    forced_recovery r s = recovery_at db (sh_ns h) (n_position row) \<Longrightarrow>
    foldR (\<lambda>s (bs, k, _). applyForceRecord (con C) s bs k) s steps = Inr s' \<Longrightarrow>
    foldR (\<lambda>d (bs, _, replay). applyRecord C (con C) d h bs replay) db steps = Inr db' \<Longrightarrow>
    forced_ok r s' \<and> fs_base s' = fs_base s \<and> forced_recovery r s' = recovery_at db' (sh_ns h) (n_position row + int (length steps)) \<and>
    recovery_ok db' (sh_ns h) (n_position row + int (length steps))"
proof (induction steps arbitrary: s db row)
  case (Cons step steps)
  obtain bs k replay where st: "step = (bs, k, replay)" by (cases step)
  obtain s1 db1 where one: "applyForceRecord (con C) s bs k = Inr s1" "applyRecord C (con C) db h bs replay = Inr db1"
    and rest: "foldR (\<lambda>s (bs, k, _). applyForceRecord (con C) s bs k) s1 steps = Inr s'"
      "foldR (\<lambda>d (bs, _, replay). applyRecord C (con C) d h bs replay) db1 steps = Inr db'"
    using Cons.prems(6,7) by (auto simp: st bindR_Inr_conv)
  note forced = forced_step [OF good Cons.prems(1) one(1)]
  note alike = forced_as_applied [OF good Cons.prems(1) one(1) Cons.prems(2) assms(2) Cons.prems(3,4) one(2) Cons.prems(5)]
  obtain row1 where row1: "db_namespace db1 (sh_ns h) = Some row1" "n_position row1 = n_position row + 1" using alike(3) by blast
  have "forced_ok r s1" "fs_base s1 = fs_base s" using forced by blast+
  then show ?case
    using Cons.IH [OF _ applied_reachable [OF Cons.prems(2) one(2)] row1(1) _ _ rest] alike(1,2) by (simp add: row1(2) ac_simps)
qed simp

end

text \<open>Where the tables agree, every standing demand is named by a recovery statement visible beside it.\<close>

lemma stored_named: "recovery_ok db ns p \<Longrightarrow> named_ok (recovery_at db ns p)"
proof -
  assume ok: "recovery_ok db ns p"
  have "name \<in> hex ` rs_effective (recovery_at db ns p)" if d: "rs_standing (recovery_at db ns p) name = Some d" for name d
  proof -
    obtain y where "find (\<lambda>z. dr_id z = name) (standing_demands db ns p) = Some y" using d by (auto simp: recovery_at_def)
    from find_in [OF this] have y: "y \<in> set (db_demand db)" "visible db ns p (dr_ns y) (dr_position y)" "name = dr_id y"
      by (auto simp: standing_demands_def visible_demands_def)
    then obtain e where "e \<in> set (db_event db)" "ev_ns e = dr_ns y" "ev_position e = dr_position y" "4 \<le> ev_kind e" "dr_id y = hex (ev_identity e)"
      using ok by (auto simp: recovery_ok_def demands_ok_def demand_row_ok_def)
    then show ?thesis using y by (auto simp: recovery_at_def intro!: imageI)
  qed
  then show ?thesis by (simp add: named_ok_def)
qed

end
