(* ===== verification/RunProperties.thy ===== *)
theory RunProperties
  imports ForcedState
begin

section \<open>Properties of runs\<close>

text \<open>
  What the state machine promises, over the stored handles, the forced overlays and the runs of
  segments of pool v3, with one run evaluated: a segment opened on the empty database and a
  demand applied to it.
\<close>

subsection \<open>An evaluated run\<close>

definition example_name :: bytes where "example_name = replicate 32 0"

definition example_notice :: v3_record where
  "example_notice = \<lparr>s_domain = example_name, s_kind = 4,
     s_inputs = [0, 0, 0, 0, 11, 0, 0, 5, 950741, 0, 14, 0, 0, 0, 7, 9],
     r_proof = replicate 32 1, r_authorization = [], r_capsules = []\<rparr>"

definition example_bytes :: bytes where
  "example_bytes = (case encodeRecord toy_crypto example_notice of Inr bs \<Rightarrow> bs | Inl _ \<Rightarrow> [])"

definition example_replay :: segment_replay where
  "example_replay = \<lparr>sr_domain = example_name, sr_backing = example_name, sr_segment = example_name, sr_scope = Some 11,
     sr_obligor = replicate 32 5, sr_scopedTerms = None, sr_verifier = (\<lambda>_ _ _. Inr True), sr_index = 9, sr_admission = False,
     sr_lag = None, sr_revokedAt = None, sr_revocations = None, sr_lastValid = None, sr_block = [], sr_witness = None\<rparr>"

definition example_handle :: state_handle where
  "example_handle = \<lparr>sh_ns = 1, sh_at = None\<rparr>"

definition example_segment :: database where
  "example_segment = newDatabase\<lparr>db_next := 2, db_namespace := (\<lambda>_. None)(1 \<mapsto> \<lparr>n_segment = example_name, n_identity = [1],
     n_position = 0, n_history = (case genesisHistoryHash toy_crypto example_name of Inr h \<Rightarrow> h | Inl _ \<Rightarrow> []),
     n_evidence = (case genesisEvidenceHash toy_crypto (V3_CHAIN toy_crypto) example_name of Inr h \<Rightarrow> h | Inl _ \<Rightarrow> []),
     n_leaves = 0, n_noteRoot = 950741, n_ommers = EMPTY_OMMERS,
     n_spentTop = None, n_spentNext = 1, n_baseSpent = EMPTY toy_crypto\<rparr>), db_construction := (\<lambda>_. None)(1 \<mapsto> POOL_V3_NAMESPACE),
     db_anchor := [\<lparr>ac_root = be_bytes 32 950741, ac_ns = 1, ac_position = 0\<rparr>],
     db_spent := (\<lambda>_ _. None)\<rparr>"

text \<open>The view of the example's record, whose statement hash is here the last 32 bytes of the statement.\<close>

definition example_hash :: bytes where "example_hash = 9 # replicate 31 0"

definition example_view :: statement_view where
  "example_view = \<lparr>v_kind = 4, v_identity = example_hash, v_domain = example_name, v_segment = example_name, v_scope = Some 11,
     v_digests = \<lparr>e_statementHash = example_hash, e_proofHash = replicate 32 1, e_signatureHash = replicate 32 0\<rparr>,
     v_backings = [example_name], v_ended = None, v_needsDemand = False, v_quantity = None,
     v_nfs = [], v_tags = [], v_outputs = [], v_capsules = [], v_roots = [950741], v_inputs = [],
     v_demand = Some (hex example_hash, \<lparr>dm_backing = example_name, dm_quantity = 5, dm_tags = [14, 0], dm_presenter = example_name,
       dm_instant = 7, dm_deadline = 9, dm_nullifiers = None\<rparr>),
     v_check = v3_proof_check example_notice, v_issuerSigned = (\<lambda>_. Inr False), v_withdrawalSigned = (\<lambda>_. Inr False),
     v_settlement = v3_settlement toy_crypto example_notice []\<rparr>"

lemma example_viewed: "c_view (POOL_V3 toy_crypto) example_notice look = Inr example_view"
proof -
  have h: "statementHash toy_crypto example_notice = Inr example_hash" by code_simp
  have ok: "requireRecord toy_crypto example_notice = Inr ()" by code_simp
  have d: "evidenceHashes toy_crypto example_notice = Inr (v_digests example_view)"
    by (simp add: evidenceHashes_def ok h hashEvidenceFields_def requireBytes_def) (simp add: example_view_def example_notice_def example_hash_def toy_crypto_def toy_sha_def)
  have e: "effectOf example_notice = Inr \<lparr>ef_nfs = [], ef_outputs = [], ef_roots = [950741]\<rparr>" by code_simp
  have p: "pair (s_inputs example_notice) 5 = Inr example_name" "pair (s_inputs example_notice) 2 = Inr example_name"
    "pair (s_inputs example_notice) 12 = Inr example_name" by code_simp+
  then have i: "identifierOf 0 0 = Inr example_name" by (simp add: pair_def example_notice_def)
  have k: "s_kind example_notice = 4" and dom: "s_domain example_notice = example_name" and aut: "r_authorization example_notice = []" and ins: "s_inputs example_notice = [0, 0, 0, 0, 11, 0, 0, 5, 950741, 0, 14, 0, 0, 0, 7, 9]"
    by (simp_all add: example_notice_def)
  have r: "recoveryEffect toy_crypto example_notice = Inr \<lparr>re_demand = v_demand example_view, re_ended = None\<rparr>"
    by (simp add: recoveryEffect_def h k ins i example_view_def slice_of_def numeral_eq_Suc)
  show ?thesis
    by (simp add: POOL_V3_def d v3View_def e r h k dom aut ins p [unfolded ins] Let_def) (simp add: example_view_def fun_eq_iff)
qed

text \<open>Applying depends on a construction's decoder and view only through what they yield.\<close>

lemma with_view:
  assumes d: "c_decode c bs = Inr r" and v: "\<And>look. c_view c r look = Inr view"
  shows "applyRecord C c db h bs replay = applyRecord C (c\<lparr>c_decode := (\<lambda>_. Inr r), c_view := (\<lambda>_ _. Inr view)\<rparr>) db h bs replay"
proof -
  let ?c = "c\<lparr>c_decode := (\<lambda>_. Inr r), c_view := (\<lambda>_ _. Inr view)\<rparr>"
  have s: "c_settledDemand ?c = c_settledDemand c" by simp
  have "state_settledFor db ?c ns p = state_settledFor db c ns p" for db ns p unfolding state_settledFor_def s ..
  then have hv: "handle_view C ?c db h = handle_view C c db h" for db by (simp add: handle_view_def)
  have dm: "decode_or_malformed c bs = Inr r" "decode_or_malformed ?c bs = Inr r" using d by (simp_all add: decode_or_malformed_def)
  have e: "state_evidence C db ?c h = state_evidence C db c h" "state_history C db ?c h = state_history C db c h" for db
    by (simp_all add: state_evidence_def state_history_def cong: option.case_cong)
  have j: "judgmentOf C ?c db h bs replay = judgmentOf C c db h bs replay"
    unfolding judgmentOf_def hv dm e by (simp add: v)
  have f: "finish_judgment C ?c db h replay = finish_judgment C c db h replay" by (simp add: finish_judgment_def hv fun_eq_iff)
  have sc: "c_scanOutput ?c = c_scanOutput c" "c_namespace ?c = c_namespace c" "c_nextHistory ?c = c_nextHistory c" by simp_all
  have o: "effect_of ?c previous x replay = effect_of c previous x replay" for previous x
    unfolding effect_of_def effect_outputs_def sc ..
  have a: "applyJudged C ?c db h x replay = applyJudged C c db h x replay" for x by (simp add: applyJudged_def e o)
  show ?thesis by (simp add: applyRecord_def judgeRecord_def j f a)
qed

lemma example_opened_segment:
  "openSegmentState toy_crypto newDatabase example_name [1] None (POOL_V3 toy_crypto) = Inr (example_handle, example_segment)"
proof -
  have "isOk (genesisHistoryHash toy_crypto example_name)" "isOk (genesisEvidenceHash toy_crypto (V3_CHAIN toy_crypto) example_name)" by code_simp+
  then obtain gh ge where g: "genesisHistoryHash toy_crypto example_name = Inr gh"
    "genesisEvidenceHash toy_crypto (V3_CHAIN toy_crypto) example_name = Inr ge" by (auto simp: isOk_conv)
  have r: "fieldToBytes 950741 = Inr (be_bytes 32 950741)" by (simp add: fieldToBytes_conv isField_def FIELD_MODULUS_def)
  show ?thesis
    by (simp add: openSegmentState_def POOL_V3_def g store_open_def newDatabase_def example_segment_def holdsRows_def toy_note_root r Let_def
        POOL_V3_NAMESPACE_def ignore_row_def save_spent_def spent_of_def sp_root_def newStateHandle_def construction_of_def example_handle_def fun_eq_iff)
qed

lemma example_decodes: "c_decode (POOL_V3 toy_crypto) example_bytes = Inr example_notice"
proof -
  have "requireRecord toy_crypto example_notice = Inr ()" by code_simp
  then obtain bs where "encodeRecord toy_crypto example_notice = Inr bs" by (auto simp: encodeRecord_conv)
  then show ?thesis by (simp add: POOL_V3_def decodeRecord_conv example_bytes_def)
qed

lemma example_position: "state_position toy_crypto example_segment example_handle = Inr 0"
  by (simp add: state_position_def example_handle_def store_tip_def namespace_of_def example_segment_def newDatabase_def spent_of_def sp_root_def)

lemma example_applied: "\<exists>db'. applyRecord toy_crypto (POOL_V3 toy_crypto) example_segment example_handle example_bytes example_replay = Inr db'"
proof -
  have "isOk (applyRecord toy_crypto ((POOL_V3 toy_crypto)\<lparr>c_decode := (\<lambda>_. Inr example_notice), c_view := (\<lambda>_ _. Inr example_view)\<rparr>)
      example_segment example_handle example_bytes example_replay)"
    by code_simp
  then show ?thesis by (simp only: with_view [OF example_decodes example_viewed] isOk_conv)
qed

lemma example_run:
  obtains db' where "segment_run toy_crypto (POOL_V3 toy_crypto) example_name example_handle example_segment"
    and "applyRecord toy_crypto (POOL_V3 toy_crypto) example_segment example_handle example_bytes example_replay = Inr db'"
    and "segment_run toy_crypto (POOL_V3 toy_crypto) example_name example_handle db'"
proof -
  obtain db' where db': "applyRecord toy_crypto (POOL_V3 toy_crypto) example_segment example_handle example_bytes example_replay = Inr db'"
    using example_applied by blast
  have "segment_run toy_crypto (POOL_V3 toy_crypto) example_name example_handle example_segment"
    by (rule segment_run.opened [OF reachable_store.empty _ _ example_opened_segment]) (simp_all add: imports_within_def segments_of_def totals_ok_def)
  then show thesis using that segment_run.applied db' by blast
qed

lemma example_good: "poseidon_ok toy_crypto \<and> sha_width toy_crypto"
  by (simp add: toy_poseidon_ok toy_crypto_sha_width)

lemma example_row: "\<exists>row. db_namespace example_segment 1 = Some row \<and> n_position row = 0"
  by (simp add: example_segment_def newDatabase_def)

lemma example_recovery: "recovery_ok example_segment 1 p" "rows_bounded example_segment"
  by (simp_all add: recovery_ok_def demands_ok_def visible_demands_def ended_at_def rows_bounded_def example_segment_def newDatabase_def)

lemma example_reachable: "reachable_store toy_crypto example_segment"
proof -
  obtain db' where "segment_run toy_crypto (POOL_V3 toy_crypto) example_name example_handle example_segment" by (rule example_run)
  then show ?thesis by (rule run_reachable)
qed

subsection \<open>Properties\<close>

text \<open>C5: the recovery guards decide exactly what recovery allows. Over a database whose demand tables agree, read at any position
  where visible demands have distinct names, the guards of a record pass exactly when the abstract recovery state there allows it:
  a demand only over notes neither spent nor locked by another standing demand, and at the door within its notice window; a
  withdrawal only by the presenter of a standing demand of the backing; a settlement only on the standing demand's terms, signed,
  on its tags, before its deadline; a transfer or burn only of notes no standing demand locks; and no recovery statement twice.\<close>

theorem recovery_guards_exact:
  assumes "recovery_ok db (sh_ns h) p" and "state_position C db h = Inr p" and "view_ok v"
    and "rk_check k = requireReplay" and "rk_door k \<Longrightarrow> rk_lag k \<noteq> None"
  shows "checkRecovery v (handle_view C c db h) k = Inr () \<longleftrightarrow> recovery_allowed (recovery_at db (sh_ns h) p) v k"
proof -
  have hok: "(\<lambda>(db, h, p). handle_ok C db h p) (db, h, p)" using assms(1,2) by (simp add: handle_ok_def)
  have "\<forall>t \<in> set (v_tags v). stored_key t" using assms(3) by (simp add: view_ok_def list_all_iff)
  moreover have "v_kind v = 4 \<longrightarrow> (\<exists>id d. v_demand v = Some (id, d) \<and> (\<forall>t \<in> set (dm_tags d). stored_key t))"
    using assms(3) by (fastforce simp: view_ok_def demand_ok_def list_all_iff)
  ultimately show ?thesis using stored.checkRecovery_exact [where c = c, OF hok assms(4)] assms(5) by simp
qed

lemma recovery_guards_exact_witness:
  "\<exists>v. c_view (POOL_V3 toy_crypto) example_demand (\<lambda>_. Inr None) = Inr v \<and>
     (checkRecovery v (handle_view toy_crypto (POOL_V3 toy_crypto) example_segment example_handle)
        \<lparr>rk_check = requireReplay, rk_backing = [], rk_issuer = [], rk_at = 9, rk_lag = None, rk_door = False\<rparr> = Inr () \<longleftrightarrow>
      recovery_allowed (recovery_at example_segment 1 0) v
        \<lparr>rk_check = requireReplay, rk_backing = [], rk_issuer = [], rk_at = 9, rk_lag = None, rk_door = False\<rparr>)"
proof -
  obtain bs where bs: "decodeRecord toy_crypto bs = Inr example_demand"
    using example_demand_ok [of toy_crypto] by (auto simp: decodeRecord_conv encodeRecord_conv)
  have "s_kind example_demand = 4" by (simp add: example_demand_def)
  with pool_view_total [OF toy_poseidon_ok toy_crypto_sha_width bs] obtain v
    where v: "c_view (POOL_V3 toy_crypto) example_demand (\<lambda>_. Inr None) = Inr v" "view_ok v" by fastforce
  from recovery_guards_exact [OF _ example_position v(2), of "\<lparr>rk_check = requireReplay, rk_backing = [], rk_issuer = [], rk_at = 9, rk_lag = None, rk_door = False\<rparr>" "POOL_V3 toy_crypto"]
  show ?thesis using v(1) example_recovery(1) [of 0] by (auto simp: example_handle_def)
qed

text \<open>C1: applying a record is one allowed step of recovery. Take a database reached by the store's operations, a segment's tip, and
  agreeing demand tables there (each demand's rows and statement agree and no two visible demands share a name). A record of pool v3
  applied there, outside an adopted block, was allowed by the abstract recovery state under exactly the check it is judged by: the
  backing it is judged under (its demand's, where it ends one), that backing's issuer, its judged index, the venue's lag, and the
  door's window where it is a recovery statement being admitted. At the next position the database holds that state with the
  record's demand standing, its ended demand gone, its statement effective where it is a recovery statement, and its tags spent;
  the tables agree there again, so the next record is judged the same way.\<close>

theorem applied_record_steps:
  assumes "poseidon_ok C \<and> sha_width C" and "reachable_store C db" and "sh_at h = None"
    and "db_namespace db (sh_ns h) = Some row" and "recovery_ok db (sh_ns h) (n_position row)"
    and "applyRecord C (POOL_V3 C) db h bs replay = Inr db'" and "modeAt replay (n_position row) \<noteq> Adoption"
  shows "\<exists>r view. decodeRecord C bs = Inr r \<and> c_view (POOL_V3 C) r (\<lambda>name. Inr (rs_standing (recovery_at db (sh_ns h) (n_position row)) name)) = Inr view \<and>
    recovery_allowed (recovery_at db (sh_ns h) (n_position row)) view
      (judged_check replay (n_position row) (recovery_at db (sh_ns h) (n_position row)) view) \<and>
    reachable_store C db' \<and> (\<exists>row'. db_namespace db' (sh_ns h) = Some row' \<and> n_position row' = n_position row + 1) \<and>
    recovery_ok db' (sh_ns h) (n_position row + 1) \<and>
    recovery_at db' (sh_ns h) (n_position row + 1) = recovery_step (v_demand view) (v_ended view)
      (if 4 \<le> v_kind view then {v_identity view} else {}) (set (v_tags view)) (recovery_at db (sh_ns h) (n_position row))"
proof -
  have "c_decode (POOL_V3 C) = decodeRecord C" by (simp add: POOL_V3_def)
  moreover have "\<exists>row'. db_namespace db' (sh_ns h) = Some row' \<and> n_position row' = n_position row + 1"
    using pool.applied_row [OF assms(1,6,3,4)] .
  ultimately show ?thesis using pool.applied_recovery [OF assms] applied_reachable [OF assms(2,6)] by metis
qed

lemma applied_record_steps_witness:
  "\<exists>db' r. applyRecord toy_crypto (POOL_V3 toy_crypto) example_segment example_handle example_bytes example_replay = Inr db' \<and>
     decodeRecord toy_crypto example_bytes = Inr r \<and> recovery_ok db' 1 1"
proof -
  obtain db' where db': "applyRecord toy_crypto (POOL_V3 toy_crypto) example_segment example_handle example_bytes example_replay = Inr db'"
    using example_applied by blast
  obtain row where row: "db_namespace example_segment 1 = Some row" "n_position row = 0" using example_row by blast
  have m: "modeAt example_replay 0 \<noteq> Adoption" by (simp add: modeAt_def adopted_at_def example_replay_def at_index_def)
  have h: "sh_at example_handle = None" "sh_ns example_handle = 1" by (simp_all add: example_handle_def)
  have "\<exists>r. decodeRecord toy_crypto example_bytes = Inr r \<and> recovery_ok db' 1 1"
    using applied_record_steps [OF example_good example_reachable h(1) _ _ db', of row] row m h(2) example_recovery by auto
  then show ?thesis using db' by blast
qed

text \<open>C3: forcing publications and applying them agree, adopted or not. Take a state read over any handle whose demand tables agree
  and the tip of a segment of a database reached by the store's operations, whose tables agree, both holding one recovery state. If a
  list of records is forced in memory over the first and applied one by one to the second, then at the end the overlay and the
  stored segment hold one recovery state again, the tables agree there, and the overlay's base is untouched, whatever each record's
  contexts, verifiers and indices are, and whether its position is replayed, admitted or lies in an adopted block, where the segment
  itself checks no recovery rule.\<close>

theorem forced_record_agrees:
  assumes "poseidon_ok C \<and> sha_width C" and "handle_ok C db0 h0 p0"
    and "reachable_store C db" and "sh_at h = None" and "db_namespace db (sh_ns h) = Some row" and "recovery_ok db (sh_ns h) (n_position row)"
    and "recovery_at db0 (sh_ns h0) p0 = recovery_at db (sh_ns h) (n_position row)"
    and "foldR (\<lambda>s (bs, k, _). applyForceRecord (POOL_V3 C) s bs k) (openForceState (handle_view C (POOL_V3 C) db0 h0)) steps = Inr s'"
    and "foldR (\<lambda>d (bs, _, replay). applyRecord C (POOL_V3 C) d h bs replay) db steps = Inr db'"
  shows "forced_recovery (recovery_at db0 (sh_ns h0) p0) s' = recovery_at db' (sh_ns h) (n_position row + int (length steps)) \<and>
    recovery_ok db' (sh_ns h) (n_position row + int (length steps)) \<and> fs_base s' = handle_view C (POOL_V3 C) db0 h0"
proof -
  have "named_ok (recovery_at db0 (sh_ns h0) p0)" using assms(2) stored_named by (simp add: handle_ok_def)
  note o = opened_forced [OF stored_reads [OF assms(2), of "POOL_V3 C"] this]
  have "forced_recovery (recovery_at db0 (sh_ns h0) p0) (openForceState (handle_view C (POOL_V3 C) db0 h0)) = recovery_at db (sh_ns h) (n_position row)"
    using o assms(7) by simp
  from pool.forced_run_as_applied [OF assms(1,4) conjunct1 [OF o] assms(3,5,6) this assms(8,9)]
  show ?thesis by (simp add: openForceState_def)
qed

definition example_force :: force_context where
  "example_force = \<lparr>fc_force = True, fc_domain = example_name, fc_backing = example_name, fc_segment = example_name, fc_scope = Some 11,
     fc_issuer = replicate 32 5, fc_index = 8, fc_lag = 1, fc_verifier = (\<lambda>_ _ _. Inr True)\<rparr>"

definition example_base :: state_view where
  "example_base = handle_view toy_crypto (POOL_V3 toy_crypto) example_segment example_handle"

lemma example_forced: "\<exists>s'. applyForceRecord (POOL_V3 toy_crypto) (openForceState example_base) example_bytes example_force = Inr s'"
proof -
  let ?c = "(POOL_V3 toy_crypto)\<lparr>c_decode := (\<lambda>_. Inr example_notice), c_view := (\<lambda>_ _. Inr example_view)\<rparr>"
  have "isOk (applyForceRecord ?c (openForceState example_base) example_bytes example_force)" by code_simp
  moreover have "applyForceRecord ?c s example_bytes k = applyForceRecord (POOL_V3 toy_crypto) s example_bytes k" for s k
    using example_decodes example_viewed by (simp add: applyForceRecord_def)
  ultimately show ?thesis by (simp add: isOk_conv)
qed

text \<open>The same record at the head of an adopted block.\<close>

definition example_adoption :: segment_replay where
  "example_adoption = example_replay\<lparr>sr_block := [(example_bytes, 9)]\<rparr>"

lemma example_adopted: "\<exists>db'. applyRecord toy_crypto (POOL_V3 toy_crypto) example_segment example_handle example_bytes example_adoption = Inr db'"
proof -
  have "isOk (applyRecord toy_crypto ((POOL_V3 toy_crypto)\<lparr>c_decode := (\<lambda>_. Inr example_notice), c_view := (\<lambda>_ _. Inr example_view)\<rparr>)
      example_segment example_handle example_bytes example_adoption)"
    by code_simp
  then show ?thesis by (simp only: with_view [OF example_decodes example_viewed] isOk_conv)
qed

lemma forced_record_agrees_witness:
  "\<exists>s' db'. applyForceRecord (POOL_V3 toy_crypto) (openForceState example_base) example_bytes example_force = Inr s' \<and>
     modeAt example_adoption 0 = Adoption \<and>
     applyRecord toy_crypto (POOL_V3 toy_crypto) example_segment example_handle example_bytes example_adoption = Inr db' \<and>
     forced_recovery (recovery_at example_segment 1 0) s' = recovery_at db' 1 1"
proof -
  obtain s' where s': "applyForceRecord (POOL_V3 toy_crypto) (openForceState example_base) example_bytes example_force = Inr s'"
    using example_forced by blast
  obtain db' where db': "applyRecord toy_crypto (POOL_V3 toy_crypto) example_segment example_handle example_bytes example_adoption = Inr db'"
    using example_adopted by blast
  obtain row where row: "db_namespace example_segment 1 = Some row" "n_position row = 0" using example_row by blast
  have h: "sh_at example_handle = None" "sh_ns example_handle = 1" by (simp_all add: example_handle_def)
  have ok: "handle_ok toy_crypto example_segment example_handle 0"
    using example_recovery(1) [of 0] example_position by (simp add: handle_ok_def h)
  have m: "modeAt example_adoption 0 = Adoption" by (simp add: modeAt_def adopted_at_def example_adoption_def at_index_def)
  have f: "foldR (\<lambda>s (bs, k, _). applyForceRecord (POOL_V3 toy_crypto) s bs k)
      (openForceState (handle_view toy_crypto (POOL_V3 toy_crypto) example_segment example_handle)) [(example_bytes, example_force, example_adoption)] = Inr s'"
    using s' by (simp add: example_base_def)
  have a: "foldR (\<lambda>d (bs, _, replay). applyRecord toy_crypto (POOL_V3 toy_crypto) d example_handle bs replay) example_segment
      [(example_bytes, example_force, example_adoption)] = Inr db'"
    using db' by simp
  have "forced_recovery (recovery_at example_segment 1 0) s' = recovery_at db' 1 1"
    using forced_record_agrees [OF example_good ok example_reachable h(1) _ _ _ f a, of row] row example_recovery(1) [of 0] by (simp add: h)
  then show ?thesis using s' db' m by blast
qed

text \<open>C2: a segment's chain values are those of its records. In every run of a pool v3 segment, whatever other namespaces do in
  between, the tip's history hash is the hash of the segment's genesis followed by exactly its stored events in order, at the
  consecutive positions from 1, no statement among them twice; and its evidence hash is the chain over their digests.\<close>

theorem run_history:
  assumes "poseidon_ok C \<and> sha_width C" and "segment_run C (POOL_V3 C) segment h db" and "db_namespace db (sh_ns h) = Some row"
  shows "history_hash C segment (map (\<lambda>e. \<lparr>he_statement = ev_identity e, he_noteRoot = ev_noteRoot e, he_spentRoot = ev_spentRoot e\<rparr>)
      (own_events db (sh_ns h))) = Inr (n_history row) \<and>
    stored_evidence (POOL_V3 C) segment (own_events db (sh_ns h)) = Inr (n_evidence row) \<and>
    map ev_position (own_events db (sh_ns h)) = map int [1..<length (own_events db (sh_ns h)) + 1] \<and>
    n_position row = int (length (own_events db (sh_ns h))) \<and> distinct (map ev_identity (own_events db (sh_ns h)))"
proof -
  let ?es = "own_events db (sh_ns h)" and ?f = "\<lambda>e. \<lparr>he_statement = ev_identity e, he_noteRoot = ev_noteRoot e, he_spentRoot = ev_spentRoot e\<rparr>"
  have ok: "run_ok (POOL_V3 C) segment h db" by (rule pool.run_ok_run [OF assms(2,1)])
  have chained: "map ev_position es = map int [n..<n + length es] \<Longrightarrow>
      foldR (\<lambda>h e. nextHistoryHash C h (ev_identity e) (ev_noteRoot e) (ev_spentRoot e) (ev_position e)) g es = history_from C g (int n) (map ?f es)" for g es n
  proof (induction es arbitrary: g n)
    case (Cons e es)
    have "ev_position e = int n" "map ev_position es = map int [Suc n..<Suc n + length es]"
      using Cons.prems by (simp_all add: upt_conv_Cons del: upt_Suc)
    then show ?case using Cons.IH [of "Suc n"] by (simp add: add.commute)
  qed simp
  have p: "map ev_position ?es = map int [1..<1 + length ?es]" using ok unfolding run_ok_def by (auto simp del: upt_Suc simp: add.commute)
  have "history_hash C segment (map ?f ?es) = stored_history (POOL_V3 C) segment ?es"
    using chained [OF p] by (simp add: history_hash_def stored_history_def POOL_V3_def)
  then show ?thesis using ok assms(3) by (simp add: run_ok_def)
qed

lemma run_history_witness:
  "\<exists>db' row. segment_run toy_crypto (POOL_V3 toy_crypto) example_name example_handle db' \<and> db_namespace db' 1 = Some row \<and>
     n_position row = 1 \<and> length (own_events db' 1) = 1"
proof -
  obtain db' where run: "segment_run toy_crypto (POOL_V3 toy_crypto) example_name example_handle example_segment"
    and app: "applyRecord toy_crypto (POOL_V3 toy_crypto) example_segment example_handle example_bytes example_replay = Inr db'"
    and run': "segment_run toy_crypto (POOL_V3 toy_crypto) example_name example_handle db'" by (rule example_run)
  obtain row r view ap a key issuer where x: "application toy_crypto (POOL_V3 toy_crypto) example_segment (sh_ns example_handle)
      (handle_view toy_crypto (POOL_V3 toy_crypto) example_segment example_handle) example_bytes example_replay db' row r view ap a key issuer"
    by (rule pool.applied [OF example_good app]) (simp add: example_handle_def)
  have eff: "append_effect toy_crypto 1 ap example_segment a db'" using applicationD(6) [OF x] by (simp add: example_handle_def)
  have "apd_row a = row" "db_namespace example_segment 1 = Some row" using applicationD(1,7) [OF x] by (simp_all add: example_handle_def)
  then have p: "n_position (apd_row a) = 0" using example_row by auto
  obtain row' where row': "db_namespace db' 1 = Some row'" "n_position row' = 1"
    using eff p by (simp add: append_effect_def Let_def)
  have "length (own_events db' 1) = 1"
    using run_history [OF example_good run', of row'] row' by (simp add: example_handle_def)
  then show ?thesis using run' row' by blast
qed

text \<open>C4: supply stays within bounds. In every run of a pool v3 segment opened over well-formed totals, at every position and for
  every backing, what is burned never exceeds what is issued, and what is issued stays below 2^64.\<close>

theorem run_supply_bounded:
  assumes "poseidon_ok C \<and> sha_width C" and "segment_run C (POOL_V3 C) segment h db"
  shows "case store_total db (sh_ns h) p backing of (issued, burned) \<Rightarrow> 0 \<le> burned \<and> burned \<le> issued \<and> issued < 2 ^ 64"
proof -
  have "run_ok (POOL_V3 C) segment h db" by (rule pool.run_ok_run [OF assms(2,1)])
  then have b: "\<forall>x \<in> set (db_total db). tt_ns x = sh_ns h \<longrightarrow> 0 \<le> tt_burned x \<and> tt_burned x \<le> tt_issued x \<and> tt_issued x < VALUE_BOUND"
    by (auto simp: run_ok_def)
  show ?thesis using store_total_bounds [OF b] by (auto simp: VALUE_BOUND_def split: prod.split)
qed

lemma run_supply_bounded_witness:
  "\<exists>db'. segment_run toy_crypto (POOL_V3 toy_crypto) example_name example_handle db' \<and>
     (case store_total db' 1 1 example_name of (issued, burned) \<Rightarrow> 0 \<le> burned \<and> burned \<le> issued \<and> issued < 2 ^ 64)"
proof -
  obtain db' where run: "segment_run toy_crypto (POOL_V3 toy_crypto) example_name example_handle db'" by (rule example_run)
  from run_supply_bounded [OF example_good run, of 1 example_name] run show ?thesis by (auto simp: example_handle_def)
qed

end
