(* ===== verification/LitNotes.thy ===== *)
theory LitNotes
  imports Records EvidenceChain
begin

section \<open>Lit configuration, notes and derived outputs (src/lit/configuration.ts, src/lit/notes.ts)\<close>

text \<open>
  The transparent construction: a note's opening is public, its commitment, nullifier and tag are
  SHA-256 of tagged frames, and the randomness of every output is derived from the statement that
  creates it.  A value the source copies and checks is returned by a result here; the checks of
  run-time types have no counterpart.  \<open>opening_ok\<close> is what \<open>ownOpening\<close> admits.
\<close>

subsection \<open>Configuration\<close>

definition LIT_MAX_INPUTS :: nat where "LIT_MAX_INPUTS = 2"
definition LIT_MAX_OUTPUTS :: nat where "LIT_MAX_OUTPUTS = 4"

definition LIT_CONSTRUCTION :: string where "LIT_CONSTRUCTION = ''moe/lit/v1''"

definition litConfigurationBytes :: bytes where
  "litConfigurationBytes = LIT_CONFIG_CONTEXT @ [of_nat LIT_MAX_INPUTS, of_nat LIT_MAX_OUTPUTS]"

definition litConfigHash :: bytes where
  "litConfigHash = be_bytes 32 0x17835aa2cc5e76c4cc1df8ec6486b5ca3419a96c732256ccb5abccd39c9a77c1"

text \<open>What loading the module checks.\<close>

definition lit_configuration_loads :: "crypto \<Rightarrow> unit result" where
  "lit_configuration_loads C = requireR (compareBytes (sha256 C litConfigurationBytes) litConfigHash = 0)
     (PlainError ''lit configuration hash differs from lit-v1'')"

subsection \<open>Outputs and openings\<close>

record lit_output =
  lo_backing :: bytes
  lo_value :: int
  lo_owner :: bytes

record lit_opening = lit_output +
  lo_rho :: bytes

definition field32 :: "bytes \<Rightarrow> string \<Rightarrow> bytes result" where
  "field32 v what = (if length v \<noteq> 32 then Inl (EncodingError (what @ '' must be 32 bytes'')) else Inr v)"

definition key32 :: "crypto \<Rightarrow> bytes \<Rightarrow> string \<Rightarrow> bytes result" where
  "key32 C v what = bindR (field32 v what) (\<lambda>own.
     if \<not> isValidPublicKey C own then Inl (EncodingError (''invalid '' @ what @ '' key'')) else Inr own)"

definition positive :: "int \<Rightarrow> string \<Rightarrow> int result" where
  "positive v what = (if v \<le> 0 \<or> v > 0xffffffffffffffff then Inl (EncodingError (what @ '' is not a positive u64'')) else Inr v)"

definition ownOutput :: "crypto \<Rightarrow> lit_output \<Rightarrow> lit_output result" where
  "ownOutput C o' = bindR (field32 (lo_backing o') ''backing'') (\<lambda>backing. bindR (positive (lo_value o') ''value'') (\<lambda>v.
     bindR (key32 C (lo_owner o') ''owner'') (\<lambda>owner. Inr \<lparr>lo_backing = backing, lo_value = v, lo_owner = owner\<rparr>)))"

definition ownOpening :: "crypto \<Rightarrow> lit_opening \<Rightarrow> lit_opening result" where
  "ownOpening C o' = bindR (field32 (lo_backing o') ''backing'') (\<lambda>backing. bindR (positive (lo_value o') ''value'') (\<lambda>v.
     bindR (key32 C (lo_owner o') ''owner'') (\<lambda>owner. bindR (field32 (lo_rho o') ''rho'') (\<lambda>rho.
     Inr \<lparr>lo_backing = backing, lo_value = v, lo_owner = owner, lo_rho = rho\<rparr>))))"

definition writeOutput :: "'a lit_output_scheme \<Rightarrow> writer" where
  "writeOutput o' = run_writes [w_key32 (lo_backing o') ''backing'', w_u64 (lo_value o'), w_key32 (lo_owner o') ''owner'']"

definition writeOpening :: "lit_opening \<Rightarrow> writer" where
  "writeOpening o' = run_writes [writeOutput o', w_key32 (lo_rho o') ''rho'']"

definition openingBytes :: "crypto \<Rightarrow> lit_opening \<Rightarrow> bytes result" where
  "openingBytes C opening = bindR (ownOpening C opening) (\<lambda>own. written [writeOpening own])"

subsection \<open>Commitments, nullifiers, tags and derived randomness\<close>

definition noteCommitment :: "crypto \<Rightarrow> bytes \<Rightarrow> lit_opening \<Rightarrow> bytes result" where
  "noteCommitment C domain opening = bindR (field32 domain ''domain'') (\<lambda>d. bindR (ownOpening C opening) (\<lambda>own.
     mapR (sha256 C) (written [w_context LIT_NOTE_CONTEXT, w_key32 d ''domain'', writeOpening own])))"

definition noteNullifier :: "crypto \<Rightarrow> bytes \<Rightarrow> bytes result" where
  "noteNullifier C commitment = bindR (field32 commitment ''commitment'') (\<lambda>cm.
     mapR (sha256 C) (written [w_context LIT_NULLIFIER_CONTEXT, w_key32 cm ''commitment'']))"

definition noteTag :: "crypto \<Rightarrow> bytes \<Rightarrow> bytes result" where
  "noteTag C nullifier = bindR (field32 nullifier ''nullifier'') (\<lambda>nf.
     mapR (sha256 C) (written [w_context LIT_TAG_CONTEXT, w_key32 nf ''nullifier'']))"

definition issueRho :: "crypto \<Rightarrow> lit_output \<Rightarrow> bytes \<Rightarrow> bytes result" where
  "issueRho C output nonce = bindR (ownOutput C output) (\<lambda>own. bindR (field32 nonce ''nonce'') (\<lambda>n.
     mapR (sha256 C) (written [w_context LIT_RHO_ISSUE_CONTEXT, writeOutput own, w_key32 n ''nonce''])))"

definition spendRho :: "crypto \<Rightarrow> bytes list \<Rightarrow> int \<Rightarrow> bytes result" where
  "spendRho C nullifiers position =
     (if length nullifiers < 1 \<or> length nullifiers > LIT_MAX_INPUTS then Inl (EncodingError ''wrong nullifier count'')
      else bindR (copyArray nullifiers (\<lambda>nf. field32 nf ''nullifier'') (int LIT_MAX_INPUTS)) (\<lambda>own.
        if length own < 1 then Inl (EncodingError ''wrong nullifier count'')
        else if position < 0 \<or> position \<ge> int LIT_MAX_OUTPUTS then Inl (EncodingError ''wrong output position'')
        else mapR (sha256 C) (written ([w_context LIT_RHO_SPEND_CONTEXT, w_u8 (int (length own))] @
          map (\<lambda>nf. w_key32 nf ''nullifier'') own @ [w_u8 position]))))"

subsection \<open>What the checks admit and what is written\<close>

definition output_ok :: "crypto \<Rightarrow> 'a lit_output_scheme \<Rightarrow> bool" where
  "output_ok C o' \<longleftrightarrow> length (lo_backing o') = 32 \<and> 0 < lo_value o' \<and> lo_value o' < 2 ^ 64 \<and> length (lo_owner o') = 32 \<and>
     isValidPublicKey C (lo_owner o')"

definition opening_ok :: "crypto \<Rightarrow> lit_opening \<Rightarrow> bool" where
  "opening_ok C o' \<longleftrightarrow> output_ok C o' \<and> length (lo_rho o') = 32"

definition output_enc :: "'a lit_output_scheme \<Rightarrow> bytes" where
  "output_enc o' = lo_backing o' @ be_bytes 8 (lo_value o') @ lo_owner o'"

definition opening_enc :: "lit_opening \<Rightarrow> bytes" where
  "opening_enc o' = output_enc o' @ lo_rho o'"

lemma field32_conv: "field32 v what = Inr w \<longleftrightarrow> length v = 32 \<and> w = v"
  by (auto simp: field32_def)

lemma key32_conv: "key32 C v what = Inr w \<longleftrightarrow> length v = 32 \<and> isValidPublicKey C v \<and> w = v"
  by (auto simp: key32_def bindR_Inr_conv field32_conv)

lemma positive_conv: "positive v what = Inr w \<longleftrightarrow> 0 < v \<and> v < 2 ^ 64 \<and> w = v"
  by (auto simp: positive_def)

lemma ownOutput_conv: "ownOutput C o' = Inr p \<longleftrightarrow> output_ok C o' \<and> p = o'"
  by (cases o') (auto simp: ownOutput_def bindR_Inr_conv field32_conv key32_conv positive_conv output_ok_def)

lemma ownOpening_conv: "ownOpening C o' = Inr p \<longleftrightarrow> opening_ok C o' \<and> p = o'"
  by (cases o') (auto simp: ownOpening_def bindR_Inr_conv field32_conv key32_conv positive_conv opening_ok_def output_ok_def)

lemma writeOutput_conv [write_simps]: "writeOutput o' out = Inr r \<longleftrightarrow>
    length (lo_backing o') = 32 \<and> 0 \<le> lo_value o' \<and> lo_value o' < 2 ^ 64 \<and> length (lo_owner o') = 32 \<and> r = out @ output_enc o'"
  by (auto simp: writeOutput_def bindR_Inr_conv write_simps output_enc_def)

lemma writeOpening_conv [write_simps]: "writeOpening o' out = Inr r \<longleftrightarrow>
    length (lo_backing o') = 32 \<and> 0 \<le> lo_value o' \<and> lo_value o' < 2 ^ 64 \<and> length (lo_owner o') = 32 \<and> length (lo_rho o') = 32 \<and>
    r = out @ opening_enc o'"
  by (auto simp: writeOpening_def bindR_Inr_conv write_simps opening_enc_def)

lemma length_output_enc: "output_ok C o' \<Longrightarrow> length (output_enc o') = 72"
  by (simp add: output_ok_def output_enc_def)

lemma length_opening_enc: "opening_ok C o' \<Longrightarrow> length (opening_enc o') = 104"
  using length_output_enc [of C o'] by (simp add: opening_ok_def opening_enc_def)

lemma openingBytes_conv: "openingBytes C o' = Inr bs \<longleftrightarrow> opening_ok C o' \<and> bs = opening_enc o'"
  by (auto simp: openingBytes_def bindR_Inr_conv ownOpening_conv write_simps opening_ok_def output_ok_def)

text \<open>The frames the digests are of.\<close>

definition note_frame :: "bytes \<Rightarrow> lit_opening \<Rightarrow> bytes" where
  "note_frame domain o' = LIT_NOTE_CONTEXT @ domain @ opening_enc o'"

definition spend_rho_frame :: "bytes list \<Rightarrow> int \<Rightarrow> bytes" where
  "spend_rho_frame nfs position = LIT_RHO_SPEND_CONTEXT @ be_bytes 1 (int (length nfs)) @ concat nfs @ be_bytes 1 position"

lemma noteCommitment_conv: "noteCommitment C d o' = Inr cm \<longleftrightarrow> length d = 32 \<and> opening_ok C o' \<and> cm = sha256 C (note_frame d o')"
  by (auto simp: noteCommitment_def bindR_Inr_conv mapR_Inr_conv field32_conv ownOpening_conv write_simps opening_ok_def output_ok_def note_frame_def)

lemma noteNullifier_conv: "noteNullifier C cm = Inr nf \<longleftrightarrow> length cm = 32 \<and> nf = sha256 C (LIT_NULLIFIER_CONTEXT @ cm)"
  by (auto simp: noteNullifier_def bindR_Inr_conv mapR_Inr_conv field32_conv write_simps)

lemma noteTag_conv: "noteTag C nf = Inr t \<longleftrightarrow> length nf = 32 \<and> t = sha256 C (LIT_TAG_CONTEXT @ nf)"
  by (auto simp: noteTag_def bindR_Inr_conv mapR_Inr_conv field32_conv write_simps)

lemma issueRho_conv: "issueRho C o' n = Inr rho \<longleftrightarrow> output_ok C o' \<and> length n = 32 \<and>
    rho = sha256 C (LIT_RHO_ISSUE_CONTEXT @ output_enc o' @ n)"
  by (auto simp: issueRho_def bindR_Inr_conv mapR_Inr_conv field32_conv ownOutput_conv write_simps output_ok_def)

lemma spendRho_conv: "spendRho C nfs j = Inr rho \<longleftrightarrow> nfs \<noteq> [] \<and> length nfs \<le> LIT_MAX_INPUTS \<and> list_all (\<lambda>nf. length nf = 32) nfs \<and>
    0 \<le> j \<and> j < int LIT_MAX_OUTPUTS \<and> rho = sha256 C (spend_rho_frame nfs j)"
proof -
  have "list_all (\<lambda>nf. length nf = 32) nfs \<Longrightarrow> run_writes (map (\<lambda>nf. w_key32 nf ''nullifier'') nfs) out = Inr r \<longleftrightarrow>
      r = out @ concat (map (\<lambda>nf. nf) nfs)" for out r
    using run_writes_map [of "\<lambda>nf. w_key32 nf ''nullifier''" "\<lambda>nf. length nf = 32" "\<lambda>nf. nf" nfs] w_key32_conv by simp
  then show ?thesis
    by (auto simp: spendRho_def copyArray_def bindR_Inr_conv mapR_Inr_conv traverse_filter [OF field32_conv] write_simps
        spend_rho_frame_def LIT_MAX_INPUTS_def LIT_MAX_OUTPUTS_def Suc_le_eq)
qed

text \<open>An opening is read back from its bytes.\<close>

definition readOutput :: "lit_output read" where
  "readOutput = bindP (r_raw 32) (\<lambda>backing. bindP r_u64 (\<lambda>v. bindP (r_raw 32) (\<lambda>owner.
     returnP \<lparr>lo_backing = backing, lo_value = v, lo_owner = owner\<rparr>)))"

definition readOpening :: "lit_opening read" where
  "readOpening = bindP readOutput (\<lambda>o'. bindP (r_raw 32) (\<lambda>rho.
     returnP \<lparr>lo_backing = lo_backing o', lo_value = lo_value o', lo_owner = lo_owner o', lo_rho = rho\<rparr>))"

definition output_shape :: "'a lit_output_scheme \<Rightarrow> bool" where
  "output_shape o' \<longleftrightarrow> length (lo_backing o') = 32 \<and> 0 \<le> lo_value o' \<and> lo_value o' < 2 ^ 64 \<and> length (lo_owner o') = 32"

definition opening_shape :: "lit_opening \<Rightarrow> bool" where
  "opening_shape o' \<longleftrightarrow> output_shape o' \<and> length (lo_rho o') = 32"

lemma output_ok_shape: "output_ok C o' \<Longrightarrow> output_shape o'"
  by (simp add: output_ok_def output_shape_def)

lemma opening_ok_shape: "opening_ok C o' \<Longrightarrow> opening_shape o'"
  using output_ok_shape [of C o'] by (simp add: opening_ok_def opening_shape_def)

lemma readOutput_reads: "reads readOutput output_enc output_shape"
proof (rule reads_splitI)
  fix pre rest and o' :: lit_output
  assume "output_shape o'"
  then show "readOutput (reader_at pre (output_enc o' @ rest)) = Inr (o', reader_at (pre @ output_enc o') rest)"
    by (simp add: readOutput_def output_enc_def output_shape_def run_simps)
qed (auto simp: readOutput_def output_enc_def output_shape_def read_simps)

lemmas readOutput_conv [read_simps] = readsD [OF readOutput_reads]
lemmas readOutput_run [run_simps] = reads_run [OF readOutput_reads]

lemma readOpening_reads: "reads readOpening opening_enc opening_shape"
proof (rule reads_splitI)
  fix pre rest and o' :: lit_opening
  assume ok: "opening_shape o'"
  let ?p = "lit_output.truncate o'"
  have "output_shape ?p" "output_enc o' = output_enc ?p"
    using ok by (simp_all add: opening_shape_def output_shape_def output_enc_def lit_output.truncate_def)
  with ok show "readOpening (reader_at pre (opening_enc o' @ rest)) = Inr (o', reader_at (pre @ opening_enc o') rest)"
    by (simp add: readOpening_def opening_enc_def opening_shape_def run_simps) (simp add: lit_output.truncate_def)
next
  fix pre rest x r'
  assume "readOpening (reader_at pre rest) = Inr (x, r')"
  then show "opening_shape x \<and> (\<exists>rest'. rest = opening_enc x @ rest' \<and> r' = reader_at (pre @ opening_enc x) rest')"
    by (auto simp: readOpening_def opening_enc_def output_enc_def opening_shape_def output_shape_def read_simps)
qed

lemmas readOpening_conv [read_simps] = readsD [OF readOpening_reads]
lemmas readOpening_run [run_simps] = reads_run [OF readOpening_reads]

end
