(* ===== verification/LitRecords.thy ===== *)
theory LitRecords
  imports LitNotes
begin

section \<open>Lit statements, records, acceptances and publications (src/lit/records.ts)\<close>

text \<open>
  The canonical frames of lit-v1: a statement of one of seven kinds, a record (a statement with its
  authorization), an acceptance under two signatures and a publication; the openings a statement
  creates; and the statement's own arithmetic and signatures, which stand where pool v3 has a proof.
  Selectors are shared by the constructors whose object has the property.
\<close>

subsection \<open>Statements\<close>

datatype lit_statement =
    LitIssue (lt_domain: bytes) (lt_segment: bytes) (lt_backing: bytes) (lt_quantity: int) (lt_owner: bytes) (lt_nonce: bytes)
  | LitSpend (lt_domain: bytes) (lt_segment: bytes) (lt_inputs: "lit_opening list") (lt_outputs: "lit_output list")
  | LitBurn (lt_domain: bytes) (lt_segment: bytes) (lt_quantity: int) (lt_inputs: "lit_opening list") (lt_outputs: "lit_output list")
  | LitDemand (lt_domain: bytes) (lt_segment: bytes) (lt_inputs: "lit_opening list") (lt_presenter: bytes) (lt_instant: int) (lt_deadline: int)
  | LitWithdraw (lt_domain: bytes) (lt_segment: bytes) (lt_demand: bytes)
  | LitSettle (lt_domain: bytes) (lt_segment: bytes) (lt_demand: bytes) (lt_owner: bytes)
  | LitRequest (lt_domain: bytes) (lt_input: lit_opening) (lt_refresh: int)

definition lt_kind :: "lit_statement \<Rightarrow> int" where
  "lt_kind s = (case s of LitIssue _ _ _ _ _ _ \<Rightarrow> 1 | LitSpend _ _ _ _ \<Rightarrow> 2 | LitBurn _ _ _ _ _ \<Rightarrow> 3
     | LitDemand _ _ _ _ _ _ \<Rightarrow> 4 | LitWithdraw _ _ _ \<Rightarrow> 5 | LitSettle _ _ _ _ \<Rightarrow> 6 | LitRequest _ _ _ \<Rightarrow> 7)"

record lit_record =
  lr_statement :: lit_statement
  lr_authorization :: bytes

definition LIT_STATEMENT_PREFIX_BYTES :: nat where "LIT_STATEMENT_PREFIX_BYTES = length LIT_STATEMENT_CONTEXT + 33"
definition SETTLEMENT_AUTHORIZATION_BYTES :: nat where "SETTLEMENT_AUTHORIZATION_BYTES = 200"

definition lit_u64 :: "int \<Rightarrow> string \<Rightarrow> int result" where
  "lit_u64 v what = (if v < 0 \<or> v > 0xffffffffffffffff then Inl (EncodingError (what @ '' outside u64'')) else Inr v)"

definition own_list :: "'a list \<Rightarrow> nat \<Rightarrow> nat \<Rightarrow> ('a \<Rightarrow> 'b result) \<Rightarrow> string \<Rightarrow> 'b list result" where
  "own_list v least most own what =
     (if length v < least \<or> length v > most then Inl (EncodingError (''wrong '' @ what @ '' count''))
      else bindR (copyArray v own (int most)) (\<lambda>copy.
        if length copy < least then Inl (EncodingError (''wrong '' @ what @ '' count'')) else Inr copy))"

definition own_inputs :: "crypto \<Rightarrow> lit_opening list \<Rightarrow> lit_opening list result" where
  "own_inputs C v = own_list v 1 LIT_MAX_INPUTS (ownOpening C) ''input''"

definition ownStatement :: "crypto \<Rightarrow> lit_statement \<Rightarrow> lit_statement result" where
  "ownStatement C s = bindR (field32 (lt_domain s) ''domain'') (\<lambda>domain. case s of
     LitIssue _ segment backing quantity owner nonce \<Rightarrow> bindR (field32 segment ''segment'') (\<lambda>segment. bindR (field32 backing ''backing'') (\<lambda>backing.
       bindR (positive quantity ''quantity'') (\<lambda>quantity. bindR (key32 C owner ''owner'') (\<lambda>owner. bindR (field32 nonce ''nonce'') (\<lambda>nonce.
       Inr (LitIssue domain segment backing quantity owner nonce))))))
   | LitSpend _ segment ins outs \<Rightarrow> bindR (field32 segment ''segment'') (\<lambda>segment. bindR (own_inputs C ins) (\<lambda>ins.
       bindR (own_list outs 1 LIT_MAX_OUTPUTS (ownOutput C) ''output'') (\<lambda>outs. Inr (LitSpend domain segment ins outs))))
   | LitBurn _ segment quantity ins outs \<Rightarrow> bindR (field32 segment ''segment'') (\<lambda>segment. bindR (positive quantity ''quantity'') (\<lambda>quantity.
       bindR (own_inputs C ins) (\<lambda>ins. bindR (own_list outs 0 1 (ownOutput C) ''output'') (\<lambda>outs. Inr (LitBurn domain segment quantity ins outs)))))
   | LitDemand _ segment ins presenter instant deadline \<Rightarrow> bindR (field32 segment ''segment'') (\<lambda>segment. bindR (own_inputs C ins) (\<lambda>ins.
       bindR (key32 C presenter ''presenter'') (\<lambda>presenter. bindR (lit_u64 instant ''instant'') (\<lambda>instant.
       bindR (lit_u64 deadline ''deadline'') (\<lambda>deadline. Inr (LitDemand domain segment ins presenter instant deadline))))))
   | LitWithdraw _ segment demand \<Rightarrow> bindR (field32 segment ''segment'') (\<lambda>segment. bindR (field32 demand ''demand'') (\<lambda>demand.
       Inr (LitWithdraw domain segment demand)))
   | LitSettle _ segment demand owner \<Rightarrow> bindR (field32 segment ''segment'') (\<lambda>segment. bindR (field32 demand ''demand'') (\<lambda>demand.
       bindR (key32 C owner ''owner'') (\<lambda>owner. Inr (LitSettle domain segment demand owner))))
   | LitRequest _ input refresh \<Rightarrow> bindR (ownOpening C input) (\<lambda>input. bindR (lit_u64 refresh ''refresh'') (\<lambda>refresh.
       Inr (LitRequest domain input refresh))))"

definition write_openings :: "lit_opening list \<Rightarrow> writer list" where
  "write_openings ins = w_u8 (int (length ins)) # map writeOpening ins"

definition write_outputs :: "lit_output list \<Rightarrow> writer list" where
  "write_outputs outs = w_u8 (int (length outs)) # map writeOutput outs"

definition writeStatement :: "lit_statement \<Rightarrow> writer list" where
  "writeStatement s = [w_context LIT_STATEMENT_CONTEXT, w_key32 (lt_domain s) ''domain'', w_u8 (lt_kind s)] @
     (if lt_kind s \<noteq> 7 then [w_key32 (lt_segment s) ''segment''] else []) @
     (case s of
        LitIssue _ _ backing quantity owner nonce \<Rightarrow>
          [writeOutput \<lparr>lo_backing = backing, lo_value = quantity, lo_owner = owner\<rparr>, w_key32 nonce ''nonce'']
      | LitSpend _ _ ins outs \<Rightarrow> write_openings ins @ write_outputs outs
      | LitBurn _ _ quantity ins outs \<Rightarrow> w_u64 quantity # write_openings ins @ write_outputs outs
      | LitDemand _ _ ins presenter instant deadline \<Rightarrow>
          write_openings ins @ [w_key32 presenter ''presenter'', w_u64 instant, w_u64 deadline]
      | LitWithdraw _ _ demand \<Rightarrow> [w_key32 demand ''demand'']
      | LitSettle _ _ demand owner \<Rightarrow> [w_key32 demand ''demand'', w_key32 owner ''owner'']
      | LitRequest _ input refresh \<Rightarrow> [writeOpening input, w_u64 refresh])"

definition lit_statementBytes :: "crypto \<Rightarrow> lit_statement \<Rightarrow> bytes result" where
  "lit_statementBytes C s = bindR (ownStatement C s) (\<lambda>s. written (writeStatement s))"

definition lit_statementHash :: "crypto \<Rightarrow> lit_statement \<Rightarrow> bytes result" where
  "lit_statementHash C s = mapR (sha256 C) (lit_statementBytes C s)"

definition readCount :: "nat \<Rightarrow> nat \<Rightarrow> nat read" where
  "readCount least most = bindP r_u8 (\<lambda>n.
     if n < int least \<or> n > int most then liftP (Inl (EncodingError ''wrong input or output count'')) else returnP (nat n))"

definition read_openings :: "lit_opening list read" where
  "read_openings = bindP (readCount 1 LIT_MAX_INPUTS) (\<lambda>n. repeatP n readOpening)"

definition read_outputs :: "nat \<Rightarrow> nat \<Rightarrow> lit_output list read" where
  "read_outputs least most = bindP (readCount least most) (\<lambda>n. repeatP n readOutput)"

definition read_body :: "int \<Rightarrow> bytes \<Rightarrow> bytes \<Rightarrow> lit_statement read" where
  "read_body kind domain segment =
     (if kind = 1 then bindP readOutput (\<lambda>o'. bindP (r_raw 32) (\<lambda>nonce.
        returnP (LitIssue domain segment (lo_backing o') (lo_value o') (lo_owner o') nonce)))
      else if kind = 2 then bindP read_openings (\<lambda>ins. bindP (read_outputs 1 LIT_MAX_OUTPUTS) (\<lambda>outs.
        returnP (LitSpend domain segment ins outs)))
      else if kind = 3 then bindP r_u64 (\<lambda>quantity. bindP read_openings (\<lambda>ins. bindP (read_outputs 0 1) (\<lambda>outs.
        returnP (LitBurn domain segment quantity ins outs))))
      else if kind = 4 then bindP read_openings (\<lambda>ins. bindP (r_raw 32) (\<lambda>presenter. bindP r_u64 (\<lambda>instant. bindP r_u64 (\<lambda>deadline.
        returnP (LitDemand domain segment ins presenter instant deadline)))))
      else if kind = 5 then bindP (r_raw 32) (\<lambda>demand. returnP (LitWithdraw domain segment demand))
      else bindP (r_raw 32) (\<lambda>demand. bindP (r_raw 32) (\<lambda>owner. returnP (LitSettle domain segment demand owner))))"

definition lit_context :: "bytes \<Rightarrow> string \<Rightarrow> unit read" where
  "lit_context tg message = bindP (r_raw (int (length tg))) (\<lambda>b. liftP (requireR (compareBytes b tg = 0) (EncodingError message)))"

definition lit_readStatement :: "crypto \<Rightarrow> lit_statement read" where
  "lit_readStatement C =
     bindP (lit_context LIT_STATEMENT_CONTEXT ''wrong statement context'') (\<lambda>_.
     bindP (r_raw 32) (\<lambda>domain. bindP r_u8 (\<lambda>kind.
     if kind < 1 \<or> kind > 7 then liftP (Inl (EncodingError ''unknown statement kind''))
     else if kind = 7 then bindP readOpening (\<lambda>input. bindP r_u64 (\<lambda>refresh. liftP (ownStatement C (LitRequest domain input refresh))))
     else bindP (r_raw 32) (\<lambda>segment. bindP (read_body kind domain segment) (\<lambda>s. liftP (ownStatement C s))))))"

definition lit_decodeStatement :: "crypto \<Rightarrow> bytes \<Rightarrow> lit_statement result" where
  "lit_decodeStatement C = decoded_by (bindP (lit_readStatement C) (\<lambda>s. bindP r_expectEnd (\<lambda>_. returnP s)))"

subsection \<open>Records\<close>

definition authorizationLength :: "lit_statement \<Rightarrow> nat" where
  "authorizationLength s = (if lt_kind s = 2 \<or> lt_kind s = 3 \<or> lt_kind s = 4 then 64 * length (lt_inputs s)
     else if lt_kind s = 6 then SETTLEMENT_AUTHORIZATION_BYTES else 64)"

definition ownRecord :: "crypto \<Rightarrow> lit_record \<Rightarrow> lit_record result" where
  "ownRecord C v = bindR (ownStatement C (lr_statement v)) (\<lambda>s.
     if length (lr_authorization v) \<noteq> authorizationLength s then Inl (EncodingError ''wrong authorization length'')
     else Inr \<lparr>lr_statement = s, lr_authorization = lr_authorization v\<rparr>)"

definition lit_encodeRecord :: "crypto \<Rightarrow> lit_record \<Rightarrow> bytes result" where
  "lit_encodeRecord C v = bindR (ownRecord C v) (\<lambda>r. bindR (lit_statementBytes C (lr_statement r)) (\<lambda>sb.
     written [w_lengthPrefixed sb, w_lengthPrefixed (lr_authorization r)]))"

definition MAX_SAFE_INTEGER :: int where "MAX_SAFE_INTEGER = 9007199254740991"

definition splitRecord :: "bytes \<Rightarrow> (bytes \<times> bytes) result" where
  "splitRecord = decoded_by (bindP (bindP (r_lengthPrefixed MAX_SAFE_INTEGER) (\<lambda>st. bindP (r_lengthPrefixed MAX_SAFE_INTEGER) (\<lambda>au.
     returnP (st, au)))) (\<lambda>x. bindP r_expectEnd (\<lambda>_. returnP x)))"

definition lit_decodeRecord :: "crypto \<Rightarrow> bytes \<Rightarrow> lit_record result" where
  "lit_decodeRecord C bs = bindR (splitRecord bs) (\<lambda>(st, au). bindR (lit_decodeStatement C st) (\<lambda>s.
     ownRecord C \<lparr>lr_statement = s, lr_authorization = au\<rparr>))"

text \<open>The evidence pair: the digests of the two fields.\<close>

record evidence_pair =
  ep_statementHash :: bytes
  ep_signatureHash :: bytes

definition lit_hashEvidenceFields :: "crypto \<Rightarrow> bytes \<Rightarrow> bytes \<Rightarrow> evidence_pair" where
  "lit_hashEvidenceFields C st au = \<lparr>ep_statementHash = sha256 C st, ep_signatureHash = sha256 C au\<rparr>"

definition evidencePair :: "crypto \<Rightarrow> lit_record \<Rightarrow> evidence_pair result" where
  "evidencePair C v = bindR (ownRecord C v) (\<lambda>r. bindR (lit_statementBytes C (lr_statement r)) (\<lambda>sb.
     Inr (lit_hashEvidenceFields C sb (lr_authorization r))))"

subsection \<open>Derived values\<close>

definition input_nullifier :: "crypto \<Rightarrow> bytes \<Rightarrow> lit_opening \<Rightarrow> bytes result" where
  "input_nullifier C domain input = bindR (noteCommitment C domain input) (noteNullifier C)"

definition inputNullifiers :: "crypto \<Rightarrow> lit_statement \<Rightarrow> bytes list result" where
  "inputNullifiers C s = bindR (ownStatement C s) (\<lambda>own.
     if lt_kind own \<noteq> 2 \<and> lt_kind own \<noteq> 3 \<and> lt_kind own \<noteq> 4 then Inl (EncodingError ''not a spend, burn or demand'')
     else traverseR (input_nullifier C (lt_domain own)) (lt_inputs own))"

record demand_claim =
  dc_backing :: bytes
  dc_quantity :: int

record settled_claim = demand_claim +
  dc_nullifiers :: "bytes list"

definition demandClaim :: "crypto \<Rightarrow> lit_statement \<Rightarrow> demand_claim result" where
  "demandClaim C demand = bindR (ownStatement C demand) (\<lambda>d.
     if lt_kind d \<noteq> 4 then Inl (EncodingError ''not a demand'')
     else let backing = lo_backing (lt_inputs d ! 0) in
       if list_ex (\<lambda>input. compareBytes (lo_backing input) backing \<noteq> 0) (lt_inputs d)
       then Inl (EncodingError ''demand inputs of several backings'')
       else let quantity = foldl (\<lambda>sum input. sum + lo_value input) 0 (lt_inputs d) in
         if quantity > 0xffffffffffffffff then Inl (EncodingError ''demand quantity outside u64'')
         else Inr \<lparr>dc_backing = backing, dc_quantity = quantity\<rparr>)"

definition spend_output :: "crypto \<Rightarrow> bytes list \<Rightarrow> nat \<times> lit_output \<Rightarrow> lit_opening result" where
  "spend_output C nullifiers = (\<lambda>(j, o'). mapR (\<lambda>rho.
     \<lparr>lo_backing = lo_backing o', lo_value = lo_value o', lo_owner = lo_owner o', lo_rho = rho\<rparr>) (spendRho C nullifiers (int j)))"

definition createdOutputs :: "crypto \<Rightarrow> lit_statement \<Rightarrow> settled_claim option \<Rightarrow> lit_opening list result" where
  "createdOutputs C st claim = bindR (ownStatement C st) (\<lambda>s. case s of
     LitIssue _ _ backing quantity owner nonce \<Rightarrow>
       mapR (\<lambda>rho. [\<lparr>lo_backing = backing, lo_value = quantity, lo_owner = owner, lo_rho = rho\<rparr>])
         (issueRho C \<lparr>lo_backing = backing, lo_value = quantity, lo_owner = owner\<rparr> nonce)
   | LitSpend _ _ _ outs \<Rightarrow> bindR (inputNullifiers C s) (\<lambda>nullifiers. traverseR (spend_output C nullifiers) (enumerate 0 outs))
   | LitBurn _ _ _ _ outs \<Rightarrow> bindR (inputNullifiers C s) (\<lambda>nullifiers. traverseR (spend_output C nullifiers) (enumerate 0 outs))
   | LitSettle _ _ _ owner \<Rightarrow> (case claim of
       None \<Rightarrow> Inl (EncodingError ''a settlement's output needs its demand'')
     | Some c \<Rightarrow> mapR (\<lambda>rho. [\<lparr>lo_backing = dc_backing c, lo_value = dc_quantity c, lo_owner = owner, lo_rho = rho\<rparr>])
         (spendRho C (dc_nullifiers c) 0))
   | _ \<Rightarrow> Inr [])"

definition derivedOutputs :: "crypto \<Rightarrow> lit_statement \<Rightarrow> lit_statement option \<Rightarrow> lit_opening list result" where
  "derivedOutputs C st demand = bindR (ownStatement C st) (\<lambda>s.
     if lt_kind s \<noteq> 6 then createdOutputs C s None
     else case demand of None \<Rightarrow> Inl (EncodingError ''a settlement's output needs its demand'')
     | Some dem \<Rightarrow> bindR (ownStatement C dem) (\<lambda>d. bindR (lit_statementHash C d) (\<lambda>h.
         if lt_kind d \<noteq> 4 \<or> compareBytes (lt_domain d) (lt_domain s) \<noteq> 0 \<or> compareBytes h (lt_demand s) \<noteq> 0
         then Inl (EncodingError ''not the settlement's demand'')
         else bindR (demandClaim C d) (\<lambda>c. bindR (inputNullifiers C d) (\<lambda>nfs.
           createdOutputs C s (Some \<lparr>dc_backing = dc_backing c, dc_quantity = dc_quantity c, dc_nullifiers = nfs\<rparr>))))))"

subsection \<open>Arithmetic and signatures\<close>

text \<open>The sums by backing, a \<open>Map\<close> in insertion order.\<close>

type_synonym sums = "(bytes \<times> int) list"

fun sums_add :: "bytes \<Rightarrow> int \<Rightarrow> sums \<Rightarrow> sums" where
  "sums_add b v [] = [(b, v)]"
| "sums_add b v ((c, w) # s) = (if c = b then (c, w + v) # s else (c, w) # sums_add b v s)"

definition sum_inputs :: "lit_opening list \<Rightarrow> sums" where
  "sum_inputs ins = foldl (\<lambda>s input. sums_add (lo_backing input) (lo_value input) s) [] ins"

fun take_outputs :: "lit_output list \<Rightarrow> sums \<Rightarrow> sums option" where
  "take_outputs [] s = Some s"
| "take_outputs (o' # os) s = (case map_of s (lo_backing o') of None \<Rightarrow> None
     | Some left \<Rightarrow> take_outputs os (sums_add (lo_backing o') (- lo_value o') s))"

definition same_note :: "lit_opening list \<Rightarrow> bool" where
  "same_note ins \<longleftrightarrow> length ins = 2 \<and> compareBytes (opening_enc (ins ! 0)) (opening_enc (ins ! 1)) = 0"

definition arithmeticHolds :: "crypto \<Rightarrow> lit_statement \<Rightarrow> bool" where
  "arithmeticHolds C st = (case ownStatement C st of Inl _ \<Rightarrow> False | Inr s \<Rightarrow> (case s of
     LitSpend _ _ ins outs \<Rightarrow> \<not> same_note ins \<and>
       (case take_outputs outs (sum_inputs ins) of None \<Rightarrow> False | Some left \<Rightarrow> list_all (\<lambda>(_, v). v = 0) left)
   | LitBurn _ _ quantity ins outs \<Rightarrow> \<not> same_note ins \<and>
       (let sums = sum_inputs ins in length sums = 1 \<and>
         (case outs of [] \<Rightarrow> snd (hd sums) = quantity
          | change # _ \<Rightarrow> map_of sums (lo_backing change) \<noteq> None \<and> snd (hd sums) = quantity + lo_value change))
   | LitDemand _ _ ins _ _ _ \<Rightarrow> \<not> same_note ins \<and>
       (let sums = sum_inputs ins in length sums = 1 \<and> snd (hd sums) \<le> 0xffffffffffffffff)
   | _ \<Rightarrow> True))"

definition subarray64 :: "nat \<Rightarrow> bytes \<Rightarrow> bytes" where
  "subarray64 i bs = take 64 (drop (64 * i) bs)"

definition ownerSignaturesVerify :: "crypto \<Rightarrow> lit_record \<Rightarrow> bool" where
  "ownerSignaturesVerify C rec = (case ownRecord C rec of Inl _ \<Rightarrow> False | Inr r \<Rightarrow>
     let s = lr_statement r in
     if lt_kind s \<noteq> 2 \<and> lt_kind s \<noteq> 3 \<and> lt_kind s \<noteq> 4 \<and> lt_kind s \<noteq> 7 then False
     else case lit_statementBytes C s of Inl _ \<Rightarrow> False | Inr message \<Rightarrow>
       list_all (\<lambda>(i, owner). verifySignatureStrict C (subarray64 i (lr_authorization r)) message owner)
         (enumerate 0 (if lt_kind s = 7 then [lo_owner (lt_input s)] else map lo_owner (lt_inputs s))))"

definition statementSignatureVerifies :: "crypto \<Rightarrow> lit_record \<Rightarrow> bytes \<Rightarrow> bool" where
  "statementSignatureVerifies C rec key = (case ownRecord C rec of Inl _ \<Rightarrow> False | Inr r \<Rightarrow>
     if lt_kind (lr_statement r) \<noteq> 1 \<and> lt_kind (lr_statement r) \<noteq> 5 then False
     else case lit_statementBytes C (lr_statement r) of Inl _ \<Rightarrow> False
     | Inr message \<Rightarrow> verifySignatureStrict C (lr_authorization r) message key)"

subsection \<open>What the checks admit and what is written\<close>

definition inputs_ok :: "crypto \<Rightarrow> lit_opening list \<Rightarrow> bool" where
  "inputs_ok C ins \<longleftrightarrow> 1 \<le> length ins \<and> length ins \<le> LIT_MAX_INPUTS \<and> list_all (opening_ok C) ins"

definition outputs_ok :: "crypto \<Rightarrow> nat \<Rightarrow> nat \<Rightarrow> lit_output list \<Rightarrow> bool" where
  "outputs_ok C least most outs \<longleftrightarrow> least \<le> length outs \<and> length outs \<le> most \<and> list_all (output_ok C) outs"

definition key_ok :: "crypto \<Rightarrow> bytes \<Rightarrow> bool" where
  "key_ok C k \<longleftrightarrow> length k = 32 \<and> isValidPublicKey C k"

text \<open>What \<open>ownStatement\<close> admits.\<close>

definition lit_ok :: "crypto \<Rightarrow> lit_statement \<Rightarrow> bool" where
  "lit_ok C s \<longleftrightarrow> length (lt_domain s) = 32 \<and> (case s of
     LitIssue _ segment backing quantity owner nonce \<Rightarrow> length segment = 32 \<and> length backing = 32 \<and> 0 < quantity \<and> quantity < 2 ^ 64 \<and>
       key_ok C owner \<and> length nonce = 32
   | LitSpend _ segment ins outs \<Rightarrow> length segment = 32 \<and> inputs_ok C ins \<and> outputs_ok C 1 LIT_MAX_OUTPUTS outs
   | LitBurn _ segment quantity ins outs \<Rightarrow> length segment = 32 \<and> 0 < quantity \<and> quantity < 2 ^ 64 \<and> inputs_ok C ins \<and> outputs_ok C 0 1 outs
   | LitDemand _ segment ins presenter instant deadline \<Rightarrow> length segment = 32 \<and> inputs_ok C ins \<and> key_ok C presenter \<and>
       0 \<le> instant \<and> instant < 2 ^ 64 \<and> 0 \<le> deadline \<and> deadline < 2 ^ 64
   | LitWithdraw _ segment demand \<Rightarrow> length segment = 32 \<and> length demand = 32
   | LitSettle _ segment demand owner \<Rightarrow> length segment = 32 \<and> length demand = 32 \<and> key_ok C owner
   | LitRequest _ input refresh \<Rightarrow> opening_ok C input \<and> 0 \<le> refresh \<and> refresh < 2 ^ 64)"

lemma lit_u64_conv: "lit_u64 v what = Inr w \<longleftrightarrow> 0 \<le> v \<and> v < 2 ^ 64 \<and> w = v"
  by (auto simp: lit_u64_def)

lemma own_list_conv:
  assumes "\<And>x y. own x = Inr y \<longleftrightarrow> ok x \<and> y = x"
  shows "own_list v least most own what = Inr w \<longleftrightarrow> least \<le> length v \<and> length v \<le> most \<and> list_all ok v \<and> w = v"
  by (auto simp: own_list_def copyArray_def bindR_Inr_conv traverse_filter [OF assms])

lemma own_inputs_conv: "own_inputs C v = Inr w \<longleftrightarrow> inputs_ok C v \<and> w = v"
  unfolding own_inputs_def inputs_ok_def own_list_conv [OF ownOpening_conv] by auto

lemma own_outputs_conv: "own_list v least most (ownOutput C) what = Inr w \<longleftrightarrow> outputs_ok C least most v \<and> w = v"
  unfolding outputs_ok_def own_list_conv [OF ownOutput_conv] by auto

lemma own_key_conv: "key32 C v what = Inr w \<longleftrightarrow> key_ok C v \<and> w = v"
  by (auto simp: key32_conv key_ok_def)

lemmas own_convs = field32_conv own_key_conv positive_conv lit_u64_conv own_inputs_conv own_outputs_conv ownOpening_conv

lemma ownStatement_conv: "ownStatement C s = Inr t \<longleftrightarrow> lit_ok C s \<and> t = s"
  unfolding ownStatement_def bindR_Inr_conv lit_ok_def
  by (cases s) (auto simp: bindR_Inr_conv own_convs)

definition openings_enc :: "lit_opening list \<Rightarrow> bytes" where
  "openings_enc ins = be_bytes 1 (int (length ins)) @ concat (map opening_enc ins)"

definition outputs_enc :: "lit_output list \<Rightarrow> bytes" where
  "outputs_enc outs = be_bytes 1 (int (length outs)) @ concat (map output_enc outs)"

definition lit_body_enc :: "lit_statement \<Rightarrow> bytes" where
  "lit_body_enc s = (case s of
     LitIssue _ _ backing quantity owner nonce \<Rightarrow> backing @ be_bytes 8 quantity @ owner @ nonce
   | LitSpend _ _ ins outs \<Rightarrow> openings_enc ins @ outputs_enc outs
   | LitBurn _ _ quantity ins outs \<Rightarrow> be_bytes 8 quantity @ openings_enc ins @ outputs_enc outs
   | LitDemand _ _ ins presenter instant deadline \<Rightarrow> openings_enc ins @ presenter @ be_bytes 8 instant @ be_bytes 8 deadline
   | LitWithdraw _ _ demand \<Rightarrow> demand
   | LitSettle _ _ demand owner \<Rightarrow> demand @ owner
   | LitRequest _ input refresh \<Rightarrow> opening_enc input @ be_bytes 8 refresh)"

definition lit_enc :: "lit_statement \<Rightarrow> bytes" where
  "lit_enc s = LIT_STATEMENT_CONTEXT @ lt_domain s @ be_bytes 1 (lt_kind s) @ (if lt_kind s \<noteq> 7 then lt_segment s else []) @ lit_body_enc s"

lemma run_openings:
  assumes "list_all (opening_ok C) ins" and "length ins < 256"
  shows "run_writes (write_openings ins) out = Inr r \<longleftrightarrow> r = out @ openings_enc ins"
proof -
  have "opening_shape o' \<longleftrightarrow> length (lo_backing o') = 32 \<and> 0 \<le> lo_value o' \<and> lo_value o' < 2 ^ 64 \<and> length (lo_owner o') = 32 \<and> length (lo_rho o') = 32" for o'
    by (auto simp: opening_shape_def output_shape_def)
  then have w: "writeOpening o' out = Inr r \<longleftrightarrow> opening_shape o' \<and> r = out @ opening_enc o'" for o' out r
    unfolding writeOpening_conv by blast
  have "list_all opening_shape ins" using assms(1) opening_ok_shape by (auto simp: list_all_iff)
  then show ?thesis using assms(2) run_writes_map [where w = writeOpening, OF w]
    by (auto simp: write_openings_def bindR_Inr_conv write_simps openings_enc_def)
qed

lemma run_outputs:
  assumes "list_all (output_ok C) outs" and "length outs < 256"
  shows "run_writes (write_outputs outs) out = Inr r \<longleftrightarrow> r = out @ outputs_enc outs"
proof -
  have w: "writeOutput o' out = Inr r \<longleftrightarrow> output_shape o' \<and> r = out @ output_enc o'" for out r and o' :: lit_output
    unfolding writeOutput_conv output_shape_def by blast
  have "list_all output_shape outs" using assms(1) output_ok_shape by (auto simp: list_all_iff)
  then show ?thesis using assms(2) run_writes_map [where w = writeOutput, OF w]
    by (auto simp: write_outputs_def bindR_Inr_conv write_simps outputs_enc_def)
qed

lemma inputs_written: "inputs_ok C ins \<Longrightarrow> run_writes (write_openings ins) out = Inr (out @ openings_enc ins)"
  by (rule run_openings [THEN iffD2]) (auto simp: inputs_ok_def LIT_MAX_INPUTS_def)

lemma outputs_written: "outputs_ok C least most outs \<Longrightarrow> most < 256 \<Longrightarrow> run_writes (write_outputs outs) out = Inr (out @ outputs_enc outs)"
  by (rule run_outputs [THEN iffD2]) (auto simp: outputs_ok_def)

lemma u64_written: "0 \<le> v \<Longrightarrow> v < 2 ^ 64 \<Longrightarrow> w_u64 v out = Inr (out @ be_bytes 8 v)"
  by (simp add: w_u64_conv)

lemma key32_written: "length k = 32 \<Longrightarrow> w_key32 k what out = Inr (out @ k)"
  by (simp add: w_key32_conv)

lemma u8_written: "0 \<le> v \<Longrightarrow> v < 256 \<Longrightarrow> w_u8 v out = Inr (out @ be_bytes 1 v)"
  by (simp add: w_u8_conv del: be_bytes.simps)

lemma opening_written: "opening_ok C o' \<Longrightarrow> writeOpening o' out = Inr (out @ opening_enc o')"
  by (simp add: writeOpening_conv opening_ok_def output_ok_def)

lemma output_written: "output_ok C o' \<Longrightarrow> writeOutput o' out = Inr (out @ output_enc o')"
  by (simp add: writeOutput_conv output_ok_def)

lemma key_ok_length: "key_ok C k \<Longrightarrow> length k = 32"
  by (simp add: key_ok_def)

lemma lt_kind_range: "1 \<le> lt_kind s" "lt_kind s \<le> 7"
  by (cases s; simp add: lt_kind_def)+

lemmas written_facts = w_context_conv u64_written key32_written u8_written inputs_written outputs_written opening_written key_ok_length

lemma writeStatement_run: "lit_ok C s \<Longrightarrow> run_writes (writeStatement s) [] = Inr (lit_enc s)"
  using lt_kind_range [of s]
  by (cases s) (auto simp: writeStatement_def lit_enc_def lit_ok_def lt_kind_def lit_body_enc_def run_writes_append written_facts
      LIT_MAX_OUTPUTS_def writeOutput_def output_enc_def simp del: be_bytes.simps)

lemma lit_statementBytes_conv: "lit_statementBytes C s = Inr bs \<longleftrightarrow> lit_ok C s \<and> bs = lit_enc s"
  by (auto simp: lit_statementBytes_def bindR_Inr_conv ownStatement_conv written_conv writeStatement_run)

subsection \<open>Statements are read back\<close>

lemma lit_context_conv [read_simps]:
  "lit_context tg m (reader_at pre rest) = Inr (u, r') \<longleftrightarrow> (\<exists>rest'. rest = tg @ rest' \<and> r' = reader_at (pre @ tg) rest')"
  by (auto simp: lit_context_def read_simps)

lemma lit_context_run [run_simps]: "lit_context tg m (reader_at pre (tg @ rest)) = Inr ((), reader_at (pre @ tg) rest)"
  by (simp add: lit_context_conv)

lemma readCount_reads: "most < 256 \<Longrightarrow> reads (readCount least most) (\<lambda>n. be_bytes 1 (int n)) (\<lambda>n. least \<le> n \<and> n \<le> most)"
proof (rule reads_splitI)
  fix pre rest n
  assume "most < 256" "least \<le> n \<and> n \<le> most"
  then show "readCount least most (reader_at pre (be_bytes 1 (int n) @ rest)) = Inr (n, reader_at (pre @ be_bytes 1 (int n)) rest)"
    using r_u8_run [of "int n" pre rest] by (simp add: readCount_def bindP_run returnP_run)
qed (auto simp: readCount_def read_simps split: if_splits)

text \<open>A counted list of items.\<close>

lemma counted_reads:
  assumes item: "reads p enc ok" and "most < 256"
  shows "reads (bindP (readCount least most) (\<lambda>n. repeatP n p)) (\<lambda>xs. be_bytes 1 (int (length xs)) @ concat (map enc xs))
    (\<lambda>xs. least \<le> length xs \<and> length xs \<le> most \<and> list_all ok xs)"
proof (rule reads_splitI)
  fix pre rest xs r'
  assume "bindP (readCount least most) (\<lambda>n. repeatP n p) (reader_at pre rest) = Inr (xs, r')"
  then show "(least \<le> length xs \<and> length xs \<le> most \<and> list_all ok xs) \<and>
      (\<exists>rest'. rest = (be_bytes 1 (int (length xs)) @ concat (map enc xs)) @ rest' \<and>
        r' = reader_at (pre @ be_bytes 1 (int (length xs)) @ concat (map enc xs)) rest')"
    by (auto simp: bindP_conv readsD [OF readCount_reads [OF assms(2)]] readsD [OF repeatP_reads [OF item]])
next
  fix pre rest xs
  assume ok: "least \<le> length xs \<and> length xs \<le> most \<and> list_all ok xs"
  then show "bindP (readCount least most) (\<lambda>n. repeatP n p) (reader_at pre ((be_bytes 1 (int (length xs)) @ concat (map enc xs)) @ rest)) =
      Inr (xs, reader_at (pre @ be_bytes 1 (int (length xs)) @ concat (map enc xs)) rest)"
    using reads_run [OF readCount_reads [OF assms(2)], of least "length xs"] reads_run [OF repeatP_reads [OF item], of xs "length xs"]
    by (simp add: bindP_run)
qed

lemma read_openings_reads: "reads read_openings openings_enc
    (\<lambda>ins. 1 \<le> length ins \<and> length ins \<le> LIT_MAX_INPUTS \<and> list_all opening_shape ins)"
  using counted_reads [OF readOpening_reads, of LIT_MAX_INPUTS 1]
  by (simp add: read_openings_def openings_enc_def [abs_def] LIT_MAX_INPUTS_def)

lemma read_outputs_reads: "most < 256 \<Longrightarrow> reads (read_outputs least most) outputs_enc
    (\<lambda>outs. least \<le> length outs \<and> length outs \<le> most \<and> list_all output_shape outs)"
  using counted_reads [OF readOutput_reads, of most least] by (simp add: read_outputs_def outputs_enc_def [abs_def])

lemmas openings_conv [read_simps] = readsD [OF read_openings_reads]
lemmas openings_run [run_simps] = reads_run [OF read_openings_reads]
lemmas outputs_conv [read_simps] = readsD [OF read_outputs_reads]
lemmas outputs_run [run_simps] = reads_run [OF read_outputs_reads]

definition body_shape :: "lit_statement \<Rightarrow> bool" where
  "body_shape s \<longleftrightarrow> (case s of
     LitIssue _ _ backing quantity owner nonce \<Rightarrow> length backing = 32 \<and> 0 \<le> quantity \<and> quantity < 2 ^ 64 \<and> length owner = 32 \<and> length nonce = 32
   | LitSpend _ _ ins outs \<Rightarrow> 1 \<le> length ins \<and> length ins \<le> LIT_MAX_INPUTS \<and> list_all opening_shape ins \<and>
       1 \<le> length outs \<and> length outs \<le> LIT_MAX_OUTPUTS \<and> list_all output_shape outs
   | LitBurn _ _ quantity ins outs \<Rightarrow> 0 \<le> quantity \<and> quantity < 2 ^ 64 \<and> 1 \<le> length ins \<and> length ins \<le> LIT_MAX_INPUTS \<and>
       list_all opening_shape ins \<and> length outs \<le> 1 \<and> list_all output_shape outs
   | LitDemand _ _ ins presenter instant deadline \<Rightarrow> 1 \<le> length ins \<and> length ins \<le> LIT_MAX_INPUTS \<and> list_all opening_shape ins \<and>
       length presenter = 32 \<and> 0 \<le> instant \<and> instant < 2 ^ 64 \<and> 0 \<le> deadline \<and> deadline < 2 ^ 64
   | LitWithdraw _ _ demand \<Rightarrow> length demand = 32
   | LitSettle _ _ demand owner \<Rightarrow> length demand = 32 \<and> length owner = 32
   | LitRequest _ input refresh \<Rightarrow> opening_shape input \<and> 0 \<le> refresh \<and> refresh < 2 ^ 64)"

lemma lit_ok_shape: "lit_ok C s \<Longrightarrow> body_shape s"
  by (cases s) (auto simp: lit_ok_def body_shape_def inputs_ok_def outputs_ok_def key_ok_def list_all_iff intro: opening_ok_shape output_ok_shape)

lemma read_body_sound:
  assumes "read_body k d g (reader_at pre rest) = Inr (s, r')" and "1 \<le> k" and "k \<le> 6"
  shows "lt_kind s = k \<and> lt_domain s = d \<and> lt_segment s = g \<and> body_shape s \<and>
    (\<exists>rest'. rest = lit_body_enc s @ rest' \<and> r' = reader_at (pre @ lit_body_enc s) rest')"
proof -
  have "k = 1 \<or> k = 2 \<or> k = 3 \<or> k = 4 \<or> k = 5 \<or> k = 6" using assms(2,3) by presburger
  then show ?thesis using assms(1)
    by (elim disjE; clarsimp simp: read_body_def read_simps body_shape_def lit_body_enc_def lt_kind_def LIT_MAX_OUTPUTS_def output_shape_def
        output_enc_def)
qed

lemma read_body_run:
  assumes "body_shape s" and "lt_kind s \<noteq> 7"
  shows "read_body (lt_kind s) (lt_domain s) (lt_segment s) (reader_at pre (lit_body_enc s @ rest)) = Inr (s, reader_at (pre @ lit_body_enc s) rest)"
proof (cases s)
  case (LitIssue d g b q w n)
  have o: "readOutput (reader_at pre (b @ be_bytes 8 q @ w @ x)) = Inr (\<lparr>lo_backing = b, lo_value = q, lo_owner = w\<rparr>, reader_at (pre @ b @ be_bytes 8 q @ w) x)" for x
    using readOutput_run [of "\<lparr>lo_backing = b, lo_value = q, lo_owner = w\<rparr>" pre x] assms(1)
    by (simp add: LitIssue body_shape_def output_shape_def output_enc_def)
  show ?thesis using assms(1) by (simp add: LitIssue read_body_def lt_kind_def body_shape_def lit_body_enc_def run_simps o)
qed (use assms in \<open>simp_all add: read_body_def lt_kind_def body_shape_def lit_body_enc_def run_simps LIT_MAX_OUTPUTS_def\<close>)

lemma refused_or: "(if c then liftP (Inl e) else p) r = Inr z \<longleftrightarrow> \<not> c \<and> p r = Inr z"
  by (simp add: liftP_conv)

lemma lit_readStatement_reads: "reads (lit_readStatement C) lit_enc (lit_ok C)"
proof (rule reads_splitI)
  fix pre rest s r'
  assume run: "lit_readStatement C (reader_at pre rest) = Inr (s, r')"
  then obtain d k r1 x where d: "length d = 32" and k: "1 \<le> k" "k \<le> 7"
    and rest: "rest = LIT_STATEMENT_CONTEXT @ d @ be_bytes 1 k @ x"
    and r1: "r1 = reader_at (pre @ LIT_STATEMENT_CONTEXT @ d @ be_bytes 1 k) x"
    and body: "(if k = 7 then bindP readOpening (\<lambda>input. bindP r_u64 (\<lambda>refresh. liftP (ownStatement C (LitRequest d input refresh))))
      else bindP (r_raw 32) (\<lambda>segment. bindP (read_body k d segment) (\<lambda>s. liftP (ownStatement C s)))) r1 = Inr (s, r')"
    unfolding lit_readStatement_def bindP_conv refused_or
    by (clarsimp simp: read_simps refused_or simp del: be_bytes.simps One_nat_def) (rule that; (assumption | simp))
  show "lit_ok C s \<and> (\<exists>rest'. rest = lit_enc s @ rest' \<and> r' = reader_at (pre @ lit_enc s) rest')"
  proof (cases "k = 7")
    case True
    then show ?thesis using body
      by (auto simp: r1 rest read_simps ownStatement_conv lit_enc_def lit_body_enc_def lt_kind_def)
  next
    case False
    then have k: "1 \<le> k" "k \<le> 6" using k by simp_all
    from body False obtain g y t r2 where g: "length g = 32" "x = g @ y"
      and t: "read_body k d g (reader_at (pre @ LIT_STATEMENT_CONTEXT @ d @ be_bytes 1 k @ g) y) = Inr (t, r2)"
      and own: "liftP (ownStatement C t) r2 = Inr (s, r')"
      by (auto simp: r1 read_simps)
    from own have s: "lit_ok C s" "t = s" "r2 = r'" by (auto simp: liftP_conv ownStatement_conv)
    from read_body_sound [OF t k] show ?thesis using s False by (auto simp: lit_enc_def rest g)
  qed
next
  fix pre rest s
  assume ok: "lit_ok C s"
  have own: "ownStatement C s = Inr s" using ok by (simp add: ownStatement_conv)
  have d: "length (lt_domain s) = 32" using ok by (simp add: lit_ok_def)
  show "lit_readStatement C (reader_at pre (lit_enc s @ rest)) = Inr (s, reader_at (pre @ lit_enc s) rest)"
  proof (cases "lt_kind s = 7")
    case True
    then obtain d i f where s: "s = LitRequest d i f" by (cases s) (simp_all add: lt_kind_def)
    have u: "r_u8 (reader_at p (7 # q)) = Inr (7, reader_at (p @ [7]) q)" for p q using r_u8_run_Cons [of 7 p q] by simp
    show ?thesis using lit_ok_shape [OF ok] d own u
      by (simp add: s lit_readStatement_def lit_enc_def lit_body_enc_def lt_kind_def body_shape_def run_simps)
  next
    case False
    then have g: "length (lt_segment s) = 32" using ok by (cases s) (simp_all add: lit_ok_def lt_kind_def)
    show ?thesis using lt_kind_range [of s] read_body_run [OF lit_ok_shape [OF ok] False] False d g own
      by (simp add: lit_readStatement_def lit_enc_def run_simps)
  qed
qed

lemma lit_decodeStatement_conv: "lit_decodeStatement C bs = Inr s \<longleftrightarrow> lit_statementBytes C s = Inr bs"
  unfolding lit_decodeStatement_def decoded_whole_unchecked [OF lit_readStatement_reads] lit_statementBytes_conv by simp

interpretation lit_statement_codec: digest_codec "lit_statementBytes C" "lit_decodeStatement C" "sha256 C" "lit_statementHash C" for C
  by unfold_locales (simp_all add: lit_decodeStatement_conv lit_statementHash_def)

subsection \<open>Records are read back\<close>

definition lit_record_ok :: "crypto \<Rightarrow> lit_record \<Rightarrow> bool" where
  "lit_record_ok C r \<longleftrightarrow> lit_ok C (lr_statement r) \<and> length (lr_authorization r) = authorizationLength (lr_statement r)"

definition lit_record_enc :: "lit_record \<Rightarrow> bytes" where
  "lit_record_enc r = lp (lit_enc (lr_statement r)) @ lp (lr_authorization r)"

lemma ownRecord_conv: "ownRecord C r = Inr x \<longleftrightarrow> lit_record_ok C r \<and> x = r"
  by (cases r) (auto simp: ownRecord_def bindR_Inr_conv ownStatement_conv lit_record_ok_def)

lemma length_concat_openings: "list_all (opening_ok C) ins \<Longrightarrow> length (concat (map opening_enc ins)) = 104 * length ins"
  by (induction ins) (auto dest: length_opening_enc)

lemma length_concat_outputs: "list_all (output_ok C) outs \<Longrightarrow> length (concat (map output_enc outs)) = 72 * length outs"
  by (induction outs) (auto dest: length_output_enc)

lemma length_LIT_STATEMENT: "length LIT_STATEMENT_CONTEXT = 20"
  by (simp add: LIT_STATEMENT_CONTEXT_def tag_def)

lemma lit_enc_bound: "lit_ok C s \<Longrightarrow> length (lit_enc s) \<le> 583"
  by (cases s) (auto simp: lit_ok_def lit_enc_def lit_body_enc_def lt_kind_def inputs_ok_def outputs_ok_def key_ok_def openings_enc_def
      outputs_enc_def length_concat_openings length_concat_outputs length_opening_enc LIT_MAX_INPUTS_def LIT_MAX_OUTPUTS_def length_LIT_STATEMENT)

lemma authorization_bound: "lit_ok C s \<Longrightarrow> authorizationLength s \<le> 200"
  by (cases s) (auto simp: lit_ok_def authorizationLength_def lt_kind_def inputs_ok_def LIT_MAX_INPUTS_def SETTLEMENT_AUTHORIZATION_BYTES_def)

lemma lit_encodeRecord_conv: "lit_encodeRecord C r = Inr bs \<longleftrightarrow> lit_record_ok C r \<and> bs = lit_record_enc r"
proof -
  have "int (length (lit_enc (lr_statement r))) < 2 ^ 32 \<and> int (length (lr_authorization r)) < 2 ^ 32" if "lit_record_ok C r"
    using lit_enc_bound [of C "lr_statement r"] authorization_bound [of C "lr_statement r"] that by (simp add: lit_record_ok_def)
  then show ?thesis
    by (auto simp: lit_encodeRecord_def bindR_Inr_conv ownRecord_conv lit_statementBytes_conv write_simps lp_def lit_record_enc_def
        lit_record_ok_def)
qed

text \<open>A record's frame is below 2^32 bytes; the split admits any length a frame can state.\<close>

lemma r_lengthPrefixed_any: "2 ^ 32 \<le> m \<Longrightarrow> r_lengthPrefixed m (reader_at pre rest) = Inr (x, r') \<longleftrightarrow>
    int (length x) < 2 ^ 32 \<and> (\<exists>rest'. rest = lp x @ rest' \<and> r' = reader_at (pre @ lp x) rest')"
  by (auto simp: r_lengthPrefixed_def read_simps lp_def split: if_splits intro!: exI [of _ "int (length x)"])

lemma splitRecord_conv: "splitRecord bs = Inr (st, au) \<longleftrightarrow> int (length st) < 2 ^ 32 \<and> int (length au) < 2 ^ 32 \<and> bs = lp st @ lp au"
proof
  assume "splitRecord bs = Inr (st, au)"
  then show "int (length st) < 2 ^ 32 \<and> int (length au) < 2 ^ 32 \<and> bs = lp st @ lp au"
    by (auto simp: splitRecord_def decoded_by_conv bindP_conv returnP_conv r_expectEnd_conv r_lengthPrefixed_any MAX_SAFE_INTEGER_def)
next
  assume b: "int (length st) < 2 ^ 32 \<and> int (length au) < 2 ^ 32 \<and> bs = lp st @ lp au"
  have r: "r_lengthPrefixed MAX_SAFE_INTEGER (reader_at pre (lp x @ rest)) = Inr (x, reader_at (pre @ lp x) rest)"
    if "int (length x) < 2 ^ 32" for pre x rest
    using that by (subst r_lengthPrefixed_any) (simp_all add: MAX_SAFE_INTEGER_def)
  have r1: "r_lengthPrefixed MAX_SAFE_INTEGER (reader_at pre (lp au)) = Inr (au, reader_at (pre @ lp au) [])" for pre
    using r [of au pre "[]"] b by simp
  show "splitRecord bs = Inr (st, au)" using b r r1
    by (simp add: splitRecord_def decoded_by_def newReader_at bindP_run returnP_run r_expectEnd_conv [THEN iffD2])
qed

lemma lit_decodeRecord_conv: "lit_decodeRecord C bs = Inr r \<longleftrightarrow> lit_encodeRecord C r = Inr bs"
proof -
  have "int (length (lit_enc (lr_statement r))) < 2 ^ 32 \<and> int (length (lr_authorization r)) < 2 ^ 32" if "lit_record_ok C r"
    using lit_enc_bound [of C "lr_statement r"] authorization_bound [of C "lr_statement r"] that by (simp add: lit_record_ok_def)
  moreover have "lit_record_ok C r \<Longrightarrow> lit_ok C (lr_statement r)" by (simp add: lit_record_ok_def)
  ultimately show ?thesis
    by (cases r) (auto simp: lit_decodeRecord_def bindR_Inr_conv splitRecord_conv lit_decodeStatement_conv lit_statementBytes_conv ownRecord_conv
        lit_encodeRecord_conv lit_record_enc_def)
qed

interpretation lit_record_codec: frame_codec "lit_encodeRecord C" "lit_decodeRecord C" for C
  by unfold_locales (rule lit_decodeRecord_conv)

subsection \<open>What the arithmetic decides\<close>

text \<open>The value of a list of notes under one backing.\<close>

definition value_of :: "bytes \<Rightarrow> 'a lit_output_scheme list \<Rightarrow> int" where
  "value_of b os = sum_list (map lo_value (filter (\<lambda>o'. lo_backing o' = b) os))"

definition total_of :: "'a lit_output_scheme list \<Rightarrow> int" where
  "total_of os = sum_list (map lo_value os)"

text \<open>Conservation, as lit-v1 states it.\<close>

definition conserves :: "lit_statement \<Rightarrow> bool" where
  "conserves s \<longleftrightarrow> (case s of
     LitSpend _ _ ins outs \<Rightarrow> distinct ins \<and> (\<forall>b. value_of b ins = value_of b outs)
   | LitBurn _ _ quantity ins outs \<Rightarrow> distinct ins \<and> (\<exists>b. list_all (\<lambda>i. lo_backing i = b) ins \<and> list_all (\<lambda>o'. lo_backing o' = b) outs) \<and>
       total_of ins = quantity + total_of outs
   | LitDemand _ _ ins _ _ _ \<Rightarrow> distinct ins \<and> (\<exists>b. list_all (\<lambda>i. lo_backing i = b) ins) \<and> total_of ins < 2 ^ 64
   | _ \<Rightarrow> True)"

definition sums_ok :: "sums \<Rightarrow> bool" where
  "sums_ok s \<longleftrightarrow> distinct (map fst s)"

definition sum_at :: "sums \<Rightarrow> bytes \<Rightarrow> int" where
  "sum_at s b = (case map_of s b of None \<Rightarrow> 0 | Some v \<Rightarrow> v)"

lemma sums_add_keys: "fst ` set (sums_add b v s) = insert b (fst ` set s)"
  by (induction b v s rule: sums_add.induct) auto

lemma sums_add_ok: "sums_ok s \<Longrightarrow> sums_ok (sums_add b v s)"
  unfolding sums_ok_def
  by (induction b v s rule: sums_add.induct) (simp_all add: sums_add_keys, blast?)

lemma map_of_sums_add: "map_of (sums_add b v s) c = (if c = b then Some (sum_at s b + v) else map_of s c)"
  by (induction s) (auto simp: sum_at_def)

lemma sum_at_add: "sum_at (sums_add b v s) c = sum_at s c + (if c = b then v else 0)"
  by (simp add: map_of_sums_add sum_at_def)

lemma value_of_simps [simp]: "value_of b [] = 0" "value_of b (o' # os) = (if lo_backing o' = b then lo_value o' else 0) + value_of b os"
  by (simp_all add: value_of_def)

lemma sum_inputs_spec:
  "sums_ok s \<Longrightarrow> sums_ok (foldl (\<lambda>s i. sums_add (lo_backing i) (lo_value i) s) s ins) \<and>
    fst ` set (foldl (\<lambda>s i. sums_add (lo_backing i) (lo_value i) s) s ins) = fst ` set s \<union> lo_backing ` set ins \<and>
    (\<forall>b. sum_at (foldl (\<lambda>s i. sums_add (lo_backing i) (lo_value i) s) s ins) b = sum_at s b + value_of b ins)"
  by (induction ins arbitrary: s) (auto simp: sums_add_ok sums_add_keys sum_at_add)

lemma sum_inputs_facts:
  "sums_ok (sum_inputs ins)" "fst ` set (sum_inputs ins) = lo_backing ` set ins" "sum_at (sum_inputs ins) b = value_of b ins"
  using sum_inputs_spec [of "[]" ins] by (simp_all add: sum_inputs_def sums_ok_def sum_at_def)

lemma take_outputs_spec:
  "sums_ok s \<Longrightarrow> (case take_outputs outs s of
     None \<Rightarrow> \<not> lo_backing ` set outs \<subseteq> fst ` set s
   | Some left \<Rightarrow> lo_backing ` set outs \<subseteq> fst ` set s \<and> sums_ok left \<and> fst ` set left = fst ` set s \<and>
       (\<forall>b. sum_at left b = sum_at s b - value_of b outs))"
proof (induction outs arbitrary: s)
  case (Cons o' outs)
  show ?case
  proof (cases "map_of s (lo_backing o')")
    case None
    then have "lo_backing o' \<notin> fst ` set s" by (simp add: map_of_eq_None_iff)
    then show ?thesis using None by simp
  next
    case (Some left)
    then have "lo_backing o' \<in> fst ` set s" by (metis domI dom_map_of_conv_image_fst)
    then have "insert (lo_backing o') (fst ` set s) = fst ` set s" by blast
    then show ?thesis using Some Cons.IH [OF sums_add_ok [OF Cons.prems], of "lo_backing o'" "- lo_value o'"]
      by (auto simp: sums_add_keys sum_at_add split: option.splits)
  qed
qed simp

lemma sums_zero: "sums_ok s \<Longrightarrow> list_all (\<lambda>(_, v). v = 0) s \<longleftrightarrow> (\<forall>b. sum_at s b = 0)"
proof (induction s)
  case (Cons p s)
  obtain b v where p: "p = (b, v)" by (cases p)
  have "sums_ok s" and fresh: "map_of s b = None" using Cons.prems by (auto simp: sums_ok_def p map_of_eq_None_iff)
  have "(\<forall>c. sum_at (p # s) c = 0) \<longleftrightarrow> v = 0 \<and> (\<forall>c. sum_at s c = 0)"
  proof
    assume z: "\<forall>c. sum_at (p # s) c = 0"
    have "sum_at s c = 0" for c using z [rule_format, of c] fresh by (cases "c = b") (auto simp: sum_at_def p)
    moreover have "v = 0" using z [rule_format, of b] by (simp add: sum_at_def p)
    ultimately show "v = 0 \<and> (\<forall>c. sum_at s c = 0)" by blast
  qed (auto simp: sum_at_def p)
  then show ?case using Cons.IH [OF \<open>sums_ok s\<close>] by (simp add: p)
qed (simp add: sum_at_def)

lemma value_of_pos: "list_all (\<lambda>o'. 0 < lo_value o') os \<Longrightarrow> 0 \<le> value_of b os \<and> (value_of b os = 0 \<longleftrightarrow> b \<notin> lo_backing ` set os)"
  by (induction os) auto

lemma value_of_one: "list_all (\<lambda>o'. lo_backing o' = b) os \<Longrightarrow> value_of b os = total_of os"
  by (induction os) (simp_all add: total_of_def)

lemma sums_one:
  assumes "sums_ok s" and "length s = 1"
  shows "\<exists>b. fst ` set s = {b} \<and> snd (hd s) = sum_at s b"
  using assms by (cases s) (auto simp: sum_at_def length_Suc_conv)

lemma sums_single: "sums_ok s \<Longrightarrow> length s = Suc 0 \<longleftrightarrow> (\<exists>b. fst ` set s = {b})"
proof -
  assume ok: "sums_ok s"
  then have "length s = card (fst ` set s)" by (simp add: sums_ok_def distinct_card flip: set_map)
  then show ?thesis using card_1_singleton_iff [of "fst ` set s"] by simp
qed

lemma opening_enc_inj: "opening_ok C o' \<Longrightarrow> opening_ok C p \<Longrightarrow> opening_enc o' = opening_enc p \<longleftrightarrow> o' = p"
  using reads_prefix_free [OF readOpening_reads opening_ok_shape opening_ok_shape, of C o' C p "[]" "[]"] by auto

lemma same_note_distinct: "inputs_ok C ins \<Longrightarrow> same_note ins \<longleftrightarrow> \<not> distinct ins"
proof -
  assume ok: "inputs_ok C ins"
  then consider i where "ins = [i]" | i j where "ins = [i, j]"
    by (cases ins; cases "tl ins") (auto simp: inputs_ok_def LIT_MAX_INPUTS_def)
  then show ?thesis
  proof cases
    case 2
    then show ?thesis using ok opening_enc_inj [of C i j] by (simp add: same_note_def inputs_ok_def)
  qed (simp add: same_note_def)
qed

lemma arithmetic_exact:
  assumes "lit_ok C s"
  shows "arithmeticHolds C s \<longleftrightarrow> conserves s"
proof -
  have own: "ownStatement C s = Inr s" using assms by (simp add: ownStatement_conv)
  have pos: "list_all (\<lambda>o'. 0 < lo_value o') os" if "list_all (output_ok C) os" for os :: "'a lit_output_scheme list"
    using that by (auto simp: list_all_iff output_ok_def)
  show ?thesis
  proof (cases s)
    case (LitSpend d g ins outs)
    have ins: "inputs_ok C ins" and outs: "list_all (output_ok C) outs" using assms by (auto simp: LitSpend lit_ok_def outputs_ok_def)
    have pi: "list_all (\<lambda>o'. 0 < lo_value o') ins" using ins by (auto simp: inputs_ok_def list_all_iff opening_ok_def output_ok_def)
    note sp = take_outputs_spec [OF sum_inputs_facts(1) [of ins], of outs]
    have "(case take_outputs outs (sum_inputs ins) of None \<Rightarrow> False | Some left \<Rightarrow> list_all (\<lambda>(_, v). v = 0) left) \<longleftrightarrow>
        (\<forall>b. value_of b ins = value_of b outs)"
    proof (cases "take_outputs outs (sum_inputs ins)")
      case None
      then obtain o' where "o' \<in> set outs" "lo_backing o' \<notin> lo_backing ` set ins"
        using sp by (auto simp: sum_inputs_facts(2))
      then have "value_of (lo_backing o') ins = 0" "value_of (lo_backing o') outs \<noteq> 0"
        using value_of_pos [OF pi] value_of_pos [OF pos [OF outs]] by auto
      then have "\<exists>b. value_of b ins \<noteq> value_of b outs" by (intro exI [of _ "lo_backing o'"]) simp
      then show ?thesis using None by simp
    next
      case (Some left)
      then show ?thesis using sp sums_zero by (auto simp: sum_inputs_facts)
    qed
    then show ?thesis using same_note_distinct [OF ins] own by (simp add: arithmeticHolds_def LitSpend conserves_def)
  next
    case (LitBurn d g q ins outs)
    have ins: "inputs_ok C ins" and outs: "length outs \<le> 1" using assms by (auto simp: LitBurn lit_ok_def outputs_ok_def)
    have one: "length (sum_inputs ins) = 1 \<longleftrightarrow> (\<exists>b. list_all (\<lambda>i. lo_backing i = b) ins)"
      using ins by (cases ins) (auto simp: sums_single [OF sum_inputs_facts(1)] sum_inputs_facts(2) inputs_ok_def list_all_iff)
    have val: "snd (hd (sum_inputs ins)) = total_of ins \<and> (map_of (sum_inputs ins) c \<noteq> None \<longleftrightarrow> c = b)"
      if "list_all (\<lambda>i. lo_backing i = b) ins" for b c
    proof -
      have keys: "fst ` set (sum_inputs ins) = {b}" using that ins by (cases ins) (auto simp: sum_inputs_facts(2) inputs_ok_def list_all_iff)
      then have "snd (hd (sum_inputs ins)) = sum_at (sum_inputs ins) b"
        using sums_one [OF sum_inputs_facts(1), of ins] one that by auto
      moreover have "map_of (sum_inputs ins) c \<noteq> None \<longleftrightarrow> c \<in> fst ` set (sum_inputs ins)" by (metis map_of_eq_None_iff)
      ultimately show ?thesis using keys value_of_one [OF that] by (simp add: sum_inputs_facts(3))
    qed
    have mem: "map_of (sum_inputs ins) c \<noteq> None \<longleftrightarrow> list_all (\<lambda>i. lo_backing i = c) ins" if "list_all (\<lambda>i. lo_backing i = b) ins" for b c
      using val [OF that, of c] that ins by (cases ins) (auto simp: inputs_ok_def)
    consider "outs = []" | o' where "outs = [o']" using outs by (cases outs) auto
    then show ?thesis
    proof cases
      case 1
      then show ?thesis using same_note_distinct [OF ins] one val own
        by (auto simp: arithmeticHolds_def LitBurn conserves_def Let_def total_of_def)
    next
      case (2 o')
      have "length (sum_inputs ins) = 1 \<and> map_of (sum_inputs ins) (lo_backing o') \<noteq> None \<and> snd (hd (sum_inputs ins)) = q + lo_value o' \<longleftrightarrow>
          list_all (\<lambda>i. lo_backing i = lo_backing o') ins \<and> total_of ins = q + lo_value o'"
        using one mem val by metis
      then show ?thesis using same_note_distinct [OF ins] own
        by (auto simp: arithmeticHolds_def LitBurn conserves_def Let_def 2) (simp_all add: total_of_def)
    qed
  next
    case (LitDemand d g ins p i l)
    have ins: "inputs_ok C ins" using assms by (auto simp: LitDemand lit_ok_def)
    have one: "length (sum_inputs ins) = 1 \<longleftrightarrow> (\<exists>b. list_all (\<lambda>i. lo_backing i = b) ins)"
      using ins by (cases ins) (auto simp: sums_single [OF sum_inputs_facts(1)] sum_inputs_facts(2) inputs_ok_def list_all_iff)
    have val: "snd (hd (sum_inputs ins)) = total_of ins" if "list_all (\<lambda>i. lo_backing i = b) ins" for b
    proof -
      have "fst ` set (sum_inputs ins) = {b}" using that ins by (cases ins) (auto simp: sum_inputs_facts(2) inputs_ok_def list_all_iff)
      then show ?thesis using sums_one [OF sum_inputs_facts(1), of ins] one that value_of_one [OF that] by (auto simp: sum_inputs_facts(3))
    qed
    then show ?thesis using same_note_distinct [OF ins] one val own
      by (auto simp: arithmeticHolds_def LitDemand conserves_def Let_def)
  qed (use own in \<open>simp_all add: arithmeticHolds_def conserves_def\<close>)
qed

subsection \<open>Property\<close>

text \<open>C34: lit's arithmetic is conservation. The check that sums by backing in one pass over a map holds exactly for the statements that
  have a frame and conserve value: a spend consumes distinct notes and creates, for every backing, the value it consumes; a burn
  consumes distinct notes of one backing worth what it burns and its change; a demand names distinct notes of one backing worth
  less than 2^64; the other kinds have nothing to conserve.\<close>

theorem lit_arithmetic_exact: "arithmeticHolds C s \<longleftrightarrow> isOk (lit_statementBytes C s) \<and> conserves s"
proof (cases "lit_ok C s")
  case True
  then show ?thesis using arithmetic_exact [OF True] by (simp add: isOk_conv lit_statementBytes_conv)
next
  case False
  then have "ownStatement C s \<noteq> Inr t" for t by (simp add: ownStatement_conv)
  then obtain e where "ownStatement C s = Inl e" by (cases "ownStatement C s") auto
  then show ?thesis using False by (simp add: arithmeticHolds_def isOk_conv lit_statementBytes_conv)
qed

end
