(* ===== verification/LitPublications.thy ===== *)
theory LitPublications
  imports LitRecords
begin

section \<open>Lit acceptances, releases and publications (src/lit/records.ts)\<close>

text \<open>
  The signed objects beside a statement: an acceptance under the obligor's and its owner's
  signatures, the release a settlement's presenter signs, and the publication of a demand, an
  acceptance, a settlement, a withdrawal or a request on the venue.
\<close>

record lit_acceptance =
  la_domain :: bytes
  la_demand :: bytes
  la_owner :: bytes
  la_deadline :: int

record lit_signed_acceptance = lit_acceptance +
  la_signature :: bytes
  la_ownerSignature :: bytes

definition ownAcceptance :: "crypto \<Rightarrow> 'a lit_acceptance_scheme \<Rightarrow> lit_acceptance result" where
  "ownAcceptance C a = bindR (field32 (la_domain a) ''domain'') (\<lambda>domain. bindR (field32 (la_demand a) ''demand'') (\<lambda>demand.
     bindR (key32 C (la_owner a) ''owner'') (\<lambda>owner. bindR (lit_u64 (la_deadline a) ''deadline'') (\<lambda>deadline.
     Inr \<lparr>la_domain = domain, la_demand = demand, la_owner = owner, la_deadline = deadline\<rparr>))))"

definition lit_acceptanceBytes :: "crypto \<Rightarrow> 'a lit_acceptance_scheme \<Rightarrow> bytes result" where
  "lit_acceptanceBytes C acceptance = bindR (ownAcceptance C acceptance) (\<lambda>a.
     written [w_context LIT_ACCEPTANCE_CONTEXT, w_key32 (la_domain a) ''domain'', w_key32 (la_demand a) ''demand'',
       w_key32 (la_owner a) ''owner'', w_u64 (la_deadline a)])"

definition lit_acceptanceId :: "crypto \<Rightarrow> 'a lit_acceptance_scheme \<Rightarrow> bytes result" where
  "lit_acceptanceId C a = mapR (sha256 C) (lit_acceptanceBytes C a)"

definition w_field32 :: "bytes \<Rightarrow> string \<Rightarrow> writer" where
  "w_field32 v what out = bindR (field32 v what) (\<lambda>own. w_key32 own what out)"

definition lit_releaseBytes :: "bytes \<Rightarrow> bytes \<Rightarrow> bytes \<Rightarrow> bytes \<Rightarrow> bytes result" where
  "lit_releaseBytes domain demand acceptance settlement =
     written (w_context LIT_RELEASE_CONTEXT # map (\<lambda>(value, what). w_field32 value what)
       [(domain, ''domain''), (demand, ''demand''), (acceptance, ''acceptance''), (settlement, ''settlement'')])"

definition lit_encodeSettlementAuthorization :: "int \<Rightarrow> bytes \<Rightarrow> bytes \<Rightarrow> bytes \<Rightarrow> bytes result" where
  "lit_encodeSettlementAuthorization deadline acceptanceSignature ownerSignature releaseSignature =
     bindR (lit_u64 deadline ''deadline'') (\<lambda>d. written [w_u64 d, w_fixed acceptanceSignature 64 ''acceptance signature'',
       w_fixed ownerSignature 64 ''owner signature'', w_fixed releaseSignature 64 ''release signature''])"

record lit_settlement_authorization =
  lsa_acceptance :: lit_signed_acceptance
  lsa_acceptanceMessage :: bytes
  lsa_releaseMessage :: bytes
  lsa_releaseSignature :: bytes

definition lit_settlementFields :: "bytes \<Rightarrow> (int \<times> bytes \<times> bytes \<times> bytes) result" where
  "lit_settlementFields = decoded_by (bindP (bindP r_u64 (\<lambda>deadline. bindP (r_raw 64) (\<lambda>signature. bindP (r_raw 64) (\<lambda>owner. bindP (r_raw 64) (\<lambda>release.
     returnP (deadline, signature, owner, release)))))) (\<lambda>x. bindP r_expectEnd (\<lambda>_. returnP x)))"

definition lit_settlementAuthorization :: "crypto \<Rightarrow> lit_record \<Rightarrow> lit_settlement_authorization result" where
  "lit_settlementAuthorization C rec = bindR (ownRecord C rec) (\<lambda>r. let s = lr_statement r in
     if lt_kind s \<noteq> 6 then Inl (EncodingError ''not a settlement'')
     else bindR (lit_settlementFields (lr_authorization r)) (\<lambda>(deadline, signature, ownerSignature, release).
       let a = \<lparr>la_domain = lt_domain s, la_demand = lt_demand s, la_owner = lt_owner s, la_deadline = deadline,
         la_signature = signature, la_ownerSignature = ownerSignature\<rparr> in
       bindR (lit_acceptanceBytes C a) (\<lambda>message. bindR (lit_acceptanceId C a) (\<lambda>aid. bindR (lit_statementHash C s) (\<lambda>h.
       bindR (lit_releaseBytes (lt_domain s) (lt_demand s) aid h) (\<lambda>releaseMessage.
       Inr \<lparr>lsa_acceptance = a, lsa_acceptanceMessage = message, lsa_releaseMessage = releaseMessage, lsa_releaseSignature = release\<rparr>))))))"

subsection \<open>Publications\<close>

text \<open>An acceptance is published under kind 2, a record under one of the other kinds.\<close>

datatype lit_publication =
    LitAccepted (lp_domain: bytes) (lp_backing: bytes) (lp_acceptance: lit_signed_acceptance)
  | LitPublished (lp_domain: bytes) (lp_backing: bytes) (lp_published: int) (lp_record: lit_record)

definition lp_kind :: "lit_publication \<Rightarrow> int" where
  "lp_kind p = (case p of LitAccepted _ _ _ \<Rightarrow> 2 | LitPublished _ _ k _ \<Rightarrow> k)"

definition LIT_PUBLICATION_STATEMENT :: "int \<Rightarrow> int" where
  "LIT_PUBLICATION_STATEMENT kind = (if kind = 1 then 4 else if kind = 3 then 6 else if kind = 4 then 5 else 7)"

definition recordBound :: "nat \<Rightarrow> nat \<Rightarrow> nat" where
  "recordBound st au = 8 + LIT_STATEMENT_PREFIX_BYTES + st + au"

definition LIT_BODY_BOUNDS :: "int \<Rightarrow> nat" where
  "LIT_BODY_BOUNDS kind =
     (if kind = 1 then recordBound (81 + 104 * LIT_MAX_INPUTS) (64 * LIT_MAX_INPUTS)
      else if kind = 2 then length LIT_ACCEPTANCE_CONTEXT + 104 + 128
      else if kind = 3 then recordBound 96 SETTLEMENT_AUTHORIZATION_BYTES
      else if kind = 4 then recordBound 64 64
      else recordBound (104 + 8) 64)"

definition LIT_MAX_PUBLICATION_BYTES :: nat where
  "LIT_MAX_PUBLICATION_BYTES = length LIT_PUBLICATION_CONTEXT + 69 + fold max (map LIT_BODY_BOUNDS [1, 2, 3, 4, 5]) 0"

definition lit_requireKind :: "int \<Rightarrow> unit result" where
  "lit_requireKind kind = requireR (\<not> (kind \<noteq> 1 \<and> kind \<noteq> 2 \<and> kind \<noteq> 3 \<and> kind \<noteq> 4 \<and> kind \<noteq> 5)) (EncodingError ''unknown publication kind'')"

definition own_signature :: "bytes \<Rightarrow> bytes result" where
  "own_signature bs = (if length bs \<noteq> 64 then Inl (EncodingError ''wrong signature length'') else Inr bs)"

definition ownPublication :: "crypto \<Rightarrow> lit_publication \<Rightarrow> lit_publication result" where
  "ownPublication C p = bindR (lit_requireKind (lp_kind p)) (\<lambda>_.
     bindR (field32 (lp_domain p) ''domain'') (\<lambda>domain. bindR (field32 (lp_backing p) ''backing'') (\<lambda>backing. case p of
       LitAccepted _ _ sa \<Rightarrow> bindR (ownAcceptance C sa) (\<lambda>a. bindR (own_signature (la_signature sa)) (\<lambda>signature.
         bindR (own_signature (la_ownerSignature sa)) (\<lambda>ownerSignature.
         if compareBytes (la_domain a) domain \<noteq> 0 then Inl (EncodingError ''inconsistent domain'')
         else Inr (LitAccepted domain backing \<lparr>la_domain = la_domain a, la_demand = la_demand a, la_owner = la_owner a, la_deadline = la_deadline a,
           la_signature = signature, la_ownerSignature = ownerSignature\<rparr>))))
     | LitPublished _ _ kind rec \<Rightarrow> if kind = 2 then Inl (EncodingError ''invalid acceptance'') else bindR (ownRecord C rec) (\<lambda>r.
         let s = lr_statement r in
         bindR (requireR (lt_kind s = LIT_PUBLICATION_STATEMENT kind) (EncodingError ''wrong publication body kind'')) (\<lambda>_.
         bindR (requireR (compareBytes (lt_domain s) domain = 0) (EncodingError ''inconsistent domain'')) (\<lambda>_.
         bindR (if lt_kind s = 4 then bindR (demandClaim C s) (\<lambda>c.
             requireR (compareBytes (dc_backing c) backing = 0) (EncodingError ''wrong routing backing'')) else Inr ()) (\<lambda>_.
         bindR (if lt_kind s = 7 then requireR (compareBytes (lo_backing (lt_input s)) backing = 0) (EncodingError ''wrong routing backing'')
           else Inr ()) (\<lambda>_. Inr (LitPublished domain backing kind r))))))))) "

definition lit_body :: "crypto \<Rightarrow> lit_publication \<Rightarrow> bytes result" where
  "lit_body C p = (case p of
     LitPublished _ _ _ rec \<Rightarrow> lit_encodeRecord C rec
   | LitAccepted _ _ a \<Rightarrow> bindR (lit_acceptanceBytes C a) (\<lambda>ab.
       written [w_context ab, w_fixed (la_signature a) 64 ''signature'', w_fixed (la_ownerSignature a) 64 ''owner signature'']))"

definition lit_encodePublication :: "crypto \<Rightarrow> lit_publication \<Rightarrow> bytes result" where
  "lit_encodePublication C publication = bindR (ownPublication C publication) (\<lambda>p. bindR (lit_body C p) (\<lambda>body.
     written [w_context LIT_PUBLICATION_CONTEXT, w_key32 (lp_domain p) ''domain'', w_key32 (lp_backing p) ''backing'',
       w_u8 (lp_kind p), w_lengthPrefixed body]))"

definition lit_publicationId :: "crypto \<Rightarrow> lit_publication \<Rightarrow> bytes result" where
  "lit_publicationId C p = mapR (sha256 C) (lit_encodePublication C p)"

definition readPublication :: "(bytes \<times> bytes \<times> int \<times> bytes) read" where
  "readPublication = bindP (lit_context LIT_PUBLICATION_CONTEXT ''wrong publication context'') (\<lambda>_. bindP (r_raw 32) (\<lambda>domain.
     bindP (r_raw 32) (\<lambda>backing. bindP r_u8 (\<lambda>kind. bindP (liftP (lit_requireKind kind)) (\<lambda>_.
     bindP (r_lengthPrefixed (int (LIT_BODY_BOUNDS kind))) (\<lambda>body. returnP (domain, backing, kind, body)))))))"

definition decodeAcceptanceBody :: "bytes \<Rightarrow> lit_signed_acceptance result" where
  "decodeAcceptanceBody = decoded_by (bindP (bindP (lit_context LIT_ACCEPTANCE_CONTEXT ''wrong acceptance context'') (\<lambda>_. bindP (r_raw 32) (\<lambda>domain.
     bindP (r_raw 32) (\<lambda>demand. bindP (r_raw 32) (\<lambda>owner. bindP r_u64 (\<lambda>deadline. bindP (r_raw 64) (\<lambda>signature. bindP (r_raw 64) (\<lambda>ownerSignature.
     returnP \<lparr>la_domain = domain, la_demand = demand, la_owner = owner, la_deadline = deadline, la_signature = signature,
       la_ownerSignature = ownerSignature\<rparr>)))))))) (\<lambda>a. bindP r_expectEnd (\<lambda>_. returnP a)))"

definition lit_decodePublication :: "crypto \<Rightarrow> bytes \<Rightarrow> lit_publication result" where
  "lit_decodePublication C bs =
     (if length bs > LIT_MAX_PUBLICATION_BYTES then Inl (EncodingError ''publication too long'')
      else bindR (decoded_by (bindP readPublication (\<lambda>x. bindP r_expectEnd (\<lambda>_. returnP x))) bs) (\<lambda>(domain, backing, kind, body).
        if kind \<noteq> 2 then bindR (lit_decodeRecord C body) (\<lambda>r. ownPublication C (LitPublished domain backing kind r))
        else bindR (decodeAcceptanceBody body) (\<lambda>a. ownPublication C (LitAccepted domain backing a))))"

subsection \<open>What is written is read back\<close>

definition lit_acceptance_ok :: "crypto \<Rightarrow> 'a lit_acceptance_scheme \<Rightarrow> bool" where
  "lit_acceptance_ok C a \<longleftrightarrow> length (la_domain a) = 32 \<and> length (la_demand a) = 32 \<and> key_ok C (la_owner a) \<and>
     0 \<le> la_deadline a \<and> la_deadline a < 2 ^ 64"

definition lit_acceptance_enc :: "'a lit_acceptance_scheme \<Rightarrow> bytes" where
  "lit_acceptance_enc a = LIT_ACCEPTANCE_CONTEXT @ la_domain a @ la_demand a @ la_owner a @ be_bytes 8 (la_deadline a)"

lemma ownAcceptance_conv: "ownAcceptance C a = Inr b \<longleftrightarrow> lit_acceptance_ok C a \<and> b = lit_acceptance.truncate a"
  by (auto simp: ownAcceptance_def bindR_Inr_conv own_convs lit_acceptance_ok_def lit_acceptance.truncate_def)

lemma lit_acceptanceBytes_conv: "lit_acceptanceBytes C a = Inr bs \<longleftrightarrow> lit_acceptance_ok C a \<and> bs = lit_acceptance_enc a"
  by (auto simp: lit_acceptanceBytes_def bindR_Inr_conv ownAcceptance_conv write_simps lit_acceptance_enc_def lit_acceptance.truncate_def
      lit_acceptance_ok_def key_ok_def)

lemma lit_acceptanceId_conv: "lit_acceptanceId C a = Inr h \<longleftrightarrow> lit_acceptance_ok C a \<and> h = sha256 C (lit_acceptance_enc a)"
  by (auto simp: lit_acceptanceId_def mapR_Inr_conv lit_acceptanceBytes_conv)

lemma w_field32_conv: "w_field32 v what out = Inr r \<longleftrightarrow> length v = 32 \<and> r = out @ v"
  by (auto simp: w_field32_def bindR_Inr_conv field32_conv write_simps)

definition release_enc :: "bytes \<Rightarrow> bytes \<Rightarrow> bytes \<Rightarrow> bytes \<Rightarrow> bytes" where
  "release_enc domain demand acceptance settlement = LIT_RELEASE_CONTEXT @ domain @ demand @ acceptance @ settlement"

lemma lit_releaseBytes_conv: "lit_releaseBytes d m a s = Inr bs \<longleftrightarrow>
    length d = 32 \<and> length m = 32 \<and> length a = 32 \<and> length s = 32 \<and> bs = release_enc d m a s"
  by (auto simp: lit_releaseBytes_def bindR_Inr_conv write_simps w_field32_conv release_enc_def)

lemma lit_settlementFields_conv: "lit_settlementFields bs = Inr (d, a, w, r) \<longleftrightarrow> lit_encodeSettlementAuthorization d a w r = Inr bs"
proof -
  let ?p = "bindP r_u64 (\<lambda>deadline. bindP (r_raw 64) (\<lambda>signature. bindP (r_raw 64) (\<lambda>owner. bindP (r_raw 64) (\<lambda>release.
     returnP (deadline, signature, owner, release)))))"
  have "reads ?p (\<lambda>(d, a, w, r). be_bytes 8 d @ a @ w @ r) (\<lambda>(d, a, w, r). 0 \<le> d \<and> d < 2 ^ 64 \<and> length a = 64 \<and> length w = 64 \<and> length r = 64)"
  proof (rule reads_splitI)
    fix pre rest :: bytes and x :: "int \<times> bytes \<times> bytes \<times> bytes"
    assume "case x of (d, a, w, r) \<Rightarrow> 0 \<le> d \<and> d < 2 ^ 64 \<and> length a = 64 \<and> length w = 64 \<and> length r = 64"
    then show "?p (reader_at pre ((case x of (d, a, w, r) \<Rightarrow> be_bytes 8 d @ a @ w @ r) @ rest)) =
        Inr (x, reader_at (pre @ (case x of (d, a, w, r) \<Rightarrow> be_bytes 8 d @ a @ w @ r)) rest)"
      by (cases x) (simp add: run_simps)
  qed (auto simp: read_simps)
  from decoded_whole_unchecked [OF this] show ?thesis
    by (auto simp: lit_settlementFields_def lit_encodeSettlementAuthorization_def write_simps bindR_Inr_conv lit_u64_conv)
qed

definition signed_ok :: "crypto \<Rightarrow> lit_signed_acceptance \<Rightarrow> bool" where
  "signed_ok C a \<longleftrightarrow> lit_acceptance_ok C a \<and> length (la_signature a) = 64 \<and> length (la_ownerSignature a) = 64"

definition signed_enc :: "lit_signed_acceptance \<Rightarrow> bytes" where
  "signed_enc a = lit_acceptance_enc a @ la_signature a @ la_ownerSignature a"

definition signed_shape :: "lit_signed_acceptance \<Rightarrow> bool" where
  "signed_shape a \<longleftrightarrow> length (la_domain a) = 32 \<and> length (la_demand a) = 32 \<and> length (la_owner a) = 32 \<and>
     0 \<le> la_deadline a \<and> la_deadline a < 2 ^ 64 \<and> length (la_signature a) = 64 \<and> length (la_ownerSignature a) = 64"

lemma decodeAcceptanceBody_conv: "decodeAcceptanceBody bs = Inr a \<longleftrightarrow> signed_shape a \<and> bs = signed_enc a"
proof -
  let ?p = "bindP (lit_context LIT_ACCEPTANCE_CONTEXT ''wrong acceptance context'') (\<lambda>_. bindP (r_raw 32) (\<lambda>domain.
     bindP (r_raw 32) (\<lambda>demand. bindP (r_raw 32) (\<lambda>owner. bindP r_u64 (\<lambda>deadline. bindP (r_raw 64) (\<lambda>signature. bindP (r_raw 64) (\<lambda>ownerSignature.
     returnP \<lparr>la_domain = domain, la_demand = demand, la_owner = owner, la_deadline = deadline, la_signature = signature,
       la_ownerSignature = ownerSignature\<rparr>)))))))"
  have "reads ?p signed_enc signed_shape"
  proof (rule reads_splitI)
    fix pre rest a
    assume "signed_shape a"
    then show "?p (reader_at pre (signed_enc a @ rest)) = Inr (a, reader_at (pre @ signed_enc a) rest)"
      by (simp add: run_simps signed_enc_def lit_acceptance_enc_def signed_shape_def)
  qed (auto simp: read_simps signed_enc_def lit_acceptance_enc_def signed_shape_def)
  from decoded_whole_unchecked [OF this] show ?thesis by (simp add: decodeAcceptanceBody_def)
qed

text \<open>What \<open>ownPublication\<close> admits.\<close>

definition lit_routed :: "crypto \<Rightarrow> lit_publication \<Rightarrow> bool" where
  "lit_routed C p \<longleftrightarrow> length (lp_domain p) = 32 \<and> length (lp_backing p) = 32 \<and> (case p of
     LitAccepted domain _ a \<Rightarrow> signed_ok C a \<and> la_domain a = domain
   | LitPublished domain backing kind r \<Rightarrow> kind \<in> {1, 3, 4, 5} \<and> lit_record_ok C r \<and>
       lt_kind (lr_statement r) = LIT_PUBLICATION_STATEMENT kind \<and> lt_domain (lr_statement r) = domain \<and>
       (kind = 1 \<longrightarrow> (\<exists>c. demandClaim C (lr_statement r) = Inr c \<and> dc_backing c = backing)) \<and>
       (kind = 5 \<longrightarrow> lo_backing (lt_input (lr_statement r)) = backing))"

lemma ownPublication_conv: "ownPublication C p = Inr q \<longleftrightarrow> lit_routed C p \<and> q = p"
proof (cases p)
  case (LitAccepted d b a)
  then show ?thesis
    by (cases a) (auto simp: ownPublication_def lit_requireKind_def lp_kind_def bindR_Inr_conv field32_conv ownAcceptance_conv own_signature_def
        lit_routed_def signed_ok_def lit_acceptance.truncate_def split: if_splits)
next
  case (LitPublished d b k r)
  then show ?thesis
    by (auto simp: ownPublication_def lit_requireKind_def lp_kind_def bindR_Inr_conv field32_conv ownRecord_conv Let_def
        lit_routed_def LIT_PUBLICATION_STATEMENT_def split: if_splits)
qed

definition lit_body_of :: "lit_publication \<Rightarrow> bytes" where
  "lit_body_of p = (case p of LitAccepted _ _ a \<Rightarrow> signed_enc a | LitPublished _ _ _ r \<Rightarrow> lit_record_enc r)"

definition lit_publication_enc :: "lit_publication \<Rightarrow> bytes" where
  "lit_publication_enc p = LIT_PUBLICATION_CONTEXT @ lp_domain p @ lp_backing p @ be_bytes 1 (lp_kind p) @ lp (lit_body_of p)"

lemma lit_body_conv: "lit_routed C p \<Longrightarrow> lit_body C p = Inr bs \<longleftrightarrow> bs = lit_body_of p"
  by (cases p) (auto simp: lit_routed_def lit_body_def lit_body_of_def lit_encodeRecord_conv bindR_Inr_conv lit_acceptanceBytes_conv write_simps
      signed_ok_def signed_enc_def)

lemma context_lengths: "length LIT_PUBLICATION_CONTEXT = 22" "length LIT_ACCEPTANCE_CONTEXT = 21"
  by (simp_all add: LIT_PUBLICATION_CONTEXT_def LIT_ACCEPTANCE_CONTEXT_def tag_def)

lemma bounds_values: "LIT_BODY_BOUNDS k = (if k = 1 then 478 else if k = 2 then 253 else if k = 3 then 357 else if k = 4 then 189 else 237)"
  by (simp add: LIT_BODY_BOUNDS_def recordBound_def LIT_STATEMENT_PREFIX_BYTES_def length_LIT_STATEMENT LIT_MAX_INPUTS_def
      SETTLEMENT_AUTHORIZATION_BYTES_def context_lengths)

lemma max_publication: "LIT_MAX_PUBLICATION_BYTES = 569"
  by (simp add: LIT_MAX_PUBLICATION_BYTES_def bounds_values context_lengths)

lemma lit_body_bound: "lit_routed C p \<Longrightarrow> length (lit_body_of p) \<le> LIT_BODY_BOUNDS (lp_kind p)"
proof (cases p)
  case (LitAccepted d b a)
  assume "lit_routed C p"
  then show ?thesis
    by (simp add: LitAccepted lit_routed_def lit_body_of_def lp_kind_def bounds_values signed_enc_def lit_acceptance_enc_def signed_ok_def
        lit_acceptance_ok_def key_ok_def context_lengths)
next
  case (LitPublished d b k r)
  assume ok: "lit_routed C p"
  then have s: "lit_ok C (lr_statement r)" and au: "length (lr_authorization r) = authorizationLength (lr_statement r)"
    and k: "k \<in> {1, 3, 4, 5}" "lt_kind (lr_statement r) = LIT_PUBLICATION_STATEMENT k"
    by (auto simp: LitPublished lit_routed_def lit_record_ok_def)
  have "length (lit_enc (lr_statement r)) + authorizationLength (lr_statement r) + 8 \<le> LIT_BODY_BOUNDS k"
    using s k by (cases "lr_statement r")
      (auto simp: lit_ok_def lit_enc_def lit_body_enc_def lt_kind_def inputs_ok_def key_ok_def openings_enc_def authorizationLength_def
        length_concat_openings LIT_MAX_INPUTS_def length_LIT_STATEMENT LIT_PUBLICATION_STATEMENT_def bounds_values
        SETTLEMENT_AUTHORIZATION_BYTES_def dest: length_opening_enc)
  then show ?thesis using au by (simp add: LitPublished lit_body_of_def lp_kind_def lit_record_enc_def lp_def)
qed

lemma lp_kind_range: "lit_routed C p \<Longrightarrow> lp_kind p \<in> {1, 2, 3, 4, 5}"
  by (cases p) (auto simp: lit_routed_def lp_kind_def)

lemma bounds_small: "LIT_BODY_BOUNDS k \<le> 478"
  by (simp add: bounds_values)

lemma lit_encodePublication_conv: "lit_encodePublication C p = Inr bs \<longleftrightarrow> lit_routed C p \<and> bs = lit_publication_enc p"
proof -
  have "length (lp_domain p) = 32 \<and> length (lp_backing p) = 32 \<and> 0 \<le> lp_kind p \<and> lp_kind p < 256 \<and> int (length (lit_body_of p)) < 2 ^ 32"
    if "lit_routed C p"
    using that lit_body_bound [OF that] bounds_small [of "lp_kind p"] lp_kind_range [OF that] by (auto simp: lit_routed_def)
  then show ?thesis
    by (auto simp: lit_encodePublication_def bindR_Inr_conv ownPublication_conv lit_body_conv write_simps lp_def lit_publication_enc_def
        simp del: be_bytes.simps One_nat_def)
qed

lemma publication_length: "lit_routed C p \<Longrightarrow> length (lit_publication_enc p) \<le> LIT_MAX_PUBLICATION_BYTES"
  using lit_body_bound [of C p] bounds_small [of "lp_kind p"]
  by (simp add: lit_publication_enc_def max_publication context_lengths lp_def lit_routed_def)

definition frame_enc :: "bytes \<times> bytes \<times> int \<times> bytes \<Rightarrow> bytes" where
  "frame_enc = (\<lambda>(d, b, k, body). LIT_PUBLICATION_CONTEXT @ d @ b @ be_bytes 1 k @ lp body)"

definition frame_shape :: "bytes \<times> bytes \<times> int \<times> bytes \<Rightarrow> bool" where
  "frame_shape = (\<lambda>(d, b, k, body). length d = 32 \<and> length b = 32 \<and> k \<in> {1, 2, 3, 4, 5} \<and> length body \<le> LIT_BODY_BOUNDS k)"

lemma lit_requireKind_conv: "lit_requireKind k = Inr u \<longleftrightarrow> k \<in> {1, 2, 3, 4, 5}"
  by (auto simp: lit_requireKind_def)

lemma readPublication_reads: "reads readPublication frame_enc frame_shape"
proof (rule reads_splitI)
  fix pre rest x r'
  have b: "0 \<le> int (LIT_BODY_BOUNDS k)" "int (LIT_BODY_BOUNDS k) < 2 ^ 32" for k using bounds_small [of k] by simp_all
  assume "readPublication (reader_at pre rest) = Inr (x, r')"
  then show "frame_shape x \<and> (\<exists>rest'. rest = frame_enc x @ rest' \<and> r' = reader_at (pre @ frame_enc x) rest')"
    by (auto simp: readPublication_def bindP_conv lit_context_conv r_raw_conv r_u8_conv liftP_conv returnP_conv lit_requireKind_conv
        r_lengthPrefixed_conv [OF b] frame_shape_def frame_enc_def lp_def simp del: be_bytes.simps One_nat_def)
next
  fix pre rest x
  assume ok: "frame_shape x"
  obtain d b k body where x: "x = (d, b, k, body)" by (cases x)
  have k: "lit_requireKind k = Inr ()" "0 \<le> k" "k < 256" using ok by (auto simp: x frame_shape_def lit_requireKind_conv)
  have "r_lengthPrefixed (int (LIT_BODY_BOUNDS k)) (reader_at q (lp body @ rest)) = Inr (body, reader_at (q @ lp body) rest)" for q
    using ok bounds_small [of k] by (intro r_lengthPrefixed_lp) (simp_all add: x frame_shape_def)
  then show "readPublication (reader_at pre (frame_enc x @ rest)) = Inr (x, reader_at (pre @ frame_enc x) rest)"
    using ok k by (simp add: x readPublication_def frame_enc_def frame_shape_def run_simps)
qed

lemma lit_decodePublication_conv: "lit_decodePublication C bs = Inr p \<longleftrightarrow> lit_encodePublication C p = Inr bs"
proof -
  have read: "decoded_by (bindP readPublication (\<lambda>x. bindP r_expectEnd (\<lambda>_. returnP x))) bs = Inr x \<longleftrightarrow> frame_shape x \<and> bs = frame_enc x" for x
    by (rule decoded_whole_unchecked [OF readPublication_reads])
  show ?thesis unfolding lit_encodePublication_conv
  proof
    assume run: "lit_decodePublication C bs = Inr p"
    then obtain d b k body where fr: "frame_shape (d, b, k, body)" "bs = frame_enc (d, b, k, body)"
      and rest: "(if k \<noteq> 2 then bindR (lit_decodeRecord C body) (\<lambda>r. ownPublication C (LitPublished d b k r))
        else bindR (decodeAcceptanceBody body) (\<lambda>a. ownPublication C (LitAccepted d b a))) = Inr p"
      by (auto simp: lit_decodePublication_def bindR_Inr_conv read split: if_split_asm)
    then show "lit_routed C p \<and> bs = lit_publication_enc p"
      by (auto simp: bindR_Inr_conv ownPublication_conv lit_decodeRecord_conv lit_encodeRecord_conv decodeAcceptanceBody_conv lit_publication_enc_def
          frame_enc_def lit_body_of_def lp_kind_def split: if_split_asm)
  next
    assume r: "lit_routed C p \<and> bs = lit_publication_enc p"
    then have own: "ownPublication C p = Inr p" by (simp add: ownPublication_conv)
    let ?x = "(lp_domain p, lp_backing p, lp_kind p, lit_body_of p)"
    have "frame_shape ?x" using r lit_body_bound [of C p] lp_kind_range [of C p] by (auto simp: frame_shape_def lit_routed_def)
    moreover have "bs = frame_enc ?x" using r by (simp add: lit_publication_enc_def frame_enc_def)
    ultimately have fr: "decoded_by (bindP readPublication (\<lambda>x. bindP r_expectEnd (\<lambda>_. returnP x))) bs = Inr ?x"
      using read by blast
    have len: "length bs \<le> LIT_MAX_PUBLICATION_BYTES" using r publication_length by blast
    show "lit_decodePublication C bs = Inr p"
    proof (cases p)
      case (LitAccepted d b a)
      have "decodeAcceptanceBody (lit_body_of p) = Inr a"
        using r by (simp add: decodeAcceptanceBody_conv LitAccepted lit_body_of_def lit_routed_def signed_ok_def lit_acceptance_ok_def
            key_ok_def signed_shape_def)
      then show ?thesis using fr len own by (simp add: lit_decodePublication_def LitAccepted lp_kind_def)
    next
      case (LitPublished d b k rr)
      have "lit_decodeRecord C (lit_body_of p) = Inr rr" "k \<noteq> 2"
        using r by (auto simp: lit_decodeRecord_conv lit_encodeRecord_conv LitPublished lit_body_of_def lit_routed_def)
      then show ?thesis using fr len own by (simp add: lit_decodePublication_def LitPublished lp_kind_def)
    qed
  qed
qed

interpretation lit_publication_codec: digest_codec "lit_encodePublication C" "lit_decodePublication C" "sha256 C" "lit_publicationId C" for C
  by unfold_locales (simp_all add: lit_decodePublication_conv lit_publicationId_def)

end
