(* ===== verification/LitCommitments.thy ===== *)
theory LitCommitments
  imports LitPublications Commitments
begin

section \<open>Lit histories, receipts and fault evidence (src/lit/commitments.ts, src/lit/fault-evidence.ts)\<close>

text \<open>
  Lit's instance of the evidence chain, its history hash and its receipt, which carry the evidence
  pair and no note or scope root, and the compact exclusion of a target by its intrinsic failures.
  \<open>exclusion_exact\<close> says what that exclusion decides.
\<close>

definition LIT_MAX_TARGET_FIELD_BYTES :: int where "LIT_MAX_TARGET_FIELD_BYTES = 4096"

definition lit_target :: "crypto \<Rightarrow> bytes list \<Rightarrow> bytes list result" where
  "lit_target C fs = (let d = lit_hashEvidenceFields C (fs ! 0) (fs ! 1) in Inr [ep_statementHash d, ep_signatureHash d])"

definition LIT_CHAIN :: "crypto \<Rightarrow> chain_profile" where
  "LIT_CHAIN C = \<lparr>ch_seed = LIT_EVIDENCE_SEED_CONTEXT, ch_link = LIT_EVIDENCE_LINK_CONTEXT, ch_snapshot = LIT_SNAPSHOT_CONTEXT,
     ch_faultEvidence = LIT_FAULT_EVIDENCE_CONTEXT, ch_digests = [''statementHash'', ''signatureHash''],
     ch_fields = [''statement'', ''authorization''], ch_maxTargetFieldBytes = LIT_MAX_TARGET_FIELD_BYTES,
     ch_boundBeforeCopy = True, ch_target = lit_target C\<rparr>"

definition lit_genesisHistoryHash :: "crypto \<Rightarrow> bytes \<Rightarrow> bytes result" where
  "lit_genesisHistoryHash C segment = segmentSeed C LIT_GENESIS_CONTEXT segment"

definition lit_count :: "int \<Rightarrow> bool \<Rightarrow> int result" where
  "lit_count v nonzero = (if v < 0 \<or> v > 0xffffffffffffffff \<or> (nonzero \<and> v = 0) then Inl (EncodingError ''invalid u64'') else Inr v)"

definition lit_nextHistoryHash :: "crypto \<Rightarrow> bytes \<Rightarrow> bytes \<Rightarrow> bytes \<Rightarrow> int \<Rightarrow> bytes result" where
  "lit_nextHistoryHash C previous st spentRoot position =
     mapR (sha256 C) (written [w_context LIT_HISTORY_CONTEXT, w_field32 previous ''previous'', w_field32 st ''statement hash'',
       w_field32 spentRoot ''spent root'', \<lambda>out. bindR (lit_count position True) (\<lambda>n. w_u64 n out)])"

subsection \<open>Receipts\<close>

record lit_receipt_fields = evidence_pair +
  lc_domain :: bytes
  lc_segment :: bytes
  lc_position :: int
  lc_historyHash :: bytes
  lc_after :: int

record lit_receipt = lit_receipt_fields +
  lc_operator :: bytes
  lc_signature :: bytes

record lit_receipt_authority =
  lau_domain :: bytes
  lau_segment :: bytes
  lau_operator :: bytes

record lit_event = evidence_pair +
  le_position :: int
  le_historyHash :: bytes

definition lit_ownFields :: "'a lit_receipt_fields_scheme \<Rightarrow> lit_receipt_fields result" where
  "lit_ownFields r = bindR (field32 (lc_domain r) ''domain'') (\<lambda>domain. bindR (field32 (lc_segment r) ''segment'') (\<lambda>segment.
     bindR (lit_count (lc_position r) True) (\<lambda>position. bindR (field32 (ep_statementHash r) ''statement hash'') (\<lambda>st.
     bindR (field32 (lc_historyHash r) ''history hash'') (\<lambda>history. bindR (field32 (ep_signatureHash r) ''signature hash'') (\<lambda>sig.
     bindR (lit_count (lc_after r) False) (\<lambda>after.
     Inr \<lparr>ep_statementHash = st, ep_signatureHash = sig, lc_domain = domain, lc_segment = segment, lc_position = position,
       lc_historyHash = history, lc_after = after\<rparr>)))))))"

definition lit_receiptBytes :: "'a lit_receipt_fields_scheme \<Rightarrow> bytes result" where
  "lit_receiptBytes rf = bindR (lit_ownFields rf) (\<lambda>r.
     written [w_context LIT_RECEIPT_CONTEXT, w_key32 (lc_domain r) ''domain'', w_key32 (lc_segment r) ''segment'', w_u64 (lc_position r),
       w_key32 (ep_statementHash r) ''statement hash'', w_key32 (lc_historyHash r) ''history hash'',
       w_key32 (ep_signatureHash r) ''signature hash'', w_u64 (lc_after r)])"

definition lit_encodeReceipt :: "lit_receipt \<Rightarrow> bytes result" where
  "lit_encodeReceipt r = bindR (lit_receiptBytes r) (\<lambda>rb.
     written [w_context rb, w_field32 (lc_operator r) ''operator'', w_fixed (lc_signature r) 64 ''signature''])"

definition lit_decodeReceipt :: "bytes \<Rightarrow> lit_receipt result" where
  "lit_decodeReceipt = decoded_by (
     bindP (bindP (lit_context LIT_RECEIPT_CONTEXT ''wrong context'') (\<lambda>_. bindP (r_raw 32) (\<lambda>domain. bindP (r_raw 32) (\<lambda>segment.
       bindP r_u64 (\<lambda>position. bindP (r_raw 32) (\<lambda>st. bindP (r_raw 32) (\<lambda>history. bindP (r_raw 32) (\<lambda>sig. bindP r_u64 (\<lambda>after.
       bindP (r_raw 32) (\<lambda>operator. bindP (r_raw 64) (\<lambda>signature.
       returnP \<lparr>ep_statementHash = st, ep_signatureHash = sig, lc_domain = domain, lc_segment = segment, lc_position = position,
         lc_historyHash = history, lc_after = after, lc_operator = operator, lc_signature = signature\<rparr>)))))))))))
     (\<lambda>r. bindP r_expectEnd (\<lambda>_. bindP (liftP (requireR (lc_position r \<noteq> 0) (EncodingError ''receipt position is zero''))) (\<lambda>_.
       returnP r))))"

definition lit_verifyReceipt :: "crypto \<Rightarrow> lit_receipt_authority \<Rightarrow> lit_receipt \<Rightarrow> bool result" where
  "lit_verifyReceipt C authority receiptIn = catchEncoding (
     bindR (lit_encodeReceipt receiptIn) (\<lambda>eb. bindR (lit_decodeReceipt eb) (\<lambda>rc.
     bindR (field32 (lau_domain authority) ''domain'') (\<lambda>domain.
     if compareBytes domain (lc_domain rc) \<noteq> 0 then Inr False else bindR (field32 (lau_segment authority) ''segment'') (\<lambda>segment.
     if compareBytes segment (lc_segment rc) \<noteq> 0 then Inr False else bindR (field32 (lau_operator authority) ''operator'') (\<lambda>operator.
     if compareBytes operator (lc_operator rc) \<noteq> 0 then Inr False
     else bindR (lit_receiptBytes rc) (\<lambda>message. Inr (verifySignatureStrict C (lc_signature rc) message (lc_operator rc)))))))))"

definition lit_receiptMatchesEvent :: "'a lit_receipt_fields_scheme \<Rightarrow> lit_event \<Rightarrow> bool result" where
  "lit_receiptMatchesEvent receiptIn event = catchEncoding (
     bindR (lit_ownFields receiptIn) (\<lambda>r. bindR (lit_count (le_position event) True) (\<lambda>position.
     bindR (field32 (ep_statementHash event) ''statement hash'') (\<lambda>st. bindR (field32 (le_historyHash event) ''history hash'') (\<lambda>history.
     bindR (field32 (ep_signatureHash event) ''signature hash'') (\<lambda>sig.
     Inr (lc_position r = position \<and> compareBytes (ep_statementHash r) st = 0 \<and> compareBytes (lc_historyHash r) history = 0 \<and>
       compareBytes (ep_signatureHash r) sig = 0)))))))"

subsection \<open>Receipt frames\<close>

definition lit_receipt_ok :: "'a lit_receipt_fields_scheme \<Rightarrow> bool" where
  "lit_receipt_ok r \<longleftrightarrow> length (lc_domain r) = 32 \<and> length (lc_segment r) = 32 \<and> 0 < lc_position r \<and> lc_position r < 2 ^ 64 \<and>
     length (ep_statementHash r) = 32 \<and> length (lc_historyHash r) = 32 \<and> length (ep_signatureHash r) = 32 \<and>
     0 \<le> lc_after r \<and> lc_after r < 2 ^ 64"

definition lit_receipt_enc :: "'a lit_receipt_fields_scheme \<Rightarrow> bytes" where
  "lit_receipt_enc r = LIT_RECEIPT_CONTEXT @ lc_domain r @ lc_segment r @ be_bytes 8 (lc_position r) @ ep_statementHash r @ lc_historyHash r @
     ep_signatureHash r @ be_bytes 8 (lc_after r)"

lemma lit_count_conv: "lit_count v p = Inr w \<longleftrightarrow> 0 \<le> v \<and> v < 2 ^ 64 \<and> (p \<longrightarrow> v \<noteq> 0) \<and> w = v"
  by (auto simp: lit_count_def)

lemma lit_ownFields_conv: "lit_ownFields r = Inr f \<longleftrightarrow> lit_receipt_ok r \<and> f = lit_receipt_fields.truncate r"
  by (auto simp: lit_ownFields_def bindR_Inr_conv field32_conv lit_count_conv lit_receipt_ok_def lit_receipt_fields.truncate_def)

lemma lit_receiptBytes_conv: "lit_receiptBytes r = Inr m \<longleftrightarrow> lit_receipt_ok r \<and> m = lit_receipt_enc r"
  by (auto simp: lit_receiptBytes_def bindR_Inr_conv lit_ownFields_conv write_simps lit_receipt_ok_def lit_receipt_enc_def
      lit_receipt_fields.truncate_def)

lemma lit_encodeReceipt_conv: "lit_encodeReceipt r = Inr bs \<longleftrightarrow>
    (lit_receipt_ok r \<and> length (lc_operator r) = 32 \<and> length (lc_signature r) = 64) \<and> bs = lit_receipt_enc r @ lc_operator r @ lc_signature r"
  by (auto simp: lit_encodeReceipt_def bindR_Inr_conv lit_receiptBytes_conv write_simps w_field32_conv)

lemma lit_decodeReceipt_conv: "lit_decodeReceipt bs = Inr r \<longleftrightarrow> lit_encodeReceipt r = Inr bs"
proof -
  let ?p = "bindP (lit_context LIT_RECEIPT_CONTEXT ''wrong context'') (\<lambda>_. bindP (r_raw 32) (\<lambda>domain. bindP (r_raw 32) (\<lambda>segment.
       bindP r_u64 (\<lambda>position. bindP (r_raw 32) (\<lambda>st. bindP (r_raw 32) (\<lambda>history. bindP (r_raw 32) (\<lambda>sig. bindP r_u64 (\<lambda>after.
       bindP (r_raw 32) (\<lambda>operator. bindP (r_raw 64) (\<lambda>signature.
       returnP \<lparr>ep_statementHash = st, ep_signatureHash = sig, lc_domain = domain, lc_segment = segment, lc_position = position,
         lc_historyHash = history, lc_after = after, lc_operator = operator, lc_signature = signature\<rparr>))))))))))"
  let ?ok = "\<lambda>r :: lit_receipt. length (lc_domain r) = 32 \<and> length (lc_segment r) = 32 \<and> 0 \<le> lc_position r \<and> lc_position r < 2 ^ 64 \<and>
     length (ep_statementHash r) = 32 \<and> length (lc_historyHash r) = 32 \<and> length (ep_signatureHash r) = 32 \<and>
     0 \<le> lc_after r \<and> lc_after r < 2 ^ 64 \<and> length (lc_operator r) = 32 \<and> length (lc_signature r) = 64"
  let ?enc = "\<lambda>r :: lit_receipt. lit_receipt_enc r @ lc_operator r @ lc_signature r"
  have "reads ?p ?enc ?ok"
  proof (rule reads_splitI)
    fix pre rest and r :: lit_receipt
    assume "?ok r"
    then show "?p (reader_at pre (?enc r @ rest)) = Inr (r, reader_at (pre @ ?enc r) rest)"
      by (simp add: run_simps lit_receipt_enc_def)
  qed (auto simp: read_simps lit_receipt_enc_def)
  from decoded_whole [OF this, of "\<lambda>r. requireR (lc_position r \<noteq> 0) (EncodingError ''receipt position is zero'')"]
  show ?thesis by (auto simp: lit_decodeReceipt_def lit_encodeReceipt_conv lit_receipt_ok_def)
qed

interpretation lit_receipt_codec: frame_codec lit_encodeReceipt lit_decodeReceipt
  by unfold_locales (rule lit_decodeReceipt_conv)

lemma lit_verifyReceipt_True: "lit_verifyReceipt C a r = Inr True \<longleftrightarrow>
    lit_receipt_ok r \<and> length (lc_operator r) = 32 \<and> length (lc_signature r) = 64 \<and>
    lc_domain r = lau_domain a \<and> lc_segment r = lau_segment a \<and> lc_operator r = lau_operator a \<and>
    verifySignatureStrict C (lc_signature r) (lit_receipt_enc r) (lc_operator r)"
proof -
  have d: "lit_decodeReceipt eb = Inr rc \<longleftrightarrow> rc = r" if "lit_encodeReceipt r = Inr eb" for eb rc
    using lit_receipt_codec.decode_encode [OF that] by auto
  have i: "(if c then Inr False else x) = Inr True \<longleftrightarrow> \<not> c \<and> x = Inr True" for c and x :: "bool result" by simp
  show ?thesis unfolding lit_verifyReceipt_def catchEncoding_True bindR_Inr_conv i
    by (auto simp: d field32_conv lit_receiptBytes_conv lit_encodeReceipt_conv lit_receipt_ok_def bindR_Inr_conv)
qed

lemma lit_receiptMatchesEvent_True: "lit_receiptMatchesEvent r ev = Inr True \<longleftrightarrow> lit_receipt_ok r \<and>
    ep_statementHash r = ep_statementHash ev \<and> lc_historyHash r = le_historyHash ev \<and> ep_signatureHash r = ep_signatureHash ev \<and>
    lc_position r = le_position ev"
  unfolding lit_receiptMatchesEvent_def catchEncoding_True
  by (auto simp: bindR_Inr_conv lit_ownFields_conv field32_conv lit_count_conv lit_receipt_ok_def lit_receipt_fields.truncate_def)

subsection \<open>Intrinsic failures\<close>

datatype intrinsic_failure =
    ArithmeticFailure
  | SignatureFailure (if_role: string) (if_signer: bytes) (if_backing: bytes)

definition owner_failures :: "crypto \<Rightarrow> bytes \<Rightarrow> bytes \<Rightarrow> lit_opening list \<Rightarrow> intrinsic_failure list" where
  "owner_failures C authorization message ins = concat (map (\<lambda>(i, input).
     if \<not> verifySignatureStrict C (subarray64 i authorization) message (lo_owner input)
     then [SignatureFailure ''owner'' (lo_owner input) (lo_backing input)] else []) (enumerate 0 ins))"

definition catch_failures :: "'a result \<Rightarrow> ('a \<Rightarrow> intrinsic_failure list result) \<Rightarrow> intrinsic_failure list result" where
  "catch_failures r f = (case r of Inl (EncodingError _) \<Rightarrow> Inr [] | Inl e \<Rightarrow> Inl e | Inr x \<Rightarrow> f x)"

definition intrinsicFailures :: "crypto \<Rightarrow> bytes \<Rightarrow> bytes \<Rightarrow> (bytes \<Rightarrow> bytes option) \<Rightarrow> intrinsic_failure list result" where
  "intrinsicFailures C statementIn authorization issuer = catch_failures (lit_decodeStatement C statementIn) (\<lambda>s.
     if compareBytes (lt_domain s) litConfigHash \<noteq> 0 \<or> length authorization \<noteq> authorizationLength s then Inr []
     else if lt_kind s = 5 \<or> lt_kind s = 6 \<or> lt_kind s = 7 then Inr []
     else if lt_kind s = 1 then Inr (case issuer (lt_backing s) of None \<Rightarrow> []
       | Some key \<Rightarrow> if isValidPublicKey C key \<and> \<not> statementSignatureVerifies C \<lparr>lr_statement = s, lr_authorization = authorization\<rparr> key
         then [SignatureFailure ''issue'' key (lt_backing s)] else [])
     else bindR (lit_statementBytes C s) (\<lambda>message.
       Inr ((if arithmeticHolds C s then [] else [ArithmeticFailure]) @ owner_failures C authorization message (lt_inputs s))))"

definition intrinsicallyInvalid :: "crypto \<Rightarrow> bytes \<Rightarrow> bytes \<Rightarrow> (bytes \<Rightarrow> bytes option) \<Rightarrow> bool result" where
  "intrinsicallyInvalid C st au issuer = mapR (\<lambda>fs. length fs > 0) (intrinsicFailures C st au issuer)"

lemma owner_failures_Nil: "owner_failures C au m ins = [] \<longleftrightarrow>
    list_all (\<lambda>(i, w). verifySignatureStrict C (subarray64 i au) m w) (enumerate 0 (map lo_owner ins))"
proof -
  have e: "enumerate 0 (map lo_owner ins) = map (\<lambda>(i, x). (i, lo_owner x)) (enumerate 0 ins)"
    by (simp add: enumerate_map_upt map_nth enumerate_eq_zip zip_map2)
  show ?thesis unfolding owner_failures_def e by (auto simp: list_all_iff split: if_splits)
qed

text \<open>The exclusion decides exactly what the statement's own check refuses.\<close>

lemma exclusion_exact:
  assumes "lit_record_ok C r" and "lt_domain (lr_statement r) = litConfigHash"
  shows "lt_kind (lr_statement r) \<in> {2, 3, 4} \<Longrightarrow>
      intrinsicallyInvalid C (lit_enc (lr_statement r)) (lr_authorization r) issuer =
        Inr (\<not> (arithmeticHolds C (lr_statement r) \<and> ownerSignaturesVerify C r))"
    and "lt_kind (lr_statement r) = 1 \<Longrightarrow>
      intrinsicallyInvalid C (lit_enc (lr_statement r)) (lr_authorization r) issuer =
        Inr (\<exists>key. issuer (lt_backing (lr_statement r)) = Some key \<and> isValidPublicKey C key \<and> \<not> statementSignatureVerifies C r key)"
    and "lt_kind (lr_statement r) \<in> {5, 6, 7} \<Longrightarrow>
      intrinsicallyInvalid C (lit_enc (lr_statement r)) (lr_authorization r) issuer = Inr False"
proof -
  let ?s = "lr_statement r"
  have sb: "lit_statementBytes C ?s = Inr (lit_enc ?s)" and d: "lit_decodeStatement C (lit_enc ?s) = Inr ?s"
    using assms(1) by (simp_all add: lit_record_ok_def lit_statementBytes_conv lit_decodeStatement_conv)
  have au: "length (lr_authorization r) = authorizationLength ?s" and own: "ownRecord C r = Inr r"
    using assms(1) by (simp_all add: lit_record_ok_def ownRecord_conv)
  have eta: "\<lparr>lr_statement = ?s, lr_authorization = lr_authorization r\<rparr> = r" by (cases r) simp
  note simps = intrinsicallyInvalid_def intrinsicFailures_def catch_failures_def d assms(2) au eta sb
  show "intrinsicallyInvalid C (lit_enc ?s) (lr_authorization r) issuer = Inr (\<not> (arithmeticHolds C ?s \<and> ownerSignaturesVerify C r))"
    if "lt_kind ?s \<in> {2, 3, 4}"
    using that owner_failures_Nil [of C "lr_authorization r" "lit_enc ?s" "lt_inputs ?s"]
    by (auto simp: simps ownerSignaturesVerify_def own Let_def)
  show "intrinsicallyInvalid C (lit_enc ?s) (lr_authorization r) issuer =
      Inr (\<exists>key. issuer (lt_backing ?s) = Some key \<and> isValidPublicKey C key \<and> \<not> statementSignatureVerifies C r key)"
    if "lt_kind ?s = 1" using that by (auto simp: simps split: option.split)
  show "intrinsicallyInvalid C (lit_enc ?s) (lr_authorization r) issuer = Inr False" if "lt_kind ?s \<in> {5, 6, 7}"
    using that by (auto simp: simps)
qed

subsection \<open>Property\<close>

lemma record_splits: "lit_record_ok C r \<Longrightarrow> splitRecord (lit_record_enc r) = Inr (lit_enc (lr_statement r), lr_authorization r)"
  using lit_enc_bound [of C "lr_statement r"] authorization_bound [of C "lr_statement r"]
  by (simp add: splitRecord_conv lit_record_enc_def lit_record_ok_def)

lemma split_record_frame:
  "lit_encodeRecord C r = Inr bs \<longleftrightarrow> lit_record_ok C r \<and> splitRecord bs = Inr (lit_enc (lr_statement r), lr_authorization r)"
  using record_splits [of C r] by (auto simp: lit_encodeRecord_conv splitRecord_conv lit_record_enc_def)

text \<open>C25: lit's frames are canonical. Bytes decode to a statement, a record, a publication or a receipt exactly where they are its frame,
  and exactly the values whose ranges, counts, keys, lengths and routing pass have one; a record's frame is what splits into its
  statement's frame and its authorization; and no publication has more than 569 bytes.\<close>

theorem lit_frames_canonical:
  "(lit_decodeStatement C bs = Inr s \<longleftrightarrow> lit_statementBytes C s = Inr bs) \<and> (lit_decodeRecord C bs = Inr r \<longleftrightarrow> lit_encodeRecord C r = Inr bs) \<and>
   (lit_decodePublication C bs = Inr p \<longleftrightarrow> lit_encodePublication C p = Inr bs) \<and> (lit_decodeReceipt bs = Inr c \<longleftrightarrow> lit_encodeReceipt c = Inr bs) \<and>
   (isOk (lit_statementBytes C s) \<longleftrightarrow> ownStatement C s = Inr s) \<and> (isOk (lit_encodeRecord C r) \<longleftrightarrow> ownRecord C r = Inr r) \<and>
   (isOk (lit_encodePublication C p) \<longleftrightarrow> ownPublication C p = Inr p) \<and>
   (lit_encodeRecord C r = Inr bs \<longleftrightarrow> (\<exists>st. lit_statementBytes C (lr_statement r) = Inr st \<and> ownRecord C r = Inr r \<and>
      splitRecord bs = Inr (st, lr_authorization r))) \<and>
   (\<nexists>q. lit_encodePublication C q = Inr bs \<and> 569 < length bs)"
proof -
  have "length bs \<le> 569" if "lit_encodePublication C q = Inr bs" for q
    using that publication_length [of C q] by (simp add: lit_encodePublication_conv max_publication)
  then have "\<nexists>q. lit_encodePublication C q = Inr bs \<and> 569 < length bs" by fastforce
  moreover have "lit_encodeRecord C r = Inr bs \<longleftrightarrow> (\<exists>st. lit_statementBytes C (lr_statement r) = Inr st \<and> ownRecord C r = Inr r \<and>
      splitRecord bs = Inr (st, lr_authorization r))"
    by (auto simp: split_record_frame lit_statementBytes_conv ownRecord_conv lit_record_ok_def)
  ultimately show ?thesis
    by (simp add: lit_decodeStatement_conv lit_decodeRecord_conv lit_decodePublication_conv lit_decodeReceipt_conv isOk_conv
        lit_statementBytes_conv lit_encodeRecord_conv lit_encodePublication_conv ownStatement_conv ownRecord_conv ownPublication_conv)
qed

end
