(* ===== verification/LitConstruction.thy ===== *)
theory LitConstruction
  imports LitCommitments Construction
begin

section \<open>Lit's view for the one state machine (src/lit/construction.ts)\<close>

text \<open>
  The instance of \<open>construction\<close> that replays lit records: the statement check in the proof's place
  is the statement's arithmetic and its owners' signatures, every commitment is derived, and a
  settlement reads the nullifiers its standing demand was kept with.  A key of the store is the
  integer of 32 bytes.
\<close>

definition bytesOf :: "int \<Rightarrow> bytes" where "bytesOf k = be_bytes 32 k"

definition distinct_backings :: "bytes list \<Rightarrow> bytes list" where
  "distinct_backings backings = foldl (\<lambda>out b. if \<not> list_ex (\<lambda>x. compareBytes x b = 0) out then out @ [b] else out) [] backings"

definition litOutputs :: "crypto \<Rightarrow> lit_record \<Rightarrow> demand option \<Rightarrow> lit_opening list result" where
  "litOutputs C rec d = (let s = lr_statement rec in
     if lt_kind s \<noteq> 6 then createdOutputs C s None
     else case d of None \<Rightarrow> Inr [] | Some x \<Rightarrow> (case dm_nullifiers x of None \<Rightarrow> Inr []
       | Some nfs \<Rightarrow> createdOutputs C s (Some \<lparr>dc_backing = dm_backing x, dc_quantity = dm_quantity x, dc_nullifiers = map bytesOf nfs\<rparr>)))"

definition created_keys :: "crypto \<Rightarrow> lit_record \<Rightarrow> demand option \<Rightarrow> int list result" where
  "created_keys C rec d = bindR (litOutputs C rec d) (traverseR (\<lambda>opening. mapR be_int (noteCommitment C (lt_domain (lr_statement rec)) opening)))"

definition lit_owned :: "crypto \<Rightarrow> lit_record \<Rightarrow> verifier \<Rightarrow> unit result" where
  "lit_owned C rec verifier = bindR (requireReplay (arithmeticHolds C (lr_statement rec)) ''ARITHMETIC'') (\<lambda>_.
     requireReplay (ownerSignaturesVerify C rec) ''SIGNATURE'')"

definition lit_settlement :: "crypto \<Rightarrow> lit_record \<Rightarrow> settlement_terms result" where
  "lit_settlement C rec = mapR (\<lambda>auth. let a = lsa_acceptance auth in
     \<lparr>sm_deadline = la_deadline a, sm_signed = (\<lambda>issuer presenter.
        verifySignatureStrict C (la_signature a) (lsa_acceptanceMessage auth) issuer \<and>
        verifySignatureStrict C (la_ownerSignature a) (lsa_acceptanceMessage auth) (la_owner a) \<and>
        verifySignatureStrict C (lsa_releaseSignature auth) (lsa_releaseMessage auth) presenter)\<rparr>) (lit_settlementAuthorization C rec)"

definition lit_base :: "crypto \<Rightarrow> lit_record \<Rightarrow> bytes \<Rightarrow> evidence_pair \<Rightarrow> statement_view" where
  "lit_base C rec identity ep = (let s = lr_statement rec; kind = lt_kind s in
     \<lparr>v_kind = kind, v_identity = identity, v_domain = lt_domain s, v_segment = lt_segment s, v_scope = None,
      v_digests = \<lparr>e_statementHash = ep_statementHash ep, e_proofHash = [], e_signatureHash = ep_signatureHash ep\<rparr>,
      v_backings = [], v_ended = None, v_needsDemand = False, v_quantity = None, v_nfs = [], v_tags = [], v_outputs = [], v_capsules = [],
      v_roots = [], v_inputs = [], v_demand = None, v_check = (\<lambda>_. Inr ()),
      v_issuerSigned = (\<lambda>issuer. Inr (kind = 1 \<and> statementSignatureVerifies C rec issuer)),
      v_withdrawalSigned = (\<lambda>presenter. Inr (kind = 5 \<and> statementSignatureVerifies C rec presenter)),
      v_settlement = Inl (TypeError ''not a settlement'')\<rparr>)"

text \<open>The commitments, nullifiers and tags of the inputs of a spend, burn or demand.\<close>

definition input_names :: "crypto \<Rightarrow> lit_statement \<Rightarrow> (bytes list \<times> bytes list \<times> bytes list) result" where
  "input_names C s = bindR (traverseR (noteCommitment C (lt_domain s)) (lt_inputs s)) (\<lambda>cms. bindR (traverseR (noteNullifier C) cms) (\<lambda>nfs.
     bindR (traverseR (noteTag C) nfs) (\<lambda>tags. Inr (cms, nfs, tags))))"

definition litView :: "crypto \<Rightarrow> lit_record \<Rightarrow> (string \<Rightarrow> demand option result) \<Rightarrow> statement_view result" where
  "litView C rec demandOf = (let s = lr_statement rec in
     if lt_kind s = 7 then Inl (TypeError ''a request is never a history event'')
     else bindR (lit_statementHash C s) (\<lambda>identity. bindR (evidencePair C rec) (\<lambda>ep. let base = lit_base C rec identity ep in
       (case s of
          LitIssue _ _ backing quantity _ _ \<Rightarrow> bindR (created_keys C rec None) (\<lambda>outs.
            Inr (base\<lparr>v_backings := [backing], v_quantity := Some quantity, v_outputs := outs\<rparr>))
        | LitSpend _ _ ins os \<Rightarrow> bindR (input_names C s) (\<lambda>(cms, nfs, tags). bindR (created_keys C rec None) (\<lambda>outs.
            Inr (base\<lparr>v_backings := distinct_backings (map lo_backing ins @ map lo_backing os), v_nfs := map be_int nfs, v_tags := map be_int tags,
              v_inputs := map be_int cms, v_check := lit_owned C rec, v_outputs := outs\<rparr>)))
        | LitBurn _ _ quantity ins os \<Rightarrow> bindR (input_names C s) (\<lambda>(cms, nfs, tags). bindR (created_keys C rec None) (\<lambda>outs.
            Inr (base\<lparr>v_backings := distinct_backings (map lo_backing ins @ map lo_backing os), v_quantity := Some quantity,
              v_nfs := map be_int nfs, v_tags := map be_int tags, v_inputs := map be_int cms, v_check := lit_owned C rec, v_outputs := outs\<rparr>)))
        | LitDemand _ _ ins presenter instant deadline \<Rightarrow> bindR (input_names C s) (\<lambda>(cms, nfs, tags).
            Inr (base\<lparr>v_backings := distinct_backings (map lo_backing ins), v_inputs := map be_int cms, v_check := lit_owned C rec,
              v_demand := Some (hex identity, \<lparr>dm_backing = lo_backing (ins ! 0), dm_quantity = foldl (\<lambda>sum input. sum + lo_value input) 0 ins,
                dm_tags = [be_int (tags ! 0), (case at_index tags 1 of None \<Rightarrow> 0 | Some t \<Rightarrow> be_int t)], dm_presenter = presenter,
                dm_instant = instant, dm_deadline = deadline, dm_nullifiers = Some (map be_int nfs)\<rparr>)\<rparr>))
        | LitWithdraw _ _ demand \<Rightarrow> Inr (base\<lparr>v_ended := Some (hex demand), v_needsDemand := True\<rparr>)
        | LitSettle _ _ demand _ \<Rightarrow> bindR (demandOf (hex demand)) (\<lambda>d.
            let ended = base\<lparr>v_ended := Some (hex demand), v_needsDemand := True, v_settlement := lit_settlement C rec\<rparr> in
            case d of None \<Rightarrow> Inr ended | Some x \<Rightarrow> (case dm_nullifiers x of None \<Rightarrow> Inr ended
            | Some nfs \<Rightarrow> bindR (created_keys C rec d) (\<lambda>outs.
                Inr (ended\<lparr>v_quantity := Some (dm_quantity x), v_nfs := nfs, v_tags := take (length nfs) (dm_tags x), v_outputs := outs\<rparr>))))
        | LitRequest _ _ _ \<Rightarrow> Inl (TypeError ''a request is never a history event'')))))"

definition litScanOutput :: "crypto \<Rightarrow> lit_record \<Rightarrow> statement_view \<Rightarrow> int \<Rightarrow> nat \<Rightarrow> demand option \<Rightarrow> scan_output result" where
  "litScanOutput C rec view cm i d = (let s = lr_statement rec in
     if lt_kind s = 6 \<and> (case d of None \<Rightarrow> True | Some x \<Rightarrow> dm_nullifiers x = None) then Inl (TypeError ''a settlement's output needs its demand'')
     else bindR (litOutputs C rec d) (\<lambda>outs. case at_index outs i of
       None \<Rightarrow> Inl (TypeError ''a lit record of this kind creates no output'')
     | Some opening \<Rightarrow> bindR (if lt_kind s \<noteq> 6 then Inr None
           else mapR (\<lambda>auth. Some (lt_demand s, la_deadline (lsa_acceptance auth))) (lit_settlementAuthorization C rec)) (\<lambda>acceptance.
         bindR (noteCommitment C (lt_domain s) opening) (\<lambda>own.
         if be_int own \<noteq> cm then Inl (TypeError ''a scanned output is not the view's'')
         else Inr \<lparr>so_cm = cm, so_capsule = None, so_settlement = None, so_lit = Some \<lparr>ls_backing = lo_backing opening, ls_value = lo_value opening,
           ls_owner = lo_owner opening, ls_rho = lo_rho opening, ls_acceptance = acceptance\<rparr>\<rparr>))))"

definition lit_settledDemand :: "crypto \<Rightarrow> bytes \<Rightarrow> string option result" where
  "lit_settledDemand C bs = bindR (lit_decodeRecord C bs) (\<lambda>r. let s = lr_statement r in
     if lt_kind s \<noteq> 6 then Inl (TypeError ''not a settlement'') else Inr (Some (hex (lt_demand s))))"

definition LIT :: "crypto \<Rightarrow> lit_record construction" where
  "LIT C = \<lparr>c_namespace = \<lparr>nc_name = LIT_CONSTRUCTION, nc_tree = False\<rparr>,
     c_decode = lit_decodeRecord C,
     c_kind = (\<lambda>r. lt_kind (lr_statement r)),
     c_view = litView C,
     c_genesisHistory = lit_genesisHistoryHash C,
     c_genesisEvidence = genesisEvidenceHash C (LIT_CHAIN C),
     c_nextHistory = (\<lambda>previous identity _ spentRoot position. lit_nextHistoryHash C previous identity spentRoot position),
     c_nextEvidence = (\<lambda>previous digests position. nextEvidenceHash C (LIT_CHAIN C) previous [e_statementHash digests, e_signatureHash digests] position),
     c_settledDemand = lit_settledDemand C,
     c_scanOutput = litScanOutput C\<rparr>"

subsection \<open>What a reader reads\<close>

record lit_answer =
  lan_domain :: bytes
  lan_backing :: bytes
  lan_acceptance :: "bytes acceptance_view"
  lan_release :: "bytes option"

definition litAcceptance :: "crypto \<Rightarrow> lit_signed_acceptance \<Rightarrow> bytes acceptance_view result" where
  "litAcceptance C a = bindR (lit_acceptanceBytes C a) (\<lambda>message. bindR (lit_acceptanceId C a) (\<lambda>aid.
     Inr \<lparr>av_demand = la_demand a, av_deadline = la_deadline a, av_owner = la_owner a, av_id = aid,
       av_signed = (\<lambda>obligor. verifySignatureStrict C (la_signature a) message obligor \<and>
         verifySignatureStrict C (la_ownerSignature a) message (la_owner a))\<rparr>))"

definition lit_answer_of :: "crypto \<Rightarrow> bytes \<Rightarrow> lit_answer option result" where
  "lit_answer_of C bs = bindR (lit_decodePublication C bs) (\<lambda>p. case p of
     LitAccepted domain backing a \<Rightarrow> mapR (\<lambda>v. Some \<lparr>lan_domain = domain, lan_backing = backing, lan_acceptance = v, lan_release = None\<rparr>) (litAcceptance C a)
   | LitPublished domain backing kind rec \<Rightarrow>
       if kind \<noteq> 3 \<or> lt_kind (lr_statement rec) \<noteq> 6 then Inr None
       else bindR (lit_settlementAuthorization C rec) (\<lambda>auth. bindR (litAcceptance C (lsa_acceptance auth)) (\<lambda>v.
         Inr (Some \<lparr>lan_domain = domain, lan_backing = backing, lan_acceptance = v, lan_release = Some (lt_segment (lr_statement rec))\<rparr>))))"

record lit_publication_view =
  lpv_domain :: bytes
  lpv_backing :: bytes
  lpv_kind :: int
  lpv_record :: "bytes option"

definition lit_publication_of :: "crypto \<Rightarrow> bytes \<Rightarrow> lit_publication_view result" where
  "lit_publication_of C bs = bindR (lit_decodePublication C bs) (\<lambda>p. case p of
     LitAccepted domain backing _ \<Rightarrow> Inr \<lparr>lpv_domain = domain, lpv_backing = backing, lpv_kind = 2, lpv_record = None\<rparr>
   | LitPublished domain backing kind rec \<Rightarrow> mapR (\<lambda>rb. \<lparr>lpv_domain = domain, lpv_backing = backing, lpv_kind = kind, lpv_record = Some rb\<rparr>)
       (lit_encodeRecord C rec))"

definition lit_digests :: "crypto \<Rightarrow> bytes \<Rightarrow> evidence_digests result" where
  "lit_digests C bs = mapR (\<lambda>(st, au). let p = lit_hashEvidenceFields C st au in
     \<lparr>e_statementHash = ep_statementHash p, e_proofHash = [], e_signatureHash = ep_signatureHash p\<rparr>) (splitRecord bs)"

record lit_request_view =
  lrq_identity :: string
  lrq_tag :: int
  lrq_input :: int
  lrq_holds :: bool

definition lit_request_of :: "crypto \<Rightarrow> bytes \<Rightarrow> lit_request_view result" where
  "lit_request_of C bs = bindR (lit_decodeRecord C bs) (\<lambda>r. let s = lr_statement r in
     if lt_kind s \<noteq> 7 then Inl (EncodingError ''not a request'')
     else bindR (noteCommitment C (lt_domain s) (lt_input s)) (\<lambda>cm. bindR (lit_statementHash C s) (\<lambda>h. bindR (noteNullifier C cm) (\<lambda>nf.
       bindR (noteTag C nf) (\<lambda>tg. Inr \<lparr>lrq_identity = hex h, lrq_tag = be_int tg, lrq_input = be_int cm, lrq_holds = ownerSignaturesVerify C r\<rparr>)))))"

text \<open>The intrinsic observations of a fault-evidence target, K from the authenticated signed terms.\<close>

datatype lit_observation =
    ArithmeticObservation
  | SignatureObservation (ob_role: string) (ob_signer: string) (ob_backing: string)

definition lit_observe :: "crypto \<Rightarrow> fault_evidence \<Rightarrow> bytes \<Rightarrow> (string \<Rightarrow> bytes option) \<Rightarrow> lit_observation list result" where
  "lit_observe C value domain obligorOf =
     (if compareBytes domain litConfigHash \<noteq> 0 then Inr []
      else mapR (map (\<lambda>f. case f of ArithmeticFailure \<Rightarrow> ArithmeticObservation
         | SignatureFailure role signer backing \<Rightarrow> SignatureObservation role (hex signer) (hex backing)))
       (intrinsicFailures C (fe_fields value ! 0) (fe_fields value ! 1) (\<lambda>backing. obligorOf (hex backing))))"

subsection \<open>What the view says\<close>

lemma traverse_bind:
  "traverseR f xs = Inr ys \<Longrightarrow> traverseR g ys = Inr zs \<Longrightarrow> traverseR (\<lambda>x. bindR (f x) g) xs = Inr zs"
  by (induction xs arbitrary: ys zs) (auto simp: bindR_Inr_conv)

lemma names_total:
  assumes "sha_width C" and "length d = 32" and "list_all (opening_ok C) ins"
  shows "\<exists>cms nfs tags. traverseR (noteCommitment C d) ins = Inr cms \<and> traverseR (noteNullifier C) cms = Inr nfs \<and>
    traverseR (noteTag C) nfs = Inr tags \<and> length nfs = length ins \<and> length tags = length ins \<and> list_all (\<lambda>n. length n = 32) nfs"
  using assms(3)
proof (induction ins)
  case (Cons i ins)
  then obtain cms nfs tags where IH: "traverseR (noteCommitment C d) ins = Inr cms" "traverseR (noteNullifier C) cms = Inr nfs"
    "traverseR (noteTag C) nfs = Inr tags" "length nfs = length ins" "length tags = length ins" "list_all (\<lambda>n. length n = 32) nfs" by auto
  let ?cm = "sha256 C (note_frame d i)" and ?nf = "sha256 C (LIT_NULLIFIER_CONTEXT @ sha256 C (note_frame d i))"
  have w: "length (sha256 C m) = 32" for m using assms(1) by (simp add: sha_width_def)
  have "noteCommitment C d i = Inr ?cm" using Cons.prems assms(2) by (simp add: noteCommitment_conv)
  moreover have "noteNullifier C ?cm = Inr ?nf" by (simp add: noteNullifier_conv w)
  moreover have "noteTag C ?nf = Inr (sha256 C (LIT_TAG_CONTEXT @ ?nf))" by (simp add: noteTag_conv w)
  ultimately show ?case using IH w by simp
qed simp

text \<open>The statement check stands where pool v3 has the proof.\<close>

lemma view_check:
  assumes "litView C r look = Inr v" and "lt_kind (lr_statement r) \<in> {2, 3, 4}"
  shows "v_check v = lit_owned C r"
  using assms by (cases "lr_statement r") (auto simp: litView_def Let_def lt_kind_def bindR_Inr_conv)

lemma view_issuer: "litView C r look = Inr v \<Longrightarrow> lt_kind (lr_statement r) = 1 \<Longrightarrow>
    v_issuerSigned v key = Inr (statementSignatureVerifies C r key)"
  by (cases "lr_statement r") (auto simp: litView_def Let_def lt_kind_def bindR_Inr_conv lit_base_def)

lemma lit_owned_ok: "lit_owned C r verifier = Inr () \<longleftrightarrow> arithmeticHolds C (lr_statement r) \<and> ownerSignaturesVerify C r"
  by (auto simp: lit_owned_def bindR_Inr_conv requireReplay_def)

lemma lit_decoded: "lit_decodeRecord C bs = Inr r \<Longrightarrow> lit_record_ok C r \<and> bs = lit_record_enc r"
  by (simp add: lit_decodeRecord_conv lit_encodeRecord_conv)

text \<open>What the view of a demand keeps.\<close>

definition kept_demand :: "lit_statement \<Rightarrow> bytes list \<Rightarrow> bytes list \<Rightarrow> demand" where
  "kept_demand s nfs tags = \<lparr>dm_backing = lo_backing (lt_inputs s ! 0), dm_quantity = foldl (\<lambda>sum input. sum + lo_value input) 0 (lt_inputs s),
     dm_tags = [be_int (tags ! 0), (case at_index tags 1 of None \<Rightarrow> 0 | Some t \<Rightarrow> be_int t)], dm_presenter = lt_presenter s,
     dm_instant = lt_instant s, dm_deadline = lt_deadline s, dm_nullifiers = Some (map be_int nfs)\<rparr>"

lemma demand_view:
  assumes "sha_width C" and "lit_record_ok C r" and "lt_kind (lr_statement r) = 4" and "litView C r look = Inr v"
  obtains nfs tags where "inputNullifiers C (lr_statement r) = Inr nfs" and "length tags = length nfs" and "list_all (\<lambda>n. length n = 32) nfs"
    and "length nfs = length (lt_inputs (lr_statement r))" and "v_demand v = Some (hex (v_identity v), kept_demand (lr_statement r) nfs tags)"
    and "lit_statementHash C (lr_statement r) = Inr (v_identity v)"
proof -
  obtain d g ins p i l where s: "lr_statement r = LitDemand d g ins p i l" using assms(3) by (cases "lr_statement r") (auto simp: lt_kind_def)
  have ok: "lit_ok C (lr_statement r)" using assms(2) by (simp add: lit_record_ok_def)
  then have d: "length d = 32" "list_all (opening_ok C) ins" by (simp_all add: s lit_ok_def inputs_ok_def)
  obtain cms nfs tags where n: "traverseR (noteCommitment C d) ins = Inr cms" "traverseR (noteNullifier C) cms = Inr nfs"
    "traverseR (noteTag C) nfs = Inr tags" "length nfs = length ins" "length tags = length ins" "list_all (\<lambda>n. length n = 32) nfs"
    using names_total [OF assms(1) d] by blast
  have "input_nullifier C d = (\<lambda>x. bindR (noteCommitment C d x) (noteNullifier C))" by (simp add: input_nullifier_def fun_eq_iff)
  then have "inputNullifiers C (lr_statement r) = Inr nfs"
    using traverse_bind [OF n(1,2)] ok by (simp add: inputNullifiers_def ownStatement_conv [THEN iffD2] s lt_kind_def)
  moreover have "v_demand v = Some (hex (v_identity v), kept_demand (lr_statement r) nfs tags)" "lit_statementHash C (lr_statement r) = Inr (v_identity v)"
    using assms(4) by (auto simp: litView_def Let_def s lt_kind_def bindR_Inr_conv input_names_def n lit_base_def kept_demand_def)
  ultimately show thesis using that [of nfs tags] n by (simp add: s)
qed

lemma demand_view_total:
  assumes "sha_width C" and "lit_record_ok C r" and "lt_kind (lr_statement r) = 4"
  shows "\<exists>v. litView C r look = Inr v"
proof -
  obtain d g ins p i l where s: "lr_statement r = LitDemand d g ins p i l" using assms(3) by (cases "lr_statement r") (auto simp: lt_kind_def)
  have ok: "lit_ok C (lr_statement r)" using assms(2) by (simp add: lit_record_ok_def)
  then have d: "length d = 32" "list_all (opening_ok C) ins" by (simp_all add: s lit_ok_def inputs_ok_def)
  obtain h q where h: "lit_statementHash C (lr_statement r) = Inr h" "evidencePair C r = Inr q"
    using ok assms(2) by (auto simp: lit_statementHash_def mapR_def lit_statementBytes_conv [THEN iffD2] evidencePair_def ownRecord_conv [THEN iffD2])
  show ?thesis using names_total [OF assms(1) d] h by (auto simp: litView_def Let_def s lt_kind_def input_names_def)
qed

lemma foldl_values: "foldl (\<lambda>sum input. sum + lo_value input) n ins = n + total_of ins"
  by (induction ins arbitrary: n) (simp_all add: total_of_def)

lemma demand_claim:
  assumes "lit_ok C s" and "lt_kind s = 4" and "arithmeticHolds C s"
  shows "demandClaim C s = Inr \<lparr>dc_backing = lo_backing (lt_inputs s ! 0), dc_quantity = total_of (lt_inputs s)\<rparr>"
    and "0 < total_of (lt_inputs s)" and "total_of (lt_inputs s) < 2 ^ 64" and "length (lo_backing (lt_inputs s ! 0)) = 32"
    and "lt_inputs s \<noteq> []" and "length (lt_inputs s) \<le> LIT_MAX_INPUTS"
proof -
  obtain d g ins p i l where s: "s = LitDemand d g ins p i l" using assms(2) by (cases s) (auto simp: lt_kind_def)
  have ok: "inputs_ok C ins" using assms(1) by (simp add: s lit_ok_def)
  obtain b where b: "list_all (\<lambda>i. lo_backing i = b) ins" and t: "total_of ins < 2 ^ 64"
    using assms(3) arithmetic_exact [OF assms(1)] by (auto simp: s conserves_def)
  have ne: "ins \<noteq> []" using ok by (auto simp: inputs_ok_def)
  then have b0: "lo_backing (ins ! 0) = b" using b by (cases ins) simp_all
  have "\<not> list_ex (\<lambda>input. compareBytes (lo_backing input) (lo_backing (ins ! 0)) \<noteq> 0) ins"
    using b b0 by (auto simp: list_ex_iff list_all_iff)
  then show "demandClaim C s = Inr \<lparr>dc_backing = lo_backing (lt_inputs s ! 0), dc_quantity = total_of (lt_inputs s)\<rparr>"
    using t assms(1) ownStatement_conv [of C s s] by (simp add: demandClaim_def s lt_kind_def Let_def foldl_values)
  have all: "0 < lo_value i" "0 \<le> lo_value i" if "i \<in> set ins" for i using ok that by (auto simp: inputs_ok_def list_all_iff opening_ok_def output_ok_def)
  obtain i0 rest where i0: "ins = i0 # rest" using ne by (cases ins) auto
  have "0 \<le> total_of rest" using all unfolding total_of_def i0 by (intro sum_list_nonneg) auto
  then show "0 < total_of (lt_inputs s)" using all [of i0] by (simp add: s i0 total_of_def)
  show "total_of (lt_inputs s) < 2 ^ 64" "lt_inputs s \<noteq> []" "length (lt_inputs s) \<le> LIT_MAX_INPUTS"
    using t ne ok by (simp_all add: s inputs_ok_def)
  show "length (lo_backing (lt_inputs s ! 0)) = 32" using ok by (simp add: s i0 inputs_ok_def opening_ok_def output_ok_def)
qed

text \<open>A settlement over the kept demand and over the demand's statement create one output.\<close>

lemma settlement_outputs:
  assumes "sha_width C" and ok: "lit_ok C s" and k: "lt_kind s = 6"
    and c: "length b = 32" "0 < q" "q < 2 ^ 64" "nfs \<noteq> []" "length nfs \<le> LIT_MAX_INPUTS" "list_all (\<lambda>n. length n = 32) nfs"
  shows "\<exists>op cm. createdOutputs C s (Some \<lparr>dc_backing = b, dc_quantity = q, dc_nullifiers = nfs\<rparr>) = Inr [op] \<and> lo_value op = q \<and>
    lo_backing op = b \<and> lo_owner op = lt_owner s \<and> noteCommitment C (lt_domain s) op = Inr cm"
proof -
  obtain d g m w where s: "s = LitSettle d g m w" using k by (cases s) (auto simp: lt_kind_def)
  obtain rho where rho: "spendRho C nfs 0 = Inr rho" "length rho = 32"
    using c assms(1) by (auto simp: spendRho_conv LIT_MAX_OUTPUTS_def sha_width_def)
  let ?op = "\<lparr>lo_backing = b, lo_value = q, lo_owner = w, lo_rho = rho\<rparr>"
  have "opening_ok C ?op" using ok c rho by (simp add: s lit_ok_def key_ok_def opening_ok_def output_ok_def)
  moreover have "length d = 32" using ok by (simp add: s lit_ok_def)
  ultimately have "noteCommitment C d ?op = Inr (sha256 C (note_frame d ?op))" by (simp add: noteCommitment_conv)
  moreover have "createdOutputs C s (Some \<lparr>dc_backing = b, dc_quantity = q, dc_nullifiers = nfs\<rparr>) = Inr [?op]"
    using ok rho(1) ownStatement_conv [of C s s] by (simp add: createdOutputs_def s)
  ultimately show ?thesis by (auto simp: s)
qed

lemma keys_of_bytes: "list_all (\<lambda>n. length n = 32) nfs \<Longrightarrow> map bytesOf (map be_int nfs) = nfs"
proof (induction nfs)
  case (Cons n nfs)
  then show ?case using be_bytes_be_int [of n] by (simp add: bytesOf_def)
qed simp

lemma settlement_agrees:
  assumes w: "sha_width C"
    and dr: "lit_record_ok C dr" "lt_kind (lr_statement dr) = 4" "litView C dr look = Inr v" "v_check v verifier = Inr ()"
    and sr: "lit_record_ok C sr" "lt_kind (lr_statement sr) = 6" "lt_domain (lr_statement sr) = lt_domain (lr_statement dr)"
      "lt_demand (lr_statement sr) = v_identity v"
    and kept: "\<And>n d. v_demand v = Some (n, d) \<Longrightarrow> look' n = Inr (Some d)"
  shows "\<exists>u op cm nfs. litView C sr look' = Inr u \<and> inputNullifiers C (lr_statement dr) = Inr nfs \<and>
    derivedOutputs C (lr_statement sr) (Some (lr_statement dr)) = Inr [op] \<and> noteCommitment C (lt_domain (lr_statement sr)) op = Inr cm \<and>
    v_outputs u = [be_int cm] \<and> v_nfs u = map be_int nfs \<and> length (v_tags u) = length (v_nfs u) \<and>
    v_ended u = map_option fst (v_demand v) \<and> v_quantity u = Some (lo_value op) \<and>
    lo_value op = total_of (lt_inputs (lr_statement dr)) \<and> lo_owner op = lt_owner (lr_statement sr)"
proof -
  let ?d = "lr_statement dr" and ?s = "lr_statement sr"
  obtain nfs tags where n: "inputNullifiers C ?d = Inr nfs" "length tags = length nfs" "list_all (\<lambda>n. length n = 32) nfs"
    "length nfs = length (lt_inputs ?d)" "v_demand v = Some (hex (v_identity v), kept_demand ?d nfs tags)" "lit_statementHash C ?d = Inr (v_identity v)"
    by (rule demand_view [OF w dr(1-3)])
  have dok: "lit_ok C ?d" and sok: "lit_ok C ?s" using dr(1) sr(1) by (simp_all add: lit_record_ok_def)
  have "arithmeticHolds C ?d" using dr(4) view_check [OF dr(3)] dr(2) by (simp add: lit_owned_ok)
  note cl = demand_claim [OF dok dr(2) this]
  have nn: "nfs \<noteq> []" "length nfs \<le> LIT_MAX_INPUTS" using n(4) cl(5,6) by auto
  let ?c = "\<lparr>dc_backing = lo_backing (lt_inputs ?d ! 0), dc_quantity = total_of (lt_inputs ?d), dc_nullifiers = nfs\<rparr>"
  obtain op cm where o: "createdOutputs C ?s (Some ?c) = Inr [op]" "lo_value op = total_of (lt_inputs ?d)" "lo_owner op = lt_owner ?s"
    "noteCommitment C (lt_domain ?s) op = Inr cm"
    using settlement_outputs [OF w sok sr(2) cl(4,2,3) nn n(3)] by blast
  have own: "ownStatement C ?s = Inr ?s" "ownStatement C ?d = Inr ?d" using sok dok by (simp_all add: ownStatement_conv)
  have der: "derivedOutputs C ?s (Some ?d) = Inr [op]"
    using o(1) cl(1) n(1,6) sr(2-4) dr(2) by (simp add: derivedOutputs_def own)
  obtain d g m q where s: "?s = LitSettle d g m q" using sr(2) by (cases ?s) (auto simp: lt_kind_def)
  have lk: "look' (hex m) = Inr (Some (kept_demand ?d nfs tags))" using kept [OF n(5)] sr(4) by (simp add: s)
  have outs: "created_keys C sr (Some (kept_demand ?d nfs tags)) = Inr [be_int cm]"
    using o(1,4) keys_of_bytes [OF n(3)] sr(2)
    by (simp add: created_keys_def litOutputs_def kept_demand_def foldl_values Let_def)
  obtain h pr where h: "lit_statementHash C ?s = Inr h" "evidencePair C sr = Inr pr"
    using sok sr(1) by (auto simp: lit_statementHash_def mapR_def lit_statementBytes_conv [THEN iffD2] evidencePair_def ownRecord_conv [THEN iffD2])
  have tl: "length (take (length (map be_int nfs)) (dm_tags (kept_demand ?d nfs tags))) = length nfs"
    using nn(2) by (simp add: kept_demand_def LIT_MAX_INPUTS_def)
  let ?e = "lit_base C sr h pr\<lparr>v_ended := Some (hex m), v_needsDemand := True, v_settlement := lit_settlement C sr\<rparr>"
  have "litView C sr look' = Inr (?e\<lparr>v_quantity := Some (total_of (lt_inputs ?d)), v_nfs := map be_int nfs,
      v_tags := take (length (map be_int nfs)) (dm_tags (kept_demand ?d nfs tags)), v_outputs := [be_int cm]\<rparr>)"
    using h lk outs sr(2) by (simp add: litView_def Let_def s) (simp add: kept_demand_def foldl_values)
  then show ?thesis using der o n(1,5) tl sr(4) by (auto simp: s)
qed

subsection \<open>Properties\<close>

text \<open>C18: excluding a target and judging it agree. For a lit record under the configuration's domain, with the view the state machine judges
  it by: a spend, burn or demand has an intrinsic failure exactly where the statement check of its view refuses it; an issue exactly
  where the obligor's key is known, valid and not the key its view accepts; a withdrawal or settlement never.\<close>

theorem lit_exclusion_agrees:
  assumes "lit_decodeRecord C bs = Inr r" and "splitRecord bs = Inr (st, au)" and "lt_domain (lr_statement r) = litConfigHash"
    and "c_view (LIT C) r look = Inr v"
  shows "(lt_kind (lr_statement r) \<in> {2, 3, 4} \<longrightarrow> intrinsicallyInvalid C st au issuer = Inr (v_check v verifier \<noteq> Inr ())) \<and>
    (lt_kind (lr_statement r) = 1 \<longrightarrow> intrinsicallyInvalid C st au issuer =
      Inr (\<exists>key. issuer (lt_backing (lr_statement r)) = Some key \<and> isValidPublicKey C key \<and> v_issuerSigned v key = Inr False)) \<and>
    (lt_kind (lr_statement r) \<in> {5, 6} \<longrightarrow> intrinsicallyInvalid C st au issuer = Inr False)"
proof -
  have ok: "lit_record_ok C r" and bs: "bs = lit_record_enc r" using lit_decoded [OF assms(1)] by auto
  have f: "st = lit_enc (lr_statement r)" "au = lr_authorization r" using assms(2) record_splits [OF ok] by (simp_all add: bs)
  have v: "litView C r look = Inr v" using assms(4) by (simp add: LIT_def)
  show ?thesis
    using exclusion_exact [OF ok assms(3), of issuer] view_check [OF v] view_issuer [OF v] lit_owned_ok [of C r verifier] by (auto simp: f)
qed

definition example_owner :: bytes where "example_owner = replicate 32 2"

definition example_lit_demand :: lit_statement where
  "example_lit_demand = LitDemand litConfigHash (replicate 32 0) [\<lparr>lo_backing = replicate 32 1, lo_value = 5, lo_owner = example_owner, lo_rho = replicate 32 3\<rparr>]
     (replicate 32 4) 7 9"

definition example_lit_record :: lit_record where
  "example_lit_record = \<lparr>lr_statement = example_lit_demand, lr_authorization = toy_sha (lit_enc example_lit_demand) @ example_owner\<rparr>"

definition example_lit_settlement :: lit_record where
  "example_lit_settlement = \<lparr>lr_statement = LitSettle litConfigHash (replicate 32 0) (toy_sha (lit_enc example_lit_demand)) example_owner,
     lr_authorization = replicate 200 0\<rparr>"

lemma example_lit_ok: "lit_record_ok toy_crypto example_lit_record" "lit_record_ok toy_crypto example_lit_settlement"
  by (simp_all add: lit_record_ok_def example_lit_record_def example_lit_settlement_def lit_ok_def example_lit_demand_def inputs_ok_def
      LIT_MAX_INPUTS_def opening_ok_def output_ok_def key_ok_def example_owner_def isValidPublicKey_def KEY_LENGTH_def toy_crypto_def litConfigHash_def
      authorizationLength_def lt_kind_def SETTLEMENT_AUTHORIZATION_BYTES_def)

lemma example_lit_kinds: "lt_kind (lr_statement example_lit_record) = 4" "lt_kind (lr_statement example_lit_settlement) = 6"
  "lt_domain (lr_statement example_lit_record) = litConfigHash" "lt_domain (lr_statement example_lit_settlement) = litConfigHash"
  by (simp_all add: lt_kind_def example_lit_record_def example_lit_settlement_def example_lit_demand_def)

lemma example_lit_viewed: "\<exists>v. litView toy_crypto example_lit_record look = Inr v \<and> v_check v verifier = Inr () \<and>
    lt_demand (lr_statement example_lit_settlement) = v_identity v"
proof -
  have ok: "lit_ok toy_crypto example_lit_demand" using example_lit_ok(1) by (simp add: lit_record_ok_def example_lit_record_def)
  obtain v where v: "litView toy_crypto example_lit_record look = Inr v"
    using demand_view_total [OF toy_crypto_sha_width example_lit_ok(1) example_lit_kinds(1)] by blast
  have "lit_statementHash toy_crypto example_lit_demand = Inr (toy_sha (lit_enc example_lit_demand))"
    using ok by (simp add: lit_statementHash_def mapR_def lit_statementBytes_conv [THEN iffD2]) (simp add: toy_crypto_def)
  moreover have "lit_statementHash toy_crypto (lr_statement example_lit_record) = Inr (v_identity v)"
    by (rule demand_view [OF toy_crypto_sha_width example_lit_ok(1) example_lit_kinds(1) v])
  ultimately have hid: "v_identity v = toy_sha (lit_enc example_lit_demand)" by (simp add: example_lit_record_def)
  have "conserves example_lit_demand" by (simp add: conserves_def example_lit_demand_def total_of_def)
  then have a: "arithmeticHolds toy_crypto example_lit_demand" by (simp add: arithmetic_exact [OF ok])
  have "verifySignatureStrict toy_crypto (toy_sha m @ example_owner) m example_owner" for m
    by (simp add: verifySignatureStrict_def toy_crypto_def SIGNATURE_LENGTH_def KEY_LENGTH_def example_owner_def)
  moreover have "lr_statement example_lit_record = example_lit_demand" "lt_kind example_lit_demand = 4" "map lo_owner (lt_inputs example_lit_demand) = [example_owner]"
    "subarray64 0 (lr_authorization example_lit_record) = toy_sha (lit_enc example_lit_demand) @ example_owner"
    by (simp_all add: example_lit_record_def example_lit_demand_def lt_kind_def subarray64_def example_owner_def)
  moreover have "ownRecord toy_crypto example_lit_record = Inr example_lit_record" "lit_statementBytes toy_crypto example_lit_demand = Inr (lit_enc example_lit_demand)"
    using example_lit_ok(1) ok by (simp_all add: ownRecord_conv lit_statementBytes_conv)
  ultimately have s: "ownerSignaturesVerify toy_crypto example_lit_record" by (simp add: ownerSignaturesVerify_def Let_def)
  have "v_check v = lit_owned toy_crypto example_lit_record" using view_check [OF v] example_lit_kinds(1) by simp
  then show ?thesis using v hid a s lit_owned_ok [of toy_crypto example_lit_record verifier]
    by (auto simp: example_lit_record_def example_lit_settlement_def)
qed

lemma lit_exclusion_agrees_witness:
  "\<exists>bs st au. lit_decodeRecord toy_crypto bs = Inr example_lit_record \<and> splitRecord bs = Inr (st, au) \<and>
     intrinsicallyInvalid toy_crypto st au (\<lambda>_. None) = Inr False"
proof -
  let ?bs = "lit_record_enc example_lit_record"
  have d: "lit_decodeRecord toy_crypto ?bs = Inr example_lit_record"
    using example_lit_ok(1) by (simp add: lit_decodeRecord_conv lit_encodeRecord_conv)
  obtain v where v: "litView toy_crypto example_lit_record (\<lambda>_. Inr None) = Inr v" "v_check v (\<lambda>_ _ _. Inr True) = Inr ()"
    using example_lit_viewed by blast
  from lit_exclusion_agrees [OF d record_splits [OF example_lit_ok(1)] example_lit_kinds(3), of "\<lambda>_. Inr None" v "\<lambda>_. None" "\<lambda>_ _ _. Inr True"] v
  show ?thesis using example_lit_kinds(1) d record_splits [OF example_lit_ok(1)] by (auto simp: LIT_def)
qed

text \<open>C17: a settlement takes over exactly the notes its demand named. Where a demand passed the check of its view and stands with what that
  view kept, the view of a settlement naming it consumes the nullifiers of the demand's own inputs, and creates the one output that
  deriving it from the demand's statement gives, to the settlement's owner and worth exactly the demand's notes.\<close>

theorem lit_settlement_agrees:
  assumes "sha_width C" and "lit_decodeRecord C bs = Inr dr" and "lt_kind (lr_statement dr) = 4" and "c_view (LIT C) dr look = Inr v"
    and "v_check v verifier = Inr ()" and "lit_decodeRecord C bs' = Inr sr" and "lt_kind (lr_statement sr) = 6"
    and "lt_domain (lr_statement sr) = lt_domain (lr_statement dr)" and "lt_demand (lr_statement sr) = v_identity v"
    and "\<forall>n d. v_demand v = Some (n, d) \<longrightarrow> look' n = Inr (Some d)"
  shows "\<exists>u op cm nfs. c_view (LIT C) sr look' = Inr u \<and> inputNullifiers C (lr_statement dr) = Inr nfs \<and>
    derivedOutputs C (lr_statement sr) (Some (lr_statement dr)) = Inr [op] \<and> noteCommitment C (lt_domain (lr_statement sr)) op = Inr cm \<and>
    v_outputs u = [be_int cm] \<and> v_nfs u = map be_int nfs \<and> length (v_tags u) = length (v_nfs u) \<and>
    v_ended u = map_option fst (v_demand v) \<and> v_quantity u = Some (lo_value op) \<and>
    lo_value op = total_of (lt_inputs (lr_statement dr)) \<and> lo_owner op = lt_owner (lr_statement sr)"
proof -
  have "lit_record_ok C dr" "lit_record_ok C sr" using lit_decoded assms(2,6) by blast+
  moreover have "c_view (LIT C) = litView C" by (simp add: LIT_def)
  ultimately show ?thesis using settlement_agrees [OF assms(1) _ assms(3) _ assms(5) _ assms(7-9)] assms(4,10) by (simp add: LIT_def)
qed

lemma lit_settlement_agrees_witness:
  "\<exists>u look. c_view (LIT toy_crypto) example_lit_settlement look = Inr u \<and> v_quantity u = Some 5"
proof -
  obtain v where v: "litView toy_crypto example_lit_record (\<lambda>_. Inr None) = Inr v" "v_check v (\<lambda>_ _ _. Inr True) = Inr ()"
    "lt_demand (lr_statement example_lit_settlement) = v_identity v" using example_lit_viewed by blast
  have d: "lit_decodeRecord toy_crypto (lit_record_enc example_lit_record) = Inr example_lit_record"
    "lit_decodeRecord toy_crypto (lit_record_enc example_lit_settlement) = Inr example_lit_settlement"
    using example_lit_ok by (simp_all add: lit_decodeRecord_conv lit_encodeRecord_conv)
  have cv: "c_view (LIT toy_crypto) example_lit_record (\<lambda>_. Inr None) = Inr v" using v(1) by (simp add: LIT_def)
  have dom: "lt_domain (lr_statement example_lit_settlement) = lt_domain (lr_statement example_lit_record)" by (simp only: example_lit_kinds)
  obtain look :: "string \<Rightarrow> demand option result" where kept: "\<forall>n d. v_demand v = Some (n, d) \<longrightarrow> look n = Inr (Some d)"
    by (rule that [of "\<lambda>_. Inr (map_option snd (v_demand v))"]) simp
  from lit_settlement_agrees [where look' = look, OF toy_crypto_sha_width d(1) example_lit_kinds(1) cv v(2) d(2) example_lit_kinds(2) dom v(3) kept]
  obtain u and op :: lit_opening where "c_view (LIT toy_crypto) example_lit_settlement look = Inr u"
    "v_quantity u = Some (lo_value op)" "lo_value op = total_of (lt_inputs (lr_statement example_lit_record))" by blast
  moreover have "total_of (lt_inputs (lr_statement example_lit_record)) = 5"
    by (simp add: example_lit_record_def example_lit_demand_def total_of_def)
  ultimately show ?thesis by auto
qed

end
