(* ===== verification/Headers.thy ===== *)
theory Headers
  imports EvidenceChain
begin

section \<open>Segment headers (src/pool/v3/headers.ts)\<close>

text \<open>
  The header that opens a segment, for both constructions: one layout under a construction's
  context.  The encoder fills a buffer of the exact size through a moving offset, leaving the
  zeros of an entry without an opening as allocated; the decoder bounds the length before it
  reads, and accepts only a well-formed header.  The fill is shown to be the concatenation of
  the fields, and the decoder to accept exactly the encodings.
\<close>

subsection \<open>Headers\<close>

record opening_checkpoint =
  oc_operator :: bytes
  oc_sequence :: int
  oc_root :: bytes

record segment_entry =
  sg_backing :: bytes
  sg_link :: bytes
  sg_opening :: "opening_checkpoint option"

record segment_header =
  hd_domain :: bytes
  hd_venue :: bytes
  hd_operator :: bytes
  hd_sequence :: int
  hd_entries :: "segment_entry list"

definition ENTRY_BYTES :: nat where
  "ENTRY_BYTES = 136"

definition MAX_ENTRIES :: nat where
  "MAX_ENTRIES = 65536"

definition prefixBytes :: "bytes \<Rightarrow> nat" where
  "prefixBytes context = length context + 108"

definition bytes32 :: "bytes \<Rightarrow> bool" where
  "bytes32 v \<longleftrightarrow> length v = 32"

definition positiveU64 :: "int \<Rightarrow> bool" where
  "positiveU64 v \<longleftrightarrow> v > 0 \<and> v \<le> 0xffffffffffffffff"

definition entry_well_formed :: "segment_header \<Rightarrow> nat \<Rightarrow> bool" where
  "entry_well_formed h i = (let e = hd_entries h ! i in
     if \<not> bytes32 (sg_backing e) \<or> \<not> bytes32 (sg_link e) then False
     else if i > 0 \<and> compareBytes (sg_backing (hd_entries h ! (i - 1))) (sg_backing e) \<ge> 0 then False
     else case sg_opening e of None \<Rightarrow> True
     | Some o' \<Rightarrow> if \<not> bytes32 (oc_operator o') \<or> \<not> positiveU64 (oc_sequence o') \<or> \<not> bytes32 (oc_root o') then False
         else \<not> (compareBytes (oc_operator o') (hd_operator h) = 0 \<and> oc_sequence o' \<ge> hd_sequence h))"

definition isWellFormedHeader :: "segment_header \<Rightarrow> bool" where
  "isWellFormedHeader h =
     (if \<not> bytes32 (hd_domain h) \<or> \<not> bytes32 (hd_venue h) \<or> \<not> bytes32 (hd_operator h) \<or> \<not> positiveU64 (hd_sequence h) then False
      else if length (hd_entries h) < 1 \<or> length (hd_entries h) > MAX_ENTRIES then False
      else list_all (entry_well_formed h) [0..<length (hd_entries h)])"

definition ownHeader :: "segment_header \<Rightarrow> segment_header result" where
  "ownHeader h = mapR (\<lambda>es. h\<lparr>hd_entries := es\<rparr>) (copyArray (hd_entries h) Inr (int MAX_ENTRIES))"

subsection \<open>The encoder\<close>

text \<open>The output buffer and the offset of the next write; a write past the end throws.\<close>

type_synonym buffer = "bytes \<times> nat"

definition put :: "bytes \<Rightarrow> buffer \<Rightarrow> buffer result" where
  "put b = (\<lambda>(out, offset). if offset + length b > length out then Inl (RangeError ''offset is out of bounds'')
     else Inr (take offset out @ b @ drop (offset + length b) out, offset + length b))"

definition put_u64 :: "int \<Rightarrow> buffer \<Rightarrow> buffer result" where
  "put_u64 n = put (be_bytes 8 n)"

definition put_u32 :: "int \<Rightarrow> buffer \<Rightarrow> buffer result" where
  "put_u32 n = put (be_bytes 4 n)"

definition put_entry :: "buffer \<Rightarrow> segment_entry \<Rightarrow> buffer result" where
  "put_entry b e = bindR (put (sg_backing e) b) (\<lambda>b1. bindR (put (sg_link e) b1) (\<lambda>(out, offset).
     case sg_opening e of None \<Rightarrow> Inr (out, offset + 72)
     | Some o' \<Rightarrow> bindR (put_u64 (oc_sequence o') (out, offset)) (\<lambda>b3. bindR (put (oc_operator o') b3) (put (oc_root o')))))"

definition encodeHeader :: "bytes \<Rightarrow> nat \<Rightarrow> segment_header \<Rightarrow> bytes result" where
  "encodeHeader context prefix_size h =
     bindR (ownHeader h) (\<lambda>header.
     if \<not> isWellFormedHeader header then Inl (EncodingError ''malformed segment header'')
     else let size = prefix_size + ENTRY_BYTES * length (hd_entries header) in
       bindR (put context (replicate size 0, 0)) (\<lambda>b1. bindR (put (hd_domain header) b1) (\<lambda>b2.
       bindR (put (hd_venue header) b2) (\<lambda>b3. bindR (put (hd_operator header) b3) (\<lambda>b4.
       bindR (put_u64 (hd_sequence header) b4) (\<lambda>b5. bindR (put_u32 (int (length (hd_entries header))) b5) (\<lambda>b6.
       bindR (foldR put_entry b6 (hd_entries header)) (\<lambda>(out, _). Inr out))))))))"

subsection \<open>The decoder\<close>

definition refused :: "string \<Rightarrow> 'a read" where
  "refused what = liftP (Inl (EncodingError what))"

definition read_entry :: "segment_entry read" where
  "read_entry = bindP (r_raw 32) (\<lambda>backing. bindP (r_raw 32) (\<lambda>link. bindP r_u64 (\<lambda>openingSequence.
     bindP (r_raw 32) (\<lambda>openingOperator. bindP (r_raw 32) (\<lambda>openingRoot.
     if openingSequence = 0
     then if list_ex (\<lambda>b. b \<noteq> 0) openingOperator \<or> list_ex (\<lambda>b. b \<noteq> 0) openingRoot then refused ''nonzero empty opening fields''
       else returnP \<lparr>sg_backing = backing, sg_link = link, sg_opening = None\<rparr>
     else returnP \<lparr>sg_backing = backing, sg_link = link, sg_opening = Some \<lparr>oc_operator = openingOperator, oc_sequence = openingSequence,
       oc_root = openingRoot\<rparr>\<rparr>)))))"

definition decodeHeader :: "bytes \<Rightarrow> nat \<Rightarrow> bytes \<Rightarrow> segment_header result" where
  "decodeHeader context prefix_size bs =
     (if length bs < prefix_size + ENTRY_BYTES \<or> length bs > prefix_size + ENTRY_BYTES * MAX_ENTRIES
      then Inl (EncodingError ''segment header byte bound'')
      else decoded_by (bindP (r_raw (int (length context))) (\<lambda>c. if compareBytes c context \<noteq> 0 then refused ''wrong segment context''
        else bindP (r_raw 32) (\<lambda>domain. bindP (r_raw 32) (\<lambda>venue. bindP (r_raw 32) (\<lambda>operator. bindP r_u64 (\<lambda>sequence. bindP r_u32 (\<lambda>count.
          if count < 1 \<or> count > int MAX_ENTRIES \<or> int (length bs) \<noteq> int prefix_size + int ENTRY_BYTES * count
          then refused ''segment count or length mismatch''
          else bindP (repeatP (nat count) read_entry) (\<lambda>entries. bindP r_expectEnd (\<lambda>_.
            let header = \<lparr>hd_domain = domain, hd_venue = venue, hd_operator = operator, hd_sequence = sequence, hd_entries = entries\<rparr> in
            if \<not> isWellFormedHeader header then refused ''malformed segment header'' else returnP header))))))))) bs)"

record header_codec =
  hc_minHeaderBytes :: nat
  hc_maxHeaderBytes :: nat
  hc_segmentBytes :: "segment_header \<Rightarrow> bytes result"
  hc_segmentIdentity :: "segment_header \<Rightarrow> bytes result"
  hc_decodeSegmentHeader :: "bytes \<Rightarrow> segment_header result"

definition segmentHeaderCodec :: "crypto \<Rightarrow> bytes \<Rightarrow> header_codec" where
  "segmentHeaderCodec C context = (let prefix_size = prefixBytes context; encode = encodeHeader context prefix_size in
     \<lparr>hc_minHeaderBytes = prefix_size + ENTRY_BYTES, hc_maxHeaderBytes = prefix_size + ENTRY_BYTES * MAX_ENTRIES,
      hc_segmentBytes = encode, hc_segmentIdentity = (\<lambda>h. mapR (sha256 C) (encode h)),
      hc_decodeSegmentHeader = decodeHeader context prefix_size\<rparr>)"

definition V3_HEADERS :: "crypto \<Rightarrow> header_codec" where
  "V3_HEADERS C = segmentHeaderCodec C V3_SEGMENT_CONTEXT"

definition LIT_HEADERS :: "crypto \<Rightarrow> header_codec" where
  "LIT_HEADERS C = segmentHeaderCodec C LIT_SEGMENT_CONTEXT"

subsection \<open>The fill is a concatenation\<close>

definition filled :: "bytes \<Rightarrow> nat \<Rightarrow> buffer" where
  "filled out k = (out @ replicate k 0, length out)"

lemma put_filled: "length b \<le> k \<Longrightarrow> put b (filled out k) = Inr (filled (out @ b) (k - length b))"
  by (simp add: put_def filled_def)

definition opening_bytes :: "opening_checkpoint option \<Rightarrow> bytes" where
  "opening_bytes o' = (case o' of None \<Rightarrow> replicate 72 0 | Some x \<Rightarrow> be_bytes 8 (oc_sequence x) @ oc_operator x @ oc_root x)"

definition entry_bytes :: "segment_entry \<Rightarrow> bytes" where
  "entry_bytes e = sg_backing e @ sg_link e @ opening_bytes (sg_opening e)"

definition header_enc :: "bytes \<Rightarrow> segment_header \<Rightarrow> bytes" where
  "header_enc context h = context @ hd_domain h @ hd_venue h @ hd_operator h @ be_bytes 8 (hd_sequence h) @
     be_bytes 4 (int (length (hd_entries h))) @ concat (map entry_bytes (hd_entries h))"

definition entry_shape :: "segment_entry \<Rightarrow> bool" where
  "entry_shape e \<longleftrightarrow> length (sg_backing e) = 32 \<and> length (sg_link e) = 32 \<and> (case sg_opening e of None \<Rightarrow> True
     | Some x \<Rightarrow> length (oc_operator x) = 32 \<and> length (oc_root x) = 32 \<and> 0 < oc_sequence x \<and> oc_sequence x < 2 ^ 64)"

lemma length_entry_bytes: "entry_shape e \<Longrightarrow> length (entry_bytes e) = 136"
  by (auto simp: entry_shape_def entry_bytes_def opening_bytes_def split: option.splits)

lemma put_entry_filled: "entry_shape e \<Longrightarrow> 136 \<le> k \<Longrightarrow> put_entry (filled out k) e = Inr (filled (out @ entry_bytes e) (k - 136))"
proof (cases "sg_opening e")
  case None
  assume "entry_shape e" "136 \<le> k"
  moreover have "replicate (k - 64) 0 = replicate 72 0 @ replicate (k - 136) (0 :: byte)" if "136 \<le> k"
    using that by (simp flip: replicate_add)
  ultimately show ?thesis using None
    by (simp add: put_entry_def put_filled entry_shape_def entry_bytes_def opening_bytes_def) (simp add: filled_def)
next
  case (Some x)
  assume "entry_shape e" "136 \<le> k"
  then show ?thesis using Some
    by (simp add: put_entry_def put_filled entry_shape_def entry_bytes_def opening_bytes_def put_u64_def filled_def put_def)
qed

lemma put_entries_filled:
  "list_all entry_shape es \<Longrightarrow> 136 * length es \<le> k \<Longrightarrow>
    foldR put_entry (filled out k) es = Inr (filled (out @ concat (map entry_bytes es)) (k - 136 * length es))"
proof (induction es arbitrary: out k)
  case (Cons e es)
  then show ?case using put_entry_filled [of e k out] by (simp add: algebra_simps)
qed simp

lemma list_all_upt_nth: "list_all P [0..<length xs] \<longleftrightarrow> (\<forall>i < length xs. P i)"
  by (auto simp: list_all_iff)

lemma well_formed_shape:
  assumes "isWellFormedHeader h"
  shows "length (hd_domain h) = 32" and "length (hd_venue h) = 32" and "length (hd_operator h) = 32"
    and "0 < hd_sequence h" and "hd_sequence h < 2 ^ 64" and "1 \<le> length (hd_entries h)" and "length (hd_entries h) \<le> 65536"
    and "list_all entry_shape (hd_entries h)"
proof -
  have i: "entry_well_formed h i" if "i < length (hd_entries h)" for i
    using assms that unfolding isWellFormedHeader_def list_all_upt_nth by (auto split: if_splits)
  have "entry_shape (hd_entries h ! i)" if "i < length (hd_entries h)" for i
    using i [OF that] by (auto simp: entry_well_formed_def entry_shape_def Let_def bytes32_def positiveU64_def split: if_splits option.splits)
  then show "list_all entry_shape (hd_entries h)" by (simp add: list_all_length)
qed (use assms in \<open>auto simp: isWellFormedHeader_def bytes32_def positiveU64_def MAX_ENTRIES_def Suc_le_eq split: if_splits\<close>)

lemma ownHeader_conv: "ownHeader h = Inr x \<longleftrightarrow> length (hd_entries h) \<le> 65536 \<and> x = h"
proof -
  have "traverseR Inr es = Inr es" for es :: "segment_entry list" by (induction es) auto
  then show ?thesis by (auto simp: ownHeader_def mapR_Inr_conv copyArray_def bindR_Inr_conv requireR_Inr MAX_ENTRIES_def)
qed

lemma encodeHeader_conv: "encodeHeader context (prefixBytes context) h = Inr bs \<longleftrightarrow> isWellFormedHeader h \<and> bs = header_enc context h"
proof (cases "isWellFormedHeader h")
  case True
  note w = well_formed_shape [OF True]
  let ?es = "hd_entries h" and ?k = "prefixBytes context + 136 * length (hd_entries h)"
  have own: "ownHeader h = Inr h" using w(7) by (simp add: ownHeader_conv)
  have start: "(replicate ?k 0, 0) = filled [] ?k" by (simp add: filled_def)
  have k: "?k = length context + (108 + 136 * length ?es)" by (simp add: prefixBytes_def)
  have puts: "bindR (put context (filled [] ?k)) (\<lambda>b1. bindR (put (hd_domain h) b1) (\<lambda>b2.
       bindR (put (hd_venue h) b2) (\<lambda>b3. bindR (put (hd_operator h) b3) (\<lambda>b4.
       bindR (put_u64 (hd_sequence h) b4) (put_u32 (int (length ?es))))))) =
     Inr (filled (context @ hd_domain h @ hd_venue h @ hd_operator h @ be_bytes 8 (hd_sequence h) @ be_bytes 4 (int (length ?es))) (136 * length ?es))"
    using w(1-3) unfolding k by (simp add: put_filled put_u64_def put_u32_def del: be_bytes.simps)
  have "encodeHeader context (prefixBytes context) h = bindR (bindR (put context (filled [] ?k)) (\<lambda>b1. bindR (put (hd_domain h) b1) (\<lambda>b2.
       bindR (put (hd_venue h) b2) (\<lambda>b3. bindR (put (hd_operator h) b3) (\<lambda>b4.
       bindR (put_u64 (hd_sequence h) b4) (put_u32 (int (length ?es)))))))) (\<lambda>b6. bindR (foldR put_entry b6 ?es) (\<lambda>(out, _). Inr out))"
    unfolding encodeHeader_def own bindR_simps bindR_assoc using True by (simp add: ENTRY_BYTES_def Let_def flip: start)
  also have "\<dots> = Inr (header_enc context h)"
    unfolding puts bindR_simps put_entries_filled [OF w(8) order_refl] by (simp add: header_enc_def filled_def)
  finally have "encodeHeader context (prefixBytes context) h = Inr (header_enc context h)" .
  then show ?thesis using True by auto
next
  case False
  then show ?thesis by (auto simp: encodeHeader_def bindR_Inr_conv ownHeader_conv)
qed

subsection \<open>The decoder accepts the encodings\<close>

lemma refused_conv [simp]: "refused what r = Inr z \<longleftrightarrow> False"
  by (simp add: refused_def liftP_conv)

lemma all_zero: "length b = n \<Longrightarrow> \<not> list_ex (\<lambda>x. x \<noteq> 0) b \<longleftrightarrow> b = replicate n (0 :: byte)"
  by (auto simp: list_ex_iff replicate_length_same dest: in_set_replicate [THEN iffD1, rotated]) (metis in_set_replicate replicate_length_same)+

lemma be_bytes_0: "be_bytes k 0 = replicate k 0"
  by (induction k) (simp_all flip: replicate_append_same)

lemma zero_opening: "replicate 72 (0 :: byte) = be_bytes 8 0 @ replicate 32 0 @ replicate 32 0"
  by (simp add: be_bytes_0 flip: replicate_add)

lemma read_entry_reads: "reads read_entry entry_bytes entry_shape"
proof (rule reads_splitI)
  fix pre rest e r'
  assume "read_entry (reader_at pre rest) = Inr (e, r')"
  then obtain b l n op rt x where f: "length b = 32" "length l = 32" "0 \<le> n" "n < 2 ^ 64" "length op = 32" "length rt = 32"
    and rest: "rest = b @ l @ be_bytes 8 n @ op @ rt @ x" and r': "r' = reader_at (pre @ b @ l @ be_bytes 8 n @ op @ rt) x"
    and e: "(n = 0 \<and> op = replicate 32 0 \<and> rt = replicate 32 0 \<and> e = \<lparr>sg_backing = b, sg_link = l, sg_opening = None\<rparr>) \<or>
      (n \<noteq> 0 \<and> e = \<lparr>sg_backing = b, sg_link = l, sg_opening = Some \<lparr>oc_operator = op, oc_sequence = n, oc_root = rt\<rparr>\<rparr>)"
    unfolding read_entry_def bindP_conv
    by (clarsimp simp: read_simps all_zero simp del: be_bytes.simps split: if_splits) (metis all_zero)+
  show "entry_shape e \<and> (\<exists>rest'. rest = entry_bytes e @ rest' \<and> r' = reader_at (pre @ entry_bytes e) rest')"
    using e f by (auto simp: rest r' entry_shape_def entry_bytes_def opening_bytes_def zero_opening simp del: be_bytes.simps)
next
  fix pre rest e
  assume e: "entry_shape e"
  show "read_entry (reader_at pre (entry_bytes e @ rest)) = Inr (e, reader_at (pre @ entry_bytes e) rest)"
  proof (cases "sg_opening e")
    case None
    then have "e = \<lparr>sg_backing = sg_backing e, sg_link = sg_link e, sg_opening = None\<rparr>" by simp
    then show ?thesis using e None
      by (simp add: read_entry_def entry_bytes_def opening_bytes_def zero_opening entry_shape_def run_simps list_ex_iff del: be_bytes.simps)
  next
    case (Some x)
    then have "e = \<lparr>sg_backing = sg_backing e, sg_link = sg_link e, sg_opening = Some x\<rparr>" by simp
    then show ?thesis using e Some
      by (simp add: read_entry_def entry_bytes_def opening_bytes_def entry_shape_def run_simps del: be_bytes.simps)
  qed
qed

lemma entry_bytes_total: "list_all entry_shape es \<Longrightarrow> length (concat (map entry_bytes es)) = 136 * length es"
  by (induction es) (simp_all add: length_entry_bytes)

lemma length_header_enc: "isWellFormedHeader h \<Longrightarrow> length (header_enc context h) = prefixBytes context + 136 * length (hd_entries h)"
  using well_formed_shape [of h] by (simp add: header_enc_def prefixBytes_def entry_bytes_total del: be_bytes.simps)

lemma decodeHeader_conv: "decodeHeader context (prefixBytes context) bs = Inr h \<longleftrightarrow> encodeHeader context (prefixBytes context) h = Inr bs"
proof
  assume "decodeHeader context (prefixBytes context) bs = Inr h"
  then show "encodeHeader context (prefixBytes context) h = Inr bs"
    unfolding encodeHeader_conv decodeHeader_def
    by (auto simp: read_simps readsD [OF repeatP_reads [OF read_entry_reads]] header_enc_def Let_def simp del: be_bytes.simps split: if_splits)
next
  assume "encodeHeader context (prefixBytes context) h = Inr bs"
  then have w: "isWellFormedHeader h" and bs: "bs = header_enc context h" by (simp_all add: encodeHeader_conv)
  note f = well_formed_shape [OF w]
  have es: "repeatP (length (hd_entries h)) read_entry (reader_at pre (concat (map entry_bytes (hd_entries h)))) =
      Inr (hd_entries h, reader_at (pre @ concat (map entry_bytes (hd_entries h))) [])" for pre
    using reads_run [OF repeatP_reads [OF read_entry_reads], of "hd_entries h" "length (hd_entries h)" pre "[]"] f(8) by simp
  have l: "length bs = prefixBytes context + 136 * length (hd_entries h)" unfolding bs by (rule length_header_enc [OF w])
  have end_: "r_expectEnd (reader_at p []) = Inr ((), reader_at p [])" for p by (simp add: r_expectEnd_conv)
  have eq: "\<lparr>hd_domain = hd_domain h, hd_venue = hd_venue h, hd_operator = hd_operator h, hd_sequence = hd_sequence h, hd_entries = hd_entries h\<rparr> = h"
    by simp
  have ne: "hd_entries h \<noteq> []" using f(6) by auto
  show "decodeHeader context (prefixBytes context) bs = Inr h"
    unfolding decodeHeader_def decoded_by_def newReader_at
    using f w l es ne by (simp add: eq Let_def returnP_def ENTRY_BYTES_def MAX_ENTRIES_def mapR_Inr_conv bs header_enc_def run_simps end_ del: be_bytes.simps)
qed

subsection \<open>Properties\<close>

interpretation header_codec: digest_codec "encodeHeader ctx (prefixBytes ctx)" "decodeHeader ctx (prefixBytes ctx)" "sha256 C"
    "hc_segmentIdentity (segmentHeaderCodec C ctx)" for C ctx
  by unfold_locales (simp_all add: decodeHeader_conv segmentHeaderCodec_def Let_def)

definition example_header :: segment_header where
  "example_header = \<lparr>hd_domain = replicate 32 1, hd_venue = replicate 32 2, hd_operator = replicate 32 3, hd_sequence = 9,
     hd_entries = [\<lparr>sg_backing = replicate 32 4, sg_link = replicate 32 5, sg_opening = None\<rparr>,
       \<lparr>sg_backing = replicate 32 6, sg_link = replicate 32 5,
        sg_opening = Some \<lparr>oc_operator = replicate 32 3, oc_sequence = 8, oc_root = replicate 32 7\<rparr>\<rparr>]\<rparr>"

lemma example_header_ok: "isWellFormedHeader example_header"
proof -
  have "compareBytes (replicate 32 4) (replicate 32 6) < 0" "compareBytes (replicate 32 3) (replicate 32 3) = 0" by code_simp+
  then show ?thesis
    by (simp add: isWellFormedHeader_def entry_well_formed_def example_header_def bytes32_def positiveU64_def MAX_ENTRIES_def Let_def upt_rec)
qed

text \<open>C24: Segment headers are canonical. Bytes decode to a header exactly where they are its encoding, every well-formed header
  has one encoding, whose length the codec's bounds admit, and nothing else has any; and where the hash does not collide on
  the two encodings, headers of one segment identity are the same header.\<close>

theorem header_frames_canonical:
  assumes "K = segmentHeaderCodec C context"
  shows "(hc_decodeSegmentHeader K bs = Inr h \<longleftrightarrow> hc_segmentBytes K h = Inr bs) \<and> (isOk (hc_segmentBytes K h) \<longleftrightarrow> isWellFormedHeader h) \<and>
    (hc_segmentBytes K h = Inr bs \<longrightarrow> hc_minHeaderBytes K \<le> length bs \<and> length bs \<le> hc_maxHeaderBytes K) \<and>
    (hc_segmentIdentity K h = Inr d \<longrightarrow> hc_segmentIdentity K h' = Inr d \<longrightarrow>
       inj_on (sha256 C) {x. hc_segmentBytes K h = Inr x \<or> hc_segmentBytes K h' = Inr x} \<longrightarrow> h = h')"
proof -
  have K: "hc_decodeSegmentHeader K = decodeHeader context (prefixBytes context)" "hc_segmentBytes K = encodeHeader context (prefixBytes context)"
    "hc_minHeaderBytes K = prefixBytes context + 136" "hc_maxHeaderBytes K = prefixBytes context + 136 * 65536"
    by (simp_all add: assms segmentHeaderCodec_def Let_def ENTRY_BYTES_def MAX_ENTRIES_def)
  have "prefixBytes context + 136 \<le> length bs \<and> length bs \<le> prefixBytes context + 136 * 65536" if "encodeHeader context (prefixBytes context) h = Inr bs"
    using that well_formed_shape(6,7) [of h] length_header_enc [of h "context"] by (auto simp: encodeHeader_conv)
  then show ?thesis unfolding K using decodeHeader_conv header_codec.ident_binds [of C "context" h d h']
    by (auto simp: isOk_conv encodeHeader_conv assms)
qed

lemma header_frames_canonical_witness:
  "\<exists>bs. hc_segmentBytes (V3_HEADERS toy_crypto) example_header = Inr bs \<and> hc_decodeSegmentHeader (V3_HEADERS toy_crypto) bs = Inr example_header \<and>
     length bs \<le> hc_maxHeaderBytes (V3_HEADERS toy_crypto)"
proof -
  note canon = header_frames_canonical [OF V3_HEADERS_def, of toy_crypto _ example_header]
  obtain bs where "hc_segmentBytes (V3_HEADERS toy_crypto) example_header = Inr bs" using canon [of undefined] example_header_ok unfolding isOk_conv by blast
  then show ?thesis using canon [of bs] by auto
qed

end
