(* ===== verification/ReceiptState.thy ===== *)
theory ReceiptState
  imports State Headers VenueRecords
begin

section \<open>Receipt verdicts (src/pool/v3/receipt-state.ts)\<close>

text \<open>
  A walk over an operator's checkpoints that ends a receipt in a verdict: final, contradicted,
  lapsed, abandoned or pending.  Opening the walk authenticates the receipt against the segment
  header of its trail and finds the term's boundary; the walk's own variables are a state, and
  \<open>boundary\<close>, \<open>checkpoint\<close> and \<open>finish\<close> each take it to a verdict or the next state.  What the
  reader derives elsewhere (the trails' heads, the record views, the snapshots and directories
  it holds) enters as functions.
\<close>

subsection \<open>What the walk reads\<close>

record receipt_view =
  rcw_segment :: bytes
  rcw_position :: int
  rcw_after :: int
  rcw_operator :: bytes
  rcw_verify :: "bytes \<Rightarrow> segment_header \<Rightarrow> bytes \<Rightarrow> bool result"
  rcw_matches :: "inclusion_event \<Rightarrow> bool result"

text \<open>Pool v3's receipt frame (\<open>construction.ts\<close>): the authority's scope root is that of the header's entries.\<close>

definition header_scope :: "segment_header \<Rightarrow> scope_entry list" where
  "header_scope h = map (\<lambda>e. \<lparr>se_backing = sg_backing e, se_link = sg_link e\<rparr>) (hd_entries h)"

definition v3_receipt :: "crypto \<Rightarrow> bytes \<Rightarrow> receipt_view result" where
  "v3_receipt C bs = mapR (\<lambda>r. \<lparr>rcw_segment = rc_segment r, rcw_position = rc_position r, rcw_after = rc_after r, rcw_operator = rc_operator r,
     rcw_verify = (\<lambda>domain header operator. bindR (newScopeTree C (header_scope header)) (\<lambda>tree.
       verifyReceipt C \<lparr>ra_domain = domain, ra_segment = rc_segment r, ra_scopeRoot = st_root tree, ra_operator = operator\<rparr> r)),
     rcw_matches = receiptMatchesEvent r\<rparr>) (decodeReceipt bs)"

record reader_frames =
  fm_receipt :: "bytes \<Rightarrow> receipt_view result"
  fm_header :: "bytes \<Rightarrow> segment_header result"
  fm_snapshot :: "bytes \<Rightarrow> snapshot result"

record held_commitment =
  hl_index :: int
  hl_commitment :: commitment

record chain_link =
  ln_link :: bytes
  ln_operator :: bytes
  ln_from :: int

record record_view =
  vw_chain :: "chain_link list"
  vw_heldAt :: "bytes \<Rightarrow> int \<Rightarrow> held_commitment option"
  vw_heldAbove :: "bytes \<Rightarrow> int \<Rightarrow> bool"

record selection =
  sc_domain :: bytes
  sc_venue :: bytes
  sc_backing :: bytes

record walk_context =
  wc_frames :: reader_frames
  wc_selection :: selection
  wc_view :: record_view
  wc_heads :: "bytes \<Rightarrow> bytes list"
  wc_snapshotOf :: "bytes \<Rightarrow> bytes option"
  wc_directoryOf :: "bytes \<Rightarrow> snapshot_digest list option"
  wc_scopeViews :: "(string \<Rightarrow> record_view option) option"

definition same_bytes :: "bytes \<Rightarrow> bytes \<Rightarrow> bool" where
  "same_bytes a b \<longleftrightarrow> compareBytes a b = 0"

definition requireReceipt :: "bool \<Rightarrow> unit result" where
  "requireReceipt condition = requireR condition (EvidenceRefusal ''invalid-receipt'')"

subsection \<open>Opening the walk\<close>

record walk =
  wk_context :: walk_context
  wk_receipt :: receipt_view
  wk_header :: segment_header
  wk_termBoundary :: "int option"
  wk_reference :: "held_commitment option"
  wk_movedPast :: bool

definition scope_boundary :: "walk_context \<Rightarrow> segment_header \<Rightarrow> int option \<Rightarrow> segment_entry \<Rightarrow> int option result" where
  "scope_boundary X header boundary e =
     (let scopedView = (case wc_scopeViews X of None \<Rightarrow> wc_view X
          | Some vs \<Rightarrow> (case vs (hex (sg_backing e)) of None \<Rightarrow> wc_view X | Some v \<Rightarrow> v));
          chain = vw_chain scopedView in
      case find (\<lambda>i. same_bytes (ln_link (chain ! i)) (sg_link e) \<and> same_bytes (ln_operator (chain ! i)) (hd_operator header)) [0..<length chain] of
        None \<Rightarrow> bindR (requireReceipt False) (\<lambda>_. Inr boundary)
      | Some termIndex \<Rightarrow> Inr (if termIndex + 1 < length chain
          then (case boundary of None \<Rightarrow> Some (ln_from (chain ! (termIndex + 1)))
            | Some b \<Rightarrow> if ln_from (chain ! (termIndex + 1)) < b then Some (ln_from (chain ! (termIndex + 1))) else boundary)
          else boundary))"

definition receiptWalk :: "walk_context \<Rightarrow> bytes \<Rightarrow> walk result" where
  "receiptWalk X bs =
     bindR (fm_receipt (wc_frames X) bs) (\<lambda>receipt.
     case wc_heads X (rcw_segment receipt) of [] \<Rightarrow> Inl (EvidenceRefusal ''unresolved-evidence'')
     | trail # _ \<Rightarrow> bindR (fm_header (wc_frames X) trail) (\<lambda>header.
     if length (hd_entries header) \<noteq> 1 \<and> wc_scopeViews X = None then Inl (EvidenceRefusal ''unsupported-scope'')
     else bindR (if same_bytes (hd_domain header) (sc_domain (wc_selection X)) \<and> same_bytes (hd_venue header) (sc_venue (wc_selection X)) \<and>
          list_ex (\<lambda>e. same_bytes (sg_backing e) (sc_backing (wc_selection X))) (hd_entries header) \<and> rcw_after receipt \<ge> hd_sequence header
        then rcw_verify receipt (sc_domain (wc_selection X)) header (hd_operator header) else Inr False) (\<lambda>verified.
     bindR (requireReceipt verified) (\<lambda>_.
     bindR (foldR (scope_boundary X header) None (hd_entries header)) (\<lambda>termBoundary.
     let reference = vw_heldAt (wc_view X) (hd_operator header) (rcw_after receipt) in
     Inr \<lparr>wk_context = X, wk_receipt = receipt, wk_header = header, wk_termBoundary = termBoundary, wk_reference = reference,
       wk_movedPast = (reference = None \<and> vw_heldAbove (wc_view X) (hd_operator header) (rcw_after receipt))\<rparr>)))))"

subsection \<open>Verdicts\<close>

datatype receipt_status = Final | Contradicted | Lapsed | Abandoned | Pending

datatype receipt_sequence = Held | MovedPast | NotReached

record receipt_fact =
  fact_operator :: string
  fact_sequence :: string
  fact_index :: string

record receipt_verdict =
  vd_status :: receipt_status
  vd_sequence :: receipt_sequence
  vd_includedAt :: "receipt_fact list"
  vd_contradictedAt :: "receipt_fact list"
  vd_lapse :: "(string \<times> int option) option"
  vd_abandonedAt :: "receipt_fact option"

text \<open>The variables of the walk.\<close>

record walk_state =
  ws_referenceChecked :: bool
  ws_contradictedAt :: "receipt_fact list"
  ws_opened :: bool
  ws_lastSegment :: int
  ws_passedOver :: int

definition walk_start :: "walk \<Rightarrow> walk_state" where
  "walk_start w = \<lparr>ws_referenceChecked = (wk_reference w = None), ws_contradictedAt = [], ws_opened = False,
     ws_lastSegment = rcw_after (wk_receipt w), ws_passedOver = 0\<rparr>"

text \<open>A preimage that does not decode is no snapshot: unresolved, never a verdict.\<close>

definition unresolved_encoding :: "'a result \<Rightarrow> 'a result" where
  "unresolved_encoding r = (case r of Inl (EncodingError _) \<Rightarrow> Inl (EvidenceRefusal ''unresolved-evidence'') | _ \<Rightarrow> r)"

definition checkReference :: "walk \<Rightarrow> walk_state \<Rightarrow> walk_state result" where
  "checkReference w st =
     (if ws_referenceChecked st then Inr st
      else case wk_reference w of None \<Rightarrow> Inl (TypeError ''reference'') | Some reference \<Rightarrow>
        (case wc_directoryOf (wk_context w) (c_root (hl_commitment reference)) of None \<Rightarrow> Inl (EvidenceRefusal ''unresolved-evidence'')
         | Some directory \<Rightarrow> (case directory of [] \<Rightarrow> bindR (requireReceipt False) (\<lambda>_. Inr st)
           | entry # _ \<Rightarrow>
             bindR (requireReceipt (list_ex (\<lambda>e. same_bytes (sg_backing e) (dg_name entry)) (hd_entries (wk_header w)))) (\<lambda>_.
             case wc_snapshotOf (wk_context w) (dg_digest entry) of None \<Rightarrow> Inl (EvidenceRefusal ''unresolved-evidence'')
             | Some snapshot \<Rightarrow>
               bindR (unresolved_encoding (fm_snapshot (wc_frames (wk_context w)) snapshot)) (\<lambda>decoded.
               if \<not> same_bytes (sn_backing decoded) (dg_name entry) then Inl (EvidenceRefusal ''unresolved-evidence'')
               else bindR (requireReceipt (same_bytes (sn_segment decoded) (rcw_segment (wk_receipt w)))) (\<lambda>_.
                 Inr (st\<lparr>ws_referenceChecked := True\<rparr>)))))))"

definition finish_with :: "walk \<Rightarrow> walk_state \<Rightarrow> receipt_status \<Rightarrow> (receipt_verdict \<Rightarrow> receipt_verdict) \<Rightarrow> receipt_verdict result" where
  "finish_with w st status detail = bindR (checkReference w st) (\<lambda>_. Inr (detail
     \<lparr>vd_status = status, vd_sequence = (if wk_reference w \<noteq> None then Held else if wk_movedPast w then MovedPast else NotReached),
      vd_includedAt = [], vd_contradictedAt = ws_contradictedAt st, vd_lapse = None, vd_abandonedAt = None\<rparr>))"

definition lapse :: "walk \<Rightarrow> walk_state \<Rightarrow> string \<Rightarrow> int option \<Rightarrow> receipt_verdict result" where
  "lapse w st kind at =
     (if ws_contradictedAt st \<noteq> [] then finish_with w st Contradicted id
      else finish_with w st Lapsed (\<lambda>v. v\<lparr>vd_lapse := Some (kind, at)\<rparr>))"

text \<open>A step returns a verdict or the state of the walk after it.\<close>

type_synonym outcome = "receipt_verdict + walk_state"

definition boundary_step :: "walk \<Rightarrow> walk_state \<Rightarrow> int \<Rightarrow> int option \<Rightarrow> outcome result" where
  "boundary_step w st at clock =
     (let silence = (if ws_opened st then clock else None);
          bound = (case wk_termBoundary w of None \<Rightarrow> silence
            | Some b \<Rightarrow> (case silence of None \<Rightarrow> Some b | Some s \<Rightarrow> if b < s then Some b else Some s)) in
      case bound of None \<Rightarrow> Inr (Inr st)
      | Some e \<Rightarrow> if at \<ge> e then mapR Inl (lapse w st (if bound = silence then ''silence'' else ''scope-boundary'') (Some e)) else Inr (Inr st))"

record checkpoint_read =
  cp_held :: held_commitment
  cp_segment :: "bytes option"
  cp_state :: "(database \<times> state_handle) option"
  cp_header :: "segment_header option"
  cp_class :: string

definition fact_of :: "held_commitment \<Rightarrow> receipt_fact" where
  "fact_of held = \<lparr>fact_operator = hex (c_operator (hl_commitment held)), fact_sequence = decimal (c_sequence (hl_commitment held)),
     fact_index = decimal (hl_index held)\<rparr>"

definition own_segment :: "walk \<Rightarrow> checkpoint_read \<Rightarrow> bool" where
  "own_segment w x \<longleftrightarrow> (case cp_segment x of None \<Rightarrow> False | Some g \<Rightarrow> same_bytes g (rcw_segment (wk_receipt w)))"

text \<open>A valid checkpoint of the receipt's segment: its event at the receipt's position makes the receipt final, or what
  the checkpoint holds instead is a contradiction.\<close>

definition event_matches :: "walk \<Rightarrow> inclusion_event option \<Rightarrow> bool result" where
  "event_matches w event = (case event of None \<Rightarrow> Inr False | Some e \<Rightarrow> rcw_matches (wk_receipt w) e)"

definition judge_event :: "crypto \<Rightarrow> walk \<Rightarrow> walk_state \<Rightarrow> checkpoint_read \<Rightarrow> outcome result" where
  "judge_event C w st x =
     bindR (requireReceipt (ws_opened st)) (\<lambda>_.
     case cp_state x of None \<Rightarrow> Inl (TypeError ''state'') | Some (db, h) \<Rightarrow>
       bindR (state_receiptEvent C db h (rcw_position (wk_receipt w))) (\<lambda>event.
       bindR (event_matches w event) (\<lambda>matched.
       if matched then mapR Inl (finish_with w st Final (\<lambda>v. v\<lparr>vd_includedAt := [fact_of (cp_held x)]\<rparr>))
       else Inr (Inr (if (if c_sequence (hl_commitment (cp_held x)) > rcw_after (wk_receipt w) then wk_reference w \<noteq> None else event \<noteq> None)
         then st\<lparr>ws_contradictedAt := ws_contradictedAt st @ [fact_of (cp_held x)]\<rparr> else st)))))"

text \<open>What a checkpoint after the receipt's own says of its segment's order.\<close>

definition judge_order :: "crypto \<Rightarrow> walk \<Rightarrow> walk_state \<Rightarrow> checkpoint_read \<Rightarrow> outcome result" where
  "judge_order C w st x = (let c = hl_commitment (cp_held x) in
     if \<not> same_bytes (c_operator c) (rcw_operator (wk_receipt w)) \<or> c_sequence c \<le> rcw_after (wk_receipt w) then Inr (Inr st)
     else if own_segment w x then Inr (Inr (st\<lparr>ws_lastSegment := c_sequence c, ws_passedOver := 0\<rparr>))
     else if cp_class x \<noteq> ''valid'' \<or> cp_segment x = None then Inr (Inr (st\<lparr>ws_passedOver := ws_passedOver st + 1\<rparr>))
     else if ws_contradictedAt st \<noteq> [] then mapR Inl (finish_with w st Contradicted id)
     else if wk_movedPast w then mapR Inl (lapse w st ''moved-past'' None)
     else let hole = c_sequence c - ws_lastSegment st - 1 > ws_passedOver st in
       (case cp_header x of None \<Rightarrow> Inl (TypeError ''checkpoint header'') | Some header \<Rightarrow>
         bindR (if c_sequence c = hd_sequence header
           then (case cp_state x of None \<Rightarrow> Inl (TypeError ''state'') | Some (db, h) \<Rightarrow> mapR (\<lambda>p. p = 0) (state_position C db h))
           else Inr False) (\<lambda>opening.
         if opening \<and> hole then mapR Inl (lapse w st ''repair'' (Some (hl_index (cp_held x))))
         else mapR Inl (finish_with w st Abandoned (\<lambda>v. v\<lparr>vd_abandonedAt := Some (fact_of (cp_held x))\<rparr>)))))"

definition checkpoint_step :: "crypto \<Rightarrow> walk \<Rightarrow> walk_state \<Rightarrow> checkpoint_read \<Rightarrow> outcome result" where
  "checkpoint_step C w st x = (let c = hl_commitment (cp_held x) in
     bindR (if same_bytes (c_operator c) (hd_operator (wk_header w)) \<and> c_sequence c \<ge> rcw_after (wk_receipt w) then checkReference w st else Inr st) (\<lambda>st1.
     let st2 = (if own_segment w x \<and> c_sequence c = hd_sequence (wk_header w) \<and> cp_class x \<noteq> ''lapsed'' then st1\<lparr>ws_opened := True\<rparr> else st1) in
     bindR (if cp_class x = ''valid'' \<and> own_segment w x then judge_event C w st2 x else Inr (Inr st2)) (\<lambda>result.
     case result of Inl v \<Rightarrow> Inr (Inl v) | Inr st3 \<Rightarrow> judge_order C w st3 x)))"

definition finish_walk :: "walk \<Rightarrow> walk_state \<Rightarrow> receipt_verdict result" where
  "finish_walk w st = (if ws_contradictedAt st \<noteq> [] then finish_with w st Contradicted id
     else if wk_movedPast w then lapse w st ''moved-past'' None else finish_with w st Pending id)"

text \<open>The walk over what the reader gives it, until a verdict (\<open>scope-reader.ts\<close> drives it so).\<close>

datatype walk_input = Boundary int "int option" | Checkpoint checkpoint_read

definition walk_step :: "crypto \<Rightarrow> walk \<Rightarrow> walk_state \<Rightarrow> walk_input \<Rightarrow> outcome result" where
  "walk_step C w st i = (case i of Boundary at clock \<Rightarrow> boundary_step w st at clock | Checkpoint x \<Rightarrow> checkpoint_step C w st x)"

fun walk_run :: "crypto \<Rightarrow> walk \<Rightarrow> walk_state \<Rightarrow> walk_input list \<Rightarrow> receipt_verdict result" where
  "walk_run C w st [] = finish_walk w st"
| "walk_run C w st (i # is) = bindR (walk_step C w st i) (\<lambda>result. case result of Inl v \<Rightarrow> Inr v | Inr st' \<Rightarrow> walk_run C w st' is)"

subsection \<open>What a verdict rests on\<close>

definition event_read :: "crypto \<Rightarrow> walk \<Rightarrow> checkpoint_read \<Rightarrow> inclusion_event option \<Rightarrow> bool" where
  "event_read C w x event \<longleftrightarrow> cp_class x = ''valid'' \<and> own_segment w x \<and>
     (\<exists>db h. cp_state x = Some (db, h) \<and> state_receiptEvent C db h (rcw_position (wk_receipt w)) = Inr event)"

definition shows_event :: "crypto \<Rightarrow> walk \<Rightarrow> checkpoint_read \<Rightarrow> bool" where
  "shows_event C w x \<longleftrightarrow> (\<exists>e. event_read C w x (Some e) \<and> rcw_matches (wk_receipt w) e = Inr True)"

definition contradicts :: "crypto \<Rightarrow> walk \<Rightarrow> checkpoint_read \<Rightarrow> bool" where
  "contradicts C w x \<longleftrightarrow> (\<exists>event. event_read C w x event \<and> (\<forall>e. event = Some e \<longrightarrow> rcw_matches (wk_receipt w) e = Inr False) \<and>
     (if c_sequence (hl_commitment (cp_held x)) > rcw_after (wk_receipt w) then wk_reference w \<noteq> None else event \<noteq> None))"

definition is_opening :: "walk \<Rightarrow> checkpoint_read \<Rightarrow> bool" where
  "is_opening w x \<longleftrightarrow> own_segment w x \<and> c_sequence (hl_commitment (cp_held x)) = hd_sequence (wk_header w) \<and> cp_class x \<noteq> ''lapsed''"

definition walk_inv :: "crypto \<Rightarrow> walk \<Rightarrow> walk_input set \<Rightarrow> walk_state \<Rightarrow> bool" where
  "walk_inv C w seen st \<longleftrightarrow> (ws_referenceChecked st \<longrightarrow> isOk (checkReference w (walk_start w))) \<and>
     set (ws_contradictedAt st) \<subseteq> {fact_of (cp_held x) | x. Checkpoint x \<in> seen \<and> contradicts C w x} \<and>
     (ws_opened st \<longrightarrow> (\<exists>x. Checkpoint x \<in> seen \<and> is_opening w x))"

definition verdict_ok :: "crypto \<Rightarrow> walk \<Rightarrow> walk_input set \<Rightarrow> receipt_verdict \<Rightarrow> bool" where
  "verdict_ok C w seen v \<longleftrightarrow> isOk (checkReference w (walk_start w)) \<and>
     set (vd_contradictedAt v) \<subseteq> {fact_of (cp_held x) | x. Checkpoint x \<in> seen \<and> contradicts C w x} \<and>
     (case vd_status v of
        Final \<Rightarrow> (\<exists>x y. Checkpoint x \<in> seen \<and> shows_event C w x \<and> vd_includedAt v = [fact_of (cp_held x)] \<and> Checkpoint y \<in> seen \<and> is_opening w y)
      | Contradicted \<Rightarrow> vd_includedAt v = [] \<and> vd_contradictedAt v \<noteq> []
      | _ \<Rightarrow> vd_includedAt v = [] \<and> vd_contradictedAt v = [])"

lemma checkReference_state: "checkReference w st = Inr st' \<Longrightarrow> st' = st \<or> st' = st\<lparr>ws_referenceChecked := True\<rparr>"
  by (auto simp: checkReference_def bindR_Inr_conv split: if_splits option.splits list.splits)

lemma checkReference_start:
  assumes "checkReference w st = Inr st'" and "ws_referenceChecked st \<longrightarrow> isOk (checkReference w (walk_start w))"
  shows "isOk (checkReference w (walk_start w))"
proof (cases "ws_referenceChecked st \<or> wk_reference w = None")
  case True
  then show ?thesis using assms(2) by (auto simp: checkReference_def walk_start_def isOk_conv)
next
  case False
  have "isOk (checkReference w (walk_start w)) \<longleftrightarrow> isOk (checkReference w st)"
    using False by (auto simp: checkReference_def walk_start_def isOk_conv bindR_Inr_conv split: option.splits list.splits)
  then show ?thesis using assms(1) by (simp add: isOk_conv)
qed

lemma finish_with_conv: "finish_with w st status detail = Inr v \<longleftrightarrow> isOk (checkReference w st) \<and> v = detail
     \<lparr>vd_status = status, vd_sequence = (if wk_reference w \<noteq> None then Held else if wk_movedPast w then MovedPast else NotReached),
      vd_includedAt = [], vd_contradictedAt = ws_contradictedAt st, vd_lapse = None, vd_abandonedAt = None\<rparr>"
  by (auto simp: finish_with_def bindR_Inr_conv isOk_conv)

lemma inv_reference: "walk_inv C w seen st \<Longrightarrow> isOk (checkReference w st) \<Longrightarrow> isOk (checkReference w (walk_start w))"
  using checkReference_start by (auto simp: walk_inv_def isOk_conv)

lemma lapse_ok: "walk_inv C w seen st \<Longrightarrow> lapse w st kind at = Inr v \<Longrightarrow> verdict_ok C w seen v"
  using inv_reference [of C w seen st]
  by (auto simp: lapse_def finish_with_conv verdict_ok_def walk_inv_def split: if_splits)

lemma finish_walk_ok: "walk_inv C w seen st \<Longrightarrow> finish_walk w st = Inr v \<Longrightarrow> verdict_ok C w seen v"
  using inv_reference [of C w seen st] lapse_ok [of C w seen st]
  by (auto simp: finish_walk_def finish_with_conv verdict_ok_def walk_inv_def split: if_splits)

definition outcome_ok :: "crypto \<Rightarrow> walk \<Rightarrow> walk_input set \<Rightarrow> outcome \<Rightarrow> bool" where
  "outcome_ok C w seen r \<longleftrightarrow> (case r of Inl v \<Rightarrow> verdict_ok C w seen v | Inr st \<Rightarrow> walk_inv C w seen st)"

lemma boundary_ok: "walk_inv C w seen st \<Longrightarrow> boundary_step w st at clock = Inr r \<Longrightarrow> outcome_ok C w seen r"
  using lapse_ok [of C w seen st]
  by (auto simp: boundary_step_def outcome_ok_def Let_def mapR_Inr_conv split: option.splits if_splits)

lemma judge_event_ok:
  assumes "walk_inv C w seen st" and "Checkpoint x \<in> seen" and "cp_class x = ''valid''" and "own_segment w x" and "judge_event C w st x = Inr r"
  shows "outcome_ok C w seen r"
proof -
  from assms(5) obtain db h event matched where o': "ws_opened st" and s: "cp_state x = Some (db, h)"
    and e: "state_receiptEvent C db h (rcw_position (wk_receipt w)) = Inr event"
    and m: "event_matches w event = Inr matched"
    and r: "(if matched then mapR Inl (finish_with w st Final (\<lambda>v. v\<lparr>vd_includedAt := [fact_of (cp_held x)]\<rparr>))
       else Inr (Inr (if (if c_sequence (hl_commitment (cp_held x)) > rcw_after (wk_receipt w) then wk_reference w \<noteq> None else event \<noteq> None)
         then st\<lparr>ws_contradictedAt := ws_contradictedAt st @ [fact_of (cp_held x)]\<rparr> else st))) = Inr r"
    unfolding judge_event_def requireReceipt_def bindR_Inr_conv requireR_Inr by (auto simp: bindR_Inr_conv split: option.splits prod.splits)
  have ev: "event_read C w x event" using assms(3,4) s e by (auto simp: event_read_def)
  obtain y where y: "Checkpoint y \<in> seen" "is_opening w y" using assms(1) o' by (auto simp: walk_inv_def)
  show ?thesis
  proof (cases matched)
    case True
    then have "shows_event C w x" using m ev by (auto simp: shows_event_def event_matches_def split: option.splits)
    then show ?thesis using r True inv_reference [OF assms(1)] assms(1,2) y
      by (auto simp: mapR_Inr_conv finish_with_conv outcome_ok_def verdict_ok_def walk_inv_def)
  next
    case False
    then have n: "\<forall>e. event = Some e \<longrightarrow> rcw_matches (wk_receipt w) e = Inr False" using m by (auto simp: event_matches_def split: option.splits)
    have "contradicts C w x" if "if c_sequence (hl_commitment (cp_held x)) > rcw_after (wk_receipt w) then wk_reference w \<noteq> None else event \<noteq> None"
      using ev n that unfolding contradicts_def by blast
    then show ?thesis using r False assms(1,2) by (auto simp: outcome_ok_def walk_inv_def split: if_splits)
  qed
qed

lemma judge_order_ok: "walk_inv C w seen st \<Longrightarrow> judge_order C w st x = Inr r \<Longrightarrow> outcome_ok C w seen r"
  using lapse_ok [of C w seen st] inv_reference [of C w seen st]
  by (auto simp: judge_order_def Let_def outcome_ok_def mapR_Inr_conv bindR_Inr_conv finish_with_conv verdict_ok_def walk_inv_def
      split: if_splits option.splits prod.splits)

lemma checkpoint_ok:
  assumes "walk_inv C w seen st" and "Checkpoint x \<in> seen" and "checkpoint_step C w st x = Inr r"
  shows "outcome_ok C w seen r"
proof -
  let ?c = "hl_commitment (cp_held x)"
  from assms(3) obtain st1 result where
    c: "(if same_bytes (c_operator ?c) (hd_operator (wk_header w)) \<and> c_sequence ?c \<ge> rcw_after (wk_receipt w) then checkReference w st else Inr st) = Inr st1"
    and e: "(if cp_class x = ''valid'' \<and> own_segment w x then judge_event C w (if is_opening w x then st1\<lparr>ws_opened := True\<rparr> else st1) x
      else Inr (Inr (if is_opening w x then st1\<lparr>ws_opened := True\<rparr> else st1))) = Inr result"
    and r: "(case result of Inl v \<Rightarrow> Inr (Inl v) | Inr st3 \<Rightarrow> judge_order C w st3 x) = Inr r"
    unfolding checkpoint_step_def Let_def bindR_Inr_conv is_opening_def by blast
  have "walk_inv C w seen st1"
    using c assms(1) checkReference_state [of w st st1] checkReference_start [of w st st1] by (auto simp: walk_inv_def split: if_splits)
  then have "walk_inv C w seen (if is_opening w x then st1\<lparr>ws_opened := True\<rparr> else st1)"
    using assms(2) by (auto simp: walk_inv_def)
  then have "outcome_ok C w seen result" using e judge_event_ok [OF _ assms(2)] by (auto simp: outcome_ok_def split: if_splits)
  then show ?thesis using r by (cases result) (auto simp: outcome_ok_def [of _ _ _ "Inl _"] outcome_ok_def [of _ _ _ "Inr _"] intro: judge_order_ok)
qed

lemma walk_run_ok: "walk_inv C w seen st \<Longrightarrow> set is \<subseteq> seen \<Longrightarrow> walk_run C w st is = Inr v \<Longrightarrow> verdict_ok C w seen v"
proof (induction "is" arbitrary: st)
  case Nil
  then show ?case using finish_walk_ok by simp
next
  case (Cons i "is")
  from Cons.prems(3) obtain r where r: "walk_step C w st i = Inr r" and c: "(case r of Inl v \<Rightarrow> Inr v | Inr st' \<Rightarrow> walk_run C w st' is) = Inr v"
    by (auto simp: bindR_Inr_conv)
  have "outcome_ok C w seen r" using r Cons.prems(1,2) boundary_ok checkpoint_ok by (auto simp: walk_step_def split: walk_input.splits)
  then show ?case using c Cons.IH Cons.prems(2) by (auto simp: outcome_ok_def split: sum.splits)
qed

lemma walk_start_inv: "walk_inv C w seen (walk_start w)"
  by (auto simp: walk_inv_def walk_start_def checkReference_def isOk_conv)

subsection \<open>Properties\<close>

text \<open>C8: A receipt's verdict rests on what the walk was shown. A final verdict names a valid checkpoint of the receipt's segment,
  after the segment was opened, whose state holds at the receipt's position an event the receipt matches; every fact of
  contradiction names a valid checkpoint of the segment that holds something else there; a receipt with such facts is never
  lapsed, abandoned or pending, and one without is never contradicted. No verdict is given before the checkpoint the receipt
  names, where the operator holds one, is shown to be of the receipt's segment.\<close>

theorem receipt_verdict_sound:
  assumes "walk_run C w (walk_start w) is = Inr v"
  shows "isOk (checkReference w (walk_start w)) \<and>
    set (vd_contradictedAt v) \<subseteq> {fact_of (cp_held x) | x. Checkpoint x \<in> set is \<and> contradicts C w x} \<and>
    (vd_status v = Final \<longrightarrow> (\<exists>x y. Checkpoint x \<in> set is \<and> shows_event C w x \<and> vd_includedAt v = [fact_of (cp_held x)] \<and>
       Checkpoint y \<in> set is \<and> is_opening w y)) \<and>
    (vd_status v = Contradicted \<longleftrightarrow> vd_status v \<noteq> Final \<and> vd_contradictedAt v \<noteq> []) \<and> (vd_status v = Final \<longleftrightarrow> vd_includedAt v \<noteq> [])"
proof -
  have "verdict_ok C w (set is) v" by (rule walk_run_ok [OF walk_start_inv order_refl assms])
  then show ?thesis by (auto simp: verdict_ok_def split: receipt_status.splits)
qed

definition example_held :: held_commitment where
  "example_held = \<lparr>hl_index = 40, hl_commitment = \<lparr>c_sequence = 9, c_root = replicate 32 8, c_operator = replicate 32 3, c_signature = []\<rparr>\<rparr>"

definition example_receipt :: receipt_fields where
  "example_receipt = \<lparr>e_statementHash = replicate 32 1, e_proofHash = replicate 32 2, e_signatureHash = replicate 32 3, rc_domain = replicate 32 4,
     rc_segment = replicate 32 5, rc_scopeRoot = 6, rc_position = 1, rc_historyHash = replicate 32 7, rc_after = 9\<rparr>"

definition example_event_row :: event_row where
  "example_event_row = \<lparr>ev_ns = 1, ev_position = 1, ev_identity = replicate 32 1, ev_kind = 1, ev_idx = None, ev_proofHash = replicate 32 2,
     ev_signatureHash = replicate 32 3, ev_settlement = None, ev_history = replicate 32 7, ev_evidence = [], ev_noteRoot = 0, ev_spentRoot = [],
     ev_supply = None\<rparr>"

definition example_walk :: walk where
  "example_walk = \<lparr>wk_context = \<lparr>wc_frames = \<lparr>fm_receipt = (\<lambda>_. Inl (PlainError [])), fm_header = (\<lambda>_. Inr example_header),
       fm_snapshot = (\<lambda>_. Inr \<lparr>sn_backing = replicate 32 4, sn_segment = replicate 32 5, sn_historyHash = [], sn_evidenceHash = [], sn_issued = 0, sn_burned = 0\<rparr>)\<rparr>,
       wc_selection = \<lparr>sc_domain = replicate 32 1, sc_venue = replicate 32 2, sc_backing = replicate 32 4\<rparr>,
       wc_view = \<lparr>vw_chain = [], vw_heldAt = (\<lambda>_ _. None), vw_heldAbove = (\<lambda>_ _. False)\<rparr>, wc_heads = (\<lambda>_. []),
       wc_snapshotOf = (\<lambda>_. Some []), wc_directoryOf = (\<lambda>_. Some [\<lparr>dg_name = replicate 32 4, dg_digest = replicate 32 9\<rparr>]), wc_scopeViews = None\<rparr>,
     wk_receipt = \<lparr>rcw_segment = rc_segment example_receipt, rcw_position = 1, rcw_after = 9, rcw_operator = replicate 32 3, rcw_verify = (\<lambda>_ _ _. Inr True),
       rcw_matches = receiptMatchesEvent example_receipt\<rparr>, wk_header = example_header, wk_termBoundary = None, wk_reference = Some example_held,
     wk_movedPast = False\<rparr>"

definition example_checkpoint :: checkpoint_read where
  "example_checkpoint = \<lparr>cp_held = example_held, cp_segment = Some (replicate 32 5),
     cp_state = Some (newDatabase\<lparr>db_event := [example_event_row]\<rparr>, \<lparr>sh_ns = 1, sh_at = Some 1\<rparr>), cp_header = Some example_header, cp_class = ''valid''\<rparr>"

definition example_verdict :: receipt_verdict where
  "example_verdict = \<lparr>vd_status = Final, vd_sequence = Held, vd_includedAt = [fact_of example_held], vd_contradictedAt = [], vd_lapse = None, vd_abandonedAt = None\<rparr>"

lemma example_walk_run: "walk_run toy_crypto example_walk (walk_start example_walk) [Boundary 30 None, Checkpoint example_checkpoint] = Inr example_verdict"
proof -
  have m: "receiptMatchesEvent example_receipt \<lparr>e_statementHash = replicate 32 1, e_proofHash = replicate 32 2, e_signatureHash = replicate 32 3,
      ie_position = 1, ie_historyHash = replicate 32 7\<rparr> = Inr True" by code_simp
  have g: "rc_segment example_receipt = replicate 32 5" by (simp add: example_receipt_def)
  have h: "hd_operator example_header = replicate 32 3" "hd_sequence example_header = 9" "map sg_backing (hd_entries example_header) = [replicate 32 4, replicate 32 6]"
    by (simp_all add: example_header_def)
  have e: "list_ex (\<lambda>e. sg_backing e = replicate 32 4) (hd_entries example_header)" by (simp add: example_header_def)
  let ?st = "\<lparr>ws_referenceChecked = True, ws_contradictedAt = [], ws_opened = False, ws_lastSegment = 9, ws_passedOver = 0\<rparr>"
  have c: "checkReference example_walk (walk_start example_walk) = Inr ?st"
    using e g by (simp add: checkReference_def walk_start_def example_walk_def same_bytes_def requireReceipt_def requireR_def unresolved_encoding_def)
  have j: "judge_event toy_crypto example_walk (?st\<lparr>ws_opened := True\<rparr>) example_checkpoint = Inr (Inl example_verdict)"
    using m by (simp add: judge_event_def requireReceipt_def requireR_def example_checkpoint_def state_receiptEvent_def state_position_def event_at_def
        event_matches_def finish_with_def checkReference_def example_verdict_def example_walk_def example_event_row_def newDatabase_def)
  have o': "own_segment example_walk example_checkpoint" by (simp add: own_segment_def example_walk_def example_checkpoint_def g same_bytes_def)
  have "checkpoint_step toy_crypto example_walk (walk_start example_walk) example_checkpoint = Inr (Inl example_verdict)"
    using c j o' h by (simp add: checkpoint_step_def same_bytes_def) (simp add: example_checkpoint_def example_held_def example_walk_def)
  moreover have "boundary_step example_walk (walk_start example_walk) 30 None = Inr (Inr (walk_start example_walk))"
    by (simp add: boundary_step_def example_walk_def)
  ultimately show ?thesis by (simp add: walk_step_def)
qed

lemma receipt_verdict_sound_witness:
  "vd_status example_verdict = Final \<and> shows_event toy_crypto example_walk example_checkpoint \<and> is_opening example_walk example_checkpoint"
  using receipt_verdict_sound [OF example_walk_run] by (auto simp: example_verdict_def)

end
