(* ===== verification/Utf8.thy ===== *)
theory Utf8
  imports Prelude
begin

section \<open>Text and its UTF-8 bytes (the coders of src/contexts.ts)\<close>

text \<open>
  \<open>utf8Encoder\<close> and \<open>utf8Decoder\<close> are the platform's \<open>TextEncoder\<close> and a fatal \<open>TextDecoder\<close>
  that keeps a byte order mark.  A string is its UTF-16 code units, as the language has it, so
  that its \<open>length\<close>, \<open>isWellFormed\<close> and encoding are those of the source: the code units pair up
  to scalar values, a lone surrogate is none, and each scalar value has one UTF-8 form, which
  the decoder accepts and no other.
\<close>

type_synonym jstring = "16 word list"

subsection \<open>Code units and scalar values\<close>

definition lead_unit :: "int \<Rightarrow> bool" where
  "lead_unit u \<longleftrightarrow> 0xD800 \<le> u \<and> u < 0xDC00"

definition trail_unit :: "int \<Rightarrow> bool" where
  "trail_unit u \<longleftrightarrow> 0xDC00 \<le> u \<and> u < 0xE000"

fun scalars :: "int list \<Rightarrow> int option list" where
  "scalars [] = []"
| "scalars (u # us) =
     (if lead_unit u then (case us of
          v # vs \<Rightarrow> if trail_unit v then Some (0x10000 + (u - 0xD800) * 1024 + (v - 0xDC00)) # scalars vs else None # scalars us
        | [] \<Rightarrow> [None])
      else (if trail_unit u then None else Some u) # scalars us)"

definition isWellFormed :: "jstring \<Rightarrow> bool" where
  "isWellFormed s \<longleftrightarrow> None \<notin> set (scalars (map uint s))"

definition units_of :: "int \<Rightarrow> int list" where
  "units_of c = (if c < 0x10000 then [c] else [0xD800 + (c - 0x10000) div 1024, 0xDC00 + (c - 0x10000) mod 1024])"

subsection \<open>UTF-8\<close>

definition utf8_char :: "int \<Rightarrow> int list" where
  "utf8_char c =
     (if c < 0x80 then [c]
      else if c < 0x800 then [0xC0 + c div 64, 0x80 + c mod 64]
      else if c < 0x10000 then [0xE0 + c div 4096, 0x80 + c div 64 mod 64, 0x80 + c mod 64]
      else [0xF0 + c div 262144, 0x80 + c div 4096 mod 64, 0x80 + c div 64 mod 64, 0x80 + c mod 64])"

text \<open>The encoder replaces a lone surrogate by U+FFFD.\<close>

definition utf8_encode :: "jstring \<Rightarrow> bytes" where
  "utf8_encode s = map word_of_int (concat (map (\<lambda>c. utf8_char (case c of None \<Rightarrow> 0xFFFD | Some v \<Rightarrow> v)) (scalars (map uint s))))"

definition continues :: "int \<Rightarrow> int \<Rightarrow> int \<Rightarrow> bool" where
  "continues lo hi b \<longleftrightarrow> lo \<le> b \<and> b \<le> hi"

fun utf8_scalars :: "int list \<Rightarrow> int list option" where
  "utf8_scalars [] = Some []"
| "utf8_scalars (a # r) =
     (if a \<le> 0x7F then map_option ((#) a) (utf8_scalars r)
      else if 0xC2 \<le> a \<and> a \<le> 0xDF then (case r of
          b # r' \<Rightarrow> if continues 0x80 0xBF b then map_option ((#) ((a - 0xC0) * 64 + (b - 0x80))) (utf8_scalars r') else None
        | _ \<Rightarrow> None)
      else if 0xE0 \<le> a \<and> a \<le> 0xEF then (case r of
          b # c # r' \<Rightarrow> if continues (if a = 0xE0 then 0xA0 else 0x80) (if a = 0xED then 0x9F else 0xBF) b \<and> continues 0x80 0xBF c
            then map_option ((#) ((a - 0xE0) * 4096 + (b - 0x80) * 64 + (c - 0x80))) (utf8_scalars r') else None
        | _ \<Rightarrow> None)
      else if 0xF0 \<le> a \<and> a \<le> 0xF4 then (case r of
          b # c # d # r' \<Rightarrow> if continues (if a = 0xF0 then 0x90 else 0x80) (if a = 0xF4 then 0x8F else 0xBF) b \<and>
              continues 0x80 0xBF c \<and> continues 0x80 0xBF d
            then map_option ((#) ((a - 0xF0) * 262144 + (b - 0x80) * 4096 + (c - 0x80) * 64 + (d - 0x80))) (utf8_scalars r') else None
        | _ \<Rightarrow> None)
      else None)"

definition utf8_decode :: "bytes \<Rightarrow> jstring option" where
  "utf8_decode bs = map_option (\<lambda>cs. map word_of_int (concat (map units_of cs))) (utf8_scalars (map uint bs))"

subsection \<open>The decoder inverts the encoder\<close>

definition is_scalar :: "int \<Rightarrow> bool" where
  "is_scalar c \<longleftrightarrow> 0 \<le> c \<and> c < 0x110000 \<and> \<not> lead_unit c \<and> \<not> trail_unit c"

lemmas unit_defs = lead_unit_def trail_unit_def is_scalar_def

lemma div_mod_parts:
  assumes "(x :: int) = h * k + l" and "0 \<le> l" and "l < k"
  shows "x div k = h" and "x mod k = l"
proof -
  have "(l + h * k) div k = h" "(l + h * k) mod k = l" using assms by simp_all
  then show "x div k = h" "x mod k = l" by (simp_all add: assms(1) add.commute)
qed

lemma units_pair: "0 \<le> h \<Longrightarrow> 0 \<le> l \<Longrightarrow> l < 1024 \<Longrightarrow> units_of (0x10000 + h * 1024 + l) = [0xD800 + h, 0xDC00 + l]"
  using div_mod_parts [of "h * 1024 + l" h 1024 l] by (simp add: units_of_def)

lemma scalar_values: "\<forall>u \<in> set us. 0 \<le> u \<and> u < 0x10000 \<Longrightarrow> scalars us = map Some cs \<Longrightarrow>
    list_all is_scalar cs \<and> concat (map units_of cs) = us"
proof (induction us arbitrary: cs rule: scalars.induct)
  case (2 u us)
  show ?case
  proof (cases "lead_unit u")
    case False
    then have "\<not> trail_unit u" using "2.prems"(2) by (auto split: if_splits)
    then show ?thesis using "2.prems" "2.IH"(3) [OF False] False
      by (auto simp: Cons_eq_map_conv units_of_def is_scalar_def)
  next
    case True
    then obtain v vs where us: "us = v # vs" "trail_unit v" using "2.prems"(2)
      by (auto split: list.splits if_splits simp: Cons_eq_map_conv)
    define c where "c = 0x10000 + (u - 0xD800) * 1024 + (v - 0xDC00)"
    obtain cs' where cs: "cs = c # cs'" "scalars vs = map Some cs'"
      using "2.prems"(2) True us by (auto simp: Cons_eq_map_conv c_def)
    have "units_of c = [u, v]"
      using units_pair [of "u - 0xD800" "v - 0xDC00"] True us(2) by (simp add: c_def unit_defs)
    moreover have "is_scalar c" using True us(2) by (auto simp: unit_defs c_def)
    ultimately show ?thesis using "2.IH"(1) [OF True us] "2.prems"(1) cs us by simp
  qed
qed simp

lemma astral:
  assumes "is_scalar c" and "\<not> c < 0x10000"
  obtains h l where "c = 0x10000 + h * 1024 + l" and "0 \<le> l" and "l < 1024" and "0 \<le> h" and "h < 1024"
proof -
  obtain h l where c: "c = 0x10000 + h * 1024 + l" and l: "0 \<le> l" "l < 1024"
    using that [of "(c - 0x10000) div 1024" "(c - 0x10000) mod 1024"] div_mult_mod_eq [of "c - 0x10000" 1024]
      pos_mod_sign [of 1024 "c - 0x10000"] pos_mod_bound [of 1024 "c - 0x10000"] by linarith
  moreover have "0 \<le> h" "h < 1024" using assms l by (auto simp: c is_scalar_def)
  ultimately show thesis using that by blast
qed

lemma scalars_units: "list_all is_scalar cs \<Longrightarrow> scalars (concat (map units_of cs)) = map Some cs"
proof (induction cs)
  case (Cons c cs)
  show ?case
  proof (cases "c < 0x10000")
    case False
    have "is_scalar c" using Cons.prems by simp
    from this False obtain h l where c: "c = 0x10000 + h * 1024 + l" and l: "0 \<le> l" "l < 1024" and h: "0 \<le> h" "h < 1024"
      by (rule astral)
    have "lead_unit (0xD800 + h)" "trail_unit (0xDC00 + l)" using h l by (simp_all add: unit_defs)
    then show ?thesis using Cons h l by (simp add: c units_pair)
  qed (use Cons in \<open>simp add: units_of_def is_scalar_def\<close>)
qed simp

lemma units_range: "list_all is_scalar cs \<Longrightarrow> \<forall>u \<in> set (concat (map units_of cs)). 0 \<le> u \<and> u < 0x10000"
proof (induction cs)
  case (Cons c cs)
  have "\<forall>u \<in> set (units_of c). 0 \<le> u \<and> u < 0x10000"
  proof (cases "c < 0x10000")
    case False
    have "is_scalar c" using Cons.prems by simp
    from this False obtain h l where "c = 0x10000 + h * 1024 + l" "0 \<le> l" "l < 1024" "0 \<le> h" "h < 1024"
      by (rule astral)
    then show ?thesis by (simp add: units_pair)
  qed (use Cons.prems in \<open>simp add: units_of_def is_scalar_def\<close>)
  then show ?case using Cons by auto
qed simp

text \<open>The encoding by the number of sextets.\<close>

lemma utf8_char_two: "2 \<le> h \<Longrightarrow> h < 32 \<Longrightarrow> 0 \<le> l \<Longrightarrow> l < 64 \<Longrightarrow> utf8_char (h * 64 + l) = [0xC0 + h, 0x80 + l]"
  using div_mod_parts [of "h * 64 + l" h 64 l] by (simp add: utf8_char_def)

lemma utf8_char_three:
  assumes "0 \<le> h" "h < 16" "0 \<le> m" "m < 64" "0 \<le> l" "l < 64" "h = 0 \<Longrightarrow> 32 \<le> m"
  shows "utf8_char (h * 4096 + m * 64 + l) = [0xE0 + h, 0x80 + m, 0x80 + l]"
proof -
  let ?c = "h * 4096 + m * 64 + l"
  have "?c div 64 = h * 64 + m" "?c mod 64 = l" using div_mod_parts [of ?c "h * 64 + m" 64 l] assms by simp_all
  moreover have "(h * 64 + m) mod 64 = m" by (rule div_mod_parts) (use assms in simp_all)
  moreover have "?c div 4096 = h" by (rule div_mod_parts [of _ _ _ "m * 64 + l"]) (use assms in simp_all)
  moreover have "\<not> ?c < 0x800" "?c < 0x10000" using assms by (cases "h = 0"; linarith)+
  ultimately show ?thesis by (simp add: utf8_char_def)
qed

lemma utf8_char_four:
  assumes "0 \<le> h" "h < 5" "0 \<le> k" "k < 64" "0 \<le> m" "m < 64" "0 \<le> l" "l < 64" "h = 0 \<Longrightarrow> 16 \<le> k"
  shows "utf8_char (h * 262144 + k * 4096 + m * 64 + l) = [0xF0 + h, 0x80 + k, 0x80 + m, 0x80 + l]"
proof -
  define c where "c = h * 262144 + k * 4096 + m * 64 + l"
  note r = assms(1-8)
  have c: "c div 64 = h * 4096 + k * 64 + m" "c mod 64 = l"
    using div_mod_parts [of c "h * 4096 + k * 64 + m" 64 l] r by (simp_all add: c_def)
  have d: "c div 4096 = h * 64 + k" by (rule div_mod_parts [of _ _ _ "m * 64 + l"]) (use r in \<open>simp_all add: c_def\<close>)
  have e: "c div 262144 = h" by (rule div_mod_parts [of _ _ _ "k * 4096 + m * 64 + l"]) (use r in \<open>simp_all add: c_def\<close>)
  have m: "(h * 4096 + k * 64 + m) mod 64 = m" by (rule div_mod_parts [of _ "h * 64 + k"]) (use r in simp_all)
  have k: "(h * 64 + k) mod 64 = k" by (rule div_mod_parts) (use r in simp_all)
  have "\<not> c < 0x10000" using assms(1,3,5,7,9) unfolding c_def by linarith
  then have "\<not> c < 0x80" "\<not> c < 0x800" "\<not> c < 0x10000" by linarith+
  then have "utf8_char c = [0xF0 + h, 0x80 + k, 0x80 + m, 0x80 + l]" by (simp only: utf8_char_def if_False c d e m k)
  then show ?thesis by (simp only: c_def)
qed

lemma utf8_char_one: "0 \<le> c \<Longrightarrow> c < 0x80 \<Longrightarrow> utf8_char c = [c]"
  by (simp add: utf8_char_def)

text \<open>Every scalar value has one of the forms.\<close>

lemma scalar_forms:
  assumes "is_scalar c"
  obtains (one) "0 \<le> c" "c < 0x80"
  | (two) h l where "c = h * 64 + l" "0 \<le> l" "l < 64" "2 \<le> h" "h < 32"
  | (three) h m l where "c = h * 4096 + m * 64 + l" "0 \<le> l" "l < 64" "0 \<le> m" "m < 64" "0 \<le> h" "h < 16"
      "h = 0 \<Longrightarrow> 32 \<le> m" "h = 13 \<Longrightarrow> m < 32"
  | (four) h k m l where "c = h * 262144 + k * 4096 + m * 64 + l" "0 \<le> l" "l < 64" "0 \<le> m" "m < 64" "0 \<le> k" "k < 64"
      "0 \<le> h" "h < 5" "h = 0 \<Longrightarrow> 16 \<le> k" "h = 4 \<Longrightarrow> k < 16"
proof -
  have c0: "0 \<le> c" and c1: "c < 0x110000" and c2: "c < 0xD800 \<or> 0xE000 \<le> c" using assms by (auto simp: unit_defs)
  define l b where "l = c mod 64" and "b = c div 64"
  define m d where "m = b mod 64" and "d = b div 64"
  define k h where "k = d mod 64" and "h = d div 64"
  have e: "c = b * 64 + l" "b = d * 64 + m" "d = h * 64 + k"
    by (simp_all add: l_def b_def m_def d_def k_def h_def)
  have r: "0 \<le> l" "l < 64" "0 \<le> m" "m < 64" "0 \<le> k" "k < 64" by (simp_all add: l_def m_def k_def)
  consider "c < 0x80" | "0x80 \<le> c" "c < 0x800" | "0x800 \<le> c" "c < 0x10000" | "0x10000 \<le> c" by linarith
  then show ?thesis
  proof cases
    case 1
    then show ?thesis using one c0 by simp
  next
    case 2
    have "2 \<le> b" "b < 32" using 2 e(1) r by linarith+
    with e(1) r(1,2) show ?thesis by (rule two)
  next
    case 3
    have c: "c = d * 4096 + m * 64 + l" using e by simp
    have "0 \<le> d" "d < 16" "d = 0 \<Longrightarrow> 32 \<le> m" "d = 13 \<Longrightarrow> m < 32"
      using 3 c c2 r by linarith+
    with c r(1-4) show ?thesis by (intro three)
  next
    case 4
    have c: "c = h * 262144 + k * 4096 + m * 64 + l" using e by simp
    have "0 \<le> h" "h < 5" "h = 0 \<Longrightarrow> 16 \<le> k" "h = 4 \<Longrightarrow> k < 16" using 4 c c1 r by linarith+
    with c r show ?thesis by (intro four)
  qed
qed

lemma utf8_char_run: "is_scalar c \<Longrightarrow> utf8_scalars (utf8_char c @ r) = map_option ((#) c) (utf8_scalars r)"
  by (erule scalar_forms)
    (auto simp: utf8_char_one utf8_char_two utf8_char_three utf8_char_four continues_def)

lemma utf8_char_bytes: "is_scalar c \<Longrightarrow> \<forall>b \<in> set (utf8_char c). 0 \<le> b \<and> b < 256"
  by (erule scalar_forms) (auto simp: utf8_char_one utf8_char_two utf8_char_three utf8_char_four)

lemma utf8_run: "list_all is_scalar cs \<Longrightarrow> utf8_scalars (concat (map utf8_char cs)) = Some cs"
  by (induction cs) (simp_all add: utf8_char_run)

lemma utf8_char_sound:
  assumes "utf8_scalars bs = Some cs" and "list_all (\<lambda>b. 0 \<le> b) bs"
  shows "list_all is_scalar cs \<and> concat (map utf8_char cs) = bs"
  using assms
proof (induction bs arbitrary: cs rule: utf8_scalars.induct)
  case (2 a r)
  consider "a \<le> 0x7F" | "0xC2 \<le> a" "a \<le> 0xDF" | "0xE0 \<le> a" "a \<le> 0xEF" | "0xF0 \<le> a" "a \<le> 0xF4"
    using "2.prems"(1) by (auto split: if_splits)
  then show ?case
  proof cases
    case 1
    then show ?thesis using "2.prems" "2.IH"(1) by (auto simp: utf8_char_def unit_defs)
  next
    case 2
    then obtain b r' cs' where r: "r = b # r'" and b: "continues 0x80 0xBF b" and u: "utf8_scalars r' = Some cs'"
      and cs: "cs = ((a - 0xC0) * 64 + (b - 0x80)) # cs'"
      using "2.prems"(1) by (auto split: list.splits if_splits)
    let ?c = "(a - 0xC0) * 64 + (b - 0x80)"
    have "utf8_char ?c = [a, b]" using utf8_char_two [of "a - 0xC0" "b - 0x80"] 2 b by (simp add: continues_def)
    moreover have "is_scalar ?c" using 2 b by (simp add: continues_def unit_defs)
    ultimately show ?thesis using "2.IH"(2) [of b r' cs'] 2 r b u cs "2.prems"(2) by simp
  next
    case 3
    then obtain b c r' cs' where r: "r = b # c # r'" and u: "utf8_scalars r' = Some cs'"
      and b: "continues (if a = 0xE0 then 0xA0 else 0x80) (if a = 0xED then 0x9F else 0xBF) b" "continues 0x80 0xBF c"
      and cs: "cs = ((a - 0xE0) * 4096 + (b - 0x80) * 64 + (c - 0x80)) # cs'"
      using "2.prems"(1) by (auto split: list.splits if_splits)
    let ?c = "(a - 0xE0) * 4096 + (b - 0x80) * 64 + (c - 0x80)"
    have "utf8_char ?c = [a, b, c]" using utf8_char_three [of "a - 0xE0" "b - 0x80" "c - 0x80"] 3 b
      by (auto simp: continues_def split: if_splits)
    moreover have "is_scalar ?c" using 3 b by (auto simp: continues_def unit_defs split: if_splits)
    ultimately show ?thesis using "2.IH"(3) [of b "c # r'" c r' cs'] 3 r b u cs "2.prems"(2) by simp
  next
    case 4
    then obtain b c d r' cs' where r: "r = b # c # d # r'" and u: "utf8_scalars r' = Some cs'"
      and b: "continues (if a = 0xF0 then 0x90 else 0x80) (if a = 0xF4 then 0x8F else 0xBF) b"
      "continues 0x80 0xBF c" "continues 0x80 0xBF d"
      and cs: "cs = ((a - 0xF0) * 262144 + (b - 0x80) * 4096 + (c - 0x80) * 64 + (d - 0x80)) # cs'"
      using "2.prems"(1) by (auto split: list.splits if_splits)
    let ?c = "(a - 0xF0) * 262144 + (b - 0x80) * 4096 + (c - 0x80) * 64 + (d - 0x80)"
    have "utf8_char ?c = [a, b, c, d]" using utf8_char_four [of "a - 0xF0" "b - 0x80" "c - 0x80" "d - 0x80"] 4 b
      by (auto simp: continues_def split: if_splits)
    moreover have "is_scalar ?c" using 4 b by (auto simp: continues_def unit_defs split: if_splits)
    ultimately show ?thesis using "2.IH"(4) [of b "c # d # r'" c "d # r'" d r' cs'] 4 r b u cs "2.prems"(2) by simp
  qed
qed simp

lemma unit_range: "\<forall>u \<in> set (map uint (s :: jstring)). 0 \<le> u \<and> u < 0x10000"
  using uint_lt2p [where 'a = 16] by auto

lemma utf8_coders: "utf8_decode bs = Some s \<longleftrightarrow> isWellFormed s \<and> utf8_encode s = bs"
proof
  assume "utf8_decode bs = Some s"
  then obtain cs where u: "utf8_scalars (map uint bs) = Some cs" and s: "s = map word_of_int (concat (map units_of cs))"
    by (auto simp: utf8_decode_def)
  have cs: "list_all is_scalar cs" and b: "concat (map utf8_char cs) = map uint bs"
    using utf8_char_sound [OF u] by (simp_all add: list_all_iff)
  have "map uint s = concat (map units_of cs)"
    using units_range [OF cs] by (auto simp: s uint_word_of_int intro!: map_idI)
  then have sc: "scalars (map uint s) = map Some cs" using scalars_units [OF cs] by simp
  have "map word_of_int (map uint bs) = bs" by (simp add: map_idI)
  then show "isWellFormed s \<and> utf8_encode s = bs" by (auto simp: isWellFormed_def utf8_encode_def sc comp_def b)
next
  assume s: "isWellFormed s \<and> utf8_encode s = bs"
  then obtain cs where sc: "scalars (map uint s) = map Some cs"
    unfolding isWellFormed_def by (metis (no_types, lifting) ex_map_conv not_None_eq)
  have cs: "list_all is_scalar cs" and us: "concat (map units_of cs) = map uint s"
    using scalar_values [OF unit_range sc] by simp_all
  have "list_all (\<lambda>b. 0 \<le> b \<and> b < 256) (concat (map utf8_char cs))"
    using cs utf8_char_bytes by (auto simp: list_all_iff)
  then have "map uint bs = concat (map utf8_char cs)"
    using s by (auto simp: utf8_encode_def sc comp_def uint_word_of_int list_all_iff intro!: map_idI [symmetric] map_idI)
  then show "utf8_decode bs = Some s"
    using utf8_run [OF cs] us by (simp add: utf8_decode_def map_idI)
qed

lemma utf8_encode_inj: "isWellFormed s \<Longrightarrow> isWellFormed t \<Longrightarrow> utf8_encode s = utf8_encode t \<Longrightarrow> s = t"
  using utf8_coders [of "utf8_encode s"] by (metis option.inject)

end
