(* ===== verification/Terms.thy ===== *)
theory Terms
  imports EvidenceChain Utf8
begin

section \<open>Root terms (src/pool/v3/terms.ts, src/lit/terms.ts)\<close>

text \<open>
  The frame of a backing's terms: one codec for both constructions, whose profile names the
  construction of the tag-5 clause and the tag of the silence clause.  The encoder checks every
  field, the decoder reads the clauses in strictly increasing tags and hands what it read to the
  encoder's checks, and a backing's name is the hash of the bytes.  The decoder is shown to
  accept exactly the encoder's output, clause loop included, and a name to determine the terms.
\<close>

subsection \<open>Profiles and terms\<close>

record terms_profile =
  tp_construction :: jstring
  tp_silenceTag :: int

record profile =
  pf_construction :: bytes
  pf_silenceTag :: int
  pf_maxBytes :: int

definition profileOf :: "terms_profile \<Rightarrow> profile result" where
  "profileOf p = (let construction = utf8_encode (tp_construction p) in
     if length construction = 0 \<or> length construction > 255 \<or> (tp_silenceTag p \<noteq> 1 \<and> tp_silenceTag p \<noteq> 6)
     then Inl (RangeError ''invalid terms profile'')
     else Inr \<lparr>pf_construction = construction, pf_silenceTag = tp_silenceTag p,
       pf_maxBytes = 1305 - 11 + int (length construction) - (if tp_silenceTag p = 1 then 0 else 8)\<rparr>)"

record payout =
  py_thing :: jstring
  py_quantumExponent :: int
  py_perUnit :: int

record silence_clause =
  sl_noCommitmentDuration :: int
  sl_challengeWindow :: "int option"

record non_service_clause =
  nv_duration :: int
  nv_count :: int
  nv_window :: int

record root_terms =
  rt_obligor :: bytes
  rt_payout :: payout
  rt_operator :: bytes
  rt_configuration :: bytes
  rt_venue :: bytes
  rt_interval :: int
  rt_silence :: "silence_clause option"
  rt_replacementRule :: "bytes option"
  rt_nonService :: "non_service_clause option"

definition terms_own :: "bytes \<Rightarrow> int \<Rightarrow> string \<Rightarrow> bool \<Rightarrow> bytes result" where
  "terms_own bs limit what exact =
     (if int (length bs) > limit \<or> (exact \<and> int (length bs) \<noteq> limit) then Inl (EncodingError (''invalid '' @ what @ '' bytes''))
      else Inr bs)"

definition terms_key :: "crypto \<Rightarrow> bytes \<Rightarrow> string \<Rightarrow> bytes result" where
  "terms_key C bs what = bindR (terms_own bs 32 what True) (\<lambda>key.
     if isValidPublicKey C key then Inr key else Inl (EncodingError (''invalid '' @ what @ '' key'')))"

definition unsigned :: "int \<Rightarrow> int \<Rightarrow> string \<Rightarrow> unit result" where
  "unsigned v limit what = (if v < 0 \<or> v > limit then Inl (EncodingError (''invalid '' @ what)) else Inr ())"

definition TERMS_U64 :: int where
  "TERMS_U64 = push_bit 64 1 - 1"

subsection \<open>The encoder\<close>

definition own_silence :: "profile \<Rightarrow> silence_clause option \<Rightarrow> unit result" where
  "own_silence p s = (case s of None \<Rightarrow> Inr () | Some c \<Rightarrow>
     bindR (unsigned (sl_noCommitmentDuration c) TERMS_U64 ''no-commitment duration'') (\<lambda>_.
     if pf_silenceTag p = 1
     then (case sl_challengeWindow c of None \<Rightarrow> Inl (EncodingError ''invalid challenge window'')
       | Some w \<Rightarrow> unsigned w TERMS_U64 ''challenge window'')
     else if sl_challengeWindow c \<noteq> None then Inl (EncodingError ''invalid challenge window'') else Inr ()))"

definition own_non_service :: "non_service_clause option \<Rightarrow> unit result" where
  "own_non_service n = (case n of None \<Rightarrow> Inr () | Some c \<Rightarrow>
     bindR (unsigned (nv_duration c) TERMS_U64 ''non-service duration'') (\<lambda>_.
     bindR (unsigned (nv_count c) 0xffffffff ''non-service count'') (\<lambda>_.
     unsigned (nv_window c) TERMS_U64 ''non-service window'')))"

definition own_thing :: "jstring \<Rightarrow> bytes result" where
  "own_thing thing =
     (if length thing = 0 \<or> length thing > 1024 \<or> \<not> isWellFormed thing then Inl (EncodingError ''invalid payout thing'')
      else let thingBytes = utf8_encode thing in
        if length thingBytes > 1024 then Inl (EncodingError ''payout thing too long'') else Inr thingBytes)"

definition clause_count :: "root_terms \<Rightarrow> int" where
  "clause_count t = 2 + of_bool (rt_silence t \<noteq> None) + of_bool (rt_replacementRule t \<noteq> None) + of_bool (rt_nonService t \<noteq> None)"

definition terms_writes :: "profile \<Rightarrow> root_terms \<Rightarrow> bytes \<Rightarrow> bytes \<Rightarrow> writer list" where
  "terms_writes p t thingBytes perUnit =
     [w_fixed TERMS_MAGIC 4 ''magic'', w_u8 1, w_u8 1, w_key32 (rt_obligor t) ''obligor'',
      w_u8 1, w_lengthPrefixed thingBytes, w_i8 (py_quantumExponent (rt_payout t)), w_lengthPrefixed perUnit, w_u32 0,
      w_u8 5, w_key32 (rt_operator t) ''operator'', w_u32 (clause_count t)] @
     (case rt_silence t of Some s \<Rightarrow> if pf_silenceTag p = 1
        then [w_u8 1, w_u64 (sl_noCommitmentDuration s), w_u64 (case sl_challengeWindow s of None \<Rightarrow> - 1 | Some w \<Rightarrow> w)] else [] | None \<Rightarrow> []) @
     [w_u8 2, w_key32 (rt_venue t) ''venue'', w_u64 (rt_interval t)] @
     (case rt_replacementRule t of Some k \<Rightarrow> [w_u8 3, w_key32 k ''replacement''] | None \<Rightarrow> []) @
     (case rt_nonService t of Some n \<Rightarrow> [w_u8 4, w_u64 (nv_duration n), w_u32 (nv_count n), w_u64 (nv_window n)] | None \<Rightarrow> []) @
     [w_u8 5, w_lengthPrefixed (pf_construction p), w_key32 (rt_configuration t) ''configuration''] @
     (case rt_silence t of Some s \<Rightarrow> if pf_silenceTag p = 6 then [w_u8 6, w_u64 (sl_noCommitmentDuration s)] else [] | None \<Rightarrow> [])"

definition encodeTerms :: "crypto \<Rightarrow> profile \<Rightarrow> root_terms \<Rightarrow> bytes result" where
  "encodeTerms C p t =
     bindR (terms_key C (rt_obligor t) ''obligor'') (\<lambda>_.
     bindR (terms_key C (rt_operator t) ''operator'') (\<lambda>_.
     bindR (terms_own (rt_configuration t) 32 ''configuration'' True) (\<lambda>_.
     bindR (terms_own (rt_venue t) 32 ''venue'' True) (\<lambda>_.
     bindR (own_thing (py_thing (rt_payout t))) (\<lambda>thingBytes.
     if py_quantumExponent (rt_payout t) < -128 \<or> py_quantumExponent (rt_payout t) > 127 then Inl (EncodingError ''invalid quantum exponent'')
     else bindR (validateQuantity (py_perUnit (rt_payout t)) ''payout per unit'') (\<lambda>_.
     bindR (unsigned (rt_interval t) TERMS_U64 ''witness interval'') (\<lambda>_.
     bindR (own_silence p (rt_silence t)) (\<lambda>_.
     bindR (case rt_replacementRule t of None \<Rightarrow> Inr () | Some k \<Rightarrow> mapR (\<lambda>_. ()) (terms_key C k ''replacement'')) (\<lambda>_.
     bindR (own_non_service (rt_nonService t)) (\<lambda>_.
     bindR (bigintToMinimalBytes (py_perUnit (rt_payout t))) (\<lambda>perUnit.
     written (terms_writes p t thingBytes perUnit))))))))))))"

subsection \<open>The decoder\<close>

record clauses =
  cl_venue :: "bytes option"
  cl_interval :: "int option"
  cl_configuration :: "bytes option"
  cl_silence :: "silence_clause option"
  cl_replacementRule :: "bytes option"
  cl_nonService :: "non_service_clause option"

definition no_clauses :: clauses where
  "no_clauses = \<lparr>cl_venue = None, cl_interval = None, cl_configuration = None, cl_silence = None, cl_replacementRule = None,
     cl_nonService = None\<rparr>"

definition refuse :: "string \<Rightarrow> 'a read" where
  "refuse what = liftP (Inl (EncodingError what))"

text \<open>The payload of one clause, by its tag.\<close>

definition read_clause :: "profile \<Rightarrow> int \<Rightarrow> clauses \<Rightarrow> clauses read" where
  "read_clause p tg c =
     (if tg = 1 then if pf_silenceTag p \<noteq> 1 then refuse ''unsupported clause''
        else bindP r_u64 (\<lambda>d. bindP r_u64 (\<lambda>w.
          returnP (c\<lparr>cl_silence := Some \<lparr>sl_noCommitmentDuration = d, sl_challengeWindow = Some w\<rparr>\<rparr>)))
      else if tg = 2 then bindP (r_raw 32) (\<lambda>v. bindP r_u64 (\<lambda>i. returnP (c\<lparr>cl_venue := Some v, cl_interval := Some i\<rparr>)))
      else if tg = 3 then bindP (r_raw 32) (\<lambda>k. returnP (c\<lparr>cl_replacementRule := Some k\<rparr>))
      else if tg = 4 then bindP r_u64 (\<lambda>d. bindP r_u32 (\<lambda>n. bindP r_u64 (\<lambda>w.
          returnP (c\<lparr>cl_nonService := Some \<lparr>nv_duration = d, nv_count = n, nv_window = w\<rparr>\<rparr>))))
      else if tg = 5 then bindP (r_lengthPrefixed (int (length (pf_construction p)))) (\<lambda>name.
          if compareBytes name (pf_construction p) \<noteq> 0 then refuse ''unsupported construction''
          else bindP (r_raw 32) (\<lambda>g. returnP (c\<lparr>cl_configuration := Some g\<rparr>)))
      else if tg = 6 then if pf_silenceTag p \<noteq> 6 then refuse ''unsupported clause''
        else bindP r_u64 (\<lambda>d. returnP (c\<lparr>cl_silence := Some \<lparr>sl_noCommitmentDuration = d, sl_challengeWindow = None\<rparr>\<rparr>))
      else refuse ''unsupported clause'')"

fun clause_loop :: "profile \<Rightarrow> nat \<Rightarrow> int \<Rightarrow> clauses \<Rightarrow> clauses read" where
  "clause_loop p 0 previous c = returnP c"
| "clause_loop p (Suc n) previous c = bindP r_u8 (\<lambda>tg.
     if tg \<le> previous then refuse ''noncanonical clause order''
     else bindP (read_clause p tg c) (\<lambda>c'. clause_loop p n tg c'))"

definition read_payout :: "payout read" where
  "read_payout = bindP (r_lengthPrefixed 1024) (\<lambda>thingBytes.
     case utf8_decode thingBytes of None \<Rightarrow> refuse ''invalid payout UTF-8''
     | Some thing \<Rightarrow> bindP r_i8 (\<lambda>e. bindP (r_lengthPrefixed MAX_QUANTITY_BYTES) (\<lambda>q. bindP (liftP (minimalBytesToBigint q)) (\<lambda>n.
         returnP \<lparr>py_thing = thing, py_quantumExponent = e, py_perUnit = n\<rparr>))))"

definition expect :: "int read \<Rightarrow> int \<Rightarrow> string \<Rightarrow> unit read" where
  "expect q n what = bindP q (\<lambda>m. if m \<noteq> n then refuse what else returnP ())"

definition read_head :: "(bytes \<times> payout \<times> bytes \<times> int) read" where
  "read_head = bindP (r_raw 4) (\<lambda>magic. if compareBytes magic TERMS_MAGIC \<noteq> 0 then refuse ''unsupported root terms prefix''
     else bindP (expect r_u8 1 ''unsupported root terms prefix'') (\<lambda>_.
       bindP (expect r_u8 1 ''unsupported root terms prefix'') (\<lambda>_.
       bindP (r_raw 32) (\<lambda>obligor. bindP (expect r_u8 1 ''unsupported payout'') (\<lambda>_.
       bindP read_payout (\<lambda>pay. bindP (expect r_u32 0 ''unsupported reliance'') (\<lambda>_.
       bindP (expect r_u8 5 ''unsupported evidence'') (\<lambda>_. bindP (r_raw 32) (\<lambda>operator. bindP r_u32 (\<lambda>count.
       if count < 2 \<or> count > 5 then refuse ''invalid clause count'' else returnP (obligor, pay, operator, count)))))))))))"

definition read_terms :: "profile \<Rightarrow> (bytes \<times> payout \<times> bytes \<times> clauses) read" where
  "read_terms p = bindP read_head (\<lambda>(obligor, pay, operator, count).
     bindP (clause_loop p (nat count) 0 no_clauses) (\<lambda>c. returnP (obligor, pay, operator, c)))"

definition terms_of :: "bytes \<times> payout \<times> bytes \<times> clauses \<Rightarrow> root_terms result" where
  "terms_of = (\<lambda>(obligor, pay, operator, c). case (cl_venue c, cl_interval c, cl_configuration c) of
     (Some v, Some i, Some g) \<Rightarrow> Inr \<lparr>rt_obligor = obligor, rt_payout = pay, rt_operator = operator, rt_configuration = g, rt_venue = v,
       rt_interval = i, rt_silence = cl_silence c, rt_replacementRule = cl_replacementRule c, rt_nonService = cl_nonService c\<rparr>
   | _ \<Rightarrow> Inl (EncodingError ''missing required clause''))"

definition decodeTerms :: "crypto \<Rightarrow> profile \<Rightarrow> bytes \<Rightarrow> root_terms result" where
  "decodeTerms C p bs = bindR (terms_own bs (pf_maxBytes p) ''root terms'' False) (\<lambda>own.
     decoded_by (bindP (read_terms p) (\<lambda>parts. bindP r_expectEnd (\<lambda>_.
       bindP (liftP (terms_of parts)) (\<lambda>t. bindP (liftP (encodeTerms C p t)) (\<lambda>_. returnP t))))) own)"

subsection \<open>Names and signatures\<close>

definition termsName :: "crypto \<Rightarrow> profile \<Rightarrow> bytes \<Rightarrow> bytes result" where
  "termsName C p bs = bindR (terms_own bs (pf_maxBytes p) ''root terms'' False) (\<lambda>own.
     bindR (decodeTerms C p own) (\<lambda>_. Inr (sha256 C own)))"

definition signatureMessage :: "bytes \<Rightarrow> bytes result" where
  "signatureMessage name = written [w_context BACKING_SIGNATURE_CONTEXT, w_key32 name ''backing name'']"

definition verifyTermsSignature :: "crypto \<Rightarrow> profile \<Rightarrow> bytes \<Rightarrow> bytes \<Rightarrow> bool result" where
  "verifyTermsSignature C p bs signature = catchEncoding (
     bindR (terms_own bs (pf_maxBytes p) ''root terms'' False) (\<lambda>own.
     bindR (terms_own signature 64 ''signature'' True) (\<lambda>sig.
     bindR (decodeTerms C p own) (\<lambda>t.
     bindR (signatureMessage (sha256 C own)) (\<lambda>m.
     Inr (verifySignatureStrict C sig m (rt_obligor t)))))))"

record terms_codec =
  tc_maxBytes :: int
  tc_encode :: "root_terms \<Rightarrow> bytes result"
  tc_decode :: "bytes \<Rightarrow> root_terms result"
  tc_name :: "bytes \<Rightarrow> bytes result"
  tc_signatureMessage :: "bytes \<Rightarrow> bytes result"
  tc_verify :: "bytes \<Rightarrow> bytes \<Rightarrow> bool result"

definition termsCodec :: "crypto \<Rightarrow> terms_profile \<Rightarrow> terms_codec result" where
  "termsCodec C tp = mapR (\<lambda>p. \<lparr>tc_maxBytes = pf_maxBytes p, tc_encode = encodeTerms C p, tc_decode = decodeTerms C p,
     tc_name = termsName C p, tc_signatureMessage = (\<lambda>bs. bindR (termsName C p bs) signatureMessage),
     tc_verify = verifyTermsSignature C p\<rparr>) (profileOf tp)"

definition text_units :: "string \<Rightarrow> jstring" where
  "text_units s = map (\<lambda>c. word_of_int (int (of_char c))) s"

definition V3_TERMS :: "crypto \<Rightarrow> terms_codec result" where
  "V3_TERMS C = termsCodec C \<lparr>tp_construction = text_units ''moe/pool/v3'', tp_silenceTag = 1\<rparr>"

definition LIT_TERMS :: "crypto \<Rightarrow> terms_codec result" where
  "LIT_TERMS C = termsCodec C \<lparr>tp_construction = text_units ''moe/lit/v1'', tp_silenceTag = 6\<rparr>"

definition MAX_ROOT_TERMS_BYTES :: int where
  "MAX_ROOT_TERMS_BYTES = 1305"

subsection \<open>Signed bytes\<close>

lemma be_bytes_1_cong: "[(word_of_int e :: byte)] = be_bytes 1 n \<longleftrightarrow> e mod 256 = n mod 256"
  by (simp add: be_bytes_1 word_of_int_eq_iff take_bit_eq_mod)

lemma w_i8_conv [write_simps]: "w_i8 e out = Inr r \<longleftrightarrow> -128 \<le> e \<and> e \<le> 127 \<and> r = out @ be_bytes 1 (e mod 256)"
  by (auto simp: w_i8_def and_0xff be_bytes_1)

lemma r_i8_reads: "reads r_i8 (\<lambda>e. be_bytes 1 (e mod 256)) (\<lambda>e. -128 \<le> e \<and> e \<le> 127)"
proof (rule reads_splitI)
  fix pre rest e r'
  assume "r_i8 (reader_at pre rest) = Inr (e, r')"
  then obtain n where "0 \<le> n" "n < 256" and e: "e = (if n > 127 then n - 256 else n)"
    and "\<exists>rest'. rest = be_bytes 1 n @ rest' \<and> r' = reader_at (pre @ be_bytes 1 n) rest'"
    by (auto simp: r_i8_def read_simps simp del: be_bytes.simps One_nat_def)
  moreover have "e mod 256 = n" using \<open>0 \<le> n\<close> \<open>n < 256\<close> by (auto simp: e)
  ultimately show "(-128 \<le> e \<and> e \<le> 127) \<and> (\<exists>rest'. rest = be_bytes 1 (e mod 256) @ rest' \<and> r' = reader_at (pre @ be_bytes 1 (e mod 256)) rest')"
    by auto
next
  fix pre rest :: bytes and e :: int
  assume e: "-128 \<le> e \<and> e \<le> 127"
  have "e mod 256 = (if e < 0 then e + 256 else e)"
    using e mod_pos_pos_trivial [of "e + 256" 256] mod_pos_pos_trivial [of e 256] by (simp split: if_splits)
  then have "(if e mod 256 > 127 then e mod 256 - 256 else e mod 256) = e" using e by auto
  then show "r_i8 (reader_at pre (be_bytes 1 (e mod 256) @ rest)) = Inr (e, reader_at (pre @ be_bytes 1 (e mod 256)) rest)"
    by (simp add: r_i8_def run_simps del: be_bytes.simps One_nat_def)
qed

lemmas r_i8_conv [read_simps] = readsD [OF r_i8_reads]

lemma r_i8_run [run_simps]: "-128 \<le> e \<Longrightarrow> e \<le> 127 \<Longrightarrow>
    r_i8 (reader_at pre (be_bytes 1 (e mod 256) @ rest)) = Inr (e, reader_at (pre @ be_bytes 1 (e mod 256)) rest)"
  by (rule reads_run [OF r_i8_reads]) simp

subsection \<open>The clauses\<close>

text \<open>The payload a clause of each tag carries, where there is one, and the clauses above a tag.\<close>

definition clause_part :: "profile \<Rightarrow> clauses \<Rightarrow> int \<Rightarrow> bytes option" where
  "clause_part p c tg =
     (if tg = 1 then (if pf_silenceTag p = 1 then map_option (\<lambda>s. be_bytes 8 (sl_noCommitmentDuration s) @
          be_bytes 8 (the (sl_challengeWindow s))) (cl_silence c) else None)
      else if tg = 2 then (case (cl_venue c, cl_interval c) of (Some v, Some i) \<Rightarrow> Some (v @ be_bytes 8 i) | _ \<Rightarrow> None)
      else if tg = 3 then cl_replacementRule c
      else if tg = 4 then map_option (\<lambda>n. be_bytes 8 (nv_duration n) @ be_bytes 4 (nv_count n) @ be_bytes 8 (nv_window n)) (cl_nonService c)
      else if tg = 5 then map_option (\<lambda>g. be_bytes 4 (int (length (pf_construction p))) @ pf_construction p @ g) (cl_configuration c)
      else if tg = 6 then (if pf_silenceTag p = 6 then map_option (\<lambda>s. be_bytes 8 (sl_noCommitmentDuration s)) (cl_silence c) else None)
      else None)"

definition clause_enc :: "profile \<Rightarrow> clauses \<Rightarrow> int \<Rightarrow> bytes" where
  "clause_enc p c tg = (case clause_part p c tg of None \<Rightarrow> [] | Some b \<Rightarrow> be_bytes 1 tg @ b)"

definition clauses_above :: "profile \<Rightarrow> clauses \<Rightarrow> int \<Rightarrow> bytes" where
  "clauses_above p c k = concat (map (clause_enc p c) [k + 1..6])"

definition tags_above :: "profile \<Rightarrow> clauses \<Rightarrow> int \<Rightarrow> int list" where
  "tags_above p c k = filter (\<lambda>tg. clause_part p c tg \<noteq> None) [k + 1..6]"

definition profile_ok :: "profile \<Rightarrow> bool" where
  "profile_ok p \<longleftrightarrow> pf_construction p \<noteq> [] \<and> length (pf_construction p) \<le> 255 \<and> pf_silenceTag p \<in> {1, 6} \<and>
     pf_maxBytes p = 1294 + int (length (pf_construction p)) - (if pf_silenceTag p = 1 then 0 else 8)"

lemma profileOf_ok: "profileOf tp = Inr p \<Longrightarrow> profile_ok p"
  by (auto simp: profileOf_def profile_ok_def Let_def split: if_splits)

lemma refuse_conv [simp]: "refuse what r = Inr z \<longleftrightarrow> False"
  by (simp add: refuse_def liftP_conv)

lemma read_clause_result:
  assumes "profile_ok p" and "read_clause p tg c (reader_at pre rest) = Inr (c', r')"
  shows "1 \<le> tg \<and> tg \<le> 6 \<and> (\<exists>b rest'. clause_part p c' tg = Some b \<and> rest = b @ rest' \<and> r' = reader_at (pre @ b) rest')"
proof -
  have "int (length (pf_construction p)) < 2 ^ 32" using assms(1) by (simp add: profile_ok_def)
  moreover have "tg = 1 \<or> tg = 2 \<or> tg = 3 \<or> tg = 4 \<or> tg = 5 \<or> tg = 6"
    using assms(2) by (simp add: read_clause_def split: if_splits)
  ultimately show ?thesis using assms(2)
    by (elim disjE; clarsimp simp: read_clause_def read_simps clause_part_def simp del: be_bytes.simps split: if_splits)
qed

lemma read_clause_update:
  assumes "read_clause p tg c r = Inr (c', r')"
  shows "(\<exists>s. tg = 1 \<and> pf_silenceTag p = 1 \<and> c' = c\<lparr>cl_silence := Some s\<rparr>) \<or>
    (\<exists>v i. tg = 2 \<and> c' = c\<lparr>cl_venue := Some v, cl_interval := Some i\<rparr>) \<or> (\<exists>k. tg = 3 \<and> c' = c\<lparr>cl_replacementRule := Some k\<rparr>) \<or>
    (\<exists>n. tg = 4 \<and> c' = c\<lparr>cl_nonService := Some n\<rparr>) \<or> (\<exists>g. tg = 5 \<and> c' = c\<lparr>cl_configuration := Some g\<rparr>) \<or>
    (\<exists>s. tg = 6 \<and> pf_silenceTag p = 6 \<and> c' = c\<lparr>cl_silence := Some s\<rparr>)"
  using assms by (auto simp: read_clause_def bindP_conv returnP_conv split: if_splits)

lemma read_clause_others: "read_clause p tg c r = Inr (c', r') \<Longrightarrow> k \<noteq> tg \<Longrightarrow> clause_part p c' k = clause_part p c k"
  by (drule read_clause_update, elim disjE exE conjE) (simp_all add: clause_part_def)

lemma tags_split:
  assumes "k < tg" and "tg \<le> 6" and "\<forall>m. k < m \<and> m < tg \<longrightarrow> clause_part p c m = None" and "clause_part p c tg = Some b"
  shows "clauses_above p c k = be_bytes 1 tg @ b @ clauses_above p c tg" and "tags_above p c k = tg # tags_above p c tg"
proof -
  have l: "[k + 1..6] = [k + 1..tg - 1] @ tg # [tg + 1..6]"
    using upto_split3 [of "k + 1" tg 6] assms(1,2) by simp
  have n: "concat (map (clause_enc p c) [k + 1..tg - 1]) = []" using assms(3) by (simp add: clause_enc_def)
  show "clauses_above p c k = be_bytes 1 tg @ b @ clauses_above p c tg"
    unfolding clauses_above_def l map_append concat_append n by (simp add: clause_enc_def assms(4) del: be_bytes.simps One_nat_def)
  have f: "filter (\<lambda>tg. clause_part p c tg \<noteq> None) [k + 1..tg - 1] = []" using assms(3) by (auto simp: filter_empty_conv)
  show "tags_above p c k = tg # tags_above p c tg"
    unfolding tags_above_def l filter_append f by (simp add: assms(4))
qed

lemma clause_loop_sound:
  assumes "profile_ok p" and "clause_loop p n k c (reader_at pre rest) = Inr (c', r')" and "\<forall>m > k. clause_part p c m = None"
  shows "(\<forall>m \<le> k. clause_part p c' m = clause_part p c m) \<and> length (tags_above p c' k) = n \<and>
    (\<exists>rest'. rest = clauses_above p c' k @ rest' \<and> r' = reader_at (pre @ clauses_above p c' k) rest')"
  using assms(2,3)
proof (induction n arbitrary: k c pre rest)
  case 0
  then have "c' = c" "r' = reader_at pre rest" by (simp_all add: returnP_def)
  moreover have "clauses_above p c k = []" "tags_above p c k = []"
    using 0 by (auto simp: clauses_above_def tags_above_def clause_enc_def filter_empty_conv)
  ultimately show ?case by simp
next
  case (Suc n)
  from Suc.prems(1) obtain tg r0 where u: "r_u8 (reader_at pre rest) = Inr (tg, r0)"
    and q: "(if tg \<le> k then refuse ''noncanonical clause order'' else bindP (read_clause p tg c) (clause_loop p n tg)) r0 = Inr (c', r')"
    unfolding clause_loop.simps(2) by (rule bindP_E)
  from u obtain rest1 where rest: "rest = be_bytes 1 tg @ rest1" and r0: "r0 = reader_at (pre @ be_bytes 1 tg) rest1"
    unfolding r_u8_conv by blast
  from q have tg: "k < tg" by (simp split: if_splits)
  with q have "bindP (read_clause p tg c) (clause_loop p n tg) r0 = Inr (c', r')" by simp
  then obtain c1 r1 where r1: "read_clause p tg c (reader_at (pre @ be_bytes 1 tg) rest1) = Inr (c1, r1)"
    and l: "clause_loop p n tg c1 r1 = Inr (c', r')" unfolding r0 by (rule bindP_E)
  from read_clause_result [OF assms(1) r1] obtain b rest2 where b: "tg \<le> 6" "clause_part p c1 tg = Some b" "rest1 = b @ rest2"
    and r1': "r1 = reader_at ((pre @ be_bytes 1 tg) @ b) rest2" by auto
  have o: "\<forall>m. m \<noteq> tg \<longrightarrow> clause_part p c1 m = clause_part p c m" using read_clause_others [OF r1] by blast
  have "\<forall>m > tg. clause_part p c1 m = None" using o Suc.prems(2) tg by simp
  from Suc.IH [OF l [unfolded r1'] this] obtain rest' where ih: "\<forall>m \<le> tg. clause_part p c' m = clause_part p c1 m"
    "length (tags_above p c' tg) = n" "rest2 = clauses_above p c' tg @ rest'"
    "r' = reader_at (((pre @ be_bytes 1 tg) @ b) @ clauses_above p c' tg) rest'" by auto
  have "clause_part p c' tg = Some b" using ih(1) b(2) by simp
  moreover have "\<forall>m. k < m \<and> m < tg \<longrightarrow> clause_part p c' m = None" using ih(1) o Suc.prems(2) by simp
  moreover have "\<forall>m \<le> k. clause_part p c' m = clause_part p c m" using ih(1) o tg by simp
  ultimately show ?case using tags_split [of k tg p c' b] tg rest b ih by simp
qed

subsection \<open>What the encoder writes\<close>

definition clauses_of :: "root_terms \<Rightarrow> clauses" where
  "clauses_of t = \<lparr>cl_venue = Some (rt_venue t), cl_interval = Some (rt_interval t), cl_configuration = Some (rt_configuration t),
     cl_silence = rt_silence t, cl_replacementRule = rt_replacementRule t, cl_nonService = rt_nonService t\<rparr>"

definition u64_ok :: "int \<Rightarrow> bool" where
  "u64_ok n \<longleftrightarrow> 0 \<le> n \<and> n < 2 ^ 64"

definition thing_ok :: "jstring \<Rightarrow> bool" where
  "thing_ok s \<longleftrightarrow> s \<noteq> [] \<and> length s \<le> 1024 \<and> isWellFormed s \<and> length (utf8_encode s) \<le> 1024"

definition payout_ok :: "payout \<Rightarrow> bool" where
  "payout_ok y \<longleftrightarrow> thing_ok (py_thing y) \<and> -128 \<le> py_quantumExponent y \<and> py_quantumExponent y \<le> 127 \<and> isValidQuantity (py_perUnit y)"

definition silence_ok :: "profile \<Rightarrow> silence_clause option \<Rightarrow> bool" where
  "silence_ok p s \<longleftrightarrow> (case s of None \<Rightarrow> True | Some c \<Rightarrow> u64_ok (sl_noCommitmentDuration c) \<and>
     (case sl_challengeWindow c of None \<Rightarrow> pf_silenceTag p \<noteq> 1 | Some w \<Rightarrow> pf_silenceTag p = 1 \<and> u64_ok w))"

definition non_service_ok :: "non_service_clause option \<Rightarrow> bool" where
  "non_service_ok n \<longleftrightarrow> (case n of None \<Rightarrow> True | Some c \<Rightarrow> u64_ok (nv_duration c) \<and> 0 \<le> nv_count c \<and> nv_count c < 2 ^ 32 \<and> u64_ok (nv_window c))"

definition terms_ok :: "crypto \<Rightarrow> profile \<Rightarrow> root_terms \<Rightarrow> bool" where
  "terms_ok C p t \<longleftrightarrow> isValidPublicKey C (rt_obligor t) \<and> isValidPublicKey C (rt_operator t) \<and> length (rt_configuration t) = 32 \<and>
     length (rt_venue t) = 32 \<and> payout_ok (rt_payout t) \<and> u64_ok (rt_interval t) \<and> silence_ok p (rt_silence t) \<and>
     (case rt_replacementRule t of None \<Rightarrow> True | Some k \<Rightarrow> isValidPublicKey C k) \<and> non_service_ok (rt_nonService t)"

definition counted :: "bytes \<Rightarrow> bytes" where
  "counted bs = be_bytes 4 (int (length bs)) @ bs"

definition quantity_enc :: "int \<Rightarrow> bytes" where
  "quantity_enc n = be_bytes (byte_count n) n"

definition payout_enc :: "payout \<Rightarrow> bytes" where
  "payout_enc y = counted (utf8_encode (py_thing y)) @ be_bytes 1 (py_quantumExponent y mod 256) @ counted (quantity_enc (py_perUnit y))"

definition terms_enc :: "profile \<Rightarrow> root_terms \<Rightarrow> bytes" where
  "terms_enc p t = TERMS_MAGIC @ be_bytes 1 1 @ be_bytes 1 1 @ rt_obligor t @ be_bytes 1 1 @ payout_enc (rt_payout t) @ be_bytes 4 0 @
     be_bytes 1 5 @ rt_operator t @ be_bytes 4 (clause_count t) @ clauses_above p (clauses_of t) 0"

lemma terms_own_conv: "terms_own bs limit what exact = Inr x \<longleftrightarrow> int (length bs) \<le> limit \<and> (exact \<longrightarrow> int (length bs) = limit) \<and> x = bs"
  by (auto simp: terms_own_def)

lemma isValidPublicKey_width: "isValidPublicKey C key \<Longrightarrow> length key = 32"
  by (simp add: isValidPublicKey_def KEY_LENGTH_def split: if_splits)

lemma terms_key_conv: "terms_key C bs what = Inr x \<longleftrightarrow> isValidPublicKey C bs \<and> x = bs"
  by (auto simp: terms_key_def bindR_Inr_conv terms_own_conv dest: isValidPublicKey_width)

lemma unsigned_conv: "unsigned v limit what = Inr u \<longleftrightarrow> 0 \<le> v \<and> v \<le> limit"
  by (auto simp: unsigned_def)

lemma TERMS_U64_conv: "v \<le> TERMS_U64 \<longleftrightarrow> v < 2 ^ 64"
  by (auto simp: TERMS_U64_def push_bit_eq_mult)

lemma own_silence_conv: "own_silence p s = Inr u \<longleftrightarrow> silence_ok p s"
  by (auto simp: own_silence_def silence_ok_def bindR_Inr_conv unsigned_conv TERMS_U64_conv u64_ok_def split: option.splits)

lemma own_non_service_conv: "own_non_service n = Inr u \<longleftrightarrow> non_service_ok n"
  by (auto simp: own_non_service_def non_service_ok_def bindR_Inr_conv unsigned_conv TERMS_U64_conv u64_ok_def split: option.splits)

lemma own_thing_conv: "own_thing s = Inr x \<longleftrightarrow> thing_ok s \<and> x = utf8_encode s"
  by (auto simp: own_thing_def thing_ok_def Let_def)

lemma length_magic: "length TERMS_MAGIC = 4"
  by code_simp

lemma quantity_bytes: "isValidQuantity n \<Longrightarrow> bigintToMinimalBytes n = Inr (quantity_enc n) \<and> length (quantity_enc n) \<le> 32"
proof -
  assume q: "isValidQuantity n"
  then have n: "1 \<le> n" "n < 256 ^ 32" by (auto simp: isValidQuantity_def MAX_QUANTITY_EXCLUSIVE_def MAX_QUANTITY_BYTES_def push_bit_eq_mult)
  then have b: "0 < byte_count n" "256 ^ (byte_count n - 1) \<le> n" using byte_count_bounds [of n] by auto
  then have "(256 :: int) ^ (byte_count n - 1) < 256 ^ 32" using n(2) by linarith
  then have "byte_count n - 1 < 32" by (rule power_less_imp_less_exp [rotated]) simp
  then show ?thesis using n(1) by (simp add: bigintToMinimalBytes_conv quantity_enc_def)
qed

lemma clauses_above_0: "clauses_above p c 0 = clause_enc p c 1 @ clause_enc p c 2 @ clause_enc p c 3 @ clause_enc p c 4 @ clause_enc p c 5 @ clause_enc p c 6"
proof -
  have "[0 + 1..6] = [1, 2, 3, 4, 5, 6 :: int]" by code_simp
  then show ?thesis by (simp add: clauses_above_def)
qed

definition runs :: "writer list \<Rightarrow> bytes \<Rightarrow> bool" where
  "runs ws b \<longleftrightarrow> (\<forall>out. run_writes ws out = Inr (out @ b))"

lemma runs_append: "runs us a \<Longrightarrow> runs ws b \<Longrightarrow> runs (us @ ws) (a @ b)"
  by (simp add: runs_def run_writes_append)

lemma terms_writes_conv:
  assumes "profile_ok p" and "terms_ok C p t"
  shows "written (terms_writes p t (utf8_encode (py_thing (rt_payout t))) (quantity_enc (py_perUnit (rt_payout t)))) = Inr (terms_enc p t)"
proof -
  let ?thing = "utf8_encode (py_thing (rt_payout t))" and ?q = "quantity_enc (py_perUnit (rt_payout t))"
  have th: "int (length ?thing) < 2 ^ 32" using assms(2) by (auto simp: terms_ok_def payout_ok_def thing_ok_def)
  have q: "int (length ?q) < 2 ^ 32"
    using assms(2) quantity_bytes [of "py_perUnit (rt_payout t)"] by (simp add: terms_ok_def payout_ok_def)
  have nm: "int (length (pf_construction p)) < 2 ^ 32" using assms(1) by (simp add: profile_ok_def)
  have e: "-128 \<le> py_quantumExponent (rt_payout t)" "py_quantumExponent (rt_payout t) \<le> 127"
    using assms(2) by (simp_all add: terms_ok_def payout_ok_def)
  have c: "0 \<le> clause_count t" "clause_count t < 2 ^ 32" by (simp_all add: clause_count_def)
  have k: "length (rt_obligor t) = 32" "length (rt_operator t) = 32" "length (rt_configuration t) = 32" "length (rt_venue t) = 32"
    using assms(2) by (auto simp: terms_ok_def dest: isValidPublicKey_width)
  have r: "\<And>key. rt_replacementRule t = Some key \<Longrightarrow> length key = 32"
    using assms(2) by (auto simp: terms_ok_def dest: isValidPublicKey_width)
  have u: "u64_ok (rt_interval t)" "silence_ok p (rt_silence t)" "non_service_ok (rt_nonService t)" using assms(2) by (simp_all add: terms_ok_def)
  have tg: "pf_silenceTag p = 1 \<or> pf_silenceTag p = 6" using assms(1) by (auto simp: profile_ok_def)
  let ?c = "clauses_of t"
  have "runs [w_fixed TERMS_MAGIC 4 ''magic'', w_u8 1, w_u8 1, w_key32 (rt_obligor t) ''obligor'', w_u8 1, w_lengthPrefixed ?thing,
      w_i8 (py_quantumExponent (rt_payout t)), w_lengthPrefixed ?q, w_u32 0, w_u8 5, w_key32 (rt_operator t) ''operator'', w_u32 (clause_count t)]
    (TERMS_MAGIC @ be_bytes 1 1 @ be_bytes 1 1 @ rt_obligor t @ be_bytes 1 1 @ payout_enc (rt_payout t) @ be_bytes 4 0 @
     be_bytes 1 5 @ rt_operator t @ be_bytes 4 (clause_count t))"
    using th q e c k by (simp add: runs_def write_simps bindR_Inr_conv length_magic payout_enc_def counted_def del: be_bytes.simps One_nat_def)
  moreover have "runs (case rt_silence t of Some s \<Rightarrow> if pf_silenceTag p = 1
      then [w_u8 1, w_u64 (sl_noCommitmentDuration s), w_u64 (case sl_challengeWindow s of None \<Rightarrow> - 1 | Some w \<Rightarrow> w)] else [] | None \<Rightarrow> []) (clause_enc p ?c 1)"
    using u(2) by (auto simp: runs_def write_simps bindR_Inr_conv clause_enc_def clause_part_def clauses_of_def silence_ok_def u64_ok_def
        simp del: be_bytes.simps One_nat_def split: option.splits)
  moreover have "runs [w_u8 2, w_key32 (rt_venue t) ''venue'', w_u64 (rt_interval t)] (clause_enc p ?c 2)"
    using u(1) k by (simp add: runs_def write_simps bindR_Inr_conv clause_enc_def clause_part_def clauses_of_def u64_ok_def del: be_bytes.simps One_nat_def)
  moreover have "runs (case rt_replacementRule t of Some k \<Rightarrow> [w_u8 3, w_key32 k ''replacement''] | None \<Rightarrow> []) (clause_enc p ?c 3)"
    using r by (auto simp: runs_def write_simps bindR_Inr_conv clause_enc_def clause_part_def clauses_of_def simp del: be_bytes.simps One_nat_def
        split: option.splits)
  moreover have "runs (case rt_nonService t of Some n \<Rightarrow> [w_u8 4, w_u64 (nv_duration n), w_u32 (nv_count n), w_u64 (nv_window n)] | None \<Rightarrow> []) (clause_enc p ?c 4)"
    using u(3) by (auto simp: runs_def write_simps bindR_Inr_conv clause_enc_def clause_part_def clauses_of_def non_service_ok_def u64_ok_def
        simp del: be_bytes.simps One_nat_def split: option.splits)
  moreover have "runs [w_u8 5, w_lengthPrefixed (pf_construction p), w_key32 (rt_configuration t) ''configuration''] (clause_enc p ?c 5)"
    using nm k by (simp add: runs_def write_simps bindR_Inr_conv clause_enc_def clause_part_def clauses_of_def del: be_bytes.simps One_nat_def)
  moreover have "runs (case rt_silence t of Some s \<Rightarrow> if pf_silenceTag p = 6 then [w_u8 6, w_u64 (sl_noCommitmentDuration s)] else [] | None \<Rightarrow> [])
      (clause_enc p ?c 6)"
    using u(2) by (auto simp: runs_def write_simps bindR_Inr_conv clause_enc_def clause_part_def clauses_of_def silence_ok_def u64_ok_def
        simp del: be_bytes.simps One_nat_def split: option.splits)
  ultimately have "runs (terms_writes p t ?thing ?q) (terms_enc p t)"
    unfolding terms_writes_def terms_enc_def clauses_above_0 append_assoc [symmetric] by (intro runs_append)
  then show ?thesis by (simp add: runs_def written_conv)
qed

lemma encodeTerms_conv:
  assumes "profile_ok p"
  shows "encodeTerms C p t = Inr bs \<longleftrightarrow> terms_ok C p t \<and> bs = terms_enc p t"
proof -
  have "encodeTerms C p t = Inr bs \<longleftrightarrow> terms_ok C p t \<and>
      written (terms_writes p t (utf8_encode (py_thing (rt_payout t))) (quantity_enc (py_perUnit (rt_payout t)))) = Inr bs"
    using quantity_bytes [of "py_perUnit (rt_payout t)"]
    by (auto simp: encodeTerms_def terms_ok_def payout_ok_def bindR_Inr_conv terms_key_conv terms_own_conv own_thing_conv unsigned_conv
        TERMS_U64_conv u64_ok_def own_silence_conv own_non_service_conv validateQuantity_def requireR_Inr mapR_Inr_conv split: option.splits)
  then show ?thesis using terms_writes_conv [OF assms] by auto
qed

subsection \<open>The decoder reads what the encoder writes\<close>

text \<open>The clauses read so far, up to a tag.\<close>

definition clauses_upto :: "profile \<Rightarrow> root_terms \<Rightarrow> int \<Rightarrow> clauses" where
  "clauses_upto p t k = \<lparr>cl_venue = if 2 \<le> k then Some (rt_venue t) else None, cl_interval = if 2 \<le> k then Some (rt_interval t) else None,
     cl_configuration = if 5 \<le> k then Some (rt_configuration t) else None, cl_silence = if pf_silenceTag p \<le> k then rt_silence t else None,
     cl_replacementRule = if 3 \<le> k then rt_replacementRule t else None, cl_nonService = if 4 \<le> k then rt_nonService t else None\<rparr>"

lemma clause_step:
  assumes "profile_ok p" and "terms_ok C p t" and "1 \<le> tg" and "tg \<le> 6"
  shows "case clause_part p (clauses_of t) tg of None \<Rightarrow> clauses_upto p t tg = clauses_upto p t (tg - 1)
    | Some b \<Rightarrow> read_clause p tg (clauses_upto p t (tg - 1)) (reader_at pre (b @ rest)) = Inr (clauses_upto p t tg, reader_at (pre @ b) rest)"
proof -
  have "tg = 1 \<or> tg = 2 \<or> tg = 3 \<or> tg = 4 \<or> tg = 5 \<or> tg = 6" using assms(3,4) by presburger
  moreover have "pf_silenceTag p = 1 \<or> pf_silenceTag p = 6" using assms(1) by (auto simp: profile_ok_def)
  moreover have "int (length (pf_construction p)) < 2 ^ 32" using assms(1) by (simp add: profile_ok_def)
  moreover have "length (rt_configuration t) = 32" "length (rt_venue t) = 32" "u64_ok (rt_interval t)" "silence_ok p (rt_silence t)"
    "non_service_ok (rt_nonService t)" and "\<And>key. rt_replacementRule t = Some key \<Longrightarrow> length key = 32"
    using assms(2) by (auto simp: terms_ok_def dest: isValidPublicKey_width)
  ultimately show ?thesis
    by (elim disjE) (auto simp: clause_part_def clauses_of_def clauses_upto_def read_clause_def run_simps u64_ok_def silence_ok_def non_service_ok_def
        split: option.splits)
qed

lemma clause_loop_run:
  assumes "profile_ok p" and "terms_ok C p t"
  shows "0 \<le> k \<Longrightarrow> k \<le> 6 \<Longrightarrow> j \<le> k \<Longrightarrow> clause_loop p (length (tags_above p (clauses_of t) k)) j (clauses_upto p t k)
      (reader_at pre (clauses_above p (clauses_of t) k @ rest)) = Inr (clauses_of t, reader_at (pre @ clauses_above p (clauses_of t) k) rest)"
proof (induction "nat (6 - k)" arbitrary: k j pre)
  case 0
  then have "k = 6" by simp
  moreover have "clauses_upto p t 6 = clauses_of t" using assms(1) by (auto simp: clauses_upto_def clauses_of_def profile_ok_def)
  ultimately show ?case by (simp add: tags_above_def clauses_above_def returnP_def)
next
  case (Suc n)
  let ?c = "clauses_of t" and ?tg = "k + 1"
  have tg: "1 \<le> ?tg" "?tg \<le> 6" using Suc.hyps(2) Suc.prems by linarith+
  have n: "n = nat (6 - ?tg)" using Suc.hyps(2) by linarith
  have l: "[k + 1..6] = ?tg # [?tg + 1..6]" using tg by (simp add: upto_rec1)
  show ?case
  proof (cases "clause_part p ?c ?tg")
    case None
    then have u: "clauses_upto p t ?tg = clauses_upto p t k" using clause_step [OF assms tg] by simp
    have "clauses_above p ?c k = clauses_above p ?c ?tg" "tags_above p ?c k = tags_above p ?c ?tg"
      by (simp_all add: clauses_above_def tags_above_def l clause_enc_def None)
    then show ?thesis using Suc.hyps(1) [OF n, of j pre] tg Suc.prems(3) by (simp add: u)
  next
    case (Some b)
    then have r: "read_clause p ?tg (clauses_upto p t k) (reader_at pre (b @ rest)) = Inr (clauses_upto p t ?tg, reader_at (pre @ b) rest)" for pre rest
      using clause_step [OF assms tg] by simp
    have none: "\<forall>m. k < m \<and> m < ?tg \<longrightarrow> clause_part p ?c m = None" by auto
    have s: "clauses_above p ?c k = be_bytes 1 ?tg @ b @ clauses_above p ?c ?tg" "tags_above p ?c k = ?tg # tags_above p ?c ?tg"
      using tags_split [OF _ tg(2) none Some] by simp_all
    have "r_u8 (reader_at pre (be_bytes 1 ?tg @ x)) = Inr (?tg, reader_at (pre @ be_bytes 1 ?tg) x)" for x
      by (rule r_u8_run) (use tg in simp_all)
    then show ?thesis using Suc.hyps(1) [OF n, of ?tg "pre @ be_bytes 1 ?tg @ b"] tg Suc.prems(3)
      by (simp add: s r bindP_run del: be_bytes.simps One_nat_def)
  qed
qed

lemma clause_count_tags:
  assumes "profile_ok p"
  shows "int (length (tags_above p (clauses_of t) 0)) = clause_count t"
proof -
  have l: "[0 + 1..6] = [1, 2, 3, 4, 5, 6 :: int]" by code_simp
  show ?thesis using assms unfolding tags_above_def l
    by (cases "rt_silence t"; cases "rt_replacementRule t"; cases "rt_nonService t")
      (auto simp: clause_part_def clauses_of_def clause_count_def profile_ok_def)
qed

lemma payout_reads: "reads read_payout payout_enc (\<lambda>y. isWellFormed (py_thing y) \<and> length (utf8_encode (py_thing y)) \<le> 1024 \<and>
    -128 \<le> py_quantumExponent y \<and> py_quantumExponent y \<le> 127 \<and> 0 \<le> py_perUnit y \<and> length (quantity_enc (py_perUnit y)) \<le> 32)"
proof (rule reads_splitI)
  fix pre rest y r'
  assume "read_payout (reader_at pre rest) = Inr (y, r')"
  then obtain bs r1 where bs: "r_lengthPrefixed 1024 (reader_at pre rest) = Inr (bs, r1)"
    and q: "(case utf8_decode bs of None \<Rightarrow> refuse ''invalid payout UTF-8'' | Some thing \<Rightarrow> bindP r_i8 (\<lambda>e. bindP (r_lengthPrefixed MAX_QUANTITY_BYTES)
      (\<lambda>q. bindP (liftP (minimalBytesToBigint q)) (\<lambda>n. returnP \<lparr>py_thing = thing, py_quantumExponent = e, py_perUnit = n\<rparr>)))) r1 = Inr (y, r')"
    unfolding read_payout_def by (rule bindP_E)
  from bs obtain x where x: "length bs \<le> 1024" "rest = be_bytes 4 (int (length bs)) @ bs @ x"
    "r1 = reader_at (pre @ be_bytes 4 (int (length bs)) @ bs) x" by (auto simp: r_lengthPrefixed_conv)
  from q obtain th where th: "utf8_decode bs = Some th" by (auto split: option.splits)
  then have w: "isWellFormed th" "bs = utf8_encode th" by (simp_all add: utf8_coders)
  show "(isWellFormed (py_thing y) \<and> length (utf8_encode (py_thing y)) \<le> 1024 \<and> -128 \<le> py_quantumExponent y \<and> py_quantumExponent y \<le> 127 \<and>
      0 \<le> py_perUnit y \<and> length (quantity_enc (py_perUnit y)) \<le> 32) \<and> (\<exists>rest'. rest = payout_enc y @ rest' \<and> r' = reader_at (pre @ payout_enc y) rest')"
    using q x(1) unfolding th option.case x(3)
    by (auto simp: read_simps MAX_QUANTITY_BYTES_def minimalBytesToBigint_conv bigintToMinimalBytes_conv x(2) w
        payout_enc_def counted_def quantity_enc_def simp del: be_bytes.simps One_nat_def)
next
  fix pre rest and y :: payout
  assume y: "isWellFormed (py_thing y) \<and> length (utf8_encode (py_thing y)) \<le> 1024 \<and> -128 \<le> py_quantumExponent y \<and> py_quantumExponent y \<le> 127 \<and>
      0 \<le> py_perUnit y \<and> length (quantity_enc (py_perUnit y)) \<le> 32"
  have "utf8_decode (utf8_encode (py_thing y)) = Some (py_thing y)" using y by (simp add: utf8_coders)
  moreover have "minimalBytesToBigint (quantity_enc (py_perUnit y)) = Inr (py_perUnit y)"
    using y by (simp add: minimalBytesToBigint_conv bigintToMinimalBytes_conv quantity_enc_def)
  ultimately show "read_payout (reader_at pre (payout_enc y @ rest)) = Inr (y, reader_at (pre @ payout_enc y) rest)"
    using y by (simp add: read_payout_def payout_enc_def counted_def MAX_QUANTITY_BYTES_def run_simps del: be_bytes.simps One_nat_def)
qed

lemma expect_conv: "expect q n what r = Inr (u, r') \<longleftrightarrow> q r = Inr (n, r')"
  by (auto simp: expect_def bindP_conv returnP_conv split: if_splits)

lemma compare_conv: "(if compareBytes a b \<noteq> 0 then refuse what else q) r = Inr z \<longleftrightarrow> a = b \<and> q r = Inr z"
  by simp

text \<open>The whole frame: what \<open>read_terms\<close> consumes, and that it runs on every encoding.\<close>

definition frame_enc :: "profile \<Rightarrow> bytes \<Rightarrow> payout \<Rightarrow> bytes \<Rightarrow> clauses \<Rightarrow> bytes" where
  "frame_enc p ob pay oper c = TERMS_MAGIC @ be_bytes 1 1 @ be_bytes 1 1 @ ob @ be_bytes 1 1 @ payout_enc pay @ be_bytes 4 0 @
     be_bytes 1 5 @ oper @ be_bytes 4 (int (length (tags_above p c 0))) @ clauses_above p c 0"

lemma terms_enc_frame: "profile_ok p \<Longrightarrow> terms_enc p t = frame_enc p (rt_obligor t) (rt_payout t) (rt_operator t) (clauses_of t)"
  by (simp add: terms_enc_def frame_enc_def clause_count_tags)

definition head_enc :: "bytes \<Rightarrow> payout \<Rightarrow> bytes \<Rightarrow> int \<Rightarrow> bytes" where
  "head_enc ob pay oper n = TERMS_MAGIC @ be_bytes 1 1 @ be_bytes 1 1 @ ob @ be_bytes 1 1 @ payout_enc pay @ be_bytes 4 0 @ be_bytes 1 5 @
     oper @ be_bytes 4 n"

lemma read_head_sound:
  assumes "read_head (reader_at pre rest) = Inr ((ob, pay, oper, n), r')"
  shows "2 \<le> n \<and> n \<le> 5 \<and> (\<exists>x. rest = head_enc ob pay oper n @ x \<and> r' = reader_at (pre @ head_enc ob pay oper n) x)"
  using assms unfolding read_head_def bindP_conv compare_conv
  by (clarsimp simp: read_simps expect_conv readsD [OF payout_reads] length_magic head_enc_def simp del: be_bytes.simps One_nat_def split: if_splits)

lemma read_terms_parts:
  assumes "read_terms p r = Inr ((ob, pay, oper, c), r')"
  obtains n r1 where "read_head r = Inr ((ob, pay, oper, n), r1)" and "clause_loop p (nat n) 0 no_clauses r1 = Inr (c, r')"
  using assms by (auto simp: read_terms_def bindP_conv returnP_conv)

lemma read_terms_sound:
  assumes "profile_ok p" and "read_terms p (reader_at pre rest) = Inr ((ob, pay, oper, c), r')"
  shows "\<exists>rest'. rest = frame_enc p ob pay oper c @ rest' \<and> r' = reader_at (pre @ frame_enc p ob pay oper c) rest'"
proof -
  from assms(2) obtain n r1 where h: "read_head (reader_at pre rest) = Inr ((ob, pay, oper, n), r1)"
    and l: "clause_loop p (nat n) 0 no_clauses r1 = Inr (c, r')" by (rule read_terms_parts)
  from read_head_sound [OF h] obtain x where n: "2 \<le> n" and rest: "rest = head_enc ob pay oper n @ x"
    and r1: "r1 = reader_at (pre @ head_enc ob pay oper n) x" by blast
  have "\<forall>m > 0. clause_part p no_clauses m = None" by (simp add: clause_part_def no_clauses_def)
  from clause_loop_sound [OF assms(1) l [unfolded r1] this] have "length (tags_above p c 0) = nat n"
    "\<exists>rest'. x = clauses_above p c 0 @ rest' \<and> r' = reader_at ((pre @ head_enc ob pay oper n) @ clauses_above p c 0) rest'" by blast+
  then show ?thesis using n by (auto simp: rest frame_enc_def head_enc_def simp del: be_bytes.simps One_nat_def)
qed

lemma read_terms_run:
  assumes "profile_ok p" and "terms_ok C p t"
  shows "read_terms p (reader_at pre (terms_enc p t @ rest)) =
    Inr ((rt_obligor t, rt_payout t, rt_operator t, clauses_of t), reader_at (pre @ terms_enc p t) rest)"
proof -
  let ?h = "TERMS_MAGIC @ be_bytes 1 1 @ be_bytes 1 1 @ rt_obligor t @ be_bytes 1 1 @ payout_enc (rt_payout t) @ be_bytes 4 0 @ be_bytes 1 5 @
    rt_operator t @ be_bytes 4 (clause_count t)"
  have u: "clauses_upto p t 0 = no_clauses" using assms(1) by (auto simp: clauses_upto_def no_clauses_def profile_ok_def)
  have l: "clause_loop p (nat (clause_count t)) 0 no_clauses (reader_at p' (clauses_above p (clauses_of t) 0 @ rest)) =
      Inr (clauses_of t, reader_at (p' @ clauses_above p (clauses_of t) 0) rest)" for p'
    using clause_loop_run [OF assms, of 0 0 p' rest] unfolding u clause_count_tags [OF assms(1), symmetric] by simp
  have y: "read_payout (reader_at p' (payout_enc (rt_payout t) @ x)) = Inr (rt_payout t, reader_at (p' @ payout_enc (rt_payout t)) x)" for p' x
    by (rule reads_run [OF payout_reads])
      (use assms(2) quantity_bytes [of "py_perUnit (rt_payout t)"] in \<open>simp add: terms_ok_def payout_ok_def thing_ok_def isValidQuantity_def\<close>)
  have k: "int (length (rt_obligor t)) = 32" "int (length (rt_operator t)) = 32"
    using assms(2) by (auto simp: terms_ok_def dest: isValidPublicKey_width)
  have c: "2 \<le> clause_count t" "clause_count t \<le> 5" by (simp_all add: clause_count_def)
  have e: "expect q n what r = Inr ((), r')" if "q r = Inr (n, r')" for q n what r r'
    using that by (simp add: expect_conv)
  show ?thesis unfolding read_terms_def read_head_def terms_enc_def
    using k c by (simp add: run_simps expect_def length_magic y l del: be_bytes.simps One_nat_def)
qed

lemma length_clause_enc: "length (clause_enc p c tg) = (case clause_part p c tg of None \<Rightarrow> 0 | Some b \<Rightarrow> 1 + length b)"
  by (simp add: clause_enc_def split: option.splits)

lemma terms_length:
  assumes "profile_ok p" and "terms_ok C p t"
  shows "int (length (terms_enc p t)) \<le> pf_maxBytes p"
proof -
  have k: "length (rt_obligor t) = 32" "length (rt_operator t) = 32" "length (rt_configuration t) = 32" "length (rt_venue t) = 32"
    using assms(2) by (auto simp: terms_ok_def dest: isValidPublicKey_width)
  have y: "length (payout_enc (rt_payout t)) \<le> 1065"
    using assms(2) quantity_bytes [of "py_perUnit (rt_payout t)"] by (simp add: terms_ok_def payout_ok_def thing_ok_def payout_enc_def counted_def)
  have r: "length (clause_enc p (clauses_of t) 3) \<le> 33"
    using assms(2) by (auto simp: length_clause_enc clause_part_def clauses_of_def terms_ok_def dest: isValidPublicKey_width split: option.splits)
  have v: "length (clause_enc p (clauses_of t) 2) = 41" "length (clause_enc p (clauses_of t) 4) \<le> 21"
    "length (clause_enc p (clauses_of t) 5) = 37 + length (pf_construction p)"
    using k by (simp_all add: length_clause_enc clause_part_def clauses_of_def split: option.splits)
  have s: "length (clause_enc p (clauses_of t) 1) + length (clause_enc p (clauses_of t) 6) \<le> (if pf_silenceTag p = 1 then 17 else 9)"
    by (simp add: length_clause_enc clause_part_def clauses_of_def split: option.splits)
  have "length (terms_enc p t) = 80 + length (payout_enc (rt_payout t)) + length (clause_enc p (clauses_of t) 1) + 41 +
      length (clause_enc p (clauses_of t) 3) + length (clause_enc p (clauses_of t) 4) + (37 + length (pf_construction p)) +
      length (clause_enc p (clauses_of t) 6)"
    using k v by (simp add: terms_enc_def clauses_above_0 length_magic del: be_bytes.simps)
  then have "length (terms_enc p t) \<le> 1277 + length (pf_construction p) + (if pf_silenceTag p = 1 then 17 else 9)"
    using y r v s by linarith
  then show ?thesis using assms(1) by (auto simp: profile_ok_def split: if_splits)
qed

lemma terms_of_conv: "terms_of (ob, pay, oper, c) = Inr t \<Longrightarrow> ob = rt_obligor t \<and> pay = rt_payout t \<and> oper = rt_operator t \<and> c = clauses_of t"
  by (cases c) (auto simp: terms_of_def clauses_of_def split: option.splits)

lemma terms_of_clauses: "terms_of (rt_obligor t, rt_payout t, rt_operator t, clauses_of t) = Inr t"
  by (simp add: terms_of_def clauses_of_def)

lemma decodeTerms_conv:
  assumes "profile_ok p"
  shows "decodeTerms C p bs = Inr t \<longleftrightarrow> encodeTerms C p t = Inr bs"
proof
  assume "decodeTerms C p bs = Inr t"
  then obtain ob pay oper c r1 r2 z e where parts: "read_terms p (reader_at [] bs) = Inr ((ob, pay, oper, c), r1)"
    and "r_expectEnd r1 = Inr (z, r2)" and t: "terms_of (ob, pay, oper, c) = Inr t" and e: "encodeTerms C p t = Inr e"
    by (auto simp: decodeTerms_def bindR_Inr_conv terms_own_conv decoded_by_conv bindP_conv liftP_conv returnP_conv)
  moreover from read_terms_sound [OF assms parts] obtain rest' where "bs = frame_enc p ob pay oper c @ rest'"
    "r1 = reader_at (frame_enc p ob pay oper c) rest'" by auto
  ultimately have "bs = frame_enc p ob pay oper c" by (simp add: r_expectEnd_conv)
  then show "encodeTerms C p t = Inr bs"
    using e terms_of_conv [OF t] terms_enc_frame [OF assms] by (simp add: encodeTerms_conv [OF assms])
next
  assume e: "encodeTerms C p t = Inr bs"
  then have ok: "terms_ok C p t" and bs: "bs = terms_enc p t" by (simp_all add: encodeTerms_conv [OF assms])
  have "read_terms p (newReader bs) = Inr ((rt_obligor t, rt_payout t, rt_operator t, clauses_of t), reader_at bs [])"
    using read_terms_run [OF assms ok, of "[]" "[]"] by (simp add: newReader_at bs)
  moreover have "r_expectEnd (reader_at bs []) = Inr ((), reader_at bs [])" by (simp add: r_expectEnd_conv)
  ultimately show "decodeTerms C p bs = Inr t"
    using terms_length [OF assms ok] e
    by (simp add: decodeTerms_def terms_own_def bs decoded_by_def bindP_run liftP_run terms_of_clauses returnP_def)
qed

subsection \<open>One construction\<close>

lemma clause_loop_construction:
  assumes "profile_ok p" and "profile_ok q"
  shows "clause_loop p n k c (reader_at pre rest) = Inr (c', r1) \<Longrightarrow> clause_loop q n k d (reader_at pre rest) = Inr (d', r2) \<Longrightarrow>
    cl_configuration c = None \<Longrightarrow> cl_configuration c' \<noteq> None \<Longrightarrow> pf_construction p = pf_construction q"
proof (induction n arbitrary: k c d pre rest)
  case 0
  then show ?case by (simp add: returnP_def)
next
  case (Suc n)
  obtain tg r0 where u: "r_u8 (reader_at pre rest) = Inr (tg, r0)"
    and p: "bindP (read_clause p tg c) (clause_loop p n tg) r0 = Inr (c', r1)"
    using Suc.prems(1) by (auto simp: bindP_conv split: if_splits)
  have q: "bindP (read_clause q tg d) (clause_loop q n tg) r0 = Inr (d', r2)"
    using Suc.prems(2) u by (auto simp: bindP_conv split: if_splits)
  obtain x where r0: "r0 = reader_at (pre @ be_bytes 1 tg) x" using u unfolding r_u8_conv by blast
  from p obtain c1 s1 where c1: "read_clause p tg c r0 = Inr (c1, s1)" "clause_loop p n tg c1 s1 = Inr (c', r1)" by (rule bindP_E)
  from q obtain d1 s2 where d1: "read_clause q tg d r0 = Inr (d1, s2)" "clause_loop q n tg d1 s2 = Inr (d', r2)" by (rule bindP_E)
  show ?case
  proof (cases "tg = 5")
    case True
    have "int (length (pf_construction p)) < 2 ^ 32" "int (length (pf_construction q)) < 2 ^ 32" using assms by (simp_all add: profile_ok_def)
    then obtain y z where "x = counted (pf_construction p) @ y" "x = counted (pf_construction q) @ z"
      and w: "int (length (pf_construction p)) < 256 ^ 4" "int (length (pf_construction q)) < 256 ^ 4"
      using c1(1) d1(1) by (auto simp: True r0 read_clause_def read_simps counted_def split: if_splits)
    then have "be_bytes 4 (int (length (pf_construction p))) = be_bytes 4 (int (length (pf_construction q)))"
      and "pf_construction p @ y = pf_construction q @ z" by (simp_all add: counted_def)
    moreover from this have "int (length (pf_construction p)) = int (length (pf_construction q))"
      by (intro be_bytes_inj [of 4]) (use w in simp_all)
    ultimately show ?thesis by simp
  next
    case False
    have "cl_configuration c1 = None" using read_clause_update [OF c1(1)] False Suc.prems(3) by auto
    moreover have "s1 = s2"
      using read_clause_update [OF c1(1)] False c1(1) d1(1) unfolding r0
      by (auto simp: read_clause_def bindP_conv returnP_conv split: if_splits)
    moreover obtain pre' y where "s1 = reader_at pre' y" using read_clause_result [OF assms(1) c1(1) [unfolded r0]] by blast
    ultimately show ?thesis using Suc.IH c1(2) d1(2) Suc.prems(4) by metis
  qed
qed

lemma terms_construction:
  assumes "profile_ok p" and "profile_ok q" and "decodeTerms C p bs = Inr t" and "decodeTerms C q bs = Inr u"
  shows "pf_construction p = pf_construction q"
proof -
  from assms(3) obtain ob pay oper c r1 where p: "read_terms p (reader_at [] bs) = Inr ((ob, pay, oper, c), r1)" and t: "terms_of (ob, pay, oper, c) = Inr t"
    by (auto simp: decodeTerms_def bindR_Inr_conv terms_own_conv decoded_by_conv bindP_conv liftP_conv returnP_conv)
  from assms(4) obtain ob' pay' oper' d r2 where q: "read_terms q (reader_at [] bs) = Inr ((ob', pay', oper', d), r2)"
    by (auto simp: decodeTerms_def bindR_Inr_conv terms_own_conv decoded_by_conv bindP_conv liftP_conv returnP_conv)
  have "cl_configuration c \<noteq> None" using terms_of_conv [OF t] by (simp add: clauses_of_def)
  moreover from p obtain n s1 where h: "read_head (reader_at [] bs) = Inr ((ob, pay, oper, n), s1)"
    and lp: "clause_loop p (nat n) 0 no_clauses s1 = Inr (c, r1)" by (rule read_terms_parts)
  moreover from q h have lq: "clause_loop q (nat n) 0 no_clauses s1 = Inr (d, r2)" by (elim read_terms_parts) simp
  moreover obtain x where "s1 = reader_at (head_enc ob pay oper n) x" using read_head_sound [OF h] by auto
  ultimately show ?thesis using clause_loop_construction [OF assms(1,2)] by (fastforce simp: no_clauses_def)
qed

subsection \<open>The two codecs\<close>

lemma termsCodec_conv: "termsCodec C tp = Inr K \<longleftrightarrow> (\<exists>p. profileOf tp = Inr p \<and> K = \<lparr>tc_maxBytes = pf_maxBytes p, tc_encode = encodeTerms C p,
    tc_decode = decodeTerms C p, tc_name = termsName C p, tc_signatureMessage = (\<lambda>bs. bindR (termsName C p bs) signatureMessage),
    tc_verify = verifyTermsSignature C p\<rparr>)"
  by (auto simp: termsCodec_def mapR_Inr_conv)

lemma termsName_conv: "termsName C p bs = Inr h \<longleftrightarrow> isOk (decodeTerms C p bs) \<and> h = sha256 C bs"
  by (auto simp: termsName_def bindR_Inr_conv terms_own_conv isOk_conv) (auto simp: decodeTerms_def bindR_Inr_conv terms_own_conv)

lemma verify_terms_conv:
  assumes "decodeTerms C p bs = Inr t"
  shows "verifyTermsSignature C p bs sig = Inr True \<longleftrightarrow>
    (\<exists>m. signatureMessage (sha256 C bs) = Inr m \<and> verifySignatureStrict C sig m (rt_obligor t))"
proof -
  have own: "terms_own bs (pf_maxBytes p) ''root terms'' False = Inr bs"
    using assms by (auto simp: decodeTerms_def bindR_Inr_conv terms_own_conv)
  have "length sig = 64" if "verifySignatureStrict C sig m k" for m k using verifySignatureStrict_lengths [OF that] by simp
  then show ?thesis
    unfolding verifyTermsSignature_def catchEncoding_True own bindR_simps assms by (auto simp: bindR_Inr_conv terms_own_conv)
qed

definition V3_PROFILE :: profile where
  "V3_PROFILE = \<lparr>pf_construction = utf8_encode (text_units ''moe/pool/v3''), pf_silenceTag = 1, pf_maxBytes = 1305\<rparr>"

definition LIT_PROFILE :: profile where
  "LIT_PROFILE = \<lparr>pf_construction = utf8_encode (text_units ''moe/lit/v1''), pf_silenceTag = 6, pf_maxBytes = 1296\<rparr>"

lemma V3_profile: "profileOf \<lparr>tp_construction = text_units ''moe/pool/v3'', tp_silenceTag = 1\<rparr> = Inr V3_PROFILE"
  by code_simp

lemma LIT_profile: "profileOf \<lparr>tp_construction = text_units ''moe/lit/v1'', tp_silenceTag = 6\<rparr> = Inr LIT_PROFILE"
  by code_simp

interpretation v3_terms: frame_codec "encodeTerms C V3_PROFILE" "decodeTerms C V3_PROFILE" for C
  by unfold_locales (rule decodeTerms_conv [OF profileOf_ok [OF V3_profile]])

interpretation lit_terms: frame_codec "encodeTerms C LIT_PROFILE" "decodeTerms C LIT_PROFILE" for C
  by unfold_locales (rule decodeTerms_conv [OF profileOf_ok [OF LIT_profile]])

subsection \<open>Properties\<close>

definition example_terms :: root_terms where
  "example_terms = \<lparr>rt_obligor = replicate 32 1, rt_payout = \<lparr>py_thing = text_units ''hour'' @ [0xD83D, 0xDE00], py_quantumExponent = - 2, py_perUnit = 300\<rparr>,
     rt_operator = replicate 32 2, rt_configuration = replicate 32 3, rt_venue = replicate 32 4, rt_interval = 10,
     rt_silence = Some \<lparr>sl_noCommitmentDuration = 100, sl_challengeWindow = Some 20\<rparr>, rt_replacementRule = Some (replicate 32 5),
     rt_nonService = None\<rparr>"

definition example_terms_bytes :: bytes where
  "example_terms_bytes = (case encodeTerms toy_crypto V3_PROFILE example_terms of Inr bs \<Rightarrow> bs | Inl _ \<Rightarrow> [])"

lemma example_terms_run: "encodeTerms toy_crypto V3_PROFILE example_terms = Inr example_terms_bytes"
  by code_simp

lemma example_terms_decode: "decodeTerms toy_crypto V3_PROFILE example_terms_bytes = Inr example_terms"
  by (rule v3_terms.decode_encode [OF example_terms_run])

lemma V3_TERMS_run: "V3_TERMS C = Inr \<lparr>tc_maxBytes = MAX_ROOT_TERMS_BYTES, tc_encode = encodeTerms C V3_PROFILE, tc_decode = decodeTerms C V3_PROFILE,
    tc_name = termsName C V3_PROFILE, tc_signatureMessage = (\<lambda>bs. bindR (termsName C V3_PROFILE bs) signatureMessage),
    tc_verify = verifyTermsSignature C V3_PROFILE\<rparr>"
  by (simp add: V3_TERMS_def termsCodec_conv V3_profile MAX_ROOT_TERMS_BYTES_def) (simp add: V3_PROFILE_def)

text \<open>C23: Root terms are canonical. Under either construction's profile the bytes of root terms decode exactly where
  they are the encoding of what they decode to: one order of the clauses, the counted number of them, one UTF-8 form of
  the payout's thing and one minimal form of its quantity. Every encoding fits the profile's byte bound.\<close>

theorem terms_frames_canonical:
  assumes "termsCodec C tp = Inr K"
  shows "(tc_decode K bs = Inr t \<longleftrightarrow> tc_encode K t = Inr bs) \<and> (tc_encode K t = Inr bs \<longrightarrow> int (length bs) \<le> tc_maxBytes K)"
proof -
  from assms obtain p where p: "profileOf tp = Inr p" and K: "tc_decode K = decodeTerms C p" "tc_encode K = encodeTerms C p" "tc_maxBytes K = pf_maxBytes p"
    by (auto simp: termsCodec_conv)
  note ok = profileOf_ok [OF p]
  show ?thesis using decodeTerms_conv [OF ok] terms_length [OF ok] by (auto simp: K encodeTerms_conv [OF ok])
qed

lemma terms_frames_canonical_witness:
  "\<exists>K. V3_TERMS toy_crypto = Inr K \<and> tc_decode K example_terms_bytes = Inr example_terms \<and> int (length example_terms_bytes) \<le> MAX_ROOT_TERMS_BYTES"
  using terms_frames_canonical [OF V3_TERMS_run [unfolded V3_TERMS_def], of toy_crypto example_terms_bytes example_terms] example_terms_run
  by (simp add: V3_TERMS_run)

text \<open>C26: A backing's name fixes its terms. Where the hash does not collide on the two byte strings, two root terms of one
  name are the same bytes, decode to the same terms and belong to the same construction, whichever constructions' codecs
  named them; and a signature verifies over terms exactly as a strict signature, over the name under its context, of the
  obligor the terms themselves name.\<close>

theorem terms_name_binds:
  assumes "termsCodec C tp = Inr K" and "termsCodec C tq = Inr L" and "tc_name K bs = Inr h" and "tc_name L cs = Inr h" and "inj_on (sha256 C) {bs, cs}"
  shows "bs = cs \<and> utf8_encode (tp_construction tp) = utf8_encode (tp_construction tq) \<and>
    (\<exists>t. tc_decode K bs = Inr t \<and> (tc_verify K bs sig = Inr True \<longleftrightarrow>
      (\<exists>m. signatureMessage h = Inr m \<and> verifySignatureStrict C sig m (rt_obligor t))))"
proof -
  from assms(1) obtain p where p: "profileOf tp = Inr p" and K: "tc_decode K = decodeTerms C p" "tc_name K = termsName C p" "tc_verify K = verifyTermsSignature C p"
    by (auto simp: termsCodec_conv)
  from assms(2) obtain q where q: "profileOf tq = Inr q" and L: "tc_name L = termsName C q" by (auto simp: termsCodec_conv)
  have hb: "isOk (decodeTerms C p bs) \<and> h = sha256 C bs" using assms(3) unfolding K(2) termsName_conv .
  have hc: "isOk (decodeTerms C q cs) \<and> h = sha256 C cs" using assms(4) unfolding L termsName_conv .
  from hb obtain t where t: "decodeTerms C p bs = Inr t" "h = sha256 C bs" unfolding isOk_conv by (elim conjE exE)
  from hc obtain u where u: "decodeTerms C q cs = Inr u" "h = sha256 C cs" unfolding isOk_conv by (elim conjE exE)
  have "sha256 C bs = sha256 C cs" using t(2) u(2) by (rule subst)
  then have eq: "bs = cs" by (rule inj_onD [OF assms(5)]) simp_all
  have "pf_construction p = pf_construction q" using terms_construction [OF profileOf_ok profileOf_ok t(1)] p q u(1) eq by blast
  moreover have "pf_construction p = utf8_encode (tp_construction tp)" "pf_construction q = utf8_encode (tp_construction tq)"
    using p q by (auto simp: profileOf_def Let_def split: if_splits)
  moreover have "verifyTermsSignature C p bs sig = Inr True \<longleftrightarrow> (\<exists>m. signatureMessage h = Inr m \<and> verifySignatureStrict C sig m (rt_obligor t))"
    using verify_terms_conv [OF t(1)] t(2) by simp
  ultimately show ?thesis using eq t(1) by (simp add: K)
qed

lemma terms_name_binds_witness:
  "\<exists>K m. V3_TERMS toy_crypto = Inr K \<and> tc_decode K example_terms_bytes = Inr example_terms \<and>
     signatureMessage (sha256 toy_crypto example_terms_bytes) = Inr m \<and> tc_verify K example_terms_bytes (ed25519_sign toy_crypto m (replicate 32 1)) = Inr True"
proof -
  let ?h = "sha256 toy_crypto example_terms_bytes"
  obtain K where K: "V3_TERMS toy_crypto = Inr K" "tc_name K = termsName toy_crypto V3_PROFILE" "tc_decode K = decodeTerms toy_crypto V3_PROFILE"
    by (simp add: V3_TERMS_run)
  have n: "tc_name K example_terms_bytes = Inr ?h" by (simp add: K termsName_conv example_terms_decode isOk_conv)
  obtain m where m: "signatureMessage ?h = Inr m" by (simp add: signatureMessage_def write_simps bindR_Inr_conv toy_crypto_def)
  have "ed25519_public toy_crypto (replicate 32 1) = rt_obligor example_terms" by code_simp
  then have "verifySignatureStrict toy_crypto (ed25519_sign toy_crypto m (replicate 32 1)) m (rt_obligor example_terms)"
    using verifySignatureStrict_sign [OF toy_crypto_ed25519_ok, of m "replicate 32 1"] by simp
  then show ?thesis
    using terms_name_binds [OF K(1) [unfolded V3_TERMS_def] K(1) [unfolded V3_TERMS_def] n n, of "ed25519_sign toy_crypto m (replicate 32 1)"] K m
      example_terms_decode by auto
qed

end
