(* ===== verification/NonService.thy ===== *)
theory NonService
  imports State Terms
begin

section \<open>The non-service count (src/pool/v3/non-service.ts)\<close>

text \<open>
  How many unserved requests a backing's venue record shows over a canonical state: the requests
  published below the judging index are grouped by statement identity, each identity takes its
  first index, and a tag counts once where its identity's index is in the clause's window, what it
  reads is in the state, its tag is neither spent nor locked there and one of its variants' checks
  holds.  The count is shown to be the number of such tags, however the requests are ordered.
\<close>

subsection \<open>What the count reads\<close>

record range_entry =
  rg_index :: int
  rg_ordinal :: int
  rg_record :: bytes

record publication_view =
  pv_domain :: bytes
  pv_backing :: bytes
  pv_kind :: int
  pv_record :: "bytes option"

definition v3_publication :: "crypto \<Rightarrow> bytes \<Rightarrow> publication_view result" where
  "v3_publication C bs = bindR (decodePublication C bs) (\<lambda>p. bindR (case p_body p of AcceptanceBody _ \<Rightarrow> Inr None
     | RecordBody r \<Rightarrow> mapR Some (encodeRecord C r)) (\<lambda>rec.
     Inr \<lparr>pv_domain = p_domain p, pv_backing = p_backing p, pv_kind = p_kind p, pv_record = rec\<rparr>))"

record request_reading =
  rr_identity :: string
  rr_tag :: int
  rr_reads :: "state_view \<Rightarrow> bool result"
  rr_holds :: "verifier \<Rightarrow> bool result"

definition v3_request_reading :: "crypto \<Rightarrow> bytes \<Rightarrow> request_reading result" where
  "v3_request_reading C bs = mapR (\<lambda>q. \<lparr>rr_identity = rq_identity q, rr_tag = rq_tag q, rr_reads = (\<lambda>s. sv_hasAnchor s (rq_anchor q)),
     rr_holds = rq_holds q\<rparr>) (v3_request C bs)"

record count_context =
  ctx_publication :: "bytes \<Rightarrow> publication_view result"
  ctx_request :: "bytes \<Rightarrow> request_reading result"
  ctx_domain :: bytes
  ctx_backing :: bytes
  ctx_nonService :: "non_service_clause option"
  ctx_verifier :: verifier

record link =
  lk_operator :: bytes
  lk_from :: int

text \<open>The chain's link in force at an index (\<open>record-range.ts\<close>).\<close>

definition linkInForce :: "link list \<Rightarrow> int \<Rightarrow> link result" where
  "linkInForce chain index = (case chain of [] \<Rightarrow> Inl (EncodingError ''invalid chain'')
     | first # _ \<Rightarrow> if index < 0 \<or> index > 0xffffffffffffffff then Inl (EncodingError ''invalid chain'')
       else Inr (foldl (\<lambda>inForce l. if lk_from l \<le> index then l else inForce) first chain))"

subsection \<open>The count\<close>

text \<open>A publication that is no request of this backing, or does not decode, is passed over.\<close>

definition request_in :: "count_context \<Rightarrow> bytes \<Rightarrow> request_reading option result" where
  "request_in X bs = (case bindR (ctx_publication X bs) (\<lambda>p.
       if pv_kind p \<noteq> 5 \<or> compareBytes (pv_domain p) (ctx_domain X) \<noteq> 0 \<or> compareBytes (pv_backing p) (ctx_backing X) \<noteq> 0 then Inr None
       else case pv_record p of None \<Rightarrow> Inl (TypeError ''record'') | Some r \<Rightarrow> mapR Some (ctx_request X r)) of
     Inl (EncodingError _) \<Rightarrow> Inr None | other \<Rightarrow> other)"

type_synonym identity_group = "string \<times> int \<times> request_reading list"

definition add_request :: "int \<Rightarrow> request_reading \<Rightarrow> identity_group list \<Rightarrow> identity_group list" where
  "add_request index q m = (if list_ex (\<lambda>(name, _). name = rr_identity q) m
     then map (\<lambda>(name, at, qs). if name = rr_identity q then (name, at, qs @ [q]) else (name, at, qs)) m
     else m @ [(rr_identity q, index, [q])])"

definition collect_entry :: "count_context \<Rightarrow> int \<Rightarrow> identity_group list \<Rightarrow> range_entry \<Rightarrow> identity_group list result" where
  "collect_entry X t m e = (if rg_index e \<ge> t then Inr m
     else mapR (\<lambda>q. case q of None \<Rightarrow> m | Some r \<Rightarrow> add_request (rg_index e) r m) (request_in X (rg_record e)))"

fun some_holds :: "verifier \<Rightarrow> request_reading list \<Rightarrow> bool result" where
  "some_holds v [] = Inr False"
| "some_holds v (q # qs) = bindR (rr_holds q v) (\<lambda>b. if b then Inr True else some_holds v qs)"

definition unserved :: "count_context \<Rightarrow> non_service_clause \<Rightarrow> int \<Rightarrow> state_view \<Rightarrow> identity_group \<Rightarrow> bool result" where
  "unserved X n t s = (\<lambda>(_, at, requests). let first = hd requests; tg = rr_tag first in
     if at < t - nv_window n \<or> at > t - nv_duration n then Inr False
     else bindR (rr_reads first s) (\<lambda>rd. if \<not> rd then Inr False
     else bindR (rv_hasSpentTag s tg) (\<lambda>spent. if spent then Inr False
     else bindR (locked s tg t None) (\<lambda>lock. if lock then Inr False
     else some_holds (ctx_verifier X) requests))))"

definition count_group :: "count_context \<Rightarrow> non_service_clause \<Rightarrow> int \<Rightarrow> state_view \<Rightarrow> int set \<Rightarrow> identity_group \<Rightarrow> int set result" where
  "count_group X n t s tgs g = (case g of (_, _, requests) \<Rightarrow> let tg = rr_tag (hd requests) in
     if tg \<in> tgs then Inr tgs else mapR (\<lambda>b. if b then insert tg tgs else tgs) (unserved X n t s g))"

record non_service_count =
  nsc_duration :: string
  nsc_threshold :: string
  nsc_window :: string
  nsc_count :: string
  nsc_fires :: bool
  nsc_incumbent :: string
  nsc_snapshotIndex :: "string option"

definition countNonService :: "count_context \<Rightarrow> int \<Rightarrow> link list \<Rightarrow> (int \<times> state_view) option \<Rightarrow> range_entry list \<Rightarrow> non_service_count result" where
  "countNonService X t chain canonical publications = (case ctx_nonService X of None \<Rightarrow> Inl (TypeError ''non-service requires its declared clause'')
     | Some n \<Rightarrow>
       bindR (foldR (collect_entry X t) [] publications) (\<lambda>identities.
       bindR (case canonical of None \<Rightarrow> Inr {} | Some (_, s) \<Rightarrow> foldR (count_group X n t s) {} identities) (\<lambda>tgs. let count = int (card tgs) in
       bindR (linkInForce chain t) (\<lambda>inForce.
       Inr \<lparr>nsc_duration = decimal (nv_duration n), nsc_threshold = decimal (nv_count n), nsc_window = decimal (nv_window n),
         nsc_count = decimal count, nsc_fires = (count \<ge> nv_count n), nsc_incumbent = hex (lk_operator inForce),
         nsc_snapshotIndex = map_option (\<lambda>(i, _). decimal i) canonical\<rparr>))))"

subsection \<open>The groups\<close>

text \<open>The requests read below the index, with their publications' indices, and one identity's among them.\<close>

fun requests_below :: "count_context \<Rightarrow> int \<Rightarrow> range_entry list \<Rightarrow> (int \<times> request_reading) list result" where
  "requests_below X t [] = Inr []"
| "requests_below X t (e # es) = (if rg_index e \<ge> t then requests_below X t es
     else bindR (request_in X (rg_record e)) (\<lambda>q. mapR (\<lambda>rs. case q of None \<Rightarrow> rs | Some r \<Rightarrow> (rg_index e, r) # rs) (requests_below X t es)))"

definition of_identity :: "(int \<times> request_reading) list \<Rightarrow> string \<Rightarrow> (int \<times> request_reading) list" where
  "of_identity rs name = filter (\<lambda>(_, q). rr_identity q = name) rs"

definition groups_of :: "(int \<times> request_reading) list \<Rightarrow> identity_group set" where
  "groups_of rs = (\<lambda>name. (name, fst (hd (of_identity rs name)), map snd (of_identity rs name))) ` {name. of_identity rs name \<noteq> []}"

lemma groups_add:
  assumes "set m = groups_of rs"
  shows "set (add_request i q m) = groups_of (rs @ [(i, q)])"
proof -
  have o': "of_identity (rs @ [(i, q)]) name = of_identity rs name @ (if rr_identity q = name then [(i, q)] else [])" for name
    by (simp add: of_identity_def)
  have ex: "list_ex (\<lambda>(name, _). name = rr_identity q) m \<longleftrightarrow> of_identity rs (rr_identity q) \<noteq> []"
    using assms by (auto simp: list_ex_iff groups_of_def) 
  show ?thesis
  proof (cases "of_identity rs (rr_identity q) = []")
    case True
    then have "set (add_request i q m) = insert (rr_identity q, i, [q]) (groups_of rs)" using ex assms by (simp add: add_request_def)
    also have "\<dots> = groups_of (rs @ [(i, q)])"
    proof -
      have "{name. of_identity (rs @ [(i, q)]) name \<noteq> []} = insert (rr_identity q) {name. of_identity rs name \<noteq> []}" by (auto simp: o')
      moreover have "of_identity (rs @ [(i, q)]) name = of_identity rs name" if "of_identity rs name \<noteq> []" for name using True that by (auto simp: o')
      ultimately show ?thesis unfolding groups_of_def by (simp add: o' True)
    qed
    finally show ?thesis .
  next
    case False
    then have "set (add_request i q m) = (\<lambda>(name, at, qs). if name = rr_identity q then (name, at, qs @ [q]) else (name, at, qs)) ` groups_of rs"
      using ex assms by (simp add: add_request_def)
    also have "\<dots> = groups_of (rs @ [(i, q)])"
    proof -
      have "{name. of_identity (rs @ [(i, q)]) name \<noteq> []} = {name. of_identity rs name \<noteq> []}" using False by (auto simp: o')
      then show ?thesis unfolding groups_of_def image_image by (auto simp: o' intro!: image_cong)
    qed
    finally show ?thesis .
  qed
qed

lemma collect_groups:
  "foldR (collect_entry X t) m es = Inr m' \<Longrightarrow> set m = groups_of rs0 \<Longrightarrow>
    \<exists>rs. requests_below X t es = Inr rs \<and> set m' = groups_of (rs0 @ rs)"
proof (induction es arbitrary: m rs0)
  case (Cons e es)
  show ?case
  proof (cases "rg_index e \<ge> t")
    case True
    then show ?thesis using Cons by (simp add: collect_entry_def)
  next
    case False
    obtain q where q: "request_in X (rg_record e) = Inr q"
      using Cons.prems(1) False by (auto simp: collect_entry_def bindR_Inr_conv mapR_Inr_conv)
    then have collect_step: "collect_entry X t m e = Inr (case q of None \<Rightarrow> m | Some r \<Rightarrow> add_request (rg_index e) r m)"
      using False by (simp add: collect_entry_def)
    then have l: "foldR (collect_entry X t) (case q of None \<Rightarrow> m | Some r \<Rightarrow> add_request (rg_index e) r m) es = Inr m'"
      using Cons.prems(1) False by (simp add: collect_step)
    have "set (case q of None \<Rightarrow> m | Some r \<Rightarrow> add_request (rg_index e) r m) = groups_of (rs0 @ (case q of None \<Rightarrow> [] | Some r \<Rightarrow> [(rg_index e, r)]))"
      using Cons.prems(2) groups_add by (simp split: option.splits)
    from Cons.IH [OF l this] show ?thesis using q False by (auto split: option.splits)
  qed
qed (auto simp: groups_of_def)

subsection \<open>The counted tags\<close>

definition counted_tags :: "count_context \<Rightarrow> non_service_clause \<Rightarrow> int \<Rightarrow> state_view \<Rightarrow> identity_group set \<Rightarrow> int set" where
  "counted_tags X n t s gs = {rr_tag (hd qs) | name at qs. (name, at, qs) \<in> gs \<and> t - nv_window n \<le> at \<and> at \<le> t - nv_duration n \<and>
     rr_reads (hd qs) s = Inr True \<and> rv_hasSpentTag s (rr_tag (hd qs)) = Inr False \<and> locked s (rr_tag (hd qs)) t None = Inr False \<and>
     (\<exists>q \<in> set qs. rr_holds q (ctx_verifier X) = Inr True)}"

lemma some_holds_exact: "some_holds v qs = Inr b \<Longrightarrow> b \<longleftrightarrow> (\<exists>q \<in> set qs. rr_holds q v = Inr True)"
  by (induction qs) (auto simp: bindR_Inr_conv split: if_splits)

lemma unserved_exact:
  assumes "unserved X n t s (name, at, qs) = Inr b"
  shows "b \<longleftrightarrow> t - nv_window n \<le> at \<and> at \<le> t - nv_duration n \<and> rr_reads (hd qs) s = Inr True \<and>
    rv_hasSpentTag s (rr_tag (hd qs)) = Inr False \<and> locked s (rr_tag (hd qs)) t None = Inr False \<and> (\<exists>q \<in> set qs. rr_holds q (ctx_verifier X) = Inr True)"
  using assms some_holds_exact [of "ctx_verifier X" qs b]
  by (auto simp: unserved_def Let_def bindR_Inr_conv split: if_splits)

lemma count_groups:
  "foldR (count_group X n t s) tgs gs = Inr tgs' \<Longrightarrow> tgs' = tgs \<union> counted_tags X n t s (set gs)"
proof (induction gs arbitrary: tgs)
  case Nil
  then show ?case by (simp add: counted_tags_def)
next
  case (Cons g gs)
  obtain name at qs where g: "g = (name, at, qs)" by (cases g)
  have c: "counted_tags X n t s (set (g # gs)) = counted_tags X n t s {g} \<union> counted_tags X n t s (set gs)"
    unfolding counted_tags_def by auto
  have one: "counted_tags X n t s {g} \<subseteq> {rr_tag (hd qs)}" by (auto simp: counted_tags_def g)
  from Cons.prems obtain t1 where t1: "count_group X n t s tgs g = Inr t1" and r: "foldR (count_group X n t s) t1 gs = Inr tgs'"
    by (auto simp: bindR_Inr_conv)
  have "t1 = tgs \<union> counted_tags X n t s {g}"
  proof (cases "rr_tag (hd qs) \<in> tgs")
    case True
    then show ?thesis using t1 one by (auto simp: count_group_def g)
  next
    case False
    then obtain b where b: "unserved X n t s (name, at, qs) = Inr b" and "t1 = (if b then insert (rr_tag (hd qs)) tgs else tgs)"
      using t1 by (auto simp: count_group_def g mapR_Inr_conv)
    moreover have "counted_tags X n t s {g} = (if b then {rr_tag (hd qs)} else {})"
      using unserved_exact [OF b] by (auto simp: counted_tags_def g)
    ultimately show ?thesis by simp
  qed
  then show ?case using Cons.IH [OF r] c by auto
qed

subsection \<open>Properties\<close>

text \<open>C10: The non-service count is the number of tags it should count. It counts each tag of which some statement identity,
  at the first index its request was published at below the judging index, lies in the clause's window, reads what the
  canonical state holds, names a tag neither spent nor locked there, and has a variant whose check holds; an identity's later
  variants never move its index and no tag counts twice. The clause fires exactly where the count reaches its threshold.\<close>

theorem count_non_service_exact:
  assumes "countNonService X t chain (Some (i, s)) publications = Inr r" and "ctx_nonService X = Some n"
  shows "\<exists>rs. requests_below X t publications = Inr rs \<and> nsc_count r = decimal (int (card (counted_tags X n t s (groups_of rs)))) \<and>
    (nsc_fires r \<longleftrightarrow> nv_count n \<le> int (card (counted_tags X n t s (groups_of rs))))"
proof -
  from assms obtain m tgs where m: "foldR (collect_entry X t) [] publications = Inr m" and c: "foldR (count_group X n t s) {} m = Inr tgs"
    and r: "nsc_count r = decimal (int (card tgs))" "nsc_fires r \<longleftrightarrow> nv_count n \<le> int (card tgs)"
    by (auto simp: countNonService_def bindR_Inr_conv Let_def)
  have "set [] = groups_of []" by (simp add: groups_of_def of_identity_def)
  from collect_groups [OF m this] obtain rs where "requests_below X t publications = Inr rs" "set m = groups_of rs" by auto
  moreover have "tgs = counted_tags X n t s (set m)" using count_groups [OF c] by simp
  ultimately show ?thesis using r by auto
qed

text \<open>Two requests of one identity and one of another: the first identity's index is its first publication's.\<close>

definition example_count_context :: count_context where
  "example_count_context = \<lparr>ctx_publication = (\<lambda>bs. Inr \<lparr>pv_domain = [1], pv_backing = [2], pv_kind = 5, pv_record = Some bs\<rparr>),
     ctx_request = (\<lambda>bs. Inr \<lparr>rr_identity = (if bs = [9] then ''other'' else ''one''), rr_tag = (if bs = [9] then 8 else 7), rr_reads = (\<lambda>_. Inr True),
       rr_holds = (\<lambda>_. Inr (bs = [5] \<or> bs = [9]))\<rparr>), ctx_domain = [1], ctx_backing = [2],
     ctx_nonService = Some \<lparr>nv_duration = 2, nv_count = 2, nv_window = 10\<rparr>, ctx_verifier = (\<lambda>_ _ _. Inr True)\<rparr>"

definition example_requests :: "range_entry list" where
  "example_requests = [\<lparr>rg_index = 12, rg_ordinal = 0, rg_record = [4]\<rparr>, \<lparr>rg_index = 15, rg_ordinal = 0, rg_record = [9]\<rparr>,
     \<lparr>rg_index = 19, rg_ordinal = 0, rg_record = [5]\<rparr>]"

definition example_served_state :: state_view where
  "example_served_state = handle_view toy_crypto (POOL_V3 toy_crypto) newDatabase \<lparr>sh_ns = 1, sh_at = Some 0\<rparr>"

definition example_count :: non_service_count where
  "example_count = \<lparr>nsc_duration = ''2'', nsc_threshold = ''2'', nsc_window = ''10'', nsc_count = ''2'', nsc_fires = True, nsc_incumbent = ''03'',
     nsc_snapshotIndex = Some ''11''\<rparr>"

lemma example_count_run:
  "countNonService example_count_context 20 [\<lparr>lk_operator = [3], lk_from = 0\<rparr>] (Some (11, example_served_state)) example_requests = Inr example_count"
  by code_simp

lemma count_non_service_exact_witness:
  "\<exists>rs. requests_below example_count_context 20 example_requests = Inr rs \<and>
     nsc_count example_count = decimal (int (card (counted_tags example_count_context \<lparr>nv_duration = 2, nv_count = 2, nv_window = 10\<rparr> 20
       example_served_state (groups_of rs))))"
  using count_non_service_exact [OF example_count_run] by (auto simp: example_count_context_def)

end
