(* ===== verification/Dishonour.thy ===== *)
theory Dishonour
  imports RunProperties
begin

section \<open>What one demand's record says (src/pool/v3/dishonour.ts)\<close>

text \<open>
  The reading of a demand at a judging index, from the canonical state and the publications with
  force: the index it was first witnessed at, its ends (a settlement, a withdrawal, or a void where
  a tag of it is spent otherwise), the earliest of them, and the indices past its deadline at which
  it stood unended, as the backer's dishonour or the holder's lapse.  The record is described apart
  from the reading, as sets over the canonical history and the forced publications' views, and the
  reading is shown to be that record's: every end and no other, the overdue indices exactly those
  past the deadline and before every end, and every acceptance of the demand, once.
\<close>

subsection \<open>What the reading takes\<close>












subsection \<open>The record through the judging index\<close>












subsection \<open>Acceptances and the earliest end\<close>






subsection \<open>What the record holds\<close>

text \<open>The description the reading is measured against, over the kept demand of the canonical state and the views of the forced
  publications: the demand's notice, the indices it was witnessed at, and its ends.\<close>



definition first_notice :: "string \<Rightarrow> (nat \<Rightarrow> statement_view) \<Rightarrow> nat \<Rightarrow> demand \<Rightarrow> bool" where
  "first_notice name V n d \<longleftrightarrow> (\<exists>i < n. v_demand (V i) = Some (name, d) \<and> (\<forall>j < i. \<forall>d'. v_demand (V j) \<noteq> Some (name, d')))"










subsection \<open>The record is what is read\<close>







lemma first_notice_unique: "first_notice name V n d \<Longrightarrow> first_notice name V n d' \<Longrightarrow> d = d'"
  unfolding first_notice_def by (metis linorder_neqE_nat option.inject prod.inject)
















subsection \<open>The earliest end is the least\<close>









subsection \<open>Acceptances\<close>












subsection \<open>The reading\<close>






subsection \<open>An evaluated reading\<close>





end
