(* ===== verification/Spec2Isabelle.thy ===== *)
theory Spec2Isabelle
  imports Schedule RunProperties LitConstruction ReceiptState NonService Dishonour
begin

text \<open>
  A verification development of the reference implementation of the Medium of Exchange protocol
  (the TypeScript package under \<open>src/src\<close>).  The program keeps a pool of notes per operator and
  segment: holders submit statements (issue, spend, burn, demand, withdrawal, settlement, request), an
  operator appends them and signs commitments, a witness venue dates the commitments, and any reader
  replays the committed records through the same state machine and reads verdicts from the result.
  There are two constructions of a record: pool v3, whose notes are hidden behind a statement proof,
  and lit, whose openings are public.  Both run through one state machine over one store.

  The parts, bottom up, with the theory that models each.

  Primitives.  \<open>Prelude\<close> has bytes as 8-bit words, the error classes of the source, results as a
  sum of an error and a value with their sequencing, and the lemmas on lists, options and integers the
  rest shares.  \<open>Bytes\<close> is \<open>bytes.ts\<close> (writer, reader, minimal integers, the byte order); \<open>Crypto\<close>
  is \<open>keys.ts\<close> over the third-party hash and signature; \<open>Contexts\<close> and \<open>Utf8\<close> are \<open>contexts.ts\<close>
  (the tags, their load-time check, the text coders); \<open>Field\<close> is \<open>pool/field.ts\<close> and
  \<open>pool/poseidon2.ts\<close>; \<open>Codec\<close> holds the contract of an encoder with its strict decoder, the locale
  \<open>frame_codec\<close>, and of a digest over one, \<open>digest_codec\<close>, both interpreted on every codec below.

  Notes and trees.  \<open>Notes\<close> is \<open>pool/notes.ts\<close>; \<open>Merkle\<close> the level loops both trees share with
  the locale \<open>tree_hash\<close> over them; \<open>NoteTree\<close> is \<open>pool/note-tree.ts\<close>; \<open>Scope\<close> is
  \<open>pool/scope.ts\<close>; \<open>Schedule\<close> is \<open>pool/schedule.ts\<close>; \<open>SpentSet\<close> is \<open>pool/v3/spent-set.ts\<close>, the
  radix tree of nullifiers, as an instance of the locale \<open>insert_once_set\<close>.

  Records and frames of pool v3.  \<open>Records\<close> is \<open>pool/v3/records.ts\<close>; \<open>Terms\<close> and \<open>Headers\<close>
  are \<open>pool/v3/terms.ts\<close> and \<open>headers.ts\<close> with both constructions' instances; \<open>VenueRecords\<close> is
  \<open>venue-records.ts\<close>; \<open>EvidenceChain\<close> is \<open>pool/evidence-chain.ts\<close> over its profile, and
  \<open>Commitments\<close> is \<open>pool/v3/commitments.ts\<close>, v3's instance of it with histories and receipts.

  The state machine.  \<open>Recovery\<close> is \<open>pool/v3/recovery.ts\<close> (the guards of demands, withdrawals and
  settlements) with the abstract recovery state they are compared with and the locale
  \<open>recovery_reads\<close>, what a state promises of its reads.  \<open>Construction\<close> is the record of functions
  a construction is (\<open>construction.ts\<close>) with pool v3's instance.  \<open>ReplayStore\<close> is the database of
  \<open>replay-store.ts\<close>, its tables and its reads; \<open>Frontier\<close> and \<open>StoredSpent\<close> are its stored note
  tree and stored spent set; \<open>ReplayAppend\<close> its two writing transactions.  \<open>ReplayFrame\<close>,
  \<open>ReplayStable\<close> and \<open>ReplayInvariant\<close> show what an append leaves alone and what every reachable
  database keeps.  \<open>State\<close> is \<open>state.ts\<close>: the judgment of a record in its two halves around the
  proof check, the append of its effects, and the in-memory overlay of publications forced over a fixed
  state.  \<open>RecoveryState\<close> and \<open>ForcedState\<close> interpret \<open>recovery_reads\<close> on stored handles and on
  overlays; \<open>Judging\<close> lists the checks behind a successful judgment; \<open>Application\<close> carries them over
  an append and over runs in the locale \<open>construction_views\<close>, which pool v3 interprets;
  \<open>RunProperties\<close> states the results for pool v3 and evaluates one run.

  Lit.  \<open>LitNotes\<close>, \<open>LitRecords\<close>, \<open>LitPublications\<close>, \<open>LitCommitments\<close> and
  \<open>LitConstruction\<close> are \<open>lit/configuration.ts\<close>, \<open>notes.ts\<close>, \<open>records.ts\<close>, \<open>commitments.ts\<close>,
  \<open>fault-evidence.ts\<close> and \<open>construction.ts\<close>.

  Readings.  \<open>ReceiptState\<close> is \<open>receipt-state.ts\<close>, the walk that ends a receipt in a verdict;
  \<open>NonService\<close> is \<open>non-service.ts\<close>; \<open>Dishonour\<close> is \<open>dishonour.ts\<close>.  They take a canonical state
  and the venue's entries, and change nothing.
\<close>

text \<open>
  How the code is modelled.  A class or object type is a record, a union a datatype, a result that may
  throw a value of \<open>error + 'a\<close> with the error's class and message; a loop that threads state is a
  fold; \<open>bigint\<close> and \<open>number\<close> are \<open>int\<close>, with every bound the code checks (u64 and u32 fields, the
  field's modulus, list and frame limits) written where it is checked, since none of them wraps; a byte array is a list of
  8-bit words; a \<open>Map\<close> is an association list in insertion order where its order is read.
  A prepared statement of SQLite is the filter, order and key conflict it names over a table that is a list
  of rows.  A check that a run-time value has its static type is the type of the model, and a defensive copy
  is the identity.

  Third-party code is an argument.  The record \<open>crypto\<close> of \<open>Crypto\<close> holds SHA-256, Ed25519 and the
  Poseidon2 hash of the proving backend as functions; theorems that need a format name it:
  \<open>sha_width\<close> (a digest has 32 bytes), \<open>ed25519_ok\<close> (key and signature lengths, and a signature
  verifies under its own key), \<open>poseidon_ok\<close> (a hash of field elements is the encoding of one).  That
  a hash does not collide is never assumed of all inputs; a theorem that binds names the inputs
  among which it is injective.  The verifier of statement proofs is an argument of every judgment, and no
  property rests on its answer.  \<open>toy_crypto\<close> is a concrete instance on which the witnesses are evaluated.

  What the lemma groups show.  The frame theorems: bytes decode to a value exactly where they are its frame,
  which values have one, and the length bounds; the name and hash theorems: equal digests give equal values.  The tree
  theorems: an incremental tree is the Merkle tree of its leaves, and the stored frontier and rows refine the
  in-memory tree and set.  The store theorems: in every database reached by opening and appending
  (\<open>reachable_store\<close>, by rule induction) no nullifier is visible twice, a read at an earlier position never changes, the
  spent root is a function of what is visible, and the stored descent returns.  The state
  theorems: the guards decide exactly what the abstract recovery state allows, an applied record is one allowed
  step of it under the check it is judged by, forcing a list of publications agrees with applying it
  in every mode, supply stays within bounds and the chain values of a run are those of its records.  The reading
  theorems measure each verdict against a description that does not mention the reading's own loops.

  Standing assumptions.  \<open>recovery_ok\<close> says that a namespace's demand tables agree at a position (a row and
  its statement name one demand, no two visible demands share a name, an end names a visible demand); applying a
  record outside an adopted block establishes it again.  In an adopted block the segment checks no recovery
  rule, because the block was judged before it was adopted; there the agreement of forcing and applying
  establishes it again for the records an overlay of the same state admits.

  Bounds and termination.  No definition runs on fuel.  The recursions are structural or have a measure: the integer's own size for
  \<open>byte_count\<close>, \<open>binary_length\<close>, \<open>to_hex\<close> and \<open>decimal\<close>; the leaf index for \<open>close_blocks\<close>.  The
  one loop that may not end, \<open>descend\<close> over the stored rows of a spent set, is a partial function into an option;
  \<open>spent_descent_returns\<close> shows that it ends in every reachable database.  The tree depths (32 and 16), the spent
  keys' 256 bits and the list limits are the source's constants.
\<close>

text \<open>
  Not modelled, and why.  The walk over a whole scope (\<open>scope-reader.ts\<close>, \<open>reader.ts\<close>) streams packages and kept
  files around the state machine; its per-record steps and final readings are modelled and take
  its results as arguments.  The packages and trails (\<open>package.ts\<close>, \<open>trail.ts\<close>), the operator's journal (\<open>store.ts\<close>),
  the retained evidence (\<open>evidence-store.ts\<close>) and the kept file around the replay tables are databases and streams
  whose content is in the frames modelled here.  The wallets derive keys and build statements, and no
  verifier trusts them.  The prover, verifier, circuits and succinct reading are the proof system, an
  argument of the model.  The Ergo venue, the local venue and the service endpoints are transports; the readings take the
  attributed records as given.  The commands, the browser host, the scripts and the repository's own tests and models are
  outside the protocol.  Of the modelled files these parts are left out: the incremental frame feed of \<open>bytes.ts\<close>,
  \<open>commitmentIdentity\<close> of \<open>venue-records.ts\<close>, the wallet and fault readers of pool v3's construction and
  the wallet frames of lit's, and the collection, verdict and scope rows of the replay file.
\<close>

end
